(* ===== verification/Ranges.thy ===== *)
theory Ranges
  imports Prelude
begin

section \<open>Address ranges (\<^verbatim>\<open>src/util/range.cpp\<close>)\<close>

text \<open>
  A \<^verbatim>\<open>Range\<close> is a start address and a size; its end wraps around at 2^64, as the C++ addition
  does. \<open>valid_range\<close> says that it does not, and under it the tests on words are the tests on
  the half-open interval of natural numbers \<open>points r\<close>.
\<close>

record Range =
  range_start :: address
  range_size :: "64 word"

definition mkRange :: "address \<Rightarrow> 64 word \<Rightarrow> Range" where
  "mkRange s n = \<lparr>range_start = s, range_size = n\<rparr>"

definition getEnd :: "Range \<Rightarrow> address" where
  "getEnd r = range_start r + range_size r"

definition contains_point :: "Range \<Rightarrow> address \<Rightarrow> bool" where
  "contains_point r point \<longleftrightarrow> point \<ge> range_start r \<and> point < getEnd r"

definition contains_range :: "Range \<Rightarrow> Range \<Rightarrow> bool" where
  "contains_range r other \<longleftrightarrow> range_start other \<ge> range_start r \<and> getEnd other \<le> getEnd r"

definition overlaps_point :: "Range \<Rightarrow> address \<Rightarrow> bool" where
  "overlaps_point r point = contains_point r point"

definition overlaps_range :: "Range \<Rightarrow> Range \<Rightarrow> bool" where
  "overlaps_range r other \<longleftrightarrow>
     \<not> (range_start other \<ge> getEnd r \<or> getEnd other \<le> range_start r)"

definition endsWith :: "Range \<Rightarrow> address \<Rightarrow> bool" where
  "endsWith r point \<longleftrightarrow> getEnd r = point"

definition range_below_point :: "Range \<Rightarrow> address \<Rightarrow> bool" where
  "range_below_point r point \<longleftrightarrow> range_start r + range_size r \<le> point"

definition range_less :: "Range \<Rightarrow> Range \<Rightarrow> bool" where
  "range_less r other \<longleftrightarrow>
     (if range_start r < range_start other then True
      else if range_start r = range_start other then
        (if getEnd r < getEnd other then True else False)
      else False)"

definition range_eq :: "Range \<Rightarrow> Range \<Rightarrow> bool" where
  "range_eq r other \<longleftrightarrow> range_start r = range_start other \<and> range_size r = range_size other"

definition range_neq :: "Range \<Rightarrow> Range \<Rightarrow> bool" where
  "range_neq r other \<longleftrightarrow> range_start r \<noteq> range_start other \<or> range_size r \<noteq> range_size other"

definition fromPoint :: "address \<Rightarrow> Range" where
  "fromPoint point = mkRange point 1"

text \<open>\<open>None\<close> is the failed assertion \<^verbatim>\<open>end >= start\<close>.\<close>

definition fromEndpoints :: "address \<Rightarrow> address \<Rightarrow> Range option" where
  "fromEndpoints s e = (if e \<ge> s then Some (mkRange s (e - s)) else None)"

definition point_below_range :: "address \<Rightarrow> Range \<Rightarrow> bool" where
  "point_below_range point r \<longleftrightarrow> point < range_start r"

subsection \<open>Ranges as sets of addresses\<close>

definition valid_range :: "Range \<Rightarrow> bool" where
  "valid_range r \<longleftrightarrow> unat (range_start r) + unat (range_size r) < 2 ^ 64"

definition points :: "Range \<Rightarrow> nat set" where
  "points r = {unat (range_start r) ..< unat (range_start r) + unat (range_size r)}"

lemma mkRange_sel [simp]:
  "range_start (mkRange s n) = s" "range_size (mkRange s n) = n"
  by (simp_all add: mkRange_def)

lemma mkRange_collapse [simp]: "mkRange (range_start r) (range_size r) = r"
  by (simp add: mkRange_def)

lemma range_eq_iff [range_simps]: "range_eq r other \<longleftrightarrow> r = other"
  by (auto simp: range_eq_def)

lemma range_neq_iff [range_simps]: "range_neq r other \<longleftrightarrow> r \<noteq> other"
  by (auto simp: range_neq_def)

lemma unat_getEnd [simp]:
  "valid_range r \<Longrightarrow> unat (getEnd r) = unat (range_start r) + unat (range_size r)"
  unfolding getEnd_def valid_range_def by (rule unat_add_no_wrap) simp

lemma range_below_point_getEnd [range_simps]: "range_below_point r p \<longleftrightarrow> getEnd r \<le> p"
  by (simp add: range_below_point_def getEnd_def)

lemma range_less_iff [range_simps]:
  "range_less r s \<longleftrightarrow>
     range_start r < range_start s \<or> range_start r = range_start s \<and> getEnd r < getEnd s"
  by (auto simp: range_less_def)

lemma range_eqI: "range_start r = range_start s \<Longrightarrow> getEnd r = getEnd s \<Longrightarrow> r = (s :: Range)"
  by (cases r; cases s) (simp add: getEnd_def)

lemma contains_point_iff:
  "valid_range r \<Longrightarrow> contains_point r p \<longleftrightarrow> unat p \<in> points r"
  by (simp add: contains_point_def points_def word_le_nat_alt word_less_nat_alt)

lemma overlaps_range_iff:
  assumes "valid_range r" "valid_range s" "points r \<noteq> {}" "points s \<noteq> {}"
  shows "overlaps_range r s \<longleftrightarrow> points r \<inter> points s \<noteq> {}"
  using assms
  by (auto simp: overlaps_range_def points_def word_le_nat_alt ivl_disj_un
      atLeastLessThan_empty_iff intro!: exI [of _ "max (unat (range_start r)) (unat (range_start s))"])

lemma contains_range_iff:
  assumes "valid_range r" "valid_range s" "points s \<noteq> {}"
  shows "contains_range r s \<longleftrightarrow> points s \<subseteq> points r"
  using assms by (auto simp: contains_range_def points_def word_le_nat_alt atLeastLessThan_subset_iff)

lemma fromEndpoints_Some:
  "s \<le> e \<Longrightarrow> fromEndpoints s e = Some (mkRange s (e - s))"
  by (simp add: fromEndpoints_def)

lemma fromEndpoints_range:
  assumes "fromEndpoints s e = Some r"
  shows "range_start r = s" "getEnd r = e" "valid_range r" "s \<le> e"
proof -
  from assms have le: "s \<le> e" and r: "r = mkRange s (e - s)"
    by (auto simp: fromEndpoints_def split: if_splits)
  from le show "s \<le> e" .
  from r show "range_start r = s" "getEnd r = e" by (simp_all add: getEnd_def)
  have "unat e < 2 ^ 64" using unsigned_less [of e] by simp
  with le r show "valid_range r"
    by (simp add: valid_range_def unat_sub_no_wrap word_le_nat_alt)
qed

end
