(* ===== verification/Interval.thy ===== *)
theory Interval
  imports Ranges
begin

section \<open>Interval trees (\<^verbatim>\<open>src/util/intervaltree.cpp\<close>)\<close>

text \<open>
  \<^verbatim>\<open>IntervalTreeNode\<close> as a datatype (a null child pointer is \<open>Null\<close>), its operations, the class
  \<^verbatim>\<open>IntervalTree\<close> on top of them, the node invariant, and the contract of the node's operations
  as a locale over which the \<^verbatim>\<open>IntervalTree\<close> operations are proved. A result \<open>None\<close> means that
  the call does not return: an assertion fails, a null pointer is followed or the recursion
  never ends.
\<close>

datatype node =
    Null
  | Node (totalRange: Range) (midpoint: address) (lower: node) (higher: node)
      (overlapStart: "Range list") (overlapEnd: "Range list")

definition newNode :: "Range \<Rightarrow> node" where
  "newNode r = Node r (range_start r + range_size r div 2) Null Null [] []"

text \<open>The comparator of \<^verbatim>\<open>overlapEnd\<close>: by end, then by start, both descending.\<close>

definition end_order :: "Range \<Rightarrow> Range \<Rightarrow> bool" where
  "end_order a b \<longleftrightarrow>
     (if getEnd b < getEnd a then True
      else if getEnd b = getEnd a then
        (if range_start b < range_start a then True else False)
      else False)"

partial_function (option) node_add :: "node \<Rightarrow> Range \<Rightarrow> (bool \<times> node) option" where
  "node_add n r = (case n of
       Null \<Rightarrow> None
     | Node tot mid lo hi os oe \<Rightarrow>
         if \<not> contains_range tot r then Some (False, n)
         else if range_below_point r mid then
           Option.bind
             (if lo = Null then map_option newNode (fromEndpoints (range_start tot) mid)
              else Some lo)
             (\<lambda>lo1. Option.bind (node_add lo1 r)
               (\<lambda>bl. Some (fst bl, Node tot mid (snd bl) hi os oe)))
         else if contains_point r mid then
           Some (True, Node tot mid lo hi
             (std_sort range_less (os @ [r])) (std_sort end_order (oe @ [r])))
         else
           Option.bind
             (if hi = Null then map_option newNode (fromEndpoints mid (getEnd tot))
              else Some hi)
             (\<lambda>hi1. Option.bind (node_add hi1 r)
               (\<lambda>bh. Some (fst bh, Node tot mid lo (snd bh) os oe))))"

fun node_remove :: "node \<Rightarrow> Range \<Rightarrow> (bool \<times> node) option" where
  "node_remove Null r = None"
| "node_remove (Node tot mid lo hi os oe) r =
     (if range_below_point r mid then
        (if lo \<noteq> Null then
           map_option (\<lambda>(b, lo'). (b, Node tot mid lo' hi os oe)) (node_remove lo r)
         else Some (False, Node tot mid lo hi os oe))
      else if point_below_range mid r then
        (if hi \<noteq> Null then
           map_option (\<lambda>(b, hi'). (b, Node tot mid lo hi' os oe)) (node_remove hi r)
         else Some (False, Node tot mid lo hi os oe))
      else
        let removed1 = r \<in> set os; removed2 = r \<in> set oe in
        if removed1 = removed2
        then Some (removed1 \<and> removed2, Node tot mid lo hi (remove1 r os) (remove1 r oe))
        else None)"

fun scan_start :: "address \<Rightarrow> Range list \<Rightarrow> Range list" where
  "scan_start p [] = []"
| "scan_start p (r # rs) = (if contains_point r p then [r] else []) @
     (if point_below_range p r then [] else scan_start p rs)"

fun scan_end :: "address \<Rightarrow> Range list \<Rightarrow> Range list" where
  "scan_end p [] = []"
| "scan_end p (r # rs) = (if contains_point r p then [r] else []) @
     (if range_below_point r p then [] else scan_end p rs)"

fun findOverlapping_point :: "node \<Rightarrow> address \<Rightarrow> Range list" where
  "findOverlapping_point Null p = []"
| "findOverlapping_point (Node tot mid lo hi os oe) p =
     (if p < mid then findOverlapping_point lo p @ scan_start p os else []) @
     (if p \<ge> mid then scan_end p oe @ findOverlapping_point hi p else [])"

fun findOverlapping_range :: "node \<Rightarrow> Range \<Rightarrow> Range list" where
  "findOverlapping_range Null r = []"
| "findOverlapping_range (Node tot mid lo hi os oe) r =
     (let searchHigher = \<not> range_below_point r mid;
          searchLower = \<not> (point_below_range mid r \<or> mid = range_start r)
      in (if searchLower then findOverlapping_range lo r else []) @
         filter (\<lambda>x. overlaps_range x r) os @
         (if searchHigher then findOverlapping_range hi r else []))"

text \<open>The bound is the out-parameter \<^verbatim>\<open>*bound\<close>; \<open>None\<close> is the result false.\<close>

fun orElse :: "'a option \<Rightarrow> 'a option \<Rightarrow> 'a option" where
  "orElse (Some x) _ = Some x"
| "orElse None y = y"

fun findLowerBound :: "node \<Rightarrow> address \<Rightarrow> Range option" where
  "findLowerBound Null p = None"
| "findLowerBound (Node tot mid lo hi os oe) p =
     orElse (if p \<ge> mid then findLowerBound hi p else None)
       (orElse (find (\<lambda>r. range_below_point r p) (rev oe)) (findLowerBound lo p))"

fun findLowerBoundOrOverlapping :: "node \<Rightarrow> address \<Rightarrow> Range option" where
  "findLowerBoundOrOverlapping Null p = None"
| "findLowerBoundOrOverlapping (Node tot mid lo hi os oe) p =
     orElse (if p \<ge> mid then findLowerBoundOrOverlapping hi p else None)
       (orElse (find (\<lambda>r. range_below_point r p \<or> contains_point r p) (rev oe))
         (findLowerBoundOrOverlapping lo p))"

fun findUpperBound :: "node \<Rightarrow> address \<Rightarrow> Range option" where
  "findUpperBound Null p = None"
| "findUpperBound (Node tot mid lo hi os oe) p =
     orElse (if p < mid then findUpperBound lo p else None)
       (orElse (find (\<lambda>r. point_below_range p r) os) (findUpperBound hi p))"

fun findUpperBoundOrOverlapping :: "node \<Rightarrow> address \<Rightarrow> Range option" where
  "findUpperBoundOrOverlapping Null p = None"
| "findUpperBoundOrOverlapping (Node tot mid lo hi os oe) p =
     orElse (if p < mid then findUpperBoundOrOverlapping lo p else None)
       (orElse (find (\<lambda>r. point_below_range p r \<or> contains_point r p) os)
         (findUpperBoundOrOverlapping hi p))"

text \<open>The ranges in the order in which \<^verbatim>\<open>inStartOrderTraversal\<close> passes them to its callback.\<close>

fun inStartOrderTraversal :: "node \<Rightarrow> Range list" where
  "inStartOrderTraversal Null = []"
| "inStartOrderTraversal (Node tot mid lo hi os oe) =
     inStartOrderTraversal lo @ os @ inStartOrderTraversal hi"


subsection \<open>The class \<^verbatim>\<open>IntervalTree\<close>\<close>

text \<open>
  \<^verbatim>\<open>IntervalTree\<close> owns a root node and is written against the node's operations, so its loops
  take \<^verbatim>\<open>add\<close> and \<^verbatim>\<open>remove\<close> as arguments. The calls whose boolean result the code drops keep
  only the tree.
\<close>

definition add_endpoints ::
    "('t \<Rightarrow> Range \<Rightarrow> (bool \<times> 't) option) \<Rightarrow> 't \<Rightarrow> address \<Rightarrow> address \<Rightarrow> 't option" where
  "add_endpoints add t s e =
     Option.bind (fromEndpoints s e) (\<lambda>r. map_option snd (add t r))"

fun subtract_loop ::
    "('t \<Rightarrow> Range \<Rightarrow> (bool \<times> 't) option) \<Rightarrow> ('t \<Rightarrow> Range \<Rightarrow> (bool \<times> 't) option) \<Rightarrow>
     address \<Rightarrow> address \<Rightarrow> Range list \<Rightarrow> 't \<Rightarrow> 't option" where
  "subtract_loop add remove s e [] t = Some t"
| "subtract_loop add remove s e (r # rs) t =
     Option.bind (map_option snd (remove t r)) (\<lambda>t1.
     Option.bind (if range_start r < s then add_endpoints add t1 (range_start r) s else Some t1) (\<lambda>t2.
     Option.bind (if e < getEnd r then add_endpoints add t2 e (getEnd r) else Some t2) (\<lambda>t3.
     subtract_loop add remove s e rs t3)))"

fun complement_loop ::
    "('t \<Rightarrow> Range \<Rightarrow> (bool \<times> 't) option) \<Rightarrow> Range list \<Rightarrow> address \<times> 't \<Rightarrow> (address \<times> 't) option" where
  "complement_loop add [] (lastPoint, t) = Some (lastPoint, t)"
| "complement_loop add (r # rs) (lastPoint, t) =
     (let e = range_start r in
      Option.bind (if e > lastPoint then add_endpoints add t lastPoint e else Some t)
        (\<lambda>t'. complement_loop add rs (max lastPoint (getEnd r), t')))"

fun add_all :: "('t \<Rightarrow> Range \<Rightarrow> (bool \<times> 't) option) \<Rightarrow> Range list \<Rightarrow> 't \<Rightarrow> 't option" where
  "add_all add [] t = Some t"
| "add_all add (r # rs) t = Option.bind (add t r) (\<lambda>bt. add_all add rs (snd bt))"

definition newTree :: "Range \<Rightarrow> node" where
  "newTree r = newNode r"

definition tree_subtract :: "node \<Rightarrow> Range \<Rightarrow> node option" where
  "tree_subtract t r =
     subtract_loop node_add node_remove (range_start r) (getEnd r) (findOverlapping_range t r) t"

definition tree_subtractWithAddendum :: "node \<Rightarrow> Range \<Rightarrow> Range \<Rightarrow> node option" where
  "tree_subtractWithAddendum t r addendum =
     subtract_loop node_add node_remove (range_start r) (getEnd addendum)
       (findOverlapping_range t r) t"

definition tree_splitAt :: "node \<Rightarrow> address \<Rightarrow> (bool \<times> node) option" where
  "tree_splitAt t point =
     (if \<not> contains_point (totalRange t) point then Some (False, t)
      else case findOverlapping_point t point of
          [r] \<Rightarrow>
            if point \<noteq> range_start r \<and> point \<noteq> getEnd r then
              Option.bind (node_remove t r) (\<lambda>bt.
              Option.bind (add_endpoints node_add (snd bt) (range_start r) point) (\<lambda>t2.
              map_option (Pair True) (add_endpoints node_add t2 point (getEnd r))))
            else Some (True, t)
        | _ \<Rightarrow> Some (False, t))"

definition tree_complement :: "node \<Rightarrow> node option" where
  "tree_complement t =
     (let bounds = totalRange t in
      Option.bind
        (complement_loop node_add (inStartOrderTraversal t) (range_start bounds, newTree bounds))
        (\<lambda>(lastPoint, t').
           if lastPoint < getEnd bounds then add_endpoints node_add t' lastPoint (getEnd bounds)
           else Some t'))"

definition tree_unionWith :: "node \<Rightarrow> node \<Rightarrow> node option" where
  "tree_unionWith t other = add_all node_add (inStartOrderTraversal other) t"

definition getAllData :: "node \<Rightarrow> Range list" where
  "getAllData t = inStartOrderTraversal t"

subsection \<open>The node invariant\<close>

definition good_range :: "Range \<Rightarrow> Range \<Rightarrow> bool" where
  "good_range tot r \<longleftrightarrow> valid_range r \<and> range_size r \<noteq> 0 \<and> contains_range tot r"

fun node_inv :: "node \<Rightarrow> bool" where
  "node_inv Null = True"
| "node_inv (Node tot mid lo hi os oe) \<longleftrightarrow>
     valid_range tot \<and> mid = range_start tot + range_size tot div 2 \<and>
     mset oe = mset os \<and>
     sorted_wrt (\<lambda>x y. \<not> range_less y x) os \<and> sorted_wrt (\<lambda>x y. \<not> end_order y x) oe \<and>
     (\<forall>r \<in> set os. good_range tot r \<and> contains_point r mid) \<and>
     (\<forall>r \<in> set (inStartOrderTraversal lo). getEnd r \<le> mid) \<and>
     (\<forall>r \<in> set (inStartOrderTraversal hi). mid < range_start r) \<and>
     (lo \<noteq> Null \<longrightarrow> totalRange lo = mkRange (range_start tot) (mid - range_start tot)) \<and>
     (hi \<noteq> Null \<longrightarrow> totalRange hi = mkRange mid (getEnd tot - mid)) \<and>
     node_inv lo \<and> node_inv hi"

lemma node_inv_newNode [simp]: "valid_range r \<Longrightarrow> node_inv (newNode r)"
  by (simp add: newNode_def)

lemma newNode_simps [simp]:
  "newNode r \<noteq> Null" "totalRange (newNode r) = r" "inStartOrderTraversal (newNode r) = []"
  by (simp_all add: newNode_def)

lemma unat_midpoint:
  assumes "valid_range tot"
  shows "unat (range_start tot + range_size tot div 2) =
    unat (range_start tot) + unat (range_size tot) div 2"
proof -
  have half: "unat (range_size tot div 2) = unat (range_size tot) div 2"
    by (simp add: unat_div)
  have "unat (range_start tot) + unat (range_size tot) div 2 < 2 ^ 64"
    using assms by (simp add: valid_range_def)
  with half show ?thesis by (subst unat_add_no_wrap) simp_all
qed

lemma range_less_asym: "range_less x y \<Longrightarrow> \<not> range_less y x"
  by (auto simp: range_simps)

lemma not_range_less_trans: "\<not> range_less y x \<Longrightarrow> \<not> range_less z y \<Longrightarrow> \<not> range_less z x"
  by (auto simp: range_simps)

lemma end_order_iff [range_simps]:
  "end_order a b \<longleftrightarrow>
     getEnd b < getEnd a \<or> getEnd b = getEnd a \<and> range_start b < range_start a"
  by (auto simp: end_order_def)

lemma end_order_asym: "end_order x y \<Longrightarrow> \<not> end_order y x"
  by (auto simp: range_simps)

lemma not_end_order_trans: "\<not> end_order y x \<Longrightarrow> \<not> end_order z y \<Longrightarrow> \<not> end_order z x"
  by (auto simp: range_simps)

lemmas sorted_by_start = sorted_wrt_std_sort [of range_less, OF not_range_less_trans range_less_asym]
lemmas sorted_by_end = sorted_wrt_std_sort [of end_order, OF not_end_order_trans end_order_asym]

text \<open>The halves of a node: where \<^verbatim>\<open>add\<close> sends a range, and that the half is smaller.\<close>

lemma lower_half:
  assumes "valid_range tot" "good_range tot r"
    and mid: "mid = range_start tot + range_size tot div 2" and "range_below_point r mid"
  defines "h \<equiv> mkRange (range_start tot) (mid - range_start tot)"
  shows "fromEndpoints (range_start tot) mid = Some h" "valid_range h" "good_range h r"
    "unat (range_size h) < unat (range_size tot)" "getEnd h = mid"
proof -
  have m: "unat mid = unat (range_start tot) + unat (range_size tot) div 2"
    unfolding mid by (rule unat_midpoint [OF assms(1)])
  then have le: "range_start tot \<le> mid" by (simp add: word_le_nat_alt)
  then show f: "fromEndpoints (range_start tot) mid = Some h"
    by (simp add: fromEndpoints_def h_def)
  from fromEndpoints_range [OF f] show v: "valid_range h" and e: "getEnd h = mid" by simp_all
  from assms(2,4) e show "good_range h r"
    by (auto simp: good_range_def contains_range_def range_simps h_def)
  have "unat (range_size r) \<noteq> 0" using assms(2) by (simp add: good_range_def unat_eq_0)
  then have "unat (range_size tot) \<noteq> 0"
    using assms(1,2) by (auto simp: good_range_def contains_range_def word_le_nat_alt)
  with m le show "unat (range_size h) < unat (range_size tot)"
    by (simp add: h_def unat_sub_no_wrap)
qed

lemma higher_half:
  assumes "valid_range tot" "good_range tot r"
    and mid: "mid = range_start tot + range_size tot div 2"
    and "\<not> range_below_point r mid" "\<not> contains_point r mid"
  defines "h \<equiv> mkRange mid (getEnd tot - mid)"
  shows "fromEndpoints mid (getEnd tot) = Some h" "valid_range h" "good_range h r"
    "unat (range_size h) < unat (range_size tot)" "mid < range_start r"
proof -
  have m: "unat mid = unat (range_start tot) + unat (range_size tot) div 2"
    unfolding mid by (rule unat_midpoint [OF assms(1)])
  then have le: "mid \<le> getEnd tot" using assms(1) by (simp add: word_le_nat_alt)
  then show f: "fromEndpoints mid (getEnd tot) = Some h"
    by (simp add: fromEndpoints_def h_def)
  from fromEndpoints_range [OF f] show v: "valid_range h" by simp
  from fromEndpoints_range [OF f] have e: "getEnd h = getEnd tot" by simp
  from assms(4,5) show s: "mid < range_start r"
    by (auto simp: contains_point_def range_simps)
  from assms(2) e s show "good_range h r"
    by (auto simp: good_range_def contains_range_def h_def)
  have r: "unat (range_start r) + unat (range_size r) \<le> unat (range_start tot) + unat (range_size tot)"
    using assms(1,2) by (auto simp: good_range_def contains_range_def word_le_nat_alt)
  have "unat (range_size r) \<noteq> 0" using assms(2) by (simp add: good_range_def unat_eq_0)
  with r m s le show "unat (range_size h) < unat (range_size tot)"
    using assms(1) by (simp add: h_def unat_sub_no_wrap word_less_nat_alt)
qed


subsection \<open>\<^verbatim>\<open>add\<close> and \<^verbatim>\<open>remove\<close>\<close>

lemma node_add_outside:
  "n \<noteq> Null \<Longrightarrow> \<not> contains_range (totalRange n) r \<Longrightarrow> node_add n r = Some (False, n)"
  by (cases n) (simp_all add: node_add.simps)

lemma node_add_inside:
  assumes "node_inv n" "n \<noteq> Null" "good_range (totalRange n) r"
  shows "\<exists>n'. node_add n r = Some (True, n') \<and> node_inv n' \<and> n' \<noteq> Null \<and>
    totalRange n' = totalRange n \<and>
    mset (inStartOrderTraversal n') = add_mset r (mset (inStartOrderTraversal n))"
  using assms
proof (induction "unat (range_size (totalRange n))" arbitrary: n rule: less_induct)
  case less
  from less.prems(2) obtain tot mid lo hi os oe where n: "n = Node tot mid lo hi os oe"
    by (cases n) auto
  note inv = less.prems(1) [unfolded n, simplified]
  have tot: "valid_range tot" "good_range tot r"
    and mid: "mid = range_start tot + range_size tot div 2"
    using less.prems n by simp_all
  have sub: "contains_range tot r" using tot by (simp add: good_range_def)
  show ?case
  proof (cases "range_below_point r mid")
    case True
    note h = lower_half [OF tot mid True]
    let ?lo = "if lo = Null then newNode (mkRange (range_start tot) (mid - range_start tot)) else lo"
    have lo: "node_inv ?lo" "?lo \<noteq> Null"
      "totalRange ?lo = mkRange (range_start tot) (mid - range_start tot)"
      "mset (inStartOrderTraversal ?lo) = mset (inStartOrderTraversal lo)"
      using inv h(2) by auto
    from less.hyps [of ?lo] lo h n obtain lo' where
      lo': "node_add ?lo r = Some (True, lo')" "node_inv lo'" "lo' \<noteq> Null"
        "totalRange lo' = totalRange ?lo"
        "mset (inStartOrderTraversal lo') = add_mset r (mset (inStartOrderTraversal ?lo))"
      by auto
    have set_lo': "set (inStartOrderTraversal lo') = insert r (set (inStartOrderTraversal lo))"
      using lo'(5) lo(4) by (metis set_mset_add_mset_insert set_mset_mset)
    have "node_add n r = Some (True, Node tot mid lo' hi os oe)"
      using n sub True h(1) lo'(1) by (subst node_add.simps) (auto split: if_splits)
    moreover have "node_inv (Node tot mid lo' hi os oe)"
      using inv lo' lo(3) set_lo' True by (auto simp: range_simps)
    ultimately show ?thesis
      using n lo'(5) lo(4) by (auto simp del: node_inv.simps)
  next
    case nb: False
    show ?thesis
    proof (cases "contains_point r mid")
      case True
      have "node_add n r = Some (True, Node tot mid lo hi
          (std_sort range_less (os @ [r])) (std_sort end_order (oe @ [r])))"
        using n sub nb True by (subst node_add.simps) simp
      moreover have "node_inv (Node tot mid lo hi
          (std_sort range_less (os @ [r])) (std_sort end_order (oe @ [r])))"
        using inv tot True by (auto simp: sorted_by_start sorted_by_end)
      ultimately show ?thesis using n by (auto simp del: node_inv.simps)
    next
      case False
      note h = higher_half [OF tot mid nb False]
      let ?hi = "if hi = Null then newNode (mkRange mid (getEnd tot - mid)) else hi"
      have hi: "node_inv ?hi" "?hi \<noteq> Null" "totalRange ?hi = mkRange mid (getEnd tot - mid)"
        "mset (inStartOrderTraversal ?hi) = mset (inStartOrderTraversal hi)"
        using inv h(2) by auto
      from less.hyps [of ?hi] hi h n obtain hi' where
        hi': "node_add ?hi r = Some (True, hi')" "node_inv hi'" "hi' \<noteq> Null"
          "totalRange hi' = totalRange ?hi"
          "mset (inStartOrderTraversal hi') = add_mset r (mset (inStartOrderTraversal ?hi))"
        by auto
      have set_hi': "set (inStartOrderTraversal hi') = insert r (set (inStartOrderTraversal hi))"
        using hi'(5) hi(4) by (metis set_mset_add_mset_insert set_mset_mset)
      have "node_add n r = Some (True, Node tot mid lo hi' os oe)"
        using n sub nb False h(1) hi'(1) by (subst node_add.simps) (auto split: if_splits)
      moreover have "node_inv (Node tot mid lo hi' os oe)"
        using inv hi' hi(3) set_hi' h(5) by auto
      ultimately show ?thesis
        using n hi'(5) hi(4) by (auto simp del: node_inv.simps)
    qed
  qed
qed

lemma node_remove_correct:
  assumes "node_inv n" "n \<noteq> Null" "valid_range r" "range_size r \<noteq> 0"
  shows "\<exists>n'. node_remove n r = Some (r \<in> set (inStartOrderTraversal n), n') \<and>
    node_inv n' \<and> n' \<noteq> Null \<and> totalRange n' = totalRange n \<and>
    mset (inStartOrderTraversal n') = mset (inStartOrderTraversal n) - {#r#}"
  using assms
proof (induction n r rule: node_remove.induct)
  case (1 r)
  then show ?case by simp
next
  case (2 tot mid lo hi os oe r)
  note inv = "2.prems"(1) [simplified]
  have nonempty: "range_start r < getEnd r"
    using "2.prems"(3,4) by (simp add: word_less_nat_alt unat_gt_0)
  show ?case
  proof (cases "range_below_point r mid")
    case True
    then have notin: "r \<notin> set os" "r \<notin> set (inStartOrderTraversal hi)"
      using inv nonempty by (auto simp: range_simps contains_point_def)
    show ?thesis
    proof (cases "lo = Null")
      case True
      with \<open>range_below_point r mid\<close> notin "2.prems"(1) show ?thesis by (auto simp: diff_single_trivial)
    next
      case False
      with "2.IH"(1) True inv "2.prems" obtain lo' where
        lo': "node_remove lo r = Some (r \<in> set (inStartOrderTraversal lo), lo')" "node_inv lo'"
          "lo' \<noteq> Null" "totalRange lo' = totalRange lo"
          "mset (inStartOrderTraversal lo') = mset (inStartOrderTraversal lo) - {#r#}"
        by auto
      have "set (inStartOrderTraversal lo') \<subseteq> set (inStartOrderTraversal lo)"
        using lo'(5) by (metis in_diffD set_mset_mset subsetI)
      with True False notin inv lo' show ?thesis
        by (auto simp: diff_single_plus)
    qed
  next
    case nb: False
    show ?thesis
    proof (cases "point_below_range mid r")
      case True
      then have notin: "r \<notin> set os" "r \<notin> set (inStartOrderTraversal lo)"
        using inv nb nonempty by (auto simp: range_simps contains_point_def point_below_range_def)
      show ?thesis
      proof (cases "hi = Null")
        case True
        with \<open>point_below_range mid r\<close> nb notin "2.prems"(1) show ?thesis
          by (auto simp: diff_single_trivial)
      next
        case False
        with "2.IH"(2) True nb inv "2.prems" obtain hi' where
          hi': "node_remove hi r = Some (r \<in> set (inStartOrderTraversal hi), hi')" "node_inv hi'"
            "hi' \<noteq> Null" "totalRange hi' = totalRange hi"
            "mset (inStartOrderTraversal hi') = mset (inStartOrderTraversal hi) - {#r#}"
          by auto
        have "set (inStartOrderTraversal hi') \<subseteq> set (inStartOrderTraversal hi)"
          using hi'(5) by (metis in_diffD set_mset_mset subsetI)
        with True False nb notin inv hi' show ?thesis
          by (auto simp: diff_single_plus)
      qed
    next
      case False
      then have notin: "r \<notin> set (inStartOrderTraversal lo)" "r \<notin> set (inStartOrderTraversal hi)"
        using inv nb by (auto simp: range_simps point_below_range_def)
      have same: "r \<in> set oe \<longleftrightarrow> r \<in> set os"
        using inv by (metis set_mset_mset)
      have "mset (remove1 r oe) = mset (remove1 r os)" using inv by simp
      moreover have "set (remove1 r os) \<subseteq> set os" by (rule set_remove1_subset)
      moreover have "sorted_wrt (\<lambda>x y. \<not> range_less y x) (remove1 r os)"
        "sorted_wrt (\<lambda>x y. \<not> end_order y x) (remove1 r oe)"
        using inv by (simp_all add: sorted_wrt_remove1)
      ultimately show ?thesis
        using False nb notin same inv
        by (auto simp: Let_def diff_single_plus)
    qed
  qed
qed


subsection \<open>Queries\<close>

lemma scan_start_filter:
  "sorted_wrt (\<lambda>x y. \<not> range_less y x) rs \<Longrightarrow>
    scan_start p rs = filter (\<lambda>r. contains_point r p) rs"
  by (induction rs)
    (auto simp: range_simps point_below_range_def contains_point_def Nil_eq_filter not_less)

lemma scan_end_filter:
  "sorted_wrt (\<lambda>x y. \<not> end_order y x) rs \<Longrightarrow>
    scan_end p rs = filter (\<lambda>r. contains_point r p) rs"
  by (induction rs) (auto simp: range_simps contains_point_def Nil_eq_filter not_less)

lemma mset_filter_eq: "mset xs = mset ys \<Longrightarrow> mset (filter P xs) = mset (filter P ys)"
  by simp

lemma findOverlapping_point_mset:
  "node_inv n \<Longrightarrow> mset (findOverlapping_point n p) =
    mset (filter (\<lambda>r. contains_point r p) (inStartOrderTraversal n))"
proof (induction n p rule: findOverlapping_point.induct)
  case (1 p)
  then show ?case by simp
next
  case (2 tot mid lo hi os oe p)
  note inv = "2.prems" [simplified]
  show ?case
  proof (cases "p < mid")
    case True
    then have "filter (\<lambda>r. contains_point r p) (inStartOrderTraversal hi) = []"
      using inv by (auto simp: filter_empty_conv contains_point_def)
    with True "2.IH" inv show ?thesis by (auto simp: scan_start_filter)
  next
    case False
    then have "filter (\<lambda>r. contains_point r p) (inStartOrderTraversal lo) = []"
      using inv by (force simp: filter_empty_conv contains_point_def)
    with False "2.IH" inv mset_filter_eq [of oe os] show ?thesis by (auto simp: scan_end_filter)
  qed
qed

lemma findOverlapping_range_filter:
  assumes "node_inv n" "valid_range q"
  shows "findOverlapping_range n q = filter (\<lambda>r. overlaps_range r q) (inStartOrderTraversal n)"
  using assms
proof (induction n q rule: findOverlapping_range.induct)
  case (1 q)
  then show ?case by simp
next
  case (2 tot mid lo hi os oe q)
  note inv = "2.prems"(1) [simplified]
  have q: "range_start q \<le> getEnd q" using "2.prems"(2) by (simp add: word_le_nat_alt)
  have lo: "point_below_range mid q \<or> mid = range_start q \<Longrightarrow>
      filter (\<lambda>r. overlaps_range r q) (inStartOrderTraversal lo) = []"
    using inv q by (force simp: filter_empty_conv overlaps_range_def point_below_range_def)
  have hi: "range_below_point q mid \<Longrightarrow>
      filter (\<lambda>r. overlaps_range r q) (inStartOrderTraversal hi) = []"
    using inv q by (force simp: filter_empty_conv overlaps_range_def range_simps)
  from "2.IH" inv "2.prems"(2) lo hi show ?case by (auto simp: Let_def)
qed

text \<open>
  The four bound searches are two searches, downwards and upwards, for a predicate on ranges.
\<close>

fun search_down :: "(Range \<Rightarrow> bool) \<Rightarrow> node \<Rightarrow> address \<Rightarrow> Range option" where
  "search_down Q Null p = None"
| "search_down Q (Node tot mid lo hi os oe) p =
     orElse (if p \<ge> mid then search_down Q hi p else None)
       (orElse (find Q (rev oe)) (search_down Q lo p))"

fun search_up :: "(Range \<Rightarrow> bool) \<Rightarrow> node \<Rightarrow> address \<Rightarrow> Range option" where
  "search_up Q Null p = None"
| "search_up Q (Node tot mid lo hi os oe) p =
     orElse (if p < mid then search_up Q lo p else None)
       (orElse (find Q os) (search_up Q hi p))"

lemma search_down_eqs:
  "findLowerBound n p = search_down (\<lambda>r. range_below_point r p) n p"
  "findLowerBoundOrOverlapping n p =
     search_down (\<lambda>r. range_below_point r p \<or> contains_point r p) n p"
  by (induction n) simp_all

lemma search_up_eqs:
  "findUpperBound n p = search_up (\<lambda>r. point_below_range p r) n p"
  "findUpperBoundOrOverlapping n p =
     search_up (\<lambda>r. point_below_range p r \<or> contains_point r p) n p"
  by (induction n) simp_all

lemma orElse_cases: "orElse x y = (case x of None \<Rightarrow> y | Some a \<Rightarrow> Some a)"
  by (cases x) simp_all

definition disjoint_ranges :: "Range list \<Rightarrow> bool" where
  "disjoint_ranges rs \<longleftrightarrow> (\<forall>r \<in> set rs. \<forall>s \<in> set rs. r \<noteq> s \<longrightarrow> \<not> overlaps_range r s)"

lemma disjoint_rangesD:
  "disjoint_ranges rs \<Longrightarrow> r \<in> set rs \<Longrightarrow> s \<in> set rs \<Longrightarrow> r \<noteq> s \<Longrightarrow>
    getEnd r \<le> range_start s \<or> getEnd s \<le> range_start r"
  by (auto simp: disjoint_ranges_def overlaps_range_def)

lemma data_good:
  "node_inv n \<Longrightarrow> r \<in> set (inStartOrderTraversal n) \<Longrightarrow> good_range (totalRange n) r"
proof (induction n)
  case Null
  then show ?case by simp
next
  case (Node tot mid lo hi os oe)
  note inv = Node.prems(1) [simplified]
  have m: "unat mid = unat (range_start tot) + unat (range_size tot) div 2"
    using inv by (simp add: unat_midpoint)
  then have le: "range_start tot \<le> mid" "mid \<le> getEnd tot"
    using inv by (auto simp: word_le_nat_alt)
  consider "r \<in> set (inStartOrderTraversal lo)" | "r \<in> set os" | "r \<in> set (inStartOrderTraversal hi)"
    using Node.prems(2) by auto
  then show ?case
  proof cases
    case 1
    then have "lo \<noteq> Null" by auto
    with 1 Node.IH(1) inv have "good_range (mkRange (range_start tot) (mid - range_start tot)) r" by auto
    with le show ?thesis by (auto simp: good_range_def contains_range_def getEnd_def [of "mkRange _ _"])
  next
    case 2
    with inv show ?thesis by simp
  next
    case 3
    then have "hi \<noteq> Null" by auto
    with 3 Node.IH(2) inv have "good_range (mkRange mid (getEnd tot - mid)) r" by auto
    with le show ?thesis by (auto simp: good_range_def contains_range_def getEnd_def [of "mkRange _ _"])
  qed
qed

lemma good_range_nonempty: "good_range tot r \<Longrightarrow> range_start r < getEnd r"
  by (auto simp: good_range_def word_less_nat_alt unat_gt_0)

lemma node_separated:
  assumes "node_inv (Node tot mid lo hi os oe)"
    and "disjoint_ranges (inStartOrderTraversal (Node tot mid lo hi os oe))"
  shows "a \<in> set (inStartOrderTraversal lo) \<Longrightarrow> b \<in> set os \<Longrightarrow> getEnd a \<le> range_start b"
    and "a \<in> set os \<Longrightarrow> b \<in> set os \<Longrightarrow> a = b"
    and "b \<in> set os \<Longrightarrow> c \<in> set (inStartOrderTraversal hi) \<Longrightarrow> getEnd b \<le> range_start c"
    and "a \<in> set (inStartOrderTraversal lo) \<Longrightarrow> c \<in> set (inStartOrderTraversal hi) \<Longrightarrow>
      getEnd a \<le> range_start c"
proof -
  let ?n = "Node tot mid lo hi os oe"
  note inv = assms(1) [simplified]
  note apart = disjoint_rangesD [OF assms(2)]
  have ne: "range_start x < getEnd x" if "x \<in> set (inStartOrderTraversal ?n)" for x
    using data_good [OF assms(1) that] by (rule good_range_nonempty)
  have os: "range_start x \<le> mid" "mid < getEnd x" if "x \<in> set os" for x
    using inv that by (auto simp: contains_point_def)
  show "getEnd a \<le> range_start b" if "a \<in> set (inStartOrderTraversal lo)" "b \<in> set os"
    using apart [of a b] ne [of a] os [of b] inv that by fastforce
  show "a = b" if "a \<in> set os" "b \<in> set os"
    using apart [of a b] os [of a] os [of b] that by fastforce
  show "getEnd b \<le> range_start c" if "b \<in> set os" "c \<in> set (inStartOrderTraversal hi)"
    using apart [of b c] ne [of c] os [of b] inv that by fastforce
  show "getEnd a \<le> range_start c"
    if "a \<in> set (inStartOrderTraversal lo)" "c \<in> set (inStartOrderTraversal hi)"
    using inv that by fastforce
qed


lemma disjoint_ranges_subset: "disjoint_ranges rs \<Longrightarrow> set qs \<subseteq> set rs \<Longrightarrow> disjoint_ranges qs"
  by (auto simp: disjoint_ranges_def)

definition greatest_below :: "(Range \<Rightarrow> bool) \<Rightarrow> Range list \<Rightarrow> Range option \<Rightarrow> bool" where
  "greatest_below Q rs b = (case b of
       None \<Rightarrow> \<forall>s \<in> set rs. \<not> Q s
     | Some r \<Rightarrow> r \<in> set rs \<and> Q r \<and> (\<forall>s \<in> set rs. Q s \<longrightarrow> getEnd s \<le> getEnd r))"

definition least_above :: "(Range \<Rightarrow> bool) \<Rightarrow> Range list \<Rightarrow> Range option \<Rightarrow> bool" where
  "least_above Q rs b = (case b of
       None \<Rightarrow> \<forall>s \<in> set rs. \<not> Q s
     | Some r \<Rightarrow> r \<in> set rs \<and> Q r \<and> (\<forall>s \<in> set rs. Q s \<longrightarrow> range_start r \<le> range_start s))"

lemma least_above_append:
  assumes "least_above Q xs a" "least_above Q ys b"
    and "\<And>x y. x \<in> set xs \<Longrightarrow> y \<in> set ys \<Longrightarrow> range_start x \<le> range_start y"
  shows "least_above Q (xs @ ys) (orElse a b)"
  using assms by (cases a; cases b) (auto simp: least_above_def)

lemma greatest_below_append:
  assumes "greatest_below Q ys b" "greatest_below Q xs a"
    and "\<And>x y. x \<in> set xs \<Longrightarrow> y \<in> set ys \<Longrightarrow> getEnd x \<le> getEnd y"
  shows "greatest_below Q (xs @ ys) (orElse b a)"
  using assms by (cases a; cases b) (auto simp: greatest_below_def)

lemma find_singleton:
  assumes "\<And>a b. a \<in> set xs \<Longrightarrow> b \<in> set xs \<Longrightarrow> a = b"
  shows "greatest_below Q xs (find Q xs)" "least_above Q xs (find Q xs)"
proof -
  have "r \<in> set xs \<and> Q r \<and> (\<forall>s \<in> set xs. s = r)" if "find Q xs = Some r" for r
    using find_SomeD [OF that] assms by blast
  then show "greatest_below Q xs (find Q xs)" "least_above Q xs (find Q xs)"
    by (auto simp: greatest_below_def least_above_def find_None_iff split: option.split)
qed

lemma bounds_set_cong:
  "set xs = set ys \<Longrightarrow> greatest_below Q xs = greatest_below Q ys"
  by (simp add: greatest_below_def fun_eq_iff cong: option.case_cong)

text \<open>Along the traversal of a tree of disjoint ranges, both ends grow.\<close>

lemma node_ordered:
  assumes "node_inv (Node tot mid lo hi os oe)"
    and "disjoint_ranges (inStartOrderTraversal (Node tot mid lo hi os oe))"
  shows "a \<in> set (inStartOrderTraversal lo) \<Longrightarrow> b \<in> set (os @ inStartOrderTraversal hi) \<Longrightarrow>
      range_start a \<le> range_start b \<and> getEnd a \<le> getEnd b"
    and "b \<in> set os \<Longrightarrow> c \<in> set (inStartOrderTraversal hi) \<Longrightarrow>
      range_start b \<le> range_start c \<and> getEnd b \<le> getEnd c"
proof -
  have ne: "range_start x < getEnd x"
    if "x \<in> set (inStartOrderTraversal (Node tot mid lo hi os oe))" for x
    using data_good [OF assms(1) that] by (rule good_range_nonempty)
  have up: "range_start x \<le> range_start y \<and> getEnd x \<le> getEnd y"
    if "getEnd x \<le> range_start y" "range_start x < getEnd x" "range_start y < getEnd y" for x y
    using that by (intro conjI) order+
  show "range_start a \<le> range_start b \<and> getEnd a \<le> getEnd b"
    if "a \<in> set (inStartOrderTraversal lo)" "b \<in> set (os @ inStartOrderTraversal hi)"
    using node_separated(1,4) [OF assms] that ne [of a] ne [of b] by (intro up) auto
  show "range_start b \<le> range_start c \<and> getEnd b \<le> getEnd c"
    if "b \<in> set os" "c \<in> set (inStartOrderTraversal hi)"
    using node_separated(3) [OF assms] that ne [of b] ne [of c] by (intro up) auto
qed

lemma search_down_greatest:
  assumes "node_inv n" "disjoint_ranges (inStartOrderTraversal n)"
    and Q: "\<And>r. range_start r < getEnd r \<Longrightarrow> Q r \<Longrightarrow> range_start r \<le> p"
  shows "greatest_below Q (inStartOrderTraversal n) (search_down Q n p)"
  using assms(1,2)
proof (induction n)
  case Null
  then show ?case by (simp add: greatest_below_def)
next
  case (Node tot mid lo hi os oe)
  note inv = Node.prems(1) [simplified]
  note ord = node_ordered [OF Node.prems]
  have lo: "greatest_below Q (inStartOrderTraversal lo) (search_down Q lo p)"
    and hi: "greatest_below Q (inStartOrderTraversal hi) (search_down Q hi p)"
    using Node.IH inv disjoint_ranges_subset [OF Node.prems(2)] by auto
  have "range_start s > p" if "\<not> mid \<le> p" "s \<in> set (inStartOrderTraversal hi)" for s
    using inv that by fastforce
  moreover have "range_start s < getEnd s" if "s \<in> set (inStartOrderTraversal hi)" for s
    using data_good [OF Node.prems(1), of s] that by (auto dest: good_range_nonempty)
  ultimately have "\<not> Q s" if "\<not> mid \<le> p" "s \<in> set (inStartOrderTraversal hi)" for s
    using Q that by (meson not_le)
  with hi have hi': "greatest_below Q (inStartOrderTraversal hi)
      (if mid \<le> p then search_down Q hi p else None)"
    by (simp add: greatest_below_def)
  have set_oe: "set (rev oe) = set os" using inv by (metis set_mset_mset set_rev)
  then have os: "greatest_below Q os (find Q (rev oe))"
    using find_singleton(1) [of "rev oe" Q] node_separated(2) [OF Node.prems]
      bounds_set_cong [OF set_oe] by simp
  have "greatest_below Q (inStartOrderTraversal lo @ os) (orElse (find Q (rev oe)) (search_down Q lo p))"
    using os lo by (rule greatest_below_append) (use ord(1) in auto)
  with hi' have "greatest_below Q ((inStartOrderTraversal lo @ os) @ inStartOrderTraversal hi)
      (orElse (if mid \<le> p then search_down Q hi p else None)
        (orElse (find Q (rev oe)) (search_down Q lo p)))"
    by (rule greatest_below_append) (use ord in auto)
  then show ?case by simp
qed

lemma search_up_least:
  assumes "node_inv n" "disjoint_ranges (inStartOrderTraversal n)"
    and Q: "\<And>r. range_start r < getEnd r \<Longrightarrow> Q r \<Longrightarrow> p < getEnd r"
  shows "least_above Q (inStartOrderTraversal n) (search_up Q n p)"
  using assms(1,2)
proof (induction n)
  case Null
  then show ?case by (simp add: least_above_def)
next
  case (Node tot mid lo hi os oe)
  note inv = Node.prems(1) [simplified]
  note ord = node_ordered [OF Node.prems]
  have lo: "least_above Q (inStartOrderTraversal lo) (search_up Q lo p)"
    and hi: "least_above Q (inStartOrderTraversal hi) (search_up Q hi p)"
    using Node.IH inv disjoint_ranges_subset [OF Node.prems(2)] by auto
  have "getEnd s \<le> p" if "\<not> p < mid" "s \<in> set (inStartOrderTraversal lo)" for s
    using inv that by fastforce
  moreover have "range_start s < getEnd s" if "s \<in> set (inStartOrderTraversal lo)" for s
    using data_good [OF Node.prems(1), of s] that by (auto dest: good_range_nonempty)
  ultimately have "\<not> Q s" if "\<not> p < mid" "s \<in> set (inStartOrderTraversal lo)" for s
    using Q that by (meson not_le)
  with lo have lo': "least_above Q (inStartOrderTraversal lo)
      (if p < mid then search_up Q lo p else None)"
    by (simp add: least_above_def)
  have os: "least_above Q os (find Q os)"
    using find_singleton(2) [of os Q] node_separated(2) [OF Node.prems] by simp
  have "least_above Q (os @ inStartOrderTraversal hi) (orElse (find Q os) (search_up Q hi p))"
    using os hi by (rule least_above_append) (use ord(2) in auto)
  with lo' have "least_above Q (inStartOrderTraversal lo @ os @ inStartOrderTraversal hi)
      (orElse (if p < mid then search_up Q lo p else None) (orElse (find Q os) (search_up Q hi p)))"
    by (rule least_above_append) (use ord(1) in auto)
  then show ?case by simp
qed

subsection \<open>\<^verbatim>\<open>add\<close> on an empty range\<close>

lemma node_halves:
  assumes "valid_range tot" and mid: "mid = range_start tot + range_size tot div 2"
  shows "range_start tot \<le> mid" "mid \<le> getEnd tot"
proof -
  have m: "unat mid = unat (range_start tot) + unat (range_size tot) div 2"
    unfolding mid by (rule unat_midpoint [OF assms(1)])
  then show "range_start tot \<le> mid" "mid \<le> getEnd tot"
    using assms(1) by (simp_all add: word_le_nat_alt)
qed

lemma node_add_empty:
  assumes "node_inv n" "n \<noteq> Null" "range_size r = 0" "contains_range (totalRange n) r"
  shows "node_add n r = None"
proof (rule ccontr)
  assume "node_add n r \<noteq> None"
  then obtain y where y: "node_add n r = Some y" by auto
  have "\<not> (node_inv n \<and> n \<noteq> Null \<and> range_size r = 0 \<and> contains_range (totalRange n) r)"
  proof (rule node_add.raw_induct
      [where P = "\<lambda>n r y. \<not> (node_inv n \<and> n \<noteq> Null \<and> range_size r = 0 \<and> contains_range (totalRange n) r)",
        OF _ y], rule notI, elim conjE)
    fix f :: "node \<Rightarrow> Range \<Rightarrow> (bool \<times> node) option" and n r y
    assume IH: "\<And>n r y. f n r = Some y \<Longrightarrow>
        \<not> (node_inv n \<and> n \<noteq> Null \<and> range_size r = 0 \<and> contains_range (totalRange n) r)"
      and eq: "(case n of Null \<Rightarrow> None
     | Node tot mid lo hi os oe \<Rightarrow>
         if \<not> contains_range tot r then Some (False, n)
         else if range_below_point r mid then
           Option.bind
             (if lo = Null then map_option newNode (fromEndpoints (range_start tot) mid)
              else Some lo)
             (\<lambda>lo1. Option.bind (f lo1 r)
               (\<lambda>bl. Some (fst bl, Node tot mid (snd bl) hi os oe)))
         else if contains_point r mid then
           Some (True, Node tot mid lo hi
             (std_sort range_less (os @ [r])) (std_sort end_order (oe @ [r])))
         else
           Option.bind
             (if hi = Null then map_option newNode (fromEndpoints mid (getEnd tot))
              else Some hi)
             (\<lambda>hi1. Option.bind (f hi1 r)
               (\<lambda>bh. Some (fst bh, Node tot mid lo (snd bh) os oe)))) = Some y"
      and a: "node_inv n" "n \<noteq> Null" "range_size r = 0" "contains_range (totalRange n) r"
    from a(2) obtain tot mid lo hi os oe where n: "n = Node tot mid lo hi os oe"
      by (cases n) auto
    note inv = a(1) [unfolded n, simplified]
    have e: "getEnd r = range_start r" using a(3) by (simp add: getEnd_def)
    have le: "range_start tot \<le> mid" "mid \<le> getEnd tot"
      using node_halves [of tot mid] inv by blast+
    show False
    proof (cases "range_below_point r mid")
      case True
      let ?lo = "if lo = Null then newNode (mkRange (range_start tot) (mid - range_start tot)) else lo"
      have f: "fromEndpoints (range_start tot) mid = Some (mkRange (range_start tot) (mid - range_start tot))"
        using le by (simp add: fromEndpoints_Some)
      have "node_inv ?lo \<and> ?lo \<noteq> Null \<and> range_size r = 0 \<and> contains_range (totalRange ?lo) r"
        using inv a n True fromEndpoints_range [OF f]
        by (auto simp: contains_range_def range_simps getEnd_def [of "mkRange _ _"])
      moreover obtain z where "f ?lo r = Some z"
        using eq n a(4) True f by (auto split: if_splits bind_splits)
      ultimately show False using IH by blast
    next
      case False
      let ?hi = "if hi = Null then newNode (mkRange mid (getEnd tot - mid)) else hi"
      have f: "fromEndpoints mid (getEnd tot) = Some (mkRange mid (getEnd tot - mid))"
        using le by (simp add: fromEndpoints_Some)
      have "node_inv ?hi \<and> ?hi \<noteq> Null \<and> range_size r = 0 \<and> contains_range (totalRange ?hi) r"
        using inv a n False e fromEndpoints_range [OF f]
        by (auto simp: contains_range_def range_simps getEnd_def [of "mkRange _ _"])
      moreover have "\<not> contains_point r mid" using e by (auto simp: contains_point_def)
      then obtain z where "f ?hi r = Some z"
        using eq n a(4) False f by (auto split: if_splits bind_splits)
      ultimately show False using IH by blast
    qed
  qed
  with assms show False by blast
qed


subsection \<open>The contract of the node operations\<close>

text \<open>
  What \<^verbatim>\<open>IntervalTree\<close> relies on: a store whose content is a list of ranges within its total
  range, where \<open>add\<close> and \<open>remove\<close> change the content by one range. The lemmas of the locale are
  about the loops of \<^verbatim>\<open>subtract\<close>, \<^verbatim>\<open>complement\<close> and \<^verbatim>\<open>unionWith\<close>.
\<close>

definition covered :: "Range list \<Rightarrow> nat set" where
  "covered rs = (\<Union>r \<in> set rs. points r)"

lemma covered_simps [simp]:
  "covered [] = {}" "covered (r # rs) = points r \<union> covered rs"
  "covered (rs @ qs) = covered rs \<union> covered qs"
  by (auto simp: covered_def)

lemma covered_mset: "mset rs = mset qs \<Longrightarrow> covered rs = covered qs"
  unfolding covered_def by (metis set_mset_mset)

lemma points_endpoints: "s \<le> e \<Longrightarrow> points (mkRange s (e - s)) = {unat s ..< unat e}"
  by (auto simp: points_def unat_sub_no_wrap word_le_nat_alt)

lemma points_getEnd: "valid_range r \<Longrightarrow> points r = {unat (range_start r) ..< unat (getEnd r)}"
  by (simp add: points_def)

definition pieces :: "address \<Rightarrow> address \<Rightarrow> Range \<Rightarrow> Range list" where
  "pieces s e r =
     (if range_start r < s then [mkRange (range_start r) (s - range_start r)] else []) @
     (if e < getEnd r then [mkRange e (getEnd r - e)] else [])"

lemma covered_pieces:
  assumes "valid_range r"
  shows "covered (pieces s e r) =
    {unat (range_start r) ..< unat s} \<union> {unat e ..< unat (getEnd r)}"
  using assms by (auto simp: pieces_def points_endpoints word_less_nat_alt word_le_nat_alt)

locale range_store =
  fixes add :: "'t \<Rightarrow> Range \<Rightarrow> (bool \<times> 't) option"
    and remove :: "'t \<Rightarrow> Range \<Rightarrow> (bool \<times> 't) option"
    and data :: "'t \<Rightarrow> Range list"
    and total :: "'t \<Rightarrow> Range"
    and inv :: "'t \<Rightarrow> bool"
  assumes add_good: "inv t \<Longrightarrow> good_range (total t) r \<Longrightarrow>
      \<exists>t'. add t r = Some (True, t') \<and> inv t' \<and> total t' = total t \<and>
        mset (data t') = add_mset r (mset (data t))"
    and add_out: "inv t \<Longrightarrow> \<not> contains_range (total t) r \<Longrightarrow> add t r = Some (False, t)"
    and remove_law: "inv t \<Longrightarrow> valid_range r \<Longrightarrow> range_size r \<noteq> 0 \<Longrightarrow>
      \<exists>t'. remove t r = Some (r \<in> set (data t), t') \<and> inv t' \<and> total t' = total t \<and>
        mset (data t') = mset (data t) - {#r#}"
    and good: "inv t \<Longrightarrow> r \<in> set (data t) \<Longrightarrow> good_range (total t) r"
begin

lemma add_endpoints_law:
  assumes "inv t" "range_start (total t) \<le> s" "s < e" "e \<le> getEnd (total t)"
  shows "\<exists>t'. add_endpoints add t s e = Some t' \<and> inv t' \<and> total t' = total t \<and>
    mset (data t') = add_mset (mkRange s (e - s)) (mset (data t))"
proof -
  have f: "fromEndpoints s e = Some (mkRange s (e - s))"
    using assms(3) by (simp add: fromEndpoints_Some)
  from fromEndpoints_range [OF f] assms have "good_range (total t) (mkRange s (e - s))"
    by (auto simp: good_range_def contains_range_def)
  from add_good [OF assms(1) this] f show ?thesis by (auto simp: add_endpoints_def)
qed

lemma subtract_loop_law:
  assumes "inv t" "mset rs \<subseteq># mset (data t)" "\<And>r. r \<in> set rs \<Longrightarrow> s < getEnd r \<and> range_start r < e"
  shows "\<exists>t'. subtract_loop add remove s e rs t = Some t' \<and> inv t' \<and> total t' = total t \<and>
    mset (data t') = mset (data t) - mset rs + mset (concat (map (pieces s e) rs))"
  using assms
proof (induction rs arbitrary: t)
  case Nil
  then show ?case by simp
next
  case (Cons r rs)
  have r: "r \<in> set (data t)" using Cons.prems(2) by (simp add: insert_subset_eq_iff)
  from good [OF Cons.prems(1) r] have g: "valid_range r" "range_size r \<noteq> 0"
      "range_start (total t) \<le> range_start r" "getEnd r \<le> getEnd (total t)"
    by (auto simp: good_range_def contains_range_def)
  from remove_law [OF Cons.prems(1) g(1,2)] obtain b t1 where t1: "remove t r = Some (b, t1)" "inv t1"
      "total t1 = total t" "mset (data t1) = mset (data t) - {#r#}"
    by auto
  have se: "s < getEnd r" "range_start r < e" using Cons.prems(3) by auto
  have "s \<le> getEnd (total t1)" using se g(4) t1(3) by simp
  with add_endpoints_law [OF t1(2), of "range_start r" s] g(3) t1(3) obtain t2 where
    t2: "(if range_start r < s then add_endpoints add t1 (range_start r) s else Some t1) = Some t2"
      "inv t2" "total t2 = total t"
      "mset (data t2) = mset (data t1) +
         mset (if range_start r < s then [mkRange (range_start r) (s - range_start r)] else [])"
    using t1 by (cases "range_start r < s") auto
  have "range_start (total t2) \<le> e" using se g(3) t2(3) by simp
  with add_endpoints_law [OF t2(2), of e "getEnd r"] g(4) t2(3) obtain t3 where
    t3: "(if e < getEnd r then add_endpoints add t2 e (getEnd r) else Some t2) = Some t3"
      "inv t3" "total t3 = total t"
      "mset (data t3) = mset (data t2) + mset (if e < getEnd r then [mkRange e (getEnd r - e)] else [])"
    using t2 by (cases "e < getEnd r") auto
  have d3: "mset (data t3) = mset (data t) - {#r#} + mset (pieces s e r)"
    by (simp add: t1(4) t2(4) t3(4) pieces_def)
  have sub: "mset rs \<subseteq># mset (data t) - {#r#}"
    using Cons.prems(2) by (simp add: insert_subset_eq_iff)
  then have "mset rs \<subseteq># mset (data t3)"
    by (simp add: d3 subset_mset.add_increasing2)
  from Cons.IH [OF t3(2) this] Cons.prems(3) obtain t4 where
    t4: "subtract_loop add remove s e rs t3 = Some t4" "inv t4" "total t4 = total t"
      "mset (data t4) = mset (data t3) - mset rs + mset (concat (map (pieces s e) rs))"
    using t3(3) by auto
  have "mset (data t4) = mset (data t) - mset (r # rs) + mset (concat (map (pieces s e) (r # rs)))"
    using subset_mset.add_diff_assoc2 [OF sub, of "mset (pieces s e r)"]
    by (simp add: t4(4) d3 ac_simps)
  with t1 t2(1) t3(1) t4 show ?case by simp
qed

lemma add_all_law:
  assumes "inv t" "\<And>r. r \<in> set rs \<Longrightarrow> valid_range r \<and> range_size r \<noteq> 0"
  shows "\<exists>t'. add_all add rs t = Some t' \<and> inv t' \<and> total t' = total t \<and>
    mset (data t') = mset (data t) + mset (filter (contains_range (total t)) rs)"
  using assms
proof (induction rs arbitrary: t)
  case Nil
  then show ?case by simp
next
  case (Cons r rs)
  show ?case
  proof (cases "contains_range (total t) r")
    case True
    with Cons.prems have "good_range (total t) r" by (simp add: good_range_def)
    from add_good [OF Cons.prems(1) this] obtain t1 where t1: "add t r = Some (True, t1)" "inv t1"
        "total t1 = total t" "mset (data t1) = add_mset r (mset (data t))"
      by auto
    with Cons.IH [OF t1(2)] Cons.prems(2) True show ?thesis by auto
  next
    case False
    with add_out [OF Cons.prems(1) this] Cons.IH [OF Cons.prems(1)] Cons.prems(2) show ?thesis by auto
  qed
qed

lemma complement_loop_law:
  assumes "inv t" "total t = tot" "sorted_wrt (\<lambda>x y. range_start x \<le> range_start y) rs"
    and "\<And>r. r \<in> set rs \<Longrightarrow> good_range tot r"
    and "range_start tot \<le> lastPoint" "lastPoint \<le> getEnd tot"
  shows "\<exists>l t'. complement_loop add rs (lastPoint, t) = Some (l, t') \<and> inv t' \<and> total t' = tot \<and>
    lastPoint \<le> l \<and> l \<le> getEnd tot \<and>
    (\<forall>x \<in> covered rs. x < unat l) \<and>
    covered (data t') = covered (data t) \<union> ({unat lastPoint ..< unat l} - covered rs)"
  using assms
proof (induction rs arbitrary: t lastPoint)
  case Nil
  then show ?case by simp
next
  case (Cons r rs)
  have g: "valid_range r" "range_start tot \<le> range_start r" "getEnd r \<le> getEnd tot"
      "range_start r < getEnd r"
    using Cons.prems(4) [of r] good_range_nonempty [of tot r]
    by (auto simp: good_range_def contains_range_def)
  have pr: "points r = {unat (range_start r) ..< unat (getEnd r)}"
    using g(1) by (rule points_getEnd)
  have above: "unat (range_start r) \<le> x" if "x \<in> covered rs" for x
    using that Cons.prems(3) by (fastforce simp: covered_def points_def word_le_nat_alt)
  have e: "range_start r \<le> getEnd (total t)" using g(3,4) Cons.prems(2) by simp
  obtain t1 where t1: "(if lastPoint < range_start r then add_endpoints add t lastPoint (range_start r)
      else Some t) = Some t1" "inv t1" "total t1 = tot"
      "covered (data t1) = covered (data t) \<union> {unat lastPoint ..< unat (range_start r)}"
  proof (cases "lastPoint < range_start r")
    case True
    with add_endpoints_law [OF Cons.prems(1), of lastPoint "range_start r"] Cons.prems(2,5) e
    obtain t1 where a: "add_endpoints add t lastPoint (range_start r) = Some t1" "inv t1"
        "total t1 = tot"
        "mset (data t1) = mset (mkRange lastPoint (range_start r - lastPoint) # data t)"
      by auto
    from covered_mset [OF a(4)] True
    have "covered (data t1) = covered (data t) \<union> {unat lastPoint ..< unat (range_start r)}"
      by (auto simp: points_endpoints)
    with a True that show ?thesis by auto
  next
    case False
    with Cons.prems(1,2) that [of t] show ?thesis by (simp add: word_less_nat_alt)
  qed
  have le: "range_start tot \<le> max lastPoint (getEnd r)" "max lastPoint (getEnd r) \<le> getEnd tot"
    using Cons.prems(5,6) g by (auto simp: max_def)
  from Cons.IH [OF t1(2,3) _ _ le] Cons.prems(3,4) obtain l t' where
    l: "complement_loop add rs (max lastPoint (getEnd r), t1) = Some (l, t')" "inv t'" "total t' = tot"
      "max lastPoint (getEnd r) \<le> l" "l \<le> getEnd tot" "\<forall>x \<in> covered rs. x < unat l"
      "covered (data t') =
         covered (data t1) \<union> ({unat (max lastPoint (getEnd r)) ..< unat l} - covered rs)"
    by auto
  have "lastPoint \<le> l" "getEnd r \<le> l" using l(4) by simp_all
  then have "unat lastPoint \<le> unat l" "unat (getEnd r) \<le> unat l" by (simp_all add: word_le_nat_alt)
  moreover have "unat (max lastPoint (getEnd r)) = max (unat lastPoint) (unat (getEnd r))"
    by (simp add: max_def word_le_nat_alt)
  moreover have "unat (range_start r) < unat (getEnd r)" using g(4) by (simp add: word_less_nat_alt)
  ultimately have
    "{unat lastPoint ..< unat (range_start r)} \<union>
       ({unat (max lastPoint (getEnd r)) ..< unat l} - covered rs) =
     {unat lastPoint ..< unat l} - covered (r # rs)"
    by (auto simp: pr dest: above)
  with l(7) t1(4) have "covered (data t') =
      covered (data t) \<union> ({unat lastPoint ..< unat l} - covered (r # rs))"
    by auto
  moreover have "\<forall>x \<in> covered (r # rs). x < unat l"
    using l(6) \<open>unat (getEnd r) \<le> unat l\<close> by (auto simp: pr)
  ultimately show ?case using t1(1) l by (auto simp: Let_def)
qed

end

interpretation tree: range_store node_add node_remove inStartOrderTraversal totalRange
  "\<lambda>n. node_inv n \<and> n \<noteq> Null"
proof unfold_locales
  show "\<exists>n'. node_add n r = Some (True, n') \<and> (node_inv n' \<and> n' \<noteq> Null) \<and>
      totalRange n' = totalRange n \<and>
      mset (inStartOrderTraversal n') = add_mset r (mset (inStartOrderTraversal n))"
    if "node_inv n \<and> n \<noteq> Null" "good_range (totalRange n) r" for n r
    using node_add_inside that by blast
  show "node_add n r = Some (False, n)"
    if "node_inv n \<and> n \<noteq> Null" "\<not> contains_range (totalRange n) r" for n r
    using node_add_outside that by blast
  show "\<exists>n'. node_remove n r = Some (r \<in> set (inStartOrderTraversal n), n') \<and>
      (node_inv n' \<and> n' \<noteq> Null) \<and> totalRange n' = totalRange n \<and>
      mset (inStartOrderTraversal n') = mset (inStartOrderTraversal n) - {#r#}"
    if "node_inv n \<and> n \<noteq> Null" "valid_range r" "range_size r \<noteq> 0" for n r
    using node_remove_correct that by blast
  show "good_range (totalRange n) r"
    if "node_inv n \<and> n \<noteq> Null" "r \<in> set (inStartOrderTraversal n)" for n r
    using data_good that by blast
qed


subsection \<open>Properties of interval trees\<close>

lemma traversal_sorted:
  "node_inv n \<Longrightarrow> disjoint_ranges (inStartOrderTraversal n) \<Longrightarrow>
    sorted_wrt (\<lambda>x y. range_start x \<le> range_start y) (inStartOrderTraversal n)"
proof (induction n)
  case Null
  then show ?case by simp
next
  case (Node tot mid lo hi os oe)
  note ord = node_ordered [OF Node.prems]
  have "sorted_wrt (\<lambda>x y. \<not> range_less y x) os" using Node.prems(1) by simp
  then have "sorted_wrt (\<lambda>x y. range_start x \<le> range_start y) os"
    by (rule sorted_wrt_mono_rel [rotated]) (auto simp: range_simps)
  moreover have "disjoint_ranges (inStartOrderTraversal lo)" "disjoint_ranges (inStartOrderTraversal hi)"
    using disjoint_ranges_subset [OF Node.prems(2)] by auto
  ultimately show ?case
    using Node.IH Node.prems(1) ord by (auto simp: sorted_wrt_append)
qed

lemma overlaps_range_cases:
  assumes "valid_range r" "valid_range q" "range_start r < getEnd r"
  shows "overlaps_range r q \<Longrightarrow>
      {unat (range_start r) ..< unat (range_start q)} \<union> {unat (getEnd q) ..< unat (getEnd r)} =
      points r - points q"
    and "\<not> overlaps_range r q \<Longrightarrow> points r - points q = points r"
  using assms
  by (auto simp: overlaps_range_def points_getEnd word_le_nat_alt word_less_nat_alt)

lemma covered_filter: "covered rs = covered (filter P rs) \<union> covered (filter (\<lambda>r. \<not> P r) rs)"
  by (auto simp: covered_def)

lemma covered_concat: "covered (concat rss) = (\<Union>rs \<in> set rss. covered rs)"
  by (auto simp: covered_def)

lemma subtract_covered:
  assumes "valid_range q" "\<And>r. r \<in> set rs \<Longrightarrow> valid_range r \<and> range_start r < getEnd r"
  shows "covered (filter (\<lambda>r. \<not> overlaps_range r q) rs) \<union>
      covered (concat (map (pieces (range_start q) (getEnd q)) (filter (\<lambda>r. overlaps_range r q) rs)))
    = covered rs - points q"
  using assms(2)
proof (induction rs)
  case Nil
  then show ?case by simp
next
  case (Cons r rs)
  then have r: "valid_range r" "range_start r < getEnd r" by auto
  from Cons have IH: "covered (filter (\<lambda>r. \<not> overlaps_range r q) rs) \<union>
      covered (concat (map (pieces (range_start q) (getEnd q)) (filter (\<lambda>r. overlaps_range r q) rs)))
    = covered rs - points q" by auto
  show ?case
    using IH overlaps_range_cases [OF r(1) assms(1) r(2)]
    by (cases "overlaps_range r q") (auto simp: covered_pieces [OF r(1)])
qed


text \<open>Claim C22: \<^verbatim>\<open>IntervalTreeNode::add\<close> returns on every non-empty range that does not wrap
  around the address space. It answers whether the range lies within the node's total range, it
  keeps the node invariant, and it adds exactly that range, or nothing, to the stored ranges.\<close>

theorem node_add_correct:
  assumes "node_inv n" "n \<noteq> Null" "valid_range r" "range_size r \<noteq> 0"
  shows "\<exists>n'. node_add n r = Some (contains_range (totalRange n) r, n') \<and> node_inv n' \<and>
    totalRange n' = totalRange n \<and>
    mset (getAllData n') =
      (if contains_range (totalRange n) r then {#r#} else {#}) + mset (getAllData n)"
  using node_add_inside [OF assms(1,2), of r] node_add_outside [OF assms(2), of r] assms
  by (cases "contains_range (totalRange n) r") (auto simp: good_range_def getAllData_def)

theorem node_add_correct_witness:
  "\<exists>n'. node_add (newTree (mkRange 0 16)) (mkRange 4 2) =
      Some (contains_range (totalRange (newTree (mkRange 0 16))) (mkRange 4 2), n') \<and> node_inv n' \<and>
    totalRange n' = totalRange (newTree (mkRange 0 16)) \<and>
    mset (getAllData n') =
      (if contains_range (totalRange (newTree (mkRange 0 16))) (mkRange 4 2)
       then {#mkRange 4 2#} else {#}) + mset (getAllData (newTree (mkRange 0 16)))"
  by (rule node_add_correct) (simp_all add: newTree_def valid_range_def)

text \<open>Claim C32: \<^verbatim>\<open>IntervalTreeNode::remove\<close> never trips its assertion on a tree that satisfies the
  invariant. It answers whether the range was stored, and removes one occurrence of it.\<close>

theorem node_remove_removes:
  assumes "node_inv n" "n \<noteq> Null" "valid_range r" "range_size r \<noteq> 0"
  shows "\<exists>n'. node_remove n r = Some (r \<in> set (getAllData n), n') \<and> node_inv n' \<and>
    totalRange n' = totalRange n \<and> mset (getAllData n') = mset (getAllData n) - {#r#}"
  using node_remove_correct [OF assms] by (auto simp: getAllData_def)

theorem node_remove_removes_witness:
  "\<exists>n'. node_remove (newTree (mkRange 0 16)) (mkRange 4 2) =
      Some (mkRange 4 2 \<in> set (getAllData (newTree (mkRange 0 16))), n') \<and> node_inv n' \<and>
    totalRange n' = totalRange (newTree (mkRange 0 16)) \<and>
    mset (getAllData n') = mset (getAllData (newTree (mkRange 0 16))) - {#mkRange 4 2#}"
  by (rule node_remove_removes) (simp_all add: newTree_def valid_range_def)

text \<open>Claim C12: \<^verbatim>\<open>findOverlapping\<close>, for a point and for a range, finds exactly the stored ranges
  that contain the point, or overlap the range, each as often as it is stored, although it
  visits only the halves of the tree that can hold one and stops its scans early.\<close>

theorem findOverlapping_exact:
  assumes "node_inv n" "valid_range q"
  shows "mset (findOverlapping_point n p) =
      filter_mset (\<lambda>r. unat p \<in> points r) (mset (getAllData n))
      \<and> mset (findOverlapping_range n q) =
      filter_mset (\<lambda>r. overlaps_range r q) (mset (getAllData n))"
proof
  have "contains_point r p \<longleftrightarrow> unat p \<in> points r" if "r \<in># mset (inStartOrderTraversal n)" for r
    using data_good [OF assms(1)] that by (simp add: good_range_def contains_point_iff)
  then have "filter_mset (\<lambda>r. contains_point r p) (mset (inStartOrderTraversal n)) =
      filter_mset (\<lambda>r. unat p \<in> points r) (mset (inStartOrderTraversal n))"
    by (intro filter_mset_cong) auto
  then show "mset (findOverlapping_point n p) =
      filter_mset (\<lambda>r. unat p \<in> points r) (mset (getAllData n))"
    using findOverlapping_point_mset [OF assms(1), of p] by (simp add: getAllData_def)
  show "mset (findOverlapping_range n q) =
      filter_mset (\<lambda>r. overlaps_range r q) (mset (getAllData n))"
    by (simp add: findOverlapping_range_filter [OF assms] getAllData_def)
qed

theorem findOverlapping_exact_witness:
  "mset (findOverlapping_point (newTree (mkRange 0 16)) 4) =
      filter_mset (\<lambda>r. unat (4 :: address) \<in> points r) (mset (getAllData (newTree (mkRange 0 16))))
    \<and> mset (findOverlapping_range (newTree (mkRange 0 16)) (mkRange 4 2)) =
      filter_mset (\<lambda>r. overlaps_range r (mkRange 4 2)) (mset (getAllData (newTree (mkRange 0 16))))"
  by (rule findOverlapping_exact) (simp_all add: newTree_def valid_range_def)

text \<open>On a tree of pairwise disjoint ranges the bound searches return the nearest range:
  \<^verbatim>\<open>findLowerBound\<close> the last one that ends at or before the point, \<^verbatim>\<open>findUpperBound\<close> the first
  one that starts after it, the \<^verbatim>\<open>OrOverlapping\<close> variants also taking the one that contains the
  point; they fail only when there is no such range.\<close>

lemma bounds_nearest:
  assumes "node_inv n" "disjoint_ranges (getAllData n)"
  shows "greatest_below (\<lambda>r. getEnd r \<le> p) (getAllData n) (findLowerBound n p)
    \<and> greatest_below (\<lambda>r. getEnd r \<le> p \<or> contains_point r p) (getAllData n)
        (findLowerBoundOrOverlapping n p)
    \<and> least_above (\<lambda>r. p < range_start r) (getAllData n) (findUpperBound n p)
    \<and> least_above (\<lambda>r. p < range_start r \<or> contains_point r p) (getAllData n)
        (findUpperBoundOrOverlapping n p)"
proof -
  have d: "disjoint_ranges (inStartOrderTraversal n)" using assms(2) by (simp add: getAllData_def)
  note down = search_down_greatest [OF assms(1) d] and up = search_up_least [OF assms(1) d]
  have "greatest_below (\<lambda>r. range_below_point r p) (inStartOrderTraversal n)
      (search_down (\<lambda>r. range_below_point r p) n p)"
    by (rule down) (auto simp: range_simps)
  moreover have "greatest_below (\<lambda>r. range_below_point r p \<or> contains_point r p)
      (inStartOrderTraversal n) (search_down (\<lambda>r. range_below_point r p \<or> contains_point r p) n p)"
    by (rule down) (auto simp: range_simps contains_point_def)
  moreover have "least_above (\<lambda>r. point_below_range p r) (inStartOrderTraversal n)
      (search_up (\<lambda>r. point_below_range p r) n p)"
    by (rule up) (auto simp: point_below_range_def)
  moreover have "least_above (\<lambda>r. point_below_range p r \<or> contains_point r p)
      (inStartOrderTraversal n) (search_up (\<lambda>r. point_below_range p r \<or> contains_point r p) n p)"
    by (rule up) (auto simp: point_below_range_def contains_point_def)
  ultimately show ?thesis
    by (simp add: search_down_eqs search_up_eqs getAllData_def range_below_point_getEnd
        point_below_range_def)
qed

definition sample_tree :: node where
  "sample_tree = snd (the (node_add (newTree (mkRange 0 16)) (mkRange 4 2)))"

lemma sample_tree_eq:
  "sample_tree = Node (mkRange 0 16) 8
     (Node (mkRange 0 8) 4 Null Null [mkRange 4 2] [mkRange 4 2]) Null [] []"
  by (simp add: sample_tree_def newTree_def newNode_def node_add.simps contains_range_def
      contains_point_def range_below_point_def getEnd_def fromEndpoints_def)

lemma sample_tree_inv [simp]: "node_inv sample_tree" "sample_tree \<noteq> Null"
  by (simp_all add: sample_tree_eq valid_range_def good_range_def contains_range_def
      contains_point_def getEnd_def)

lemma sample_tree_data [simp]: "getAllData sample_tree = [mkRange 4 2]"
    "inStartOrderTraversal sample_tree = [mkRange 4 2]" "totalRange sample_tree = mkRange 0 16"
  by (simp_all add: sample_tree_eq getAllData_def)

lemma bounds_nearest_witness:
  "greatest_below (\<lambda>r. getEnd r \<le> 7) (getAllData sample_tree) (findLowerBound sample_tree 7)
    \<and> greatest_below (\<lambda>r. getEnd r \<le> 7 \<or> contains_point r 7) (getAllData sample_tree)
        (findLowerBoundOrOverlapping sample_tree 7)
    \<and> least_above (\<lambda>r. 7 < range_start r) (getAllData sample_tree) (findUpperBound sample_tree 7)
    \<and> least_above (\<lambda>r. 7 < range_start r \<or> contains_point r 7) (getAllData sample_tree)
        (findUpperBoundOrOverlapping sample_tree 7)"
  by (rule bounds_nearest) (simp_all add: disjoint_ranges_def)

text \<open>Claim C27: \<^verbatim>\<open>IntervalTree::subtract\<close> returns, keeps the invariant and leaves a tree that covers
  exactly the addresses that were covered and are not in the subtracted range.\<close>

theorem tree_subtract_covers:
  assumes "node_inv t" "t \<noteq> Null" "valid_range q"
  shows "\<exists>t'. tree_subtract t q = Some t' \<and> node_inv t' \<and> totalRange t' = totalRange t \<and>
    covered (getAllData t') = covered (getAllData t) - points q"
proof -
  let ?P = "\<lambda>r. overlaps_range r q" and ?d = "inStartOrderTraversal t"
  have vr: "valid_range r \<and> range_start r < getEnd r" if "r \<in> set ?d" for r
    using data_good [OF assms(1) that] by (auto simp: good_range_def good_range_nonempty)
  have f: "findOverlapping_range t q = filter ?P ?d"
    by (rule findOverlapping_range_filter [OF assms(1,3)])
  have "range_start q < getEnd r \<and> range_start r < getEnd q" if "r \<in> set (filter ?P ?d)" for r
    using that by (auto simp: overlaps_range_def)
  moreover have "mset (filter ?P ?d) \<subseteq># mset ?d" by (simp add: multiset_filter_subset)
  ultimately obtain t' where t': "tree_subtract t q = Some t'" "node_inv t'" "totalRange t' = totalRange t"
      "mset (inStartOrderTraversal t') = mset ?d - mset (filter ?P ?d) +
         mset (concat (map (pieces (range_start q) (getEnd q)) (filter ?P ?d)))"
    using tree.subtract_loop_law [of t "filter ?P ?d" "range_start q" "getEnd q"] assms(1,2)
    by (auto simp: tree_subtract_def f)
  have "mset ?d = mset (filter ?P ?d) + mset (filter (\<lambda>r. \<not> ?P r) ?d)"
    unfolding mset_filter by (rule multiset_partition)
  then have "mset ?d - mset (filter ?P ?d) = mset (filter (\<lambda>r. \<not> ?P r) ?d)"
    by (metis add_diff_cancel_left')
  with t'(4) have "mset (inStartOrderTraversal t') =
      mset (filter (\<lambda>r. \<not> ?P r) ?d @ concat (map (pieces (range_start q) (getEnd q)) (filter ?P ?d)))"
    by (simp only: mset_append)
  from covered_mset [OF this] have "covered (inStartOrderTraversal t') = covered ?d - points q"
    using subtract_covered [OF assms(3) vr] by (simp only: covered_simps)
  with t' show ?thesis by (auto simp: getAllData_def)
qed

theorem tree_subtract_covers_witness:
  "\<exists>t'. tree_subtract sample_tree (mkRange 5 9) = Some t' \<and> node_inv t' \<and>
    totalRange t' = totalRange sample_tree \<and>
    covered (getAllData t') = covered (getAllData sample_tree) - points (mkRange 5 9)"
  by (rule tree_subtract_covers) (simp_all add: valid_range_def)


text \<open>Claim C28: \<^verbatim>\<open>IntervalTree::complement\<close> of a tree of pairwise disjoint ranges covers exactly
  the addresses of the total range that the tree does not cover.\<close>

theorem tree_complement_covers:
  assumes "node_inv t" "t \<noteq> Null" "disjoint_ranges (getAllData t)"
  shows "\<exists>t'. tree_complement t = Some t' \<and> node_inv t' \<and> totalRange t' = totalRange t \<and>
    covered (getAllData t') = points (totalRange t) - covered (getAllData t)"
proof -
  let ?tot = "totalRange t" and ?d = "inStartOrderTraversal t"
  have v: "valid_range ?tot" using assms(1,2) by (cases t) auto
  have srt: "sorted_wrt (\<lambda>x y. range_start x \<le> range_start y) ?d"
    using traversal_sorted assms(1,3) by (simp add: getAllData_def)
  have le: "range_start ?tot \<le> getEnd ?tot" using v by (simp add: word_le_nat_alt)
  have "node_inv (newTree ?tot) \<and> newTree ?tot \<noteq> Null" "totalRange (newTree ?tot) = ?tot"
    using v by (simp_all add: newTree_def)
  from tree.complement_loop_law [OF this srt data_good [OF assms(1)] order_refl le]
  obtain l t1 where l: "complement_loop node_add ?d (range_start ?tot, newTree ?tot) = Some (l, t1)"
      "node_inv t1" "t1 \<noteq> Null" "totalRange t1 = ?tot" "range_start ?tot \<le> l" "l \<le> getEnd ?tot"
      "\<forall>x \<in> covered ?d. x < unat l"
      "covered (inStartOrderTraversal t1) = {unat (range_start ?tot) ..< unat l} - covered ?d"
    by (auto simp: newTree_def)
  show ?thesis
  proof (cases "l < getEnd ?tot")
    case True
    from tree.add_endpoints_law [of t1 l "getEnd ?tot"] l True obtain t' where
      t': "add_endpoints node_add t1 l (getEnd ?tot) = Some t'" "node_inv t'" "totalRange t' = ?tot"
        "mset (inStartOrderTraversal t') =
          mset (mkRange l (getEnd ?tot - l) # inStartOrderTraversal t1)"
      by auto
    have "unat (range_start ?tot) \<le> unat l" "unat l < unat (getEnd ?tot)"
      using l(5) True by (simp_all add: word_le_nat_alt word_less_nat_alt)
    with covered_mset [OF t'(4)] l(6,7,8) have
      "covered (inStartOrderTraversal t') = points ?tot - covered ?d"
      by (auto simp: points_endpoints points_getEnd [OF v])
    with t' l(1) True show ?thesis by (simp add: tree_complement_def getAllData_def)
  next
    case False
    with l(6) have "l = getEnd ?tot" by simp
    with l show ?thesis by (simp add: tree_complement_def getAllData_def points_getEnd [OF v])
  qed
qed

theorem tree_complement_covers_witness:
  "\<exists>t'. tree_complement sample_tree = Some t' \<and> node_inv t' \<and>
    totalRange t' = totalRange sample_tree \<and>
    covered (getAllData t') = points (totalRange sample_tree) - covered (getAllData sample_tree)"
  by (rule tree_complement_covers) (simp_all add: disjoint_ranges_def)

text \<open>\<^verbatim>\<open>IntervalTree::splitAt\<close> at an address strictly inside exactly one stored range
  replaces that range by its two parts on either side of the address and answers true.\<close>

lemma tree_splitAt_splits:
  assumes "node_inv t" "findOverlapping_point t p = [r]" "p \<noteq> range_start r"
  shows "\<exists>t'. tree_splitAt t p = Some (True, t') \<and> node_inv t' \<and> totalRange t' = totalRange t \<and>
    mset (getAllData t') = mset (getAllData t) - {#r#} +
      {#mkRange (range_start r) (p - range_start r), mkRange p (getEnd r - p)#}"
proof -
  have nn: "t \<noteq> Null" using assms(2) by auto
  have "r \<in># mset (findOverlapping_point t p)" using assms(2) by simp
  then have r: "r \<in> set (inStartOrderTraversal t)" "contains_point r p"
    by (auto simp: findOverlapping_point_mset [OF assms(1)])
  have g: "valid_range r" "range_size r \<noteq> 0" "range_start (totalRange t) \<le> range_start r"
      "getEnd r \<le> getEnd (totalRange t)"
    using data_good [OF assms(1) r(1)] by (auto simp: good_range_def contains_range_def)
  have p: "range_start r < p" "p < getEnd r"
    using r(2) assms(3) by (auto simp: contains_point_def)
  have c: "contains_point (totalRange t) p" using p g by (auto simp: contains_point_def)
  have pt: "range_start (totalRange t) \<le> p" "p \<le> getEnd (totalRange t)"
    using c by (auto simp: contains_point_def)
  from tree.remove_law [OF conjI [OF assms(1) nn] g(1,2)] obtain b t1 where
    t1: "node_remove t r = Some (b, t1)" "node_inv t1 \<and> t1 \<noteq> Null" "totalRange t1 = totalRange t"
      "mset (inStartOrderTraversal t1) = mset (inStartOrderTraversal t) - {#r#}"
    by auto
  from tree.add_endpoints_law [OF t1(2), of "range_start r" p] p pt g t1(3) obtain t2 where
    t2: "add_endpoints node_add t1 (range_start r) p = Some t2" "node_inv t2 \<and> t2 \<noteq> Null"
      "totalRange t2 = totalRange t" "mset (inStartOrderTraversal t2) =
         add_mset (mkRange (range_start r) (p - range_start r)) (mset (inStartOrderTraversal t1))"
    by auto
  from tree.add_endpoints_law [OF t2(2), of p "getEnd r"] p pt g t2(3) obtain t3 where
    t3: "add_endpoints node_add t2 p (getEnd r) = Some t3" "node_inv t3"
      "totalRange t3 = totalRange t" "mset (inStartOrderTraversal t3) =
         add_mset (mkRange p (getEnd r - p)) (mset (inStartOrderTraversal t2))"
    by auto
  from c p t1 t2 t3 assms(2) show ?thesis
    by (auto simp: tree_splitAt_def getAllData_def)
qed

lemma tree_splitAt_splits_witness:
  "\<exists>t'. tree_splitAt sample_tree 5 = Some (True, t') \<and> node_inv t' \<and>
    totalRange t' = totalRange sample_tree \<and>
    mset (getAllData t') = mset (getAllData sample_tree) - {#mkRange 4 2#} +
      {#mkRange (range_start (mkRange 4 2)) (5 - range_start (mkRange 4 2)),
        mkRange 5 (getEnd (mkRange 4 2) - 5)#}"
  by (rule tree_splitAt_splits)
    (simp_all add: sample_tree_eq contains_point_def getEnd_def point_below_range_def
      range_below_point_def valid_range_def good_range_def contains_range_def)

text \<open>\<^verbatim>\<open>IntervalTree::unionWith\<close> adds exactly the other tree's ranges that lie within this
  tree's total range; the others are dropped.\<close>

lemma tree_unionWith_adds:
  assumes "node_inv t" "t \<noteq> Null" "node_inv other"
  shows "\<exists>t'. tree_unionWith t other = Some t' \<and> node_inv t' \<and> totalRange t' = totalRange t \<and>
    mset (getAllData t') = mset (getAllData t) +
      filter_mset (contains_range (totalRange t)) (mset (getAllData other))"
  using tree.add_all_law [of t "inStartOrderTraversal other"] assms data_good [OF assms(3)]
  by (auto simp: tree_unionWith_def getAllData_def good_range_def)

text \<open>Claim C35: adding an empty range that lies within the total range never returns: every half
  that \<^verbatim>\<open>add\<close> descends into contains the empty range again, down to halves of size zero and one
  that are their own halves.\<close>

theorem node_add_empty_diverges:
  assumes "node_inv n" "n \<noteq> Null" "range_size r = 0" "contains_range (totalRange n) r"
  shows "node_add n r = None"
  using assms by (rule node_add_empty)

theorem node_add_empty_diverges_witness: "node_add sample_tree (mkRange 3 0) = None"
  by (rule node_add_empty_diverges) (simp_all add: contains_range_def getEnd_def)

end
