(* ===== verification/Streams.thy ===== *)
theory Streams
  imports Prelude
begin

unbundle bit_operations_syntax

section \<open>Archive streams (\<^verbatim>\<open>src/archive/stream.cpp\<close>)\<close>

text \<open>
  \<^verbatim>\<open>ArchiveStreamReader\<close> and \<^verbatim>\<open>ArchiveStreamWriter\<close> over the byte streams of the C++ library on
  a little-endian target. An input stream is its unread bytes and its \<^verbatim>\<open>eofbit\<close> and \<^verbatim>\<open>failbit\<close>;
  an output stream is the bytes written so far. \<^verbatim>\<open>istream::read\<close> on a stream that is not good
  reads nothing, and on a short stream it fills the front of its buffer and sets both bits, so
  the readers take the value their out-parameter had before.
\<close>

record istream =
  unread :: "byte list"
  eofbit :: bool
  failbit :: bool

definition open_stream :: "byte list \<Rightarrow> istream" where
  "open_stream bs = \<lparr>unread = bs, eofbit = False, failbit = False\<rparr>"

definition stream_good :: "istream \<Rightarrow> bool" where
  "stream_good s \<longleftrightarrow> \<not> eofbit s \<and> \<not> failbit s"

definition stream_ok :: "istream \<Rightarrow> bool" where
  "stream_ok s \<longleftrightarrow> \<not> failbit s"

text \<open>\<open>istream_read n s\<close>: the bytes that \<^verbatim>\<open>s.read(buffer, n)\<close> stores at the front of the buffer.\<close>

definition istream_read :: "nat \<Rightarrow> istream \<Rightarrow> byte list \<times> istream" where
  "istream_read n s =
     (if \<not> stream_good s then ([], s\<lparr>failbit := True\<rparr>)
      else if n \<le> length (unread s) then (take n (unread s), s\<lparr>unread := drop n (unread s)\<rparr>)
      else (unread s, s\<lparr>unread := [], eofbit := True, failbit := True\<rparr>))"

subsection \<open>Little-endian words\<close>

definition le_bytes :: "nat \<Rightarrow> 'a::len word \<Rightarrow> byte list" where
  "le_bytes n w = map (\<lambda>i. ucast (drop_bit (8 * i) w)) [0..<n]"

primrec le_word :: "byte list \<Rightarrow> 'a::len word" where
  "le_word [] = 0"
| "le_word (b # bs) = ucast b OR push_bit 8 (le_word bs)"

text \<open>The object representation of \<open>w\<close> with its first bytes overwritten by \<open>bs\<close>.\<close>

definition overwrite :: "nat \<Rightarrow> byte list \<Rightarrow> 'a::len word \<Rightarrow> 'a word" where
  "overwrite n bs w = le_word (bs @ drop (length bs) (le_bytes n w))"

definition word_bytes :: "'a::len itself \<Rightarrow> nat" where
  "word_bytes _ = LENGTH('a) div 8"

lemma word_bytes_simps [simp]:
  "word_bytes TYPE(8) = 1" "word_bytes TYPE(16) = 2" "word_bytes TYPE(32) = 4" "word_bytes TYPE(64) = 8"
  by (simp_all add: word_bytes_def)

subsection \<open>Reading\<close>

text \<open>The overloads for \<^verbatim>\<open>uint8_t\<close> to \<^verbatim>\<open>uint64_t\<close> have the same body, at their own width.\<close>

definition readInto :: "'a::len word \<Rightarrow> istream \<Rightarrow> bool \<times> 'a word \<times> istream" where
  "readInto old s =
     (let (bs, s') = istream_read (word_bytes TYPE('a)) s
      in (stream_ok s', overwrite (word_bytes TYPE('a)) bs old, s'))"

text \<open>\<open>junk\<close> is the value of the uninitialised local that a failed read leaves in place.\<close>

definition readInto_bool :: "byte \<Rightarrow> istream \<Rightarrow> bool \<times> bool \<times> istream" where
  "readInto_bool junk s = (let (success, v, s') = readInto junk s in (success, v = 49, s'))"

definition read_value :: "istream \<Rightarrow> 'a::len word \<times> istream" where
  "read_value s = snd (readInto 0 s)"

definition readID :: "istream \<Rightarrow> 32 word \<times> istream" where
  "readID s = read_value s"

definition readString :: "istream \<Rightarrow> byte list \<times> istream" where
  "readString s =
     (if \<not> stream_good s then ([], s\<lparr>failbit := True\<rparr>)
      else let v = takeWhile (\<lambda>b. b \<noteq> 0) (unread s); rest = dropWhile (\<lambda>b. b \<noteq> 0) (unread s)
        in if rest = [] then (v, s\<lparr>unread := [], eofbit := True, failbit := (v = [])\<rparr>)
           else (v, s\<lparr>unread := tl rest\<rparr>))"

definition readFixedLengthBytes :: "nat \<Rightarrow> istream \<Rightarrow> byte list \<times> istream" where
  "readFixedLengthBytes n s =
     (let (bs, s') = istream_read n s in (bs @ replicate (n - length bs) 0, s'))"

text \<open>\<open>size_type\<close> is the template argument \<^verbatim>\<open>SizeType\<close>.\<close>

definition readBytes :: "'a::len itself \<Rightarrow> istream \<Rightarrow> byte list \<times> istream" where
  "readBytes size_type s =
     (let (n, s') = (read_value s :: 'a word \<times> istream) in readFixedLengthBytes (unat n) s')"

definition stillGood :: "istream \<Rightarrow> bool" where
  "stillGood s = stream_good s"

subsection \<open>Writing\<close>

definition writeValue :: "'a::len word \<Rightarrow> byte list \<Rightarrow> byte list" where
  "writeValue v out = out @ le_bytes (word_bytes TYPE('a)) v"

definition writeValue_bool :: "bool \<Rightarrow> byte list \<Rightarrow> byte list" where
  "writeValue_bool flag out = writeValue ((if flag then 49 else 48) :: byte) out"

definition writeID :: "32 word \<Rightarrow> byte list \<Rightarrow> byte list" where
  "writeID i out = writeValue i out"

text \<open>\<^verbatim>\<open>writeString(const char *)\<close> stops at the first NUL, which it writes too.\<close>

definition c_strlen :: "byte list \<Rightarrow> nat" where
  "c_strlen v = length (takeWhile (\<lambda>b. b \<noteq> 0) v)"

definition writeString_c :: "byte list \<Rightarrow> byte list \<Rightarrow> byte list" where
  "writeString_c v out = out @ take (c_strlen v) v @ [0]"

definition writeString :: "byte list \<Rightarrow> byte list \<Rightarrow> byte list" where
  "writeString v out = out @ v @ [0]"

definition writeFixedLengthBytes :: "byte list \<Rightarrow> nat \<Rightarrow> byte list \<Rightarrow> byte list" where
  "writeFixedLengthBytes v n out = out @ take n v"

definition writeFixedLengthBytes_c :: "byte list \<Rightarrow> byte list \<Rightarrow> byte list" where
  "writeFixedLengthBytes_c v out = out @ take (c_strlen v) v"

definition writeBytes :: "'a::len itself \<Rightarrow> byte list \<Rightarrow> byte list \<Rightarrow> byte list" where
  "writeBytes size_type v out =
     writeFixedLengthBytes v (length v) (writeValue (of_nat (length v) :: 'a word) out)"

subsection \<open>Buffered writer\<close>

text \<open>
  \<^verbatim>\<open>BufferedStreamWriter\<close> holds an \<^verbatim>\<open>ostringstream\<close> and the data of a \<^verbatim>\<open>FlatChunk\<close>. The stream
  starts with the chunk's data as its buffer and with its put position at the beginning, so a
  write overwrites. \<^verbatim>\<open>flush\<close> and the destructor append the buffer to the chunk.
\<close>

record bufwriter =
  buffer :: "byte list"
  putpos :: nat
  flat_data :: "byte list"

definition newBufferedStreamWriter :: "byte list \<Rightarrow> bufwriter" where
  "newBufferedStreamWriter d = \<lparr>buffer = d, putpos = 0, flat_data = d\<rparr>"

definition buf_write :: "byte list \<Rightarrow> bufwriter \<Rightarrow> bufwriter" where
  "buf_write bs w =
     w\<lparr>buffer := take (putpos w) (buffer w) @ bs @ drop (putpos w + length bs) (buffer w),
       putpos := putpos w + length bs\<rparr>"

definition buf_flush :: "bufwriter \<Rightarrow> bufwriter" where
  "buf_flush w = w\<lparr>flat_data := flat_data w @ buffer w, buffer := [], putpos := 0\<rparr>"

definition buf_destroy :: "bufwriter \<Rightarrow> byte list" where
  "buf_destroy w = (if length (buffer w) > 0 then flat_data w @ buffer w else flat_data w)"

definition newInMemoryStreamReader :: "byte list \<Rightarrow> istream" where
  "newInMemoryStreamReader d = open_stream d"

subsection \<open>Words and their bytes\<close>

lemma length_le_bytes [simp]: "length (le_bytes n w) = n"
  by (simp add: le_bytes_def)

lemma bit_le_word:
  "bit (le_word bs :: 'a::len word) i \<longleftrightarrow>
     i < LENGTH('a) \<and> i div 8 < length bs \<and> bit (bs ! (i div 8)) (i mod 8)"
proof (induction bs arbitrary: i)
  case Nil
  then show ?case by simp
next
  case (Cons b bs)
  show ?case
  proof (cases "i < 8")
    case True
    then show ?thesis
      by (auto simp: bit_or_iff bit_push_bit_iff bit_unsigned_iff dest: bit_imp_le_length)
  next
    case False
    then have "i div 8 = Suc ((i - 8) div 8)" "(i - 8) mod 8 = i mod 8"
      by (simp_all add: le_div_geq le_mod_geq)
    moreover have "\<not> bit b i" using False bit_imp_le_length [of b i] by auto
    ultimately show ?thesis
      using False Cons.IH [of "i - 8"]
      by (auto simp: bit_or_iff bit_push_bit_iff bit_unsigned_iff)
  qed
qed

lemma le_word_le_bytes [simp]:
  fixes w :: "'a::len word"
  assumes "LENGTH('a) = 8 * n"
  shows "le_word (le_bytes n w) = w"
proof (rule bit_word_eqI)
  fix i
  assume i: "i < LENGTH('a)"
  then have "i div 8 < n" using assms by (simp add: less_mult_imp_div_less mult.commute)
  then have "bit (le_word (le_bytes n w) :: 'a word) i \<longleftrightarrow> bit w (8 * (i div 8) + i mod 8)"
    using i by (simp add: bit_le_word le_bytes_def bit_unsigned_iff bit_drop_bit_eq)
  then show "bit (le_word (le_bytes n w) :: 'a word) i \<longleftrightarrow> bit w i" by simp
qed


lemma overwrite_all:
  fixes w :: "'a::len word"
  assumes "LENGTH('a) = 8 * n" "length bs = n"
  shows "overwrite n bs w = le_word bs"
  using assms by (simp add: overwrite_def)

lemma overwrite_none [simp]:
  fixes w :: "'a::len word"
  assumes "LENGTH('a) = 8 * n"
  shows "overwrite n [] w = w"
  using assms by (simp add: overwrite_def)

subsection \<open>Round trips\<close>

lemma istream_read_prefix:
  "stream_good s \<Longrightarrow> unread s = bs @ rest \<Longrightarrow>
    istream_read (length bs) s = (bs, s\<lparr>unread := rest\<rparr>)"
  by (simp add: istream_read_def)

lemma readInto_written [stream_simps]:
  fixes v old :: "'a::len word"
  assumes "8 dvd LENGTH('a)" "stream_good s" "unread s = le_bytes (word_bytes TYPE('a)) v @ rest"
  shows "readInto old s = (True, v, s\<lparr>unread := rest\<rparr>)"
proof -
  have n: "LENGTH('a) = 8 * word_bytes TYPE('a)" using assms(1) by (simp add: word_bytes_def)
  have "istream_read (word_bytes TYPE('a)) s = (le_bytes (word_bytes TYPE('a)) v, s\<lparr>unread := rest\<rparr>)"
    using istream_read_prefix [OF assms(2,3)] by simp
  then show ?thesis
    using assms(2) n by (simp add: readInto_def overwrite_all stream_ok_def stream_good_def)
qed

lemma read_value_written [stream_simps]:
  fixes v :: "'a::len word"
  assumes "8 dvd LENGTH('a)" "stream_good s" "unread s = le_bytes (word_bytes TYPE('a)) v @ rest"
  shows "read_value s = (v, s\<lparr>unread := rest\<rparr>)"
  using readInto_written [OF assms] by (simp add: read_value_def)

lemma readFixedLengthBytes_written [stream_simps]:
  "stream_good s \<Longrightarrow> unread s = bs @ rest \<Longrightarrow> n = length bs \<Longrightarrow>
    readFixedLengthBytes n s = (bs, s\<lparr>unread := rest\<rparr>)"
  by (simp add: readFixedLengthBytes_def istream_read_prefix)

lemma length_readFixedLengthBytes: "length (fst (readFixedLengthBytes n s)) = n"
  by (auto simp: readFixedLengthBytes_def istream_read_def)

lemma stream_good_unread [simp]: "stream_good (s\<lparr>unread := bs\<rparr>) = stream_good s"
  by (simp add: stream_good_def)

lemma takeWhile_nonzero:
  "0 \<notin> set v \<Longrightarrow> takeWhile (\<lambda>b. b \<noteq> 0) (v @ 0 # rest) = v"
  "0 \<notin> set v \<Longrightarrow> dropWhile (\<lambda>b. b \<noteq> 0) (v @ 0 # rest) = 0 # rest"
  for v :: "byte list"
  by (induction v) auto

text \<open>What an archive writer writes, the archive reader reads back, and it leaves the stream
  at the first byte after it: integers of any whole number of bytes, booleans, NUL-terminated
  strings without an inner NUL, and length-prefixed byte strings whose length fits the prefix.\<close>

lemma stream_roundtrip:
  fixes v old :: "'a::len word" and junk :: byte
  assumes "8 dvd LENGTH('a)" "0 \<notin> set str" "length bs < 2 ^ LENGTH('a)"
    and s: "s = open_stream (writeValue v [] @ writeValue_bool flag [] @ writeString str [] @
      writeBytes TYPE('a) bs [] @ rest)"
  shows "\<exists>s1 s2 s3. readInto old s = (True, v, s1) \<and> readInto_bool junk s1 = (True, flag, s2) \<and>
    readString s2 = (str, s3) \<and> readBytes TYPE('a) s3 = (bs, open_stream rest)"
proof -
  let ?s = "\<lambda>bs. open_stream bs"
  have upd: "(?s a)\<lparr>unread := b\<rparr> = ?s b" "unread (?s a) = a" "stream_good (?s a)" for a b
    by (simp_all add: open_stream_def stream_good_def)
  let ?r3 = "writeBytes TYPE('a) bs [] @ rest"
  let ?r2 = "writeString str [] @ ?r3"
  let ?r1 = "writeValue_bool flag [] @ ?r2"
  have 1: "readInto old s = (True, v, ?s ?r1)"
    using readInto_written [OF assms(1), of s v ?r1 old] s by (simp add: upd writeValue_def)
  have "unread (?s ?r1) = le_bytes (word_bytes TYPE(8)) (if flag then 49 else 48 :: byte) @ ?r2"
    by (simp add: upd writeValue_bool_def writeValue_def)
  from readInto_written [OF _ upd(3) this, of junk]
  have 2: "readInto_bool junk (?s ?r1) = (True, flag, ?s ?r2)"
    by (simp add: readInto_bool_def upd)
  have 3: "readString (?s ?r2) = (str, ?s ?r3)"
    using assms(2) by (simp add: readString_def upd writeString_def takeWhile_nonzero Let_def)
  have "unat (of_nat (length bs) :: 'a word) = length bs"
    using assms(3) by (simp add: unat_of_nat)
  moreover have "read_value (?s ?r3) = (of_nat (length bs) :: 'a word, ?s (bs @ rest))"
    using read_value_written [OF assms(1) upd(3), of ?r3 "of_nat (length bs)" "bs @ rest"]
    by (simp add: upd writeBytes_def writeValue_def writeFixedLengthBytes_def)
  ultimately have 4: "readBytes TYPE('a) (?s ?r3) = (bs, ?s rest)"
    using readFixedLengthBytes_written [of "?s (bs @ rest)" bs rest]
    by (simp add: readBytes_def upd)
  from 1 2 3 4 show ?thesis by blast
qed

lemma stream_roundtrip_witness:
  "\<exists>s1 s2 s3. readInto (0 :: 32 word) (open_stream (writeValue (258 :: 32 word) [] @ writeValue_bool True [] @
      writeString [104, 105] [] @ writeBytes TYPE(32) [0, 1] [] @ [9])) = (True, 258, s1) \<and>
    readInto_bool 0 s1 = (True, True, s2) \<and>
    readString s2 = ([104, 105], s3) \<and> readBytes TYPE(32) s3 = ([0, 1], open_stream [9])"
  by (rule stream_roundtrip) simp_all

text \<open>A read of an integer from a stream that ends before its last byte reports failure,
  leaves the stream failed, and overwrites only the low bytes of the variable; once failed, a
  stream gives no bytes and leaves variables as they were.\<close>

lemma short_read_fails:
  fixes old :: "'a::len word"
  assumes "8 dvd LENGTH('a)" "length (unread s) < word_bytes TYPE('a) \<or> \<not> stream_good s"
  shows "\<exists>s'. readInto old s = (False, (if stream_good s
      then le_word (unread s @ drop (length (unread s)) (le_bytes (word_bytes TYPE('a)) old))
      else old), s') \<and> \<not> stream_good s' \<and> \<not> stillGood s'"
proof -
  have n: "LENGTH('a) = 8 * word_bytes TYPE('a)" using assms(1) by (simp add: word_bytes_def)
  show ?thesis
    using assms(2) n
    by (auto simp: readInto_def istream_read_def stream_ok_def stream_good_def stillGood_def
        overwrite_def)
qed

text \<open>A run of a buffered writer: \<open>Some bs\<close> writes, \<open>None\<close> flushes.\<close>

fun buf_run :: "byte list option list \<Rightarrow> bufwriter \<Rightarrow> bufwriter" where
  "buf_run [] w = w"
| "buf_run (Some bs # ops) w = buf_run ops (buf_write bs w)"
| "buf_run (None # ops) w = buf_run ops (buf_flush w)"

lemma buf_run_appends:
  "putpos w = length (buffer w) \<Longrightarrow>
    buf_destroy (buf_run ops w) =
      flat_data w @ buffer w @ concat (map (case_option [] (\<lambda>bs. bs)) ops)"
  by (induction ops w rule: buf_run.induct)
    (auto simp: buf_destroy_def buf_write_def buf_flush_def)

text \<open>On a chunk that holds no data yet, the buffered writer leaves in the chunk exactly the
  concatenation of what was written, wherever the writer was flushed in between.\<close>

lemma buffered_writer_appends:
  "buf_destroy (buf_run ops (newBufferedStreamWriter [])) =
    concat (map (case_option [] (\<lambda>bs. bs)) ops)"
  by (simp add: buf_run_appends newBufferedStreamWriter_def)

end
