(* ===== verification/Archive.thy ===== *)
theory Archive
  imports Streams
begin

section \<open>The archive format (\<^verbatim>\<open>src/archive\<close>)\<close>

text \<open>
  Chunk type codes (\<^verbatim>\<open>chunktypes.cpp\<close>), the list of flat chunks (\<^verbatim>\<open>flatchunk.cpp\<close>), the archive
  writer and reader, and the identifier assignment of \<^verbatim>\<open>operations.h\<close>. In results, the outer
  \<open>None\<close> is undefined behaviour or a failed assertion: a null or out-of-range access.
\<close>

subsection \<open>Chunk types\<close>

datatype EgalitoChunkType =
    TYPE_UNKNOWN | TYPE_Program | TYPE_Module | TYPE_FunctionList | TYPE_PLTList
  | TYPE_JumpTableList | TYPE_DataRegionList | TYPE_InitFunctionList | TYPE_ExternalSymbolList
  | TYPE_LibraryList | TYPE_VTableList | TYPE_Function | TYPE_Block | TYPE_Instruction
  | TYPE_PLTTrampoline | TYPE_JumpTable | TYPE_JumpTableEntry | TYPE_DataRegion
  | TYPE_TLSDataRegion | TYPE_DataSection | TYPE_DataVariable | TYPE_GlobalVariable
  | TYPE_MarkerList | TYPE_Marker | TYPE_VTable | TYPE_VTableEntry | TYPE_InitFunction
  | TYPE_ExternalSymbol | TYPE_Library | TYPE_TOTAL

text \<open>The value of the enumerator.\<close>

definition all_chunk_types :: "EgalitoChunkType list" where
  "all_chunk_types =
    [TYPE_UNKNOWN, TYPE_Program, TYPE_Module, TYPE_FunctionList, TYPE_PLTList,
     TYPE_JumpTableList, TYPE_DataRegionList, TYPE_InitFunctionList, TYPE_ExternalSymbolList,
     TYPE_LibraryList, TYPE_VTableList, TYPE_Function, TYPE_Block, TYPE_Instruction,
     TYPE_PLTTrampoline, TYPE_JumpTable, TYPE_JumpTableEntry, TYPE_DataRegion,
     TYPE_TLSDataRegion, TYPE_DataSection, TYPE_DataVariable, TYPE_GlobalVariable,
     TYPE_MarkerList, TYPE_Marker, TYPE_VTable, TYPE_VTableEntry, TYPE_InitFunction,
     TYPE_ExternalSymbol, TYPE_Library, TYPE_TOTAL]"

definition enum_value :: "EgalitoChunkType \<Rightarrow> nat" where
  "enum_value t = length (takeWhile (\<lambda>u. u \<noteq> t) all_chunk_types)"

definition ascii :: "char \<Rightarrow> byte" where
  "ascii c = of_char c"

text \<open>The static table of \<^verbatim>\<open>encodeChunkType\<close>, in its order; reading past it is undefined.\<close>

definition encode_table :: "byte list" where
  "encode_table = map ascii ''?PMFZTRSLQfbizJjD:dvAaVpsl''"

definition encodeChunkType :: "16 word \<Rightarrow> byte option" where
  "encodeChunkType t =
     (if unat t < length encode_table then Some (encode_table ! unat t) else None)"

definition decode_cases :: "(char \<times> EgalitoChunkType) list" where
  "decode_cases =
    [(CHR ''?'', TYPE_UNKNOWN), (CHR ''P'', TYPE_Program), (CHR ''M'', TYPE_Module),
     (CHR ''F'', TYPE_FunctionList), (CHR ''Z'', TYPE_PLTList), (CHR ''T'', TYPE_JumpTableList),
     (CHR ''R'', TYPE_DataRegionList), (CHR ''S'', TYPE_ExternalSymbolList),
     (CHR ''L'', TYPE_LibraryList), (CHR ''Q'', TYPE_VTableList), (CHR ''f'', TYPE_Function),
     (CHR ''b'', TYPE_Block), (CHR ''i'', TYPE_Instruction), (CHR ''z'', TYPE_PLTTrampoline),
     (CHR ''J'', TYPE_JumpTable), (CHR ''j'', TYPE_JumpTableEntry), (CHR ''D'', TYPE_DataRegion),
     (CHR '':'', TYPE_TLSDataRegion), (CHR ''d'', TYPE_DataSection), (CHR ''v'', TYPE_DataVariable),
     (CHR ''A'', TYPE_MarkerList), (CHR ''a'', TYPE_Marker), (CHR ''V'', TYPE_VTable),
     (CHR ''p'', TYPE_VTableEntry), (CHR ''s'', TYPE_ExternalSymbol), (CHR ''l'', TYPE_Library)]"

definition decodeChunkType :: "byte \<Rightarrow> EgalitoChunkType" where
  "decodeChunkType encoded =
     (case map_of (map (\<lambda>(c, t). (ascii c, t)) decode_cases) encoded of
        Some t \<Rightarrow> t
      | None \<Rightarrow> TYPE_UNKNOWN)"

fun getChunkTypeName :: "EgalitoChunkType \<Rightarrow> string" where
  "getChunkTypeName TYPE_UNKNOWN = ''UNKNOWN''"
| "getChunkTypeName TYPE_Program = ''Program''"
| "getChunkTypeName TYPE_Module = ''Module''"
| "getChunkTypeName TYPE_FunctionList = ''FunctionList''"
| "getChunkTypeName TYPE_PLTList = ''PLTList''"
| "getChunkTypeName TYPE_JumpTableList = ''JumpTableList''"
| "getChunkTypeName TYPE_DataRegionList = ''DataRegionList''"
| "getChunkTypeName TYPE_InitFunctionList = ''InitFunctionList''"
| "getChunkTypeName TYPE_ExternalSymbolList = ''ExternalSymbolList''"
| "getChunkTypeName TYPE_LibraryList = ''LibraryList''"
| "getChunkTypeName TYPE_VTableList = ''VTableList''"
| "getChunkTypeName TYPE_Function = ''Function''"
| "getChunkTypeName TYPE_Block = ''Block''"
| "getChunkTypeName TYPE_Instruction = ''Instruction''"
| "getChunkTypeName TYPE_PLTTrampoline = ''PLTTrampoline''"
| "getChunkTypeName TYPE_JumpTable = ''JumpTable''"
| "getChunkTypeName TYPE_JumpTableEntry = ''JumpTableEntry''"
| "getChunkTypeName TYPE_DataRegion = ''DataRegion''"
| "getChunkTypeName TYPE_TLSDataRegion = ''TLSDataRegion''"
| "getChunkTypeName TYPE_DataSection = ''DataSection''"
| "getChunkTypeName TYPE_DataVariable = ''DataVariable''"
| "getChunkTypeName TYPE_GlobalVariable = ''GlobalVariable''"
| "getChunkTypeName TYPE_MarkerList = ''MarkerList''"
| "getChunkTypeName TYPE_Marker = ''Marker''"
| "getChunkTypeName TYPE_VTable = ''VTable''"
| "getChunkTypeName TYPE_VTableEntry = ''VTableEntry''"
| "getChunkTypeName TYPE_InitFunction = ''InitFunction''"
| "getChunkTypeName TYPE_ExternalSymbol = ''ExternalSymbol''"
| "getChunkTypeName TYPE_Library = ''Library''"
| "getChunkTypeName TYPE_TOTAL = ''TOTAL''"

subsection \<open>Flat chunks\<close>

record 'c FlatChunk =
  flat_type :: "16 word"
  flat_id :: "32 word"
  flat_offset :: "32 word"
  flat_bytes :: "byte list"
  flat_instance :: "'c option"

definition NoneID :: "32 word" where
  "NoneID = - 1"

definition newFlat :: "16 word \<Rightarrow> 32 word \<Rightarrow> byte list \<Rightarrow> 'c FlatChunk" where
  "newFlat t i d = \<lparr>flat_type = t, flat_id = i, flat_offset = 0, flat_bytes = d, flat_instance = None\<rparr>"

definition getSize :: "'c FlatChunk \<Rightarrow> 32 word" where
  "getSize f = of_nat (length (flat_bytes f))"

definition appendData :: "byte list \<Rightarrow> 'c FlatChunk \<Rightarrow> 'c FlatChunk" where
  "appendData d f = f\<lparr>flat_bytes := flat_bytes f @ d\<rparr>"

definition setOffset :: "32 word \<Rightarrow> 'c FlatChunk \<Rightarrow> 'c FlatChunk" where
  "setOffset off f = f\<lparr>flat_offset := off\<rparr>"

record 'c FlatChunkList =
  flatList :: "'c FlatChunk option list"
  nextID :: "32 word"

definition emptyFlatList :: "'c FlatChunkList" where
  "emptyFlatList = \<lparr>flatList = [], nextID = 0\<rparr>"

definition getNextID :: "'c FlatChunkList \<Rightarrow> 32 word \<times> 'c FlatChunkList" where
  "getNextID l = (nextID l, l\<lparr>nextID := nextID l + 1\<rparr>)"

text \<open>\<^verbatim>\<open>getID() + 1\<close> is computed in 32 bits before it is compared with the size.\<close>

definition addFlatChunk :: "'c FlatChunk \<Rightarrow> 'c FlatChunkList \<Rightarrow> 'c FlatChunkList option" where
  "addFlatChunk f l =
     (let need = unat (flat_id f + 1); i = unat (flat_id f);
          fl = (if length (flatList l) < need
                then flatList l @ replicate (need - length (flatList l)) None else flatList l)
      in if i < length fl then Some (l\<lparr>flatList := fl[i := Some f]\<rparr>) else None)"

definition newFlatChunk_id ::
    "16 word \<Rightarrow> 32 word \<Rightarrow> 'c FlatChunkList \<Rightarrow> ('c FlatChunk \<times> 'c FlatChunkList) option" where
  "newFlatChunk_id t i l = (let f = newFlat t i [] in map_option (Pair f) (addFlatChunk f l))"

definition newFlatChunk ::
    "16 word \<Rightarrow> 'c FlatChunkList \<Rightarrow> ('c FlatChunk \<times> 'c FlatChunkList) option" where
  "newFlatChunk t l = (let (i, l') = getNextID l in newFlatChunk_id t i l')"

definition getFlat :: "nat \<Rightarrow> 'c FlatChunkList \<Rightarrow> 'c FlatChunk option option" where
  "getFlat i l = (if i < length (flatList l) then Some (flatList l ! i) else None)"

definition getCount :: "'c FlatChunkList \<Rightarrow> nat" where
  "getCount l = length (flatList l)"


subsection \<open>The writer\<close>

definition SIGNATURE :: "byte list" where
  "SIGNATURE = map ascii ''egalito'' @ [0xc4]"

definition VERSION :: "32 word" where
  "VERSION = 24"

record 'c EgalitoArchive =
  arch_flats :: "'c FlatChunkList"
  sourceFilename :: string
  arch_version :: "32 word"

definition newArchive :: "string \<Rightarrow> 32 word \<Rightarrow> 'c EgalitoArchive" where
  "newArchive f v = \<lparr>arch_flats = emptyFlatList, sourceFilename = f, arch_version = v\<rparr>"

definition header_size :: "32 word" where
  "header_size = of_nat (c_strlen SIGNATURE) + 4 + 4"

fun assign_offsets ::
    "32 word \<Rightarrow> 'c FlatChunk option list \<Rightarrow> 'c FlatChunk option list option" where
  "assign_offsets totalSize [] = Some []"
| "assign_offsets totalSize (None # fs) = None"
| "assign_offsets totalSize (Some f # fs) =
     map_option (Cons (Some (setOffset totalSize f)))
       (assign_offsets (totalSize + (2 + 4 * 3 + getSize f)) fs)"

definition assignOffsets :: "'c EgalitoArchive \<Rightarrow> 'c EgalitoArchive option" where
  "assignOffsets a =
     map_option (\<lambda>fs. a\<lparr>arch_flats := (arch_flats a)\<lparr>flatList := fs\<rparr>\<rparr>)
       (assign_offsets header_size (flatList (arch_flats a)))"

definition write_header :: "nat \<Rightarrow> byte list" where
  "write_header n =
     writeValue (of_nat n :: 32 word)
       (writeValue VERSION (writeFixedLengthBytes_c SIGNATURE []))"

definition write_flat :: "'c FlatChunk \<Rightarrow> byte list \<Rightarrow> byte list option" where
  "write_flat f out =
     (case encodeChunkType (flat_type f) of
        None \<Rightarrow> None
      | Some code \<Rightarrow>
          Some (writeFixedLengthBytes (flat_bytes f) (unat (getSize f))
            (writeValue (getSize f) (writeValue (flat_offset f)
              (writeValue (flat_id f) (writeValue code out))))))"

fun write_flats :: "'c FlatChunk option list \<Rightarrow> byte list \<Rightarrow> byte list option" where
  "write_flats [] out = Some out"
| "write_flats (None # fs) out = None"
| "write_flats (Some f # fs) out =
     (case write_flat f out of None \<Rightarrow> None | Some out' \<Rightarrow> write_flats fs out')"

definition writeData :: "'c EgalitoArchive \<Rightarrow> byte list option" where
  "writeData a = write_flats (flatList (arch_flats a)) (write_header (getCount (arch_flats a)))"

definition archive_write :: "'c EgalitoArchive \<Rightarrow> ('c EgalitoArchive \<times> byte list) option" where
  "archive_write a =
     (case assignOffsets a of None \<Rightarrow> None | Some a' \<Rightarrow> map_option (Pair a') (writeData a'))"

subsection \<open>The reader\<close>

text \<open>
  \<open>junk\<close> stands for the uninitialised \<^verbatim>\<open>flatCount\<close> and \<^verbatim>\<open>version\<close> that \<^verbatim>\<open>read\<close> passes by
  reference. A missing count only logs a warning.
\<close>

definition readHeader ::
    "32 word \<times> 32 word \<Rightarrow> istream \<Rightarrow> bool \<times> 32 word \<times> 32 word \<times> istream" where
  "readHeader junk s =
     (let (flatCount, version) = junk;
          (line, s1) = readFixedLengthBytes (c_strlen SIGNATURE) s
      in if \<not> stillGood s1 \<or> line \<noteq> SIGNATURE then (False, flatCount, version, s1)
         else let (ok, version', s2) = readInto version s1
         in if \<not> ok then (False, flatCount, version', s2)
            else if version' > VERSION then (False, flatCount, version', s2)
            else let (ok', flatCount', s3) = readInto flatCount s2
              in (True, flatCount', version', s3))"

definition read_flat :: "istream \<Rightarrow> 'c FlatChunk \<times> istream" where
  "read_flat s =
     (let (code, s1) = (read_value s :: byte \<times> istream);
          (i, s2) = (read_value s1 :: 32 word \<times> istream);
          (off, s3) = (read_value s2 :: 32 word \<times> istream);
          (size, s4) = (read_value s3 :: 32 word \<times> istream);
          (d, s5) = readFixedLengthBytes (unat size) s4
      in (setOffset off (newFlat (of_nat (enum_value (decodeChunkType code))) i d), s5))"

text \<open>\<open>Some None\<close> is the null pointer returned at an unexpected end of file.\<close>

fun read_flats :: "nat \<Rightarrow> istream \<Rightarrow> 'c FlatChunkList \<Rightarrow> 'c FlatChunkList option option" where
  "read_flats 0 s l = Some (Some l)"
| "read_flats (Suc n) s l =
     (let (f, s') = read_flat s
      in if \<not> stream_ok s' then Some None
         else case addFlatChunk f l of None \<Rightarrow> None | Some l' \<Rightarrow> read_flats n s' l')"

text \<open>A file that cannot be opened gives a stream that has failed.\<close>

definition open_file :: "byte list option \<Rightarrow> istream" where
  "open_file content = (case content of
       Some bs \<Rightarrow> open_stream bs
     | None \<Rightarrow> \<lparr>unread = [], eofbit = False, failbit = True\<rparr>)"

definition archive_read ::
    "32 word \<times> 32 word \<Rightarrow> string \<Rightarrow> byte list option \<Rightarrow> 'c EgalitoArchive option option" where
  "archive_read junk filename content =
     (let (ok, flatCount, version, s) = readHeader junk (open_file content)
      in if \<not> ok then Some None
         else map_option (map_option (\<lambda>l. (newArchive filename version)\<lparr>arch_flats := l\<rparr>))
           (read_flats (unat flatCount) s emptyFlatList))"

text \<open>The overload that tries the library search paths first; \<open>fs\<close> gives the content of a file.\<close>

fun archive_read_paths ::
    "32 word \<times> 32 word \<Rightarrow> (string \<Rightarrow> byte list option) \<Rightarrow> string list \<Rightarrow> string \<Rightarrow>
     'c EgalitoArchive option option" where
  "archive_read_paths junk fs [] filename = archive_read junk filename (fs filename)"
| "archive_read_paths junk fs (p # ps) filename =
     (case archive_read junk (p @ ''/'' @ filename) (fs (p @ ''/'' @ filename)) of
        None \<Rightarrow> None
      | Some (Some a) \<Rightarrow> Some (Some a)
      | Some None \<Rightarrow> archive_read_paths junk fs ps filename)"

subsection \<open>Identifiers\<close>

text \<open>
  \<^verbatim>\<open>ArchiveIDOperations\<close>: the map from objects to identifiers, over the archive's flat list. An
  object pointer is \<open>None\<close> when it is null.
\<close>

record ('o, 'c) IDOperations =
  id_flats :: "'c FlatChunkList"
  assignment :: "'o \<rightharpoonup> 32 word"

definition assign_id :: "'o option \<Rightarrow> ('o, 'c) IDOperations \<Rightarrow> 32 word \<times> ('o, 'c) IDOperations" where
  "assign_id obj st = (case obj of
       None \<Rightarrow> (NoneID, st)
     | Some ob \<Rightarrow> (case assignment st ob of
         Some i \<Rightarrow> (i, st)
       | None \<Rightarrow> (let (i, l) = getNextID (id_flats st)
           in (i, st\<lparr>id_flats := l, assignment := (assignment st)(ob \<mapsto> i)\<rparr>))))"

definition fetch_id :: "'o \<Rightarrow> ('o, 'c) IDOperations \<Rightarrow> 32 word option" where
  "fetch_id ob st = assignment st ob"

definition lookup_id :: "32 word \<Rightarrow> ('o, 'c) IDOperations \<Rightarrow> 'c option option" where
  "lookup_id i st =
     (if i = NoneID then Some None
      else case getFlat (unat i) (id_flats st) of
          Some (Some f) \<Rightarrow> Some (flat_instance f)
        | _ \<Rightarrow> None)"

definition lookupFlat :: "32 word \<Rightarrow> ('o, 'c) IDOperations \<Rightarrow> 'c FlatChunk option option" where
  "lookupFlat i st = (if i = NoneID then Some None else getFlat (unat i) (id_flats st))"

subsection \<open>Chunk type codes\<close>

lemma enum_value_nth: "i < 30 \<Longrightarrow> enum_value (all_chunk_types ! i) = i"
proof -
  have "\<forall>i \<in> set [0..<30]. enum_value (all_chunk_types ! i) = i" by code_simp
  then show "i < 30 \<Longrightarrow> ?thesis" by simp
qed


lemma encode_decode_table:
  "\<forall>t \<in> set all_chunk_types.
    ((case encodeChunkType (of_nat (enum_value t)) of None \<Rightarrow> False | Some c \<Rightarrow> decodeChunkType c = t)
      \<longleftrightarrow> enum_value t < 7)"
  by code_simp

lemma in_all_chunk_types: "t \<in> set all_chunk_types"
  by (cases t) (simp_all add: all_chunk_types_def)

text \<open>Exactly the chunk types before \<^verbatim>\<open>TYPE_InitFunctionList\<close> survive being encoded and
  decoded. The encoding table has no entry for \<^verbatim>\<open>TYPE_InitFunctionList\<close>, \<^verbatim>\<open>TYPE_GlobalVariable\<close>
  and \<^verbatim>\<open>TYPE_InitFunction\<close>, so every later type gets the code of another one, or is read past the
  end of the table.\<close>

lemma chunk_type_roundtrip:
  "(\<exists>c. encodeChunkType (of_nat (enum_value t)) = Some c \<and> decodeChunkType c = t) \<longleftrightarrow>
    enum_value t < enum_value TYPE_InitFunctionList"
proof -
  have e: "enum_value TYPE_InitFunctionList = 7" by (simp add: enum_value_def all_chunk_types_def)
  have "(case encodeChunkType (of_nat (enum_value t)) of None \<Rightarrow> False | Some c \<Rightarrow> decodeChunkType c = t)
      \<longleftrightarrow> enum_value t < 7"
    using encode_decode_table in_all_chunk_types by (rule bspec)
  then show ?thesis by (auto simp: e split: option.splits)
qed

subsection \<open>Writing, then reading\<close>

definition retype :: "16 word \<Rightarrow> 16 word" where
  "retype t = (case encodeChunkType t of
     Some c \<Rightarrow> of_nat (enum_value (decodeChunkType c)) | None \<Rightarrow> t)"

definition flat_image :: "'c FlatChunk \<Rightarrow> byte list" where
  "flat_image f = [the (encodeChunkType (flat_type f))] @ le_bytes 4 (flat_id f) @
     le_bytes 4 (flat_offset f) @ le_bytes 4 (getSize f) @ flat_bytes f"

definition stored :: "'c FlatChunk \<Rightarrow> 'd FlatChunk" where
  "stored f = \<lparr>flat_type = retype (flat_type f), flat_id = flat_id f, flat_offset = flat_offset f,
     flat_bytes = flat_bytes f, flat_instance = None\<rparr>"

definition writable :: "'c FlatChunk \<Rightarrow> bool" where
  "writable f \<longleftrightarrow> encodeChunkType (flat_type f) \<noteq> None \<and> length (flat_bytes f) < 2 ^ 32"

lemma unat_getSize: "writable f \<Longrightarrow> unat (getSize f) = length (flat_bytes f)"
  by (simp add: writable_def getSize_def unat_of_nat)

lemma le_bytes_byte: "le_bytes (Suc 0) (b :: byte) = [b]"
  by (simp add: le_bytes_def)

lemma write_flat_image:
  assumes "writable f"
  shows "write_flat f out = Some (out @ flat_image f)"
proof -
  obtain c where c: "encodeChunkType (flat_type f) = Some c"
    using assms by (auto simp: writable_def)
  show ?thesis
    using unat_getSize [OF assms] c
    by (simp add: write_flat_def flat_image_def writeValue_def writeFixedLengthBytes_def le_bytes_byte)
qed

lemma write_flats_image:
  "\<forall>f \<in> set fs. writable f \<Longrightarrow>
    write_flats (map Some fs) out = Some (out @ concat (map flat_image fs))"
  by (induction fs arbitrary: out) (simp_all add: write_flat_image)

lemma read_flat_image:
  assumes "writable f" "stream_good s" "unread s = flat_image f @ rest"
  shows "read_flat s = (stored f, s\<lparr>unread := rest\<rparr>)"
proof -
  obtain c where c: "encodeChunkType (flat_type f) = Some c"
    using assms(1) by (auto simp: writable_def)
  let ?r4 = "flat_bytes f @ rest"
  let ?r3 = "le_bytes 4 (getSize f) @ ?r4"
  let ?r2 = "le_bytes 4 (flat_offset f) @ ?r3"
  let ?r1 = "le_bytes 4 (flat_id f) @ ?r2"
  have "read_value s = (c, s\<lparr>unread := ?r1\<rparr>)"
    by (rule read_value_written) (use assms c in \<open>simp_all add: flat_image_def le_bytes_byte\<close>)
  moreover have "read_value (s\<lparr>unread := ?r1\<rparr>) = (flat_id f, s\<lparr>unread := ?r2\<rparr>)"
    using read_value_written [of "s\<lparr>unread := ?r1\<rparr>" "flat_id f" ?r2] assms(2) by simp
  moreover have "read_value (s\<lparr>unread := ?r2\<rparr>) = (flat_offset f, s\<lparr>unread := ?r3\<rparr>)"
    using read_value_written [of "s\<lparr>unread := ?r2\<rparr>" "flat_offset f" ?r3] assms(2) by simp
  moreover have "read_value (s\<lparr>unread := ?r3\<rparr>) = (getSize f, s\<lparr>unread := ?r4\<rparr>)"
    using read_value_written [of "s\<lparr>unread := ?r3\<rparr>" "getSize f" ?r4] assms(2) by simp
  moreover have "readFixedLengthBytes (unat (getSize f)) (s\<lparr>unread := ?r4\<rparr>) =
      (flat_bytes f, s\<lparr>unread := rest\<rparr>)"
    using readFixedLengthBytes_written [of "s\<lparr>unread := ?r4\<rparr>" "flat_bytes f" rest]
      assms(1,2) by (simp add: unat_getSize)
  ultimately show ?thesis
    by (simp add: read_flat_def setOffset_def newFlat_def stored_def retype_def c)
qed

lemma addFlatChunk_next:
  assumes "flat_id f = of_nat (length (flatList l))" "length (flatList l) + 1 < 2 ^ 32"
  shows "addFlatChunk f l = Some (l\<lparr>flatList := flatList l @ [Some f]\<rparr>)"
proof -
  have "unat (flat_id f) = length (flatList l)"
    using assms by (simp add: unat_of_nat)
  moreover from this assms(2) have "unat (flat_id f + 1) = length (flatList l) + 1"
    by (subst unat_add_no_wrap) simp_all
  ultimately show ?thesis by (simp add: addFlatChunk_def list_update_append)
qed

lemma read_flats_images:
  fixes l :: "'d FlatChunkList"
  assumes "\<forall>f \<in> set fs. writable f" "stream_good s" "unread s = concat (map flat_image fs) @ rest"
    and "\<And>i. i < length fs \<Longrightarrow> flat_id (fs ! i) = of_nat (length (flatList l) + i)"
    and "length (flatList l) + length fs < 2 ^ 32"
  shows "read_flats (length fs) s l =
    Some (Some (l\<lparr>flatList := flatList l @ map (Some \<circ> stored) fs\<rparr>))"
  using assms
proof (induction fs arbitrary: s l)
  case Nil
  then show ?case by simp
next
  case (Cons f fs)
  let ?rest = "concat (map flat_image fs) @ rest"
  have "read_flat s = (stored f :: 'd FlatChunk, s\<lparr>unread := ?rest\<rparr>)"
    by (rule read_flat_image) (use Cons.prems in simp_all)
  moreover have "stream_ok (s\<lparr>unread := ?rest\<rparr>)"
    using Cons.prems(2) by (simp add: stream_ok_def stream_good_def)
  moreover have "addFlatChunk (stored f) l = Some (l\<lparr>flatList := flatList l @ [Some (stored f)]\<rparr>)"
    using Cons.prems(4) [of 0] Cons.prems(5) by (intro addFlatChunk_next) (simp_all add: stored_def)
  moreover have "flat_id (fs ! i) = of_nat (Suc (length (flatList l)) + i)" if "i < length fs" for i
    using Cons.prems(4) [of "Suc i"] that by simp
  ultimately show ?case
    using Cons.IH [of "s\<lparr>unread := ?rest\<rparr>" "l\<lparr>flatList := flatList l @ [Some (stored f)]\<rparr>"]
      Cons.prems by simp
qed


lemma c_strlen_SIGNATURE: "c_strlen SIGNATURE = 8" "length SIGNATURE = 8"
  by (simp_all add: c_strlen_def SIGNATURE_def ascii_def)

lemma write_header_eq:
  "write_header n = SIGNATURE @ le_bytes 4 VERSION @ le_bytes 4 (of_nat n :: 32 word)"
  by (simp add: write_header_def writeValue_def writeFixedLengthBytes_c_def c_strlen_SIGNATURE)

lemma readHeader_written:
  assumes "stream_good s" "unread s = write_header n @ rest" "n < 2 ^ 32"
  shows "readHeader junk s = (True, of_nat n, VERSION, s\<lparr>unread := rest\<rparr>)"
proof -
  let ?r2 = "le_bytes 4 (of_nat n :: 32 word) @ rest"
  let ?r1 = "le_bytes 4 VERSION @ ?r2"
  have "readFixedLengthBytes 8 s = (SIGNATURE, s\<lparr>unread := ?r1\<rparr>)"
    by (rule readFixedLengthBytes_written)
      (use assms in \<open>simp_all add: write_header_eq c_strlen_SIGNATURE\<close>)
  moreover have "readInto v (s\<lparr>unread := ?r1\<rparr>) = (True, VERSION, s\<lparr>unread := ?r2\<rparr>)" for v
    using readInto_written [of "s\<lparr>unread := ?r1\<rparr>" VERSION ?r2] assms(1) by simp
  moreover have "readInto v (s\<lparr>unread := ?r2\<rparr>) = (True, of_nat n, s\<lparr>unread := rest\<rparr>)" for v :: "32 word"
    using readInto_written [of "s\<lparr>unread := ?r2\<rparr>" "of_nat n :: 32 word" rest] assms(1) by simp
  ultimately show ?thesis
    using assms(1)
    by (cases junk) (simp add: readHeader_def c_strlen_SIGNATURE stillGood_def VERSION_def)
qed

lemma assign_offsets_shape:
  "\<exists>fs'. assign_offsets n (map Some fs) = Some (map Some fs') \<and> length fs' = length fs \<and>
    (\<forall>i < length fs. \<exists>off. fs' ! i = setOffset off (fs ! i))"
proof (induction fs arbitrary: n)
  case Nil
  then show ?case by simp
next
  case (Cons f fs)
  from Cons [of "n + (2 + 4 * 3 + getSize f)"] obtain fs' where
    "assign_offsets (n + (2 + 4 * 3 + getSize f)) (map Some fs) = Some (map Some fs')"
    "length fs' = length fs" "\<forall>i < length fs. \<exists>off. fs' ! i = setOffset off (fs ! i)"
    by blast
  then show ?case
    by (intro exI [of _ "setOffset n f # fs'"]) (auto simp: nth_Cons split: nat.splits)
qed

text \<open>Claim C9: an archive whose flat list has no gaps, each chunk at the index of its identifier, can
  be written when every type has a code and every payload fits 32 bits, and reading the file back
  gives the same list: identifiers, offsets and payloads unchanged, each type replaced by what its
  code decodes to.\<close>

theorem archive_roundtrip:
  fixes a :: "'c EgalitoArchive"
  assumes "flatList (arch_flats a) = map Some fs" "\<forall>f \<in> set fs. writable f"
    and "\<And>i. i < length fs \<Longrightarrow> flat_id (fs ! i) = of_nat i" "length fs < 2 ^ 32"
  shows "\<exists>a' bytes fs' b. archive_write a = Some (a', bytes) \<and>
    flatList (arch_flats a') = map Some fs' \<and> length fs' = length fs \<and>
    (\<forall>i < length fs. \<exists>off. fs' ! i = setOffset off (fs ! i)) \<and>
    archive_read junk name (Some bytes) = Some (Some (b :: 'd EgalitoArchive)) \<and>
    flatList (arch_flats b) = map (Some \<circ> stored) fs' \<and> arch_version b = VERSION"
proof -
  obtain fs' where fs': "assign_offsets header_size (map Some fs) = Some (map Some fs')"
      "length fs' = length fs" "\<forall>i < length fs. \<exists>off. fs' ! i = setOffset off (fs ! i)"
    using assign_offsets_shape by blast
  let ?a = "a\<lparr>arch_flats := (arch_flats a)\<lparr>flatList := map Some fs'\<rparr>\<rparr>"
  let ?bytes = "write_header (length fs') @ concat (map flat_image fs')"
  have w: "\<forall>f \<in> set fs'. writable f"
    using fs'(2,3) assms(2) by (fastforce simp: in_set_conv_nth writable_def setOffset_def)
  have ids: "flat_id (fs' ! i) = of_nat i" if "i < length fs'" for i
    using fs'(2,3) assms(3) that by (fastforce simp: setOffset_def)
  have aw: "archive_write a = Some (?a, ?bytes)"
    using fs'(1) w assms(1)
    by (simp add: archive_write_def assignOffsets_def writeData_def write_flats_image getCount_def)
  have "readHeader junk (open_file (Some ?bytes)) =
      (True, of_nat (length fs'), VERSION, open_stream (concat (map flat_image fs')))"
    using readHeader_written [of "open_stream ?bytes" "length fs'" "concat (map flat_image fs')" junk]
      fs'(2) assms(4) by (simp add: open_file_def open_stream_def stream_good_def)
  moreover have "read_flats (length fs') (open_stream (concat (map flat_image fs')))
      (emptyFlatList :: 'd FlatChunkList) =
      Some (Some (emptyFlatList\<lparr>flatList := map (Some \<circ> stored) fs'\<rparr>))"
    using read_flats_images [OF w, of "open_stream (concat (map flat_image fs'))" "[]"
        "emptyFlatList :: 'd FlatChunkList"] ids fs'(2) assms(4)
    by (simp add: open_stream_def stream_good_def emptyFlatList_def)
  moreover have "unat (of_nat (length fs') :: 32 word) = length fs'"
    using fs'(2) assms(4) by (simp add: unat_of_nat)
  ultimately have "archive_read junk name (Some ?bytes) = Some (Some
      ((newArchive name VERSION)\<lparr>arch_flats := emptyFlatList\<lparr>flatList := map (Some \<circ> stored) fs'\<rparr>\<rparr>
        :: 'd EgalitoArchive))"
    by (simp add: archive_read_def)
  then show ?thesis
    using aw fs' by (intro exI conjI) (auto simp: newArchive_def)
qed

theorem archive_roundtrip_witness:
  "\<exists>a' bytes fs' b. archive_write ((newArchive ''x'' VERSION)\<lparr>arch_flats :=
      emptyFlatList\<lparr>flatList := map Some [newFlat 1 0 [5, 6] :: nat FlatChunk]\<rparr>\<rparr>) = Some (a', bytes) \<and>
    flatList (arch_flats a') = map Some fs' \<and> length fs' = length [newFlat 1 0 [5, 6] :: nat FlatChunk] \<and>
    (\<forall>i < length [newFlat 1 0 [5, 6] :: nat FlatChunk].
      \<exists>off. fs' ! i = setOffset off ([newFlat 1 0 [5, 6] :: nat FlatChunk] ! i)) \<and>
    archive_read (0, 0) ''x'' (Some bytes) = Some (Some (b :: nat EgalitoArchive)) \<and>
    flatList (arch_flats b) = map (Some \<circ> stored) fs' \<and> arch_version b = VERSION"
  by (rule archive_roundtrip)
    (simp_all add: newArchive_def emptyFlatList_def writable_def newFlat_def encodeChunkType_def
      encode_table_def)


subsection \<open>Offsets\<close>

lemma length_flat_image: "writable f \<Longrightarrow> length (flat_image f) = 13 + length (flat_bytes f)"
  by (simp add: flat_image_def)

lemma assign_offsets_value:
  assumes "\<forall>f \<in> set fs. writable f" "assign_offsets n (map Some fs) = Some (map Some fs')"
    "i < length fs"
  shows "flat_offset (fs' ! i) = n + of_nat (length (concat (map flat_image (take i fs)))) + of_nat i"
  using assms
proof (induction fs arbitrary: n fs' i)
  case Nil
  then show ?case by simp
next
  case (Cons f fs)
  from Cons.prems(2) obtain gs where
    gs: "assign_offsets (n + (2 + 4 * 3 + getSize f)) (map Some fs) = Some (map Some gs)"
      "fs' = setOffset n f # gs"
    by (auto simp: map_eq_Cons_conv)
  show ?case
  proof (cases i)
    case 0
    with gs show ?thesis by (simp add: setOffset_def)
  next
    case (Suc j)
    with Cons.IH [OF _ gs(1), of j] Cons.prems(1,3) gs(2) length_flat_image [of f] show ?thesis
      by (simp add: getSize_def algebra_simps)
  qed
qed



subsection \<open>Truncated archives\<close>

lemma istream_read_ok:
  assumes "istream_read n s = (bs, s')" "stream_ok s'"
  shows "stream_good s" "stream_good s'" "length bs = n" "unread s = bs @ unread s'"
  using assms by (auto simp: istream_read_def stream_ok_def stream_good_def split: if_splits)

lemma read_value_ok:
  fixes v :: "'a::len word"
  assumes "read_value s = (v, s')" "stream_ok s'" "8 dvd LENGTH('a)"
  shows "stream_good s \<and> stream_good s' \<and>
    (\<exists>bs. length bs = word_bytes TYPE('a) \<and> unread s = bs @ unread s' \<and> v = le_word bs)"
proof -
  obtain bs where bs: "istream_read (word_bytes TYPE('a)) s = (bs, s')"
      "v = overwrite (word_bytes TYPE('a)) bs 0"
    using assms(1) by (auto simp: read_value_def readInto_def split: prod.splits)
  have "LENGTH('a) = 8 * word_bytes TYPE('a)" using assms(3) by (simp add: word_bytes_def)
  with istream_read_ok [OF bs(1) assms(2)] bs(2) show ?thesis by (auto simp: overwrite_all)
qed

lemma stream_good_ok: "stream_good s \<Longrightarrow> stream_ok s"
  by (simp add: stream_good_def stream_ok_def)

lemma read_flat_ok:
  assumes "read_flat s = (f, s')" "stream_ok s'"
  shows "stream_good s \<and> (\<exists>c ib ob sb d. unread s = [c] @ ib @ ob @ sb @ d @ unread s' \<and>
    length ib = 4 \<and> length ob = 4 \<and> length sb = 4 \<and> length d = unat (le_word sb :: 32 word))"
proof -
  obtain c s1 where 1: "read_value s = (c :: byte, s1)" by fastforce
  obtain i s2 where 2: "read_value s1 = (i :: 32 word, s2)" by fastforce
  obtain off s3 where 3: "read_value s2 = (off :: 32 word, s3)" by fastforce
  obtain size s4 where 4: "read_value s3 = (size :: 32 word, s4)" by fastforce
  obtain d where 5: "istream_read (unat size) s4 = (d, s')"
    using assms(1) 1 2 3 4
    by (auto simp: read_flat_def readFixedLengthBytes_def split: prod.splits)
  note r5 = istream_read_ok [OF 5 assms(2)]
  from read_value_ok [OF 4 stream_good_ok] r5(1) obtain sb where
    r4: "stream_good s3" "length sb = 4" "unread s3 = sb @ unread s4" "size = le_word sb" by auto
  from read_value_ok [OF 3 stream_good_ok] r4(1) obtain ob where
    r3: "stream_good s2" "length ob = 4" "unread s2 = ob @ unread s3" by auto
  from read_value_ok [OF 2 stream_good_ok] r3(1) obtain ib where
    r2: "stream_good s1" "length ib = 4" "unread s1 = ib @ unread s2" by auto
  from read_value_ok [OF 1 stream_good_ok] r2(1) obtain cb where
    r1: "stream_good s" "length cb = 1" "unread s = cb @ unread s1" by auto
  from r1(2) obtain c' where "cb = [c']" by (auto simp: length_Suc_conv)
  with r1 r2 r3 r4 r5 show ?thesis by fastforce
qed

lemma read_flat_prefix:
  assumes "writable f" "unread s @ x = flat_image f @ rest" "read_flat s = (g, s')" "stream_ok s'"
  shows "length (flat_image f) \<le> length (unread s)"
proof -
  from read_flat_ok [OF assms(3,4)] obtain c ib ob sb d where
    u: "unread s = [c] @ ib @ ob @ sb @ d @ unread s'" "length ib = 4" "length ob = 4" "length sb = 4"
      "length d = unat (le_word sb :: 32 word)"
    by blast
  have "take 4 (drop 9 (unread s @ x)) = sb" using u by simp
  then have "sb = le_bytes 4 (getSize f)" by (simp add: assms(2) flat_image_def)
  with u(5) assms(1) have "length d = length (flat_bytes f)"
    by (simp add: unat_getSize)
  with u length_flat_image [OF assms(1)] show ?thesis by simp
qed

lemma read_flats_truncated:
  fixes l :: "'d FlatChunkList"
  assumes "\<forall>f \<in> set fs. writable f" "stream_good s" "unread s @ x = concat (map flat_image fs)" "x \<noteq> []"
    and "\<And>i. i < length fs \<Longrightarrow> flat_id (fs ! i) = of_nat (length (flatList l) + i)"
    and "length (flatList l) + length fs < 2 ^ 32"
  shows "read_flats (length fs) s l = Some None"
  using assms
proof (induction fs arbitrary: s l)
  case Nil
  then show ?case by simp
next
  case (Cons f fs)
  obtain g :: "'d FlatChunk" and s' where r: "read_flat s = (g, s')" by fastforce
  show ?case
  proof (cases "stream_ok s'")
    case False
    with r show ?thesis by simp
  next
    case True
    have "unread s @ x = flat_image f @ concat (map flat_image fs)" using Cons.prems(3) by simp
    moreover have "length (flat_image f) \<le> length (unread s)"
      using read_flat_prefix [OF _ calculation r True] Cons.prems(1) by simp
    ultimately have "flat_image f = take (length (flat_image f)) (unread s)"
        "concat (map flat_image fs) = drop (length (flat_image f)) (unread s) @ x"
      by (metis append_eq_append_conv_if)+
    then obtain u where u: "unread s = flat_image f @ u" "u @ x = concat (map flat_image fs)"
      by (metis append_take_drop_id)
    have rf: "read_flat s = (stored f :: 'd FlatChunk, s\<lparr>unread := u\<rparr>)"
      using read_flat_image [OF _ Cons.prems(2) u(1)] Cons.prems(1) by simp
    moreover have "addFlatChunk (stored f) l = Some (l\<lparr>flatList := flatList l @ [Some (stored f)]\<rparr>)"
      using Cons.prems(5) [of 0] Cons.prems(6) by (intro addFlatChunk_next) (simp_all add: stored_def)
    moreover have "flat_id (fs ! i) = of_nat (Suc (length (flatList l)) + i)" if "i < length fs" for i
      using Cons.prems(5) [of "Suc i"] that by simp
    moreover have "stream_ok (s\<lparr>unread := u\<rparr>)" using Cons.prems(2) by (simp add: stream_good_ok)
    ultimately show ?thesis
      using Cons.IH [of "s\<lparr>unread := u\<rparr>" "l\<lparr>flatList := flatList l @ [Some (stored f)]\<rparr>"]
        Cons.prems u(2) by simp
  qed
qed


text \<open>Claim C29: an archive file that is cut anywhere after its header is rejected: the reader returns the
  null pointer and never a shortened archive.\<close>

theorem truncated_archive_rejected:
  assumes "\<forall>f \<in> set fs. writable f" "\<And>i. i < length fs \<Longrightarrow> flat_id (fs ! i) = of_nat i"
    "length fs < 2 ^ 32" "body @ missing = concat (map flat_image fs)" "missing \<noteq> []"
  shows "archive_read junk name (Some (write_header (length fs) @ body)) =
    (Some None :: 'd EgalitoArchive option option)"
proof -
  have "readHeader junk (open_file (Some (write_header (length fs) @ body))) =
      (True, of_nat (length fs), VERSION, open_stream body)"
    using readHeader_written [of "open_stream (write_header (length fs) @ body)" "length fs" body junk]
      assms(3) by (simp add: open_file_def open_stream_def stream_good_def)
  moreover have "read_flats (length fs) (open_stream body) (emptyFlatList :: 'd FlatChunkList) = Some None"
    using read_flats_truncated [OF assms(1), of "open_stream body" missing
        "emptyFlatList :: 'd FlatChunkList"] assms
    by (simp add: open_stream_def stream_good_def emptyFlatList_def)
  moreover have "unat (of_nat (length fs) :: 32 word) = length fs"
    using assms(3) by (simp add: unat_of_nat)
  ultimately show ?thesis by (simp add: archive_read_def)
qed

theorem truncated_archive_rejected_witness:
  "archive_read (0, 0) ''x'' (Some (write_header (length [newFlat 1 0 [7] :: nat FlatChunk]) @
      butlast (concat (map flat_image [newFlat 1 0 [7] :: nat FlatChunk])))) =
    (Some None :: nat EgalitoArchive option option)"
proof (rule truncated_archive_rejected)
  show "butlast (concat (map flat_image [newFlat 1 0 [7] :: nat FlatChunk])) @ [7] =
      concat (map flat_image [newFlat 1 0 [7] :: nat FlatChunk])"
    by (simp add: flat_image_def newFlat_def butlast_append)
qed (simp_all add: writable_def newFlat_def encodeChunkType_def encode_table_def)

lemma read_value_failed: "\<not> stream_good s \<Longrightarrow> \<not> stream_good (snd (read_value s)) \<and> failbit (snd (read_value s))"
  by (simp add: read_value_def readInto_def istream_read_def stream_good_def)

lemma read_flat_failed: "\<not> stream_good s \<Longrightarrow> \<not> stream_ok (snd (read_flat s))"
  by (simp add: read_flat_def readFixedLengthBytes_def istream_read_def split_beta Let_def
      read_value_failed stream_ok_def)

text \<open>A file that ends after its version leaves the number of chunks uninitialised, and the
  reader goes on with whatever value the variable had: the file is accepted as an empty archive
  exactly when that value is zero.\<close>

lemma missing_count_accepted:
  "archive_read (n, v) name (Some (SIGNATURE @ le_bytes 4 VERSION)) =
    (if n = 0 then Some (Some (newArchive name VERSION)) else Some None)"
proof -
  let ?s = "\<lparr>unread = [], eofbit = True, failbit = True\<rparr>"
  have "readFixedLengthBytes 8 (open_stream (SIGNATURE @ le_bytes 4 VERSION)) =
      (SIGNATURE, open_stream (le_bytes 4 VERSION))"
    using readFixedLengthBytes_written
      [of "open_stream (SIGNATURE @ le_bytes 4 VERSION)" SIGNATURE "le_bytes 4 VERSION" 8]
    by (simp add: open_stream_def stream_good_def c_strlen_SIGNATURE)
  moreover have "readInto v (open_stream (le_bytes 4 VERSION)) = (True, VERSION, open_stream [])"
    using readInto_written [of "open_stream (le_bytes 4 VERSION)" VERSION "[]" v]
    by (simp add: open_stream_def stream_good_def)
  moreover have "readInto n (open_stream []) = (False, n, ?s)"
    by (simp add: readInto_def istream_read_def open_stream_def stream_good_def stream_ok_def)
  ultimately have h: "readHeader (n, v) (open_file (Some (SIGNATURE @ le_bytes 4 VERSION))) =
      (True, n, VERSION, ?s)"
    by (simp add: readHeader_def c_strlen_SIGNATURE open_file_def stillGood_def VERSION_def
        open_stream_def stream_good_def)
  show ?thesis
  proof (cases "unat n")
    case 0
    with h show ?thesis
      by (simp add: archive_read_def unat_eq_0 newArchive_def)
  next
    case (Suc k)
    then have "n \<noteq> 0" by auto
    have "\<not> stream_ok (snd (read_flat ?s :: 'a FlatChunk \<times> istream))"
      by (rule read_flat_failed) (simp add: stream_good_def)
    with h Suc \<open>n \<noteq> 0\<close> show ?thesis
      by (simp add: archive_read_def split_beta)
  qed
qed

subsection \<open>Identifiers\<close>

definition id_inv :: "('o, 'c) IDOperations \<Rightarrow> bool" where
  "id_inv st \<longleftrightarrow>
     (\<forall>ob i. assignment st ob = Some i \<longrightarrow> unat i < unat (nextID (id_flats st))) \<and>
     inj_on (assignment st) (dom (assignment st))"

fun assign_ids :: "'o option list \<Rightarrow> ('o, 'c) IDOperations \<Rightarrow> 32 word list \<times> ('o, 'c) IDOperations" where
  "assign_ids [] st = ([], st)"
| "assign_ids (ob # obs) st =
     (let (i, st1) = assign_id ob st; (rest, st2) = assign_ids obs st1 in (i # rest, st2))"

lemma assign_id_step:
  assumes "id_inv st" "unat (nextID (id_flats st)) + 1 < 2 ^ 32" "assign_id obj st = (i, st')"
  shows "id_inv st'" "assignment st \<subseteq>\<^sub>m assignment st'"
    "unat (nextID (id_flats st')) \<le> unat (nextID (id_flats st)) + 1"
    "case obj of None \<Rightarrow> i = NoneID | Some ob \<Rightarrow> assignment st' ob = Some i"
proof -
  have n: "unat (nextID (id_flats st) + 1) = unat (nextID (id_flats st)) + 1"
    using assms(2) by (subst unat_add_no_wrap) simp_all
  have new: "assignment st ob \<noteq> Some (nextID (id_flats st))" for ob
    using assms(1) by (fastforce simp: id_inv_def)
  show "id_inv st'"
    using assms(1,3) n new
    by (auto simp: assign_id_def id_inv_def getNextID_def inj_on_def less_Suc_eq
        split: option.splits if_splits) (metis domI)+
  show "assignment st \<subseteq>\<^sub>m assignment st'"
    using assms(3)
    by (auto simp: assign_id_def getNextID_def map_le_def split: option.splits)
  show "unat (nextID (id_flats st')) \<le> unat (nextID (id_flats st)) + 1"
    using assms(3) n by (auto simp: assign_id_def getNextID_def split: option.splits)
  show "case obj of None \<Rightarrow> i = NoneID | Some ob \<Rightarrow> assignment st' ob = Some i"
    using assms(3) by (auto simp: assign_id_def getNextID_def split: option.splits)
qed


lemma assign_ids_run:
  assumes "id_inv st" "unat (nextID (id_flats st)) + length obs < 2 ^ 32"
    "assign_ids obs st = (res, st')"
  shows "id_inv st' \<and> assignment st \<subseteq>\<^sub>m assignment st' \<and>
    unat (nextID (id_flats st')) < 2 ^ 32 \<and> unat (nextID (id_flats st')) \<le> unat (nextID (id_flats st)) + length obs \<and>
    list_all2 (\<lambda>obj i. case obj of None \<Rightarrow> i = NoneID | Some ob \<Rightarrow> assignment st' ob = Some i) obs res"
  using assms
proof (induction obs arbitrary: st res)
  case Nil
  then show ?case by simp
next
  case (Cons ob obs)
  obtain i st1 where 1: "assign_id ob st = (i, st1)" by fastforce
  obtain js where 2: "assign_ids obs st1 = (js, st')" "res = i # js"
    using Cons.prems(3) 1 by (auto split: prod.splits)
  note step = assign_id_step [OF Cons.prems(1) _ 1]
  have b: "unat (nextID (id_flats st)) + 1 < 2 ^ 32" using Cons.prems(2) by simp
  from Cons.IH [OF step(1) [OF b] _ 2(1)] step(3) [OF b] Cons.prems(2)
  have IH: "id_inv st'" "assignment st1 \<subseteq>\<^sub>m assignment st'" "unat (nextID (id_flats st')) < 2 ^ 32"
    "unat (nextID (id_flats st')) \<le> unat (nextID (id_flats st1)) + length obs"
    "list_all2 (\<lambda>obj i. case obj of None \<Rightarrow> i = NoneID | Some ob \<Rightarrow> assignment st' ob = Some i) obs js"
    by auto
  have "case ob of None \<Rightarrow> i = NoneID | Some ob \<Rightarrow> assignment st' ob = Some i"
    using step(4) [OF b] IH(2) by (auto simp: map_le_def dom_def split: option.splits)
  with IH 2(2) step(2,3) [OF b] show ?case by (auto intro: map_le_trans)
qed

text \<open>Claim C34: over any sequence of fewer than 2^32 calls of \<^verbatim>\<open>assign\<close> on a fresh archive, two calls
  return the same identifier exactly when they were given the same object, and only the null
  object gets \<^verbatim>\<open>NoneID\<close>.\<close>

theorem assigned_ids_unique:
  fixes obs :: "'o option list"
  assumes "length obs < 2 ^ 32" "m < length obs" "n < length obs"
  defines "ids \<equiv> fst (assign_ids obs \<lparr>id_flats = emptyFlatList :: 'c FlatChunkList, assignment = Map.empty\<rparr>)"
  shows "(ids ! m = ids ! n \<longleftrightarrow> obs ! m = obs ! n) \<and> (ids ! m = NoneID \<longleftrightarrow> obs ! m = None)"
proof -
  let ?st = "\<lparr>id_flats = emptyFlatList :: 'c FlatChunkList, assignment = (Map.empty :: 'o \<rightharpoonup> 32 word)\<rparr>"
  obtain res st' where run: "assign_ids obs ?st = (res, st')" by fastforce
  have ids: "ids = res" by (simp add: ids_def run)
  have "id_inv ?st" by (simp add: id_inv_def)
  from assign_ids_run [OF this _ run] assms(1) have r: "id_inv st'"
      "unat (nextID (id_flats st')) \<le> length obs"
      "list_all2 (\<lambda>obj i. case obj of None \<Rightarrow> i = NoneID | Some ob \<Rightarrow> assignment st' ob = Some i) obs res"
    by (auto simp: emptyFlatList_def)
  have real: "i \<noteq> NoneID" if "assignment st' ob = Some i" for ob i
  proof -
    have "unat i < unat (nextID (id_flats st'))" using r(1) that by (auto simp: id_inv_def)
    then have "unat i < 2 ^ 32 - 1" using r(2) assms(1) by simp
    then show ?thesis by (auto simp: NoneID_def unsigned_minus_1_eq_mask mask_eq_exp_minus_1)
  qed
  have inj: "ob = ob'" if "assignment st' ob = Some i" "assignment st' ob' = Some i" for ob ob' i
    using r(1) that by (auto simp: id_inv_def inj_on_def dom_def)
  have at: "case obs ! k of None \<Rightarrow> res ! k = NoneID | Some ob \<Rightarrow> assignment st' ob = Some (res ! k)"
    if "k < length obs" for k
    using r(3) that by (rule list_all2_nthD)
  show ?thesis
    using at [OF assms(2)] at [OF assms(3)] ids
    by (auto split: option.splits dest: real inj)
qed


theorem assigned_ids_unique_witness:
  "(fst (assign_ids [Some True, None, Some True, Some False]
      \<lparr>id_flats = emptyFlatList :: nat FlatChunkList, assignment = Map.empty\<rparr>) ! 0 =
    fst (assign_ids [Some True, None, Some True, Some False]
      \<lparr>id_flats = emptyFlatList :: nat FlatChunkList, assignment = Map.empty\<rparr>) ! 2 \<longleftrightarrow>
      [Some True, None, Some True, Some False] ! 0 = [Some True, None, Some True, Some False] ! 2) \<and>
   (fst (assign_ids [Some True, None, Some True, Some False]
      \<lparr>id_flats = emptyFlatList :: nat FlatChunkList, assignment = Map.empty\<rparr>) ! 0 = NoneID \<longleftrightarrow>
      [Some True, None, Some True, Some False] ! 0 = None)"
  by (rule assigned_ids_unique) simp_all

end
