(* ===== verification/DwarfCursor.thy ===== *)
theory DwarfCursor
  imports Streams "HOL-Library.Monad_Syntax"
begin

unbundle bit_operations_syntax

section \<open>DWARF cursors (\<^verbatim>\<open>src/dwarf/cursor.cpp\<close>)\<close>

text \<open>
  \<^verbatim>\<open>DwarfCursor\<close> walks over mapped memory. Memory is a partial map from addresses to bytes: an
  address that is not mapped faults, which is the value \<open>None\<close>. A result \<open>None\<close> also stands for
  undefined behaviour: a signed overflow, or a shift by at least the width of its operand. A left
  shift of an \<^verbatim>\<open>int\<close> by less than its width drops the bits shifted out, as GCC documents.
\<close>

type_synonym memory = "address \<Rightarrow> byte option"

record DwarfCursor =
  dc_start :: address
  dc_cursor :: address

type_synonym 'a reader = "memory \<Rightarrow> DwarfCursor \<Rightarrow> ('a \<times> DwarfCursor) option"

definition newDwarfCursor :: "address \<Rightarrow> DwarfCursor" where
  "newDwarfCursor a = \<lparr>dc_start = a, dc_cursor = a\<rparr>"

definition getOffset :: "DwarfCursor \<Rightarrow> 64 word" where
  "getOffset c = dc_cursor c - dc_start c"

definition skip :: "64 word \<Rightarrow> DwarfCursor \<Rightarrow> DwarfCursor" where
  "skip n c = c\<lparr>dc_cursor := dc_cursor c + n\<rparr>"

definition cursor_less :: "DwarfCursor \<Rightarrow> DwarfCursor \<Rightarrow> bool" where
  "cursor_less c d \<longleftrightarrow> dc_cursor c < dc_cursor d"

primrec mem_read :: "memory \<Rightarrow> address \<Rightarrow> nat \<Rightarrow> byte list option" where
  "mem_read mem a 0 = Some []"
| "mem_read mem a (Suc n) = do {b \<leftarrow> mem a; bs \<leftarrow> mem_read mem (a + 1) n; Some (b # bs)}"

definition mem_get :: "memory \<Rightarrow> address \<Rightarrow> 'a::len word option" where
  "mem_get mem a = do {bs \<leftarrow> mem_read mem a (word_bytes TYPE('a)); Some (le_word bs)}"

definition next_word :: "'a::len word reader" where
  "next_word mem c =
     do {e \<leftarrow> mem_get mem (dc_cursor c);
         Some (e, skip (of_nat (word_bytes TYPE('a))) c)}"

subsection \<open>LEB128\<close>

text \<open>
  The loop that \<^verbatim>\<open>nextSleb128\<close> and \<^verbatim>\<open>nextUleb128\<close> share. Each group of seven bits is an \<^verbatim>\<open>int\<close>
  that is shifted at 32 bits, and sign-extended when it is or-ed to the 64-bit result.
\<close>

function leb_loop :: "nat \<Rightarrow> 64 word \<Rightarrow> (64 word \<times> nat \<times> byte) reader" where
  "leb_loop shift result mem c =
     do {(b, c) \<leftarrow> next_word mem c;
         if shift \<ge> 32 then None
         else let result = result OR scast (push_bit shift (ucast (b AND 0x7f)) :: 32 word);
             shift = shift + 7
           in if b AND 0x80 \<noteq> 0 then leb_loop shift result mem c
              else Some ((result, shift, b), c)}"
  by pat_completeness auto
termination by (relation "measure (\<lambda>(shift, _). 32 - shift)") auto

definition LONG_LONG_MAX :: "64 word" where
  "LONG_LONG_MAX = 0x7fffffffffffffff"

definition nextSleb128 :: "64 word reader" where
  "nextSleb128 mem c =
     do {((result, shift, b), c) \<leftarrow> leb_loop 0 0 mem c;
         Some (if b AND 0x40 \<noteq> 0 \<and> shift < 128 then result OR push_bit shift LONG_LONG_MAX else result, c)}"

definition nextUleb128 :: "64 word reader" where
  "nextUleb128 mem c = do {((result, _, _), c) \<leftarrow> leb_loop 0 0 mem c; Some (result, c)}"

text \<open>\<^verbatim>\<open>nextString\<close> returns the address of the string; it runs through memory until a NUL.\<close>

partial_function (option) string_loop :: "memory \<Rightarrow> DwarfCursor \<Rightarrow> DwarfCursor option" where
  "string_loop mem c =
     Option.bind (next_word mem c)
       (\<lambda>(b :: byte, c'). if b \<noteq> 0 then string_loop mem c' else Some c')"

definition nextString :: "address reader" where
  "nextString mem c = do {c' \<leftarrow> string_loop mem c; Some (dc_cursor c, c')}"

subsection \<open>Encoded pointers\<close>

definition signed_fits :: "int \<Rightarrow> bool" where
  "signed_fits k \<longleftrightarrow> - (2 ^ 63) \<le> k \<and> k < 2 ^ 63"

definition signed_add :: "64 word \<Rightarrow> 64 word \<Rightarrow> 64 word option" where
  "signed_add a b = (if signed_fits (sint a + sint b) then Some (a + b) else None)"

definition signed_mult :: "64 word \<Rightarrow> 64 word \<Rightarrow> 64 word option" where
  "signed_mult a b = (if signed_fits (sint a * sint b) then Some (a * b) else None)"

definition signed_neg :: "64 word \<Rightarrow> 64 word option" where
  "signed_neg a = (if signed_fits (- sint a) then Some (- a) else None)"

abbreviation "DW_EH_PE_ptr \<equiv> 0x00 :: byte"
abbreviation "DW_EH_PE_uleb128 \<equiv> 0x01 :: byte"
abbreviation "DW_EH_PE_udata2 \<equiv> 0x02 :: byte"
abbreviation "DW_EH_PE_udata4 \<equiv> 0x03 :: byte"
abbreviation "DW_EH_PE_udata8 \<equiv> 0x04 :: byte"
abbreviation "DW_EH_PE_sleb128 \<equiv> 0x09 :: byte"
abbreviation "DW_EH_PE_sdata2 \<equiv> 0x0A :: byte"
abbreviation "DW_EH_PE_sdata4 \<equiv> 0x0B :: byte"
abbreviation "DW_EH_PE_sdata8 \<equiv> 0x0C :: byte"
abbreviation "DW_EH_PE_absptr \<equiv> 0x00 :: byte"
abbreviation "DW_EH_PE_pcrel \<equiv> 0x10 :: byte"
abbreviation "DW_EH_PE_omit \<equiv> 0xFF :: byte"

text \<open>
  \<^verbatim>\<open>parseNextEncodedPointer\<close>. An unknown base or format only logs. Adding a 64-bit unsigned
  value is unsigned arithmetic; adding a narrower or a signed one is signed arithmetic.
\<close>

definition pointer_base :: "byte \<Rightarrow> DwarfCursor \<Rightarrow> 64 word" where
  "pointer_base encoding c = (if encoding AND 0x70 = DW_EH_PE_pcrel then dc_cursor c else 0)"

definition add_value :: "64 word \<Rightarrow> 64 word \<times> DwarfCursor \<Rightarrow> (64 word \<times> DwarfCursor) option" where
  "add_value result vc = Some (result + fst vc, snd vc)"

definition add_signed_value :: "64 word \<Rightarrow> 64 word \<times> DwarfCursor \<Rightarrow> (64 word \<times> DwarfCursor) option" where
  "add_signed_value result vc = do {r \<leftarrow> signed_add result (fst vc); Some (r, snd vc)}"

definition next_unsigned :: "'a::len itself \<Rightarrow> 64 word reader" where
  "next_unsigned t mem c = do {(v :: 'a word, c) \<leftarrow> next_word mem c; Some (ucast v, c)}"

definition next_signed :: "'a::len itself \<Rightarrow> 64 word reader" where
  "next_signed t mem c = do {(v :: 'a word, c) \<leftarrow> next_word mem c; Some (scast v, c)}"

definition parseNextEncodedPointer :: "byte \<Rightarrow> 64 word reader" where
  "parseNextEncodedPointer encoding mem c =
     (if encoding = DW_EH_PE_omit then Some (0, c)
      else let result = pointer_base encoding c; format = encoding AND 0x0f
        in if format = DW_EH_PE_ptr then next_unsigned TYPE(64) mem c \<bind> add_value result
           else if format = DW_EH_PE_udata8 then next_unsigned TYPE(64) mem c \<bind> add_value result
           else if format = DW_EH_PE_uleb128 then nextUleb128 mem c \<bind> add_value result
           else if format = DW_EH_PE_udata2 then next_unsigned TYPE(16) mem c \<bind> add_signed_value result
           else if format = DW_EH_PE_udata4 then next_unsigned TYPE(32) mem c \<bind> add_signed_value result
           else if format = DW_EH_PE_sleb128 then nextSleb128 mem c \<bind> add_signed_value result
           else if format = DW_EH_PE_sdata2 then next_signed TYPE(16) mem c \<bind> add_signed_value result
           else if format = DW_EH_PE_sdata4 then next_signed TYPE(32) mem c \<bind> add_signed_value result
           else if format = DW_EH_PE_sdata8 then next_signed TYPE(64) mem c \<bind> add_signed_value result
           else Some (result, c))"

subsection \<open>Bytes in memory\<close>

primrec bytes_at :: "memory \<Rightarrow> address \<Rightarrow> byte list \<Rightarrow> bool" where
  "bytes_at mem a [] \<longleftrightarrow> True"
| "bytes_at mem a (b # bs) \<longleftrightarrow> mem a = Some b \<and> bytes_at mem (a + 1) bs"

definition mem_of :: "address \<Rightarrow> byte list \<Rightarrow> memory" where
  "mem_of a bs x = (if unat (x - a) < length bs then Some (bs ! unat (x - a)) else None)"

lemma mem_read_bytes_at: "mem_read mem a n = Some bs \<longleftrightarrow> length bs = n \<and> bytes_at mem a bs"
proof (induction n arbitrary: a bs)
  case 0
  then show ?case by auto
next
  case (Suc n)
  then show ?case by (cases bs) (auto simp: bind_eq_Some_conv)
qed

lemma bytes_at_append [simp]:
  "bytes_at mem a (xs @ ys) \<longleftrightarrow> bytes_at mem a xs \<and> bytes_at mem (a + of_nat (length xs)) ys"
  by (induction xs arbitrary: a) (simp_all add: algebra_simps)

lemma bytes_at_mem_of:
  assumes "length bs \<le> 2 ^ 64"
  shows "bytes_at (mem_of a bs) a bs"
proof -
  have "bytes_at (mem_of a bs) (a + of_nat k) (drop k bs)" for k
  proof (induction "length bs - k" arbitrary: k)
    case 0
    then show ?case by simp
  next
    case (Suc n)
    then have k: "k < length bs" by simp
    then have "unat (of_nat k :: address) = k" using assms by (simp add: unat_of_nat)
    then have "mem_of a bs (a + of_nat k) = Some (bs ! k)" using k by (simp add: mem_of_def)
    moreover have "bytes_at (mem_of a bs) (a + of_nat (Suc k)) (drop (Suc k) bs)"
      using Suc by (metis Suc_diff_Suc diff_Suc_1 k)
    ultimately show ?case
      using k by (simp add: Cons_nth_drop_Suc [symmetric] add.commute add.left_commute)
  qed
  from this [of 0] show ?thesis by simp
qed

lemma skip_simps [simp]:
  "dc_cursor (skip n c) = dc_cursor c + n" "dc_start (skip n c) = dc_start c"
  "skip m (skip n c) = skip (n + m) c" "skip 0 c = c"
  by (simp_all add: skip_def add.assoc)

lemma next_word_bytes:
  assumes "8 dvd LENGTH('a)" "bytes_at mem (dc_cursor c) (le_bytes (word_bytes TYPE('a)) w)"
  shows "next_word mem c = Some (w :: 'a::len word, skip (of_nat (word_bytes TYPE('a))) c)"
proof -
  have "mem_read mem (dc_cursor c) (word_bytes TYPE('a)) = Some (le_bytes (word_bytes TYPE('a)) w)"
    using assms(2) by (simp add: mem_read_bytes_at)
  then show ?thesis using assms(1) by (simp add: next_word_def mem_get_def word_bytes_def)
qed

lemma next_byte:
  "next_word mem c = (case mem (dc_cursor c) of None \<Rightarrow> None | Some b \<Rightarrow> Some (b, skip 1 c))"
  for c :: DwarfCursor
  by (simp add: next_word_def mem_get_def split: option.split)

subsection \<open>LEB128 round trips\<close>

text \<open>The encoders of the DWARF standard (section 7.6), which the decoders invert.\<close>

fun uleb_encode :: "nat \<Rightarrow> byte list" where
  "uleb_encode n = (if n < 128 then [of_nat n] else of_nat (n mod 128 + 128) # uleb_encode (n div 128))"

function sleb_encode :: "int \<Rightarrow> byte list" where
  "sleb_encode k =
     (if - 64 \<le> k \<and> k < 64 then [of_int (k mod 128)]
      else of_int (k mod 128 + 128) # sleb_encode (k div 128))"
  by pat_completeness auto
termination by (relation "measure (\<lambda>k. nat \<bar>k\<bar>)") auto

declare uleb_encode.simps [simp del] sleb_encode.simps [simp del] leb_loop.simps [simp del]

lemma scast_or: "scast (a OR b) = (scast a OR scast b :: 64 word)" for a b :: "32 word"
  by (rule bit_word_eqI) (auto simp: bit_signed_iff bit_or_iff)

text \<open>The low seven bits and the continuation flag of a byte of an encoding.\<close>

lemma byte_group:
  assumes "v < 128"
  shows "(of_nat v :: byte) AND 0x7f = of_nat v" "(of_nat v :: byte) AND 0x80 = 0"
    "(of_nat (v + 128) :: byte) AND 0x7f = of_nat v" "(of_nat (v + 128) :: byte) AND 0x80 = 0x80"
proof -
  have "\<forall>v \<in> set [0..<128]. (of_nat v :: byte) AND 0x7f = of_nat v \<and> (of_nat v :: byte) AND 0x80 = 0 \<and>
    (of_nat (v + 128) :: byte) AND 0x7f = of_nat v \<and> (of_nat (v + 128) :: byte) AND 0x80 = 0x80"
    by code_simp
  then show "(of_nat v :: byte) AND 0x7f = of_nat v" "(of_nat v :: byte) AND 0x80 = 0"
    "(of_nat (v + 128) :: byte) AND 0x7f = of_nat v" "(of_nat (v + 128) :: byte) AND 0x80 = 0x80"
    using assms by auto
qed

text \<open>One turn of the loop, on a last byte and on a byte with the continuation flag.\<close>

lemma leb_loop_last:
  assumes "mem (dc_cursor c) = Some (of_nat v)" "v < 128" "shift < 32"
  shows "leb_loop shift r mem c =
    Some ((r OR scast (push_bit shift (of_nat v) :: 32 word), shift + 7, of_nat v), skip 1 c)"
proof -
  have "ucast (of_nat v :: byte) = (of_nat v :: 32 word)"
    using assms(2) by (simp add: unsigned_of_nat take_bit_nat_eq_self)
  then show ?thesis
    using assms by (subst leb_loop.simps) (simp add: next_byte byte_group [OF assms(2)])
qed

lemma leb_loop_more:
  assumes "mem (dc_cursor c) = Some (of_nat (v + 128))" "v < 128" "shift < 32"
  shows "leb_loop shift r mem c =
    leb_loop (shift + 7) (r OR scast (push_bit shift (of_nat v) :: 32 word)) mem (skip 1 c)"
proof -
  have "ucast (of_nat v :: byte) = (of_nat v :: 32 word)"
    using assms(2) by (simp add: unsigned_of_nat take_bit_nat_eq_self)
  then show ?thesis
    using assms byte_group [OF assms(2)] by (subst leb_loop.simps) (simp add: next_byte)
qed

lemma leb_loop_overrun: "32 \<le> shift \<Longrightarrow> leb_loop shift r mem c = None"
  by (subst leb_loop.simps) (auto simp: next_byte split: option.split)

lemma of_nat_groups:
  "(of_nat n :: 'a::len word) = of_nat (n mod 128) OR push_bit 7 (of_nat (n div 128))"
proof (rule bit_word_eqI)
  fix i assume "i < LENGTH('a)"
  moreover have "n mod 128 = take_bit 7 n" "n div 128 = drop_bit 7 n"
    by (simp_all add: take_bit_eq_mod drop_bit_eq_div)
  ultimately show "bit (of_nat n :: 'a word) i \<longleftrightarrow> bit (of_nat (n mod 128) OR push_bit 7 (of_nat (n div 128)) :: 'a word) i"
    by (auto simp: bit_of_nat_iff bit_or_iff bit_push_bit_iff bit_take_bit_iff bit_drop_bit_eq)
qed

lemma uleb_loop:
  assumes "n < 2 ^ (35 - shift)" "7 dvd shift" "shift < 35" "bytes_at mem (dc_cursor c) (uleb_encode n)"
  shows "\<exists>s b. leb_loop shift r mem c =
    Some ((r OR scast (push_bit shift (of_nat n) :: 32 word), s, b), skip (of_nat (length (uleb_encode n))) c)"
  using assms
proof (induction n arbitrary: shift r c rule: uleb_encode.induct)
  case (1 n)
  from 1(3,4) have s: "shift \<le> 28" by (auto elim!: dvdE)
  show ?case
  proof (cases "n < 128")
    case True
    with 1(5) s show ?thesis by (simp add: leb_loop_last uleb_encode.simps)
  next
    case False
    have "\<not> shift = 28" using False 1(2) by auto
    with s 1(3) have s': "shift < 28" by auto
    define m where "m = 35 - (shift + 7)"
    then have "35 - shift = 7 + m" using s' by simp
    with 1(2) have "n < 128 * 2 ^ m" by (simp add: power_add)
    then have "n div 128 < 2 ^ (35 - (shift + 7))"
      unfolding m_def by (simp add: less_mult_imp_div_less mult.commute)
    with 1(1) [of "shift + 7" "skip 1 c"] False 1(3,5) s'
    obtain s b where "leb_loop (shift + 7) (r OR scast (push_bit shift (of_nat (n mod 128)) :: 32 word)) mem (skip 1 c) =
        Some (((r OR scast (push_bit shift (of_nat (n mod 128)) :: 32 word)) OR
          scast (push_bit (shift + 7) (of_nat (n div 128)) :: 32 word), s, b),
          skip (of_nat (length (uleb_encode (n div 128)))) (skip 1 c))"
      by (simp add: uleb_encode.simps [of n]) blast
    moreover have "mem (dc_cursor c) = Some (of_nat (n mod 128 + 128))"
      using 1(5) False by (simp add: uleb_encode.simps [of n])
    moreover have "push_bit shift (of_nat n :: 32 word) =
        push_bit shift (of_nat (n mod 128)) OR push_bit (shift + 7) (of_nat (n div 128))"
      by (subst of_nat_groups) (simp add: push_bit_or push_bit_push_bit)
    ultimately show ?thesis
      using leb_loop_more [of mem c "n mod 128" shift r] s' False
      by (simp add: uleb_encode.simps [of n] scast_or or.assoc)
  qed
qed

lemma uleb_loop_overrun:
  assumes "2 ^ (35 - shift) \<le> n" "7 dvd shift" "shift \<le> 35" "bytes_at mem (dc_cursor c) (uleb_encode n)"
  shows "leb_loop shift r mem c = None"
  using assms
proof (induction n arbitrary: shift r c rule: uleb_encode.induct)
  case (1 n)
  show ?case
  proof (cases "shift = 35")
    case True
    then show ?thesis by (simp add: leb_loop_overrun)
  next
    case False
    with 1(3,4) have s: "shift \<le> 28" by (auto elim!: dvdE)
    define m where "m = 35 - (shift + 7)"
    then have e: "35 - shift = 7 + m" using s by simp
    have "(2::nat) ^ 7 \<le> 2 ^ (35 - shift)" using s by (intro power_increasing) auto
    with 1(2) have n: "\<not> n < 128" by simp
    have "2 ^ (35 - (shift + 7)) \<le> n div 128"
      using 1(2) unfolding e m_def [symmetric] by (simp add: power_add less_eq_div_iff_mult_less_eq mult.commute)
    with 1(1) [of "shift + 7" "skip 1 c"] n 1(3,5) s
    have "leb_loop (shift + 7) r' mem (skip 1 c) = None" for r'
      by (simp add: uleb_encode.simps [of n])
    moreover have "mem (dc_cursor c) = Some (of_nat (n mod 128 + 128))"
      using 1(5) n by (simp add: uleb_encode.simps [of n])
    ultimately show ?thesis using leb_loop_more [of mem c "n mod 128" shift r] s by simp
  qed
qed

lemma byte_sign: "v < 128 \<Longrightarrow> (of_nat v :: byte) AND 0x40 \<noteq> 0 \<longleftrightarrow> 64 \<le> v"
proof -
  have "\<forall>v \<in> set [0..<128]. (of_nat v :: byte) AND 0x40 \<noteq> 0 \<longleftrightarrow> 64 \<le> v" by code_simp
  then show "v < 128 \<Longrightarrow> ?thesis" by auto
qed

lemma take_bit_groups:
  "(of_int (take_bit (7 + m) k) :: 'a::len word) =
    of_nat (nat (k mod 128)) OR push_bit 7 (of_int (take_bit m (k div 128)))"
proof (rule bit_word_eqI)
  fix i assume "i < LENGTH('a)"
  moreover have "k mod 128 = take_bit 7 k" "k div 128 = drop_bit 7 k"
    by (simp_all add: take_bit_eq_mod drop_bit_eq_div)
  ultimately show "bit (of_int (take_bit (7 + m) k) :: 'a word) i \<longleftrightarrow>
      bit (of_nat (nat (k mod 128)) OR push_bit 7 (of_int (take_bit m (k div 128))) :: 'a word) i"
    by (auto simp: bit_of_int_iff bit_or_iff bit_push_bit_iff bit_take_bit_iff bit_drop_bit_eq)
qed

definition signed_range :: "nat \<Rightarrow> int \<Rightarrow> bool" where
  "signed_range n k \<longleftrightarrow> - (2 ^ n) \<le> k \<and> k < 2 ^ n"

lemma signed_range_div: "signed_range (7 + m) k \<longleftrightarrow> signed_range m (k div 128)"
  by (auto simp: signed_range_def power_add)

lemma signed_range_small: "signed_range 6 k \<longleftrightarrow> - 64 \<le> k \<and> k < 64"
  by (auto simp: signed_range_def)

lemma sleb_loop:
  assumes "signed_range (34 - shift) k" "7 dvd shift" "shift < 35"
    "bytes_at mem (dc_cursor c) (sleb_encode k)"
  shows "\<exists>m b. leb_loop shift r mem c =
      Some ((r OR scast (push_bit shift (of_int (take_bit (7 + m) k)) :: 32 word), shift + (7 + m), b),
        skip (of_nat (length (sleb_encode k))) c) \<and>
    shift + 7 + m \<le> 35 \<and> 7 dvd m \<and> (b AND 0x40 \<noteq> 0 \<longleftrightarrow> k < 0) \<and> signed_range (6 + m) k"
  using assms
proof (induction k arbitrary: shift r c rule: sleb_encode.induct)
  case (1 k)
  from 1(3,4) have s: "shift \<le> 28" by (auto elim!: dvdE)
  let ?v = "nat (k mod 128)"
  have v: "?v < 128" by simp
  show ?case
  proof (cases "- 64 \<le> k \<and> k < 64")
    case True
    then have m0: "mem (dc_cursor c) = Some (of_nat ?v)"
      using 1(5) by (simp add: sleb_encode.simps [of k])
    have "k < 0 \<longleftrightarrow> 64 \<le> k mod 128" using True by presburger
    then have "k < 0 \<longleftrightarrow> 64 \<le> ?v" by linarith
    then have sgn: "(of_nat ?v :: byte) AND 0x40 \<noteq> 0 \<longleftrightarrow> k < 0" using byte_sign [OF v] by metis
    have t: "(of_int (take_bit (7 + 0) k) :: 32 word) = of_nat ?v" by (simp add: take_bit_eq_mod)
    have l: "length (sleb_encode k) = 1" "signed_range (6 + 0) k"
      using True by (simp_all add: sleb_encode.simps [of k] signed_range_small)
    have "leb_loop shift r mem c =
      Some ((r OR scast (push_bit shift (of_int (take_bit (7 + 0) k)) :: 32 word), shift + (7 + 0), of_nat ?v),
        skip (of_nat (length (sleb_encode k))) c)"
      unfolding t l(1) by (subst leb_loop_last [where mem = mem and c = c, OF m0 v]) (use s in simp_all)
    with sgn l(2) s show ?thesis by (intro exI [of _ 0] exI [of _ "of_nat ?v"] conjI) simp_all
  next
    case False
    have "\<not> signed_range 6 k" using False by (simp only: signed_range_small) simp
    then have "shift \<noteq> 28" using 1(2) by auto
    with s 1(3) have s': "shift \<le> 21" by presburger
    then have "34 - shift = 7 + (34 - (shift + 7))" by simp
    with 1(2) have r: "signed_range (34 - (shift + 7)) (k div 128)" using signed_range_div by metis
    let ?r = "r OR scast (push_bit shift (of_nat ?v) :: 32 word)"
    have m0: "mem (dc_cursor c) = Some (of_nat (?v + 128))" and
      m1: "bytes_at mem (dc_cursor (skip 1 c)) (sleb_encode (k div 128))"
      using 1(5) False by (simp_all add: sleb_encode.simps [of k])
    have d: "7 dvd shift + 7" "shift + 7 < 35" using 1(3) s' by simp_all
    from 1(1) [OF False r d m1] obtain m b where
      l: "leb_loop (shift + 7) ?r mem (skip 1 c) =
        Some ((?r OR scast (push_bit (shift + 7) (of_int (take_bit (7 + m) (k div 128))) :: 32 word),
          shift + 7 + (7 + m), b), skip (of_nat (length (sleb_encode (k div 128)))) (skip 1 c))"
      and m: "shift + 7 + 7 + m \<le> 35" "7 dvd m" "b AND 0x40 \<noteq> 0 \<longleftrightarrow> k div 128 < 0"
        "signed_range (6 + m) (k div 128)" by blast
    have "signed_range (6 + (7 + m)) k" "k div 128 < 0 \<longleftrightarrow> k < 0"
      using m(4) signed_range_div [of "6 + m" k] by (auto simp: add.commute add.left_commute)
    moreover have "push_bit shift (of_int (take_bit (7 + (7 + m)) k) :: 32 word) =
        push_bit shift (of_nat ?v) OR push_bit (shift + 7) (of_int (take_bit (7 + m) (k div 128)))"
      unfolding take_bit_groups [of "7 + m" k] by (simp only: push_bit_or push_bit_push_bit)
    moreover have "length (sleb_encode k) = Suc (length (sleb_encode (k div 128)))"
      using False by (subst sleb_encode.simps) (simp only: if_False list.size)
    moreover have "leb_loop shift r mem c = leb_loop (shift + 7) ?r mem (skip 1 c)"
      by (rule leb_loop_more [where mem = mem and c = c, OF m0 v]) (use s in simp)
    ultimately show ?thesis
      using m l by (intro exI [of _ "7 + m"] exI [of _ b])
        (simp add: scast_or or.assoc del: of_nat_nat)
  qed
qed

lemma bit_signed_range: "signed_range n k \<Longrightarrow> n \<le> i \<Longrightarrow> bit k i \<longleftrightarrow> k < 0"
proof -
  assume k: "signed_range n k" and "n \<le> i"
  then have "(2::int) ^ n \<le> 2 ^ i" by (intro power_increasing) simp_all
  with k have "- (2 ^ i) \<le> k" "k < 2 ^ i" unfolding signed_range_def by linarith+
  then have "signed_take_bit i k = k" by (simp add: signed_take_bit_int_eq_self)
  then show ?thesis by (metis bit_signed_take_bit_iff min.idem signed_take_bit_negative_iff)
qed

lemma bit_LONG_LONG_MAX: "bit LONG_LONG_MAX i \<longleftrightarrow> i < 63"
proof -
  have *: "LONG_LONG_MAX = mask 63" by (simp add: LONG_LONG_MAX_def mask_eq_exp_minus_1)
  show ?thesis unfolding * bit_mask_iff by auto
qed

lemma nextSleb128_encoded:
  assumes k31: "signed_range 31 k" and bytes: "bytes_at mem (dc_cursor c) (sleb_encode k)"
  shows "nextSleb128 mem c = Some (of_int k, skip (of_nat (length (sleb_encode k))) c)"
proof -
  have "signed_range (34 - 0) k" using k31 by (auto simp: signed_range_def)
  from sleb_loop [OF this _ _ bytes, of 0] obtain m b where
    l: "leb_loop 0 0 mem c = Some ((scast (of_int (take_bit (7 + m) k) :: 32 word), 7 + m, b),
        skip (of_nat (length (sleb_encode k))) c)"
    and m: "7 + m \<le> 35" "7 dvd m" "b AND 0x40 \<noteq> 0 \<longleftrightarrow> k < 0" "signed_range (6 + m) k"
    by auto
  have m': "7 + m < 31 \<or> 7 + m = 35" using m(1,2) by presburger
  have "(if k < 0 then scast (of_int (take_bit (7 + m) k) :: 32 word) OR push_bit (7 + m) LONG_LONG_MAX
      else scast (of_int (take_bit (7 + m) k) :: 32 word)) = (of_int k :: 64 word)" (is "?l = _")
  proof (rule bit_word_eqI)
    fix i assume i: "i < LENGTH(64)"
    have 1: "bit k j \<longleftrightarrow> k < 0" if "31 \<le> j" for j using bit_signed_range [OF k31 that] .
    have 2: "bit k j \<longleftrightarrow> k < 0" if "6 + m \<le> j" for j using bit_signed_range [OF m(4) that] .
    have "bit (scast (of_int (take_bit (7 + m) k) :: 32 word) :: 64 word) i \<longleftrightarrow>
        (if i < 32 then i < 7 + m \<and> bit k i else 31 < 7 + m \<and> bit k 31)"
      using i 1 [of 31] 1 [of i] by (auto simp: bit_signed_iff bit_of_int_iff bit_take_bit_iff min_def)
    then show "bit ?l i \<longleftrightarrow> bit (of_int k :: 64 word) i"
      using i m' 1 [of 31] 1 [of i] 2 [of i]
      by (auto simp: bit_or_iff bit_push_bit_iff bit_LONG_LONG_MAX bit_of_int_iff)
  qed
  with l m(1,3) show ?thesis by (auto simp: nextSleb128_def)
qed

subsection \<open>Decoders that invert an encoder\<close>

text \<open>
  What a parser relies on when it reads a field: where memory holds the encoding of a valid value,
  the reader returns the value and stops right after the encoding.
\<close>

locale memory_codec =
  fixes valid :: "'v \<Rightarrow> bool" and enc :: "'v \<Rightarrow> byte list" and val :: "'v \<Rightarrow> 'w"
    and dec :: "memory \<Rightarrow> DwarfCursor \<Rightarrow> ('w \<times> DwarfCursor) option"
  assumes dec_enc: "valid v \<Longrightarrow> bytes_at mem (dc_cursor c) (enc v) \<Longrightarrow>
      dec mem c = Some (val v, skip (of_nat (length (enc v))) c)"
begin

lemma dec_bind:
  assumes "valid v" "bytes_at mem (dc_cursor c) (enc v @ rest)"
  shows "Option.bind (dec mem c) k = k (val v, skip (of_nat (length (enc v))) c)"
    and "bytes_at mem (dc_cursor (skip (of_nat (length (enc v))) c)) rest"
  using assms by (simp_all add: dec_enc)

text \<open>Reading back a sequence of fields.\<close>

lemma dec_seq:
  assumes "\<forall>v \<in> set vs. valid v" "bytes_at mem (dc_cursor c) (concat (map enc vs))"
  shows "foldl (\<lambda>r _. do {(ws, c) \<leftarrow> r; (w, c) \<leftarrow> dec mem c; Some (ws @ [w], c)}) (Some (ws0, c)) vs =
    Some (ws0 @ map val vs, skip (of_nat (length (concat (map enc vs)))) c)"
  using assms
proof (induction vs arbitrary: c ws0)
  case Nil
  then show ?case by simp
next
  case (Cons v vs)
  then have "dec mem c = Some (val v, skip (of_nat (length (enc v))) c)" by (auto intro: dec_enc)
  then show ?case
    using Cons.IH [of "skip (of_nat (length (enc v))) c" "ws0 @ [val v]"] Cons.prems by simp
qed

end

lemma nextUleb128_encoded:
  assumes "n < 2 ^ 35" "bytes_at mem (dc_cursor c) (uleb_encode n)"
  shows "nextUleb128 mem c = Some (scast (of_nat n :: 32 word), skip (of_nat (length (uleb_encode n))) c)"
  using uleb_loop [of n 0 mem c 0] assms by (auto simp: nextUleb128_def)

lemma scast_of_nat: "n < 2 ^ 31 \<Longrightarrow> scast (of_nat n :: 32 word) = (of_nat n :: 64 word)"
  by (simp add: scast_eq signed_of_nat signed_take_bit_int_eq_self)

interpretation uleb: memory_codec "\<lambda>n. n < 2 ^ 31" uleb_encode of_nat nextUleb128
proof
  fix n :: nat and mem and c :: DwarfCursor
  assume "n < 2 ^ 31" "bytes_at mem (dc_cursor c) (uleb_encode n)"
  then show "nextUleb128 mem c = Some (of_nat n, skip (of_nat (length (uleb_encode n))) c)"
    using nextUleb128_encoded [of n mem c] scast_of_nat [of n] by simp
qed

interpretation sleb: memory_codec "signed_range 31" sleb_encode of_int nextSleb128
  by unfold_locales (rule nextSleb128_encoded)

interpretation byte: memory_codec "\<lambda>_. True" "\<lambda>b. [b]" "\<lambda>b :: byte. b" next_word
  by unfold_locales (simp add: next_byte)

interpretation half: memory_codec "\<lambda>_. True" "le_bytes 2" "\<lambda>w :: 16 word. w" next_word
  using next_word_bytes [where 'a = 16] by unfold_locales simp

interpretation int32: memory_codec "\<lambda>_. True" "le_bytes 4" "\<lambda>w :: 32 word. w" next_word
  using next_word_bytes [where 'a = 32] by unfold_locales simp

interpretation int64: memory_codec "\<lambda>_. True" "le_bytes 8" "\<lambda>w :: 64 word. w" next_word
  using next_word_bytes [where 'a = 64] by unfold_locales simp

text \<open>Claim C30: \<^verbatim>\<open>nextUleb128\<close> on the ULEB128 encoding of \<open>n\<close>: below \<open>2 ^ 31\<close> it returns \<open>n\<close> and
  leaves the cursor after the encoding; below \<open>2 ^ 35\<close> it returns the low 32 bits of \<open>n\<close>,
  sign-extended; from there on it shifts an \<^verbatim>\<open>int\<close> by more than its width.\<close>

theorem uleb128_decodes:
  assumes "bytes_at mem (dc_cursor c) (uleb_encode n)"
  shows "nextUleb128 mem c =
    (if n < 2 ^ 31 then Some (of_nat n, skip (of_nat (length (uleb_encode n))) c)
     else if n < 2 ^ 35 then Some (scast (of_nat n :: 32 word), skip (of_nat (length (uleb_encode n))) c)
     else None)"
proof (cases "n < 2 ^ 35")
  case True
  with assms uleb.dec_enc [of n mem c] nextUleb128_encoded [of n mem c] show ?thesis by simp
next
  case False
  then have "leb_loop 0 0 mem c = None" using uleb_loop_overrun [of 0 n mem c 0] assms by simp
  moreover have "\<not> n < 2 ^ 31" using False by simp
  ultimately show ?thesis using False by (simp add: nextUleb128_def)
qed

theorem uleb128_decodes_witness:
  "nextUleb128 (mem_of 0x1000 [0xE5, 0x8E, 0x26]) (newDwarfCursor 0x1000) =
    Some (624485, skip 3 (newDwarfCursor 0x1000))"
  using uleb128_decodes [of "mem_of 0x1000 [0xE5, 0x8E, 0x26]" "newDwarfCursor 0x1000" 624485]
    bytes_at_mem_of [of "[0xE5, 0x8E, 0x26]" "0x1000"]
  by (simp add: newDwarfCursor_def uleb_encode.simps)

text \<open>\<^verbatim>\<open>nextSleb128\<close> on the SLEB128 encoding of a 32-bit signed integer returns that
  integer and leaves the cursor after the encoding.\<close>

lemma sleb128_decodes:
  assumes "- (2 ^ 31) \<le> k" "k < 2 ^ 31" "bytes_at mem (dc_cursor c) (sleb_encode k)"
  shows "nextSleb128 mem c = Some (of_int k, skip (of_nat (length (sleb_encode k))) c)"
  using assms by (intro sleb.dec_enc) (simp_all add: signed_range_def)

lemma sleb128_decodes_witness:
  "nextSleb128 (mem_of 0x1000 [0x80, 0x7f]) (newDwarfCursor 0x1000) =
    Some (- 128, skip 2 (newDwarfCursor 0x1000))"
  using sleb128_decodes [of "- 128" "mem_of 0x1000 [0x80, 0x7f]" "newDwarfCursor 0x1000"]
    bytes_at_mem_of [of "[0x80, 0x7f]" "0x1000"]
  by (simp add: newDwarfCursor_def sleb_encode.simps)

subsection \<open>Strings and pointers\<close>

lemma string_loop_bytes:
  assumes "0 \<notin> set str" "bytes_at mem (dc_cursor c) (str @ [0])"
  shows "string_loop mem c = Some (skip (of_nat (Suc (length str))) c)"
  using assms
proof (induction str arbitrary: c)
  case Nil
  then show ?case by (subst string_loop.simps) (simp add: next_byte)
next
  case (Cons b str)
  then show ?case
    using Cons.IH [of "skip 1 c"] by (subst string_loop.simps) (simp add: next_byte add.assoc)
qed

lemma nextString_bytes:
  "0 \<notin> set str \<Longrightarrow> bytes_at mem (dc_cursor c) (str @ [0]) \<Longrightarrow>
    nextString mem c = Some (dc_cursor c, skip (of_nat (Suc (length str))) c)"
  by (simp add: nextString_def string_loop_bytes)

text \<open>The encoding of a pointer to \<open>t\<close> at address \<open>a\<close>, where the format can hold it.\<close>

definition pointer_distance :: "byte \<Rightarrow> address \<Rightarrow> address \<Rightarrow> int" where
  "pointer_distance encoding a t = uint t - (if encoding AND 0x70 = DW_EH_PE_pcrel then uint a else 0)"

definition encode_distance :: "byte \<Rightarrow> int \<Rightarrow> byte list option" where
  "encode_distance format d =
     (if format \<in> {DW_EH_PE_ptr, DW_EH_PE_udata8, DW_EH_PE_sdata8} then Some (le_bytes 8 (of_int d :: 64 word))
      else if format = DW_EH_PE_uleb128 \<and> 0 \<le> d \<and> d < 2 ^ 31 then Some (uleb_encode (nat d))
      else if format = DW_EH_PE_sleb128 \<and> signed_range 31 d then Some (sleb_encode d)
      else if format = DW_EH_PE_udata2 \<and> 0 \<le> d \<and> d < 2 ^ 16 then Some (le_bytes 2 (of_int d :: 16 word))
      else if format = DW_EH_PE_udata4 \<and> 0 \<le> d \<and> d < 2 ^ 32 then Some (le_bytes 4 (of_int d :: 32 word))
      else if format = DW_EH_PE_sdata2 \<and> signed_range 15 d then Some (le_bytes 2 (of_int d :: 16 word))
      else if format = DW_EH_PE_sdata4 \<and> signed_range 31 d then Some (le_bytes 4 (of_int d :: 32 word))
      else None)"

lemma next_unsigned_bytes:
  assumes "8 dvd LENGTH('a)" "0 \<le> d" "d < 2 ^ LENGTH('a)"
    "bytes_at mem (dc_cursor c) (le_bytes (word_bytes TYPE('a)) (of_int d :: 'a::len word))"
  shows "next_unsigned TYPE('a) mem c = Some (of_int d, skip (of_nat (word_bytes TYPE('a))) c)"
  using assms next_word_bytes [OF assms(1,4)]
  by (simp add: next_unsigned_def unsigned_of_int take_bit_int_eq_self)

lemma next_signed_bytes:
  assumes "8 dvd LENGTH('a)" "signed_range (LENGTH('a) - 1) d"
    "bytes_at mem (dc_cursor c) (le_bytes (word_bytes TYPE('a)) (of_int d :: 'a::len word))"
  shows "next_signed TYPE('a) mem c = Some (of_int d, skip (of_nat (word_bytes TYPE('a))) c)"
  using assms(2) next_word_bytes [OF assms(1,3)]
  by (simp add: next_signed_def signed_of_int signed_range_def signed_take_bit_int_eq_self)

lemma add_distance:
  assumes "a < 2 ^ 63" "t < 2 ^ 63" "of_int d = t - a" "d = uint t - uint a"
  shows "add_value a (of_int d, c) = Some (t, c)" "add_signed_value a (of_int d, c) = Some (t, c)"
proof -
  have u: "uint a < 2 ^ 63" "uint t < 2 ^ 63" using assms(1,2) by (simp_all add: word_less_def)
  have "0 \<le> uint a" by simp
  then have "- (2 ^ 63) \<le> uint a" by (rule order_trans [rotated]) simp
  then have a: "sint a = uint a" using u(1) by (simp add: sint_uint signed_take_bit_int_eq_self)
  have "0 \<le> uint t" "0 \<le> uint a" by simp_all
  with u have "- (2 ^ 63) \<le> d" "d < 2 ^ 63" unfolding assms(4) by linarith+
  then have d: "sint (of_int d :: 64 word) = d" by (simp add: signed_of_int signed_take_bit_int_eq_self)
  have "sint a + sint (of_int d :: 64 word) = uint t" using a d assms(4) by linarith
  moreover have "signed_fits (uint t)"
    using u(2) \<open>0 \<le> uint t\<close> order_trans [OF _ \<open>0 \<le> uint t\<close>, of "- (2 ^ 63)"]
    by (simp add: signed_fits_def)
  ultimately have "signed_fits (sint a + sint (of_int d :: 64 word))" by metis
  then show "add_signed_value a (of_int d, c) = Some (t, c)"
    using assms(3) by (simp add: add_signed_value_def signed_add_def)
  show "add_value a (of_int d, c) = Some (t, c)" using assms(3) by (simp add: add_value_def)
qed

lemma parseNextEncodedPointer_encoded:
  assumes "encoding \<noteq> DW_EH_PE_omit"
    and "encode_distance (encoding AND 0x0f) (pointer_distance encoding (dc_cursor c) t) = Some bs"
    and "bytes_at mem (dc_cursor c) bs" "dc_cursor c < 2 ^ 63" "t < 2 ^ 63"
  shows "parseNextEncodedPointer encoding mem c = Some (t, skip (of_nat (length bs)) c)"
proof -
  define d where "d = pointer_distance encoding (dc_cursor c) t"
  let ?a = "pointer_base encoding c"
  have d: "of_int d = t - ?a" "d = uint t - uint ?a"
    by (simp_all add: d_def pointer_distance_def pointer_base_def)
  have "?a < 2 ^ 63" using assms(4) by (simp add: pointer_base_def)
  note add = add_distance [OF this assms(5) d]
  have "uint t < 2 ^ 63" "uint ?a < 2 ^ 63" "0 \<le> uint t" "0 \<le> uint ?a"
    using assms(4,5) by (simp_all add: word_less_def pointer_base_def)
  then have s63: "signed_range 63 d" unfolding d(2) signed_range_def by linarith
  have u64: "next_unsigned TYPE(64) mem c = Some (of_int d, skip 8 c)" "next_signed TYPE(64) mem c = Some (of_int d, skip 8 c)"
    if "bytes_at mem (dc_cursor c) (le_bytes 8 (of_int d :: 64 word))"
    using int64.dec_enc [OF TrueI that] by (simp_all add: next_unsigned_def next_signed_def)
  have ul: "nextUleb128 mem c = Some (of_int d, skip (of_nat (length (uleb_encode (nat d)))) c)"
    if "0 \<le> d" "d < 2 ^ 31" "bytes_at mem (dc_cursor c) (uleb_encode (nat d))"
    using uleb.dec_enc [OF _ that(3)] that(1,2) by simp
  note u = next_unsigned_bytes [where 'a = 16 and d = d] next_unsigned_bytes [where 'a = 32 and d = d]
    next_signed_bytes [where 'a = 16 and d = d] next_signed_bytes [where 'a = 32 and d = d]
  from assms(2) [folded d_def] assms(1,3) show ?thesis
    by (auto simp: parseNextEncodedPointer_def encode_distance_def Let_def add u64 u ul
      sleb.dec_enc split: if_splits)
qed

text \<open>\<^verbatim>\<open>parseNextEncodedPointer\<close> inverts the pointer encodings of the exception-handling
  tables. For every format it knows, absolute or relative to the place of the pointer, where the
  format can hold the distance, it returns the encoded target and leaves the cursor after the
  pointer; pointers lie in the lower half of the address space, so no addition overflows.\<close>

lemma encoded_pointer_roundtrip:
  assumes "encoding \<noteq> DW_EH_PE_omit"
    and "encode_distance (encoding AND 0x0f) (pointer_distance encoding (dc_cursor c) t) = Some bs"
    and "bytes_at mem (dc_cursor c) bs" "dc_cursor c < 2 ^ 63" "t < 2 ^ 63"
  shows "parseNextEncodedPointer encoding mem c = Some (t, skip (of_nat (length bs)) c)"
  using assms by (rule parseNextEncodedPointer_encoded)

lemma encoded_pointer_roundtrip_witness:
  "parseNextEncodedPointer 0x1b (mem_of 0x1000 [0xf0, 0xff, 0xff, 0xff]) (newDwarfCursor 0x1000) =
    Some (0xff0, skip 4 (newDwarfCursor 0x1000))"
  using encoded_pointer_roundtrip [of "0x1b" "newDwarfCursor 0x1000" "0xff0" "[0xf0, 0xff, 0xff, 0xff]"
      "mem_of 0x1000 [0xf0, 0xff, 0xff, 0xff]"] bytes_at_mem_of [of "[0xf0, 0xff, 0xff, 0xff]" "0x1000"]
  by (simp add: newDwarfCursor_def encode_distance_def pointer_distance_def signed_range_def le_bytes_def
    upt_rec drop_bit_eq_div)

end
