(* ===== verification/DwarfState.thy ===== *)
theory DwarfState
  imports DwarfCursor
begin

section \<open>DWARF unwind state and registers (\<^verbatim>\<open>src/dwarf/state.h\<close>, \<^verbatim>\<open>platform.cpp\<close>)\<close>

text \<open>
  \<^verbatim>\<open>DwarfState\<close> as a record. The array of registers is a list whose length is the constant
  \<^verbatim>\<open>NUM_REGISTERS\<close> of the target; an access past its end is undefined behaviour, \<open>None\<close>. The
  \<^verbatim>\<open>next\<close> link is only followed from remembered states, whose chain is a list in the instruction
  decoder, so it is not a field here.
\<close>

datatype arch = ARCH_X86_64 | ARCH_AARCH64 | ARCH_RISCV

fun NUM_REGISTERS :: "arch \<Rightarrow> nat" where
  "NUM_REGISTERS ARCH_X86_64 = 17"
| "NUM_REGISTERS ARCH_AARCH64 = 32"
| "NUM_REGISTERS ARCH_RISCV = 256"

record DwarfRegisterData =
  reg_type :: "32 word"
  reg_offset :: "64 word"

definition mkRegisterData :: "32 word \<Rightarrow> 64 word \<Rightarrow> DwarfRegisterData" where
  "mkRegisterData ty ofs = \<lparr>reg_type = ty, reg_offset = ofs\<rparr>"

record DwarfState =
  registers :: "DwarfRegisterData list"
  cfaRegister :: "64 word"
  cfaOffset :: "64 word"
  cfaExpression :: address
  cfaExpressionLength :: "64 word"

definition newDwarfState :: "arch \<Rightarrow> DwarfState" where
  "newDwarfState arch =
     \<lparr>registers = replicate (NUM_REGISTERS arch) (mkRegisterData 0 0), cfaRegister = 0, cfaOffset = 0,
      cfaExpression = 0, cfaExpressionLength = 0\<rparr>"

text \<open>The copy constructor copies the registers one by one.\<close>

function copy_registers :: "nat \<Rightarrow> DwarfRegisterData list \<Rightarrow> DwarfRegisterData list \<Rightarrow> DwarfRegisterData list" where
  "copy_registers i from to =
     (if i < length to \<and> i < length from then copy_registers (Suc i) from (to[i := from ! i]) else to)"
  by pat_completeness auto
termination by (relation "measure (\<lambda>(i, _, to). length to - i)") auto

definition copyDwarfState :: "arch \<Rightarrow> DwarfState \<Rightarrow> DwarfState" where
  "copyDwarfState arch other =
     \<lparr>registers = copy_registers 0 (registers other) (registers (newDwarfState arch)),
      cfaRegister = cfaRegister other, cfaOffset = cfaOffset other, cfaExpression = cfaExpression other,
      cfaExpressionLength = cfaExpressionLength other\<rparr>"

definition state_get :: "DwarfState \<Rightarrow> 64 word \<Rightarrow> DwarfRegisterData option" where
  "state_get st reg = (if unat reg < length (registers st) then Some (registers st ! unat reg) else None)"

definition state_set :: "64 word \<Rightarrow> DwarfRegisterData \<Rightarrow> DwarfState \<Rightarrow> DwarfState option" where
  "state_set reg d st =
     (if unat reg < length (registers st) then Some (st\<lparr>registers := (registers st)[unat reg := d]\<rparr>) else None)"

definition state_wf :: "arch \<Rightarrow> DwarfState \<Rightarrow> bool" where
  "state_wf arch st \<longleftrightarrow> length (registers st) = NUM_REGISTERS arch"

declare copy_registers.simps [simp del]

lemma state_wf_new [simp]: "state_wf arch (newDwarfState arch)"
  by (simp add: state_wf_def newDwarfState_def)

lemma copy_registers_all:
  "length to = length from \<Longrightarrow> i \<le> length from \<Longrightarrow>
    copy_registers i from to = take i to @ drop i from"
proof (induction i "from" "to" rule: copy_registers.induct)
  case (1 i "from" "to")
  show ?case
  proof (cases "i < length from")
    case True
    with 1 have "copy_registers i from to = take (Suc i) (to[i := from ! i]) @ drop (Suc i) from"
      by (subst copy_registers.simps) simp
    with True 1(2) show ?thesis
      by (simp add: take_Suc_conv_app_nth Cons_nth_drop_Suc)
  next
    case False
    with 1(2,3) show ?thesis by (subst copy_registers.simps) simp
  qed
qed

lemma copyDwarfState_id [simp]: "state_wf arch st \<Longrightarrow> copyDwarfState arch st = st"
  by (simp add: copyDwarfState_def copy_registers_all state_wf_def newDwarfState_def)

lemma state_set_get:
  "state_set r d st = Some st' \<Longrightarrow> state_get st' r = Some d"
  "state_set r d st = Some st' \<Longrightarrow> r' \<noteq> r \<Longrightarrow> state_get st' r' = state_get st r'"
  "state_set r d st = Some st' \<Longrightarrow> state_wf arch st \<Longrightarrow> state_wf arch st'"
  by (auto simp: state_set_def state_get_def state_wf_def nth_list_update word_unat_eq_iff split: if_splits)

subsection \<open>Register names\<close>

definition registerNames :: "arch \<Rightarrow> string list" where
  "registerNames arch =
     (if arch = ARCH_X86_64 then
       [''rax'', ''rdx'', ''rcx'', ''rbx'', ''rsi'', ''rdi'', ''rbp'', ''rsp'',
        ''r8'', ''r9'', ''r10'', ''r11'', ''r12'', ''r13'', ''r14'', ''r15'', ''rip'',
        ''xmm0'', ''xmm1'', ''xmm2'', ''xmm3'', ''xmm4'', ''xmm5'', ''xmm6'', ''xmm7'',
        ''xmm8'', ''xmm9'', ''xmm10'', ''xmm11'', ''xmm12'', ''xmm13'', ''xmm14'', ''xmm15'',
        ''st0'', ''st1'', ''st2'', ''st3'', ''st4'', ''st5'', ''st6'', ''st7'',
        ''mm0'', ''mm1'', ''mm2'', ''mm3'', ''mm4'', ''mm5'', ''mm6'', ''mm7'',
        ''rflags'', ''es'', ''cs'', ''ss'', ''ds'', ''fs'', ''gs'', '''', '''',
        ''fs.base'', ''gs.base'', '''', '''', ''tr'', ''ldtr'', ''mxcsr'', ''fcw'', ''fsw'']
      else
       [''x0'', ''x1'', ''x2'', ''x3'', ''x4'', ''x5'', ''x6'', ''x7'', ''x8'', ''x9'',
        ''x10'', ''x11'', ''x12'', ''x13'', ''x14'', ''x15'', ''x16'', ''x17'', ''x18'', ''x19'',
        ''x20'', ''x21'', ''x22'', ''x23'', ''x24'', ''x25'', ''x26'', ''x27'', ''x28'', ''x29'',
        ''x30'', ''sp'', '''', ''ELR_mode''] @ replicate 30 '''' @
       [''v0'', ''v1'', ''v2'', ''v3'', ''v4'', ''v5'', ''v6'', ''v7'', ''v8'', ''v9'',
        ''v10'', ''v11'', ''v12'', ''v13'', ''v14'', ''v15'', ''v16'', ''v17'', ''v18'', ''v19'',
        ''v20'', ''v21'', ''v22'', ''v23'', ''v24'', ''v25'', ''v26'', ''v27'', ''v28'', ''v29'',
        ''v30'', ''v31''])"

text \<open>The decimal digits that the stream prints for an unsigned integer.\<close>

fun decimal :: "nat \<Rightarrow> string" where
  "decimal n = (if n < 10 then [char_of (48 + n)] else decimal (n div 10) @ [char_of (48 + n mod 10)])"

definition getRegisterName :: "arch \<Rightarrow> 32 word \<Rightarrow> string" where
  "getRegisterName arch reg =
     ''r'' @ decimal (unat reg) @
     (if unat reg < length (registerNames arch) then '' ('' @ registerNames arch ! unat reg @ '')'' else [])"

text \<open>An index past the end of the table is an out-of-bounds read, \<open>None\<close>.\<close>

definition shortRegisterName :: "arch \<Rightarrow> 32 word \<Rightarrow> string option" where
  "shortRegisterName arch reg =
     (if unat reg \<le> length (registerNames arch)
      then if unat reg < length (registerNames arch) then Some (registerNames arch ! unat reg) else None
      else Some ''(unknown)'')"

lemma shortRegisterName_overrun:
  "shortRegisterName arch reg = None \<longleftrightarrow> unat reg = length (registerNames arch)"
  by (auto simp: shortRegisterName_def)

end
