(* ===== verification/DwarfExpr.thy ===== *)
theory DwarfExpr
  imports DwarfState
begin

unbundle bit_operations_syntax

section \<open>DWARF expressions (\<^verbatim>\<open>DwarfExpressionDecoder\<close> in \<^verbatim>\<open>src/dwarf/parser.cpp\<close>)\<close>

text \<open>
  The stack machine that evaluates location expressions. Its state is the cursor and the vector
  \<^verbatim>\<open>evalStack\<close>, a list whose head is the back of the vector. Popping or indexing past the bottom,
  dividing by zero, shifting by 64 or more and reading unmapped memory have the value \<open>None\<close>. The
  loop can jump backwards, so it need not end: it is a \<open>partial_function\<close>, whose value is \<open>None\<close>
  where it does not return. The switch is divided into the groups of its cases.
\<close>

abbreviation "DW_OP_addr \<equiv> 0x03 :: byte"
abbreviation "DW_OP_deref \<equiv> 0x06 :: byte"
abbreviation "DW_OP_xderef \<equiv> 0x18 :: byte"
abbreviation "DW_OP_const1u \<equiv> 0x08 :: byte"
abbreviation "DW_OP_const1s \<equiv> 0x09 :: byte"
abbreviation "DW_OP_const2u \<equiv> 0x0a :: byte"
abbreviation "DW_OP_const2s \<equiv> 0x0b :: byte"
abbreviation "DW_OP_const4u \<equiv> 0x0c :: byte"
abbreviation "DW_OP_const4s \<equiv> 0x0d :: byte"
abbreviation "DW_OP_const8u \<equiv> 0x0e :: byte"
abbreviation "DW_OP_const8s \<equiv> 0x0f :: byte"
abbreviation "DW_OP_constu \<equiv> 0x10 :: byte"
abbreviation "DW_OP_consts \<equiv> 0x11 :: byte"
abbreviation "DW_OP_dup \<equiv> 0x12 :: byte"
abbreviation "DW_OP_drop \<equiv> 0x13 :: byte"
abbreviation "DW_OP_over \<equiv> 0x14 :: byte"
abbreviation "DW_OP_pick \<equiv> 0x15 :: byte"
abbreviation "DW_OP_swap \<equiv> 0x16 :: byte"
abbreviation "DW_OP_rot \<equiv> 0x17 :: byte"
abbreviation "DW_OP_abs \<equiv> 0x19 :: byte"
abbreviation "DW_OP_neg \<equiv> 0x1f :: byte"
abbreviation "DW_OP_not \<equiv> 0x20 :: byte"
abbreviation "DW_OP_and \<equiv> 0x1a :: byte"
abbreviation "DW_OP_or \<equiv> 0x21 :: byte"
abbreviation "DW_OP_xor \<equiv> 0x27 :: byte"
abbreviation "DW_OP_div \<equiv> 0x1b :: byte"
abbreviation "DW_OP_minus \<equiv> 0x1c :: byte"
abbreviation "DW_OP_mod \<equiv> 0x1d :: byte"
abbreviation "DW_OP_mul \<equiv> 0x1e :: byte"
abbreviation "DW_OP_plus \<equiv> 0x22 :: byte"
abbreviation "DW_OP_plus_uconst \<equiv> 0x23 :: byte"
abbreviation "DW_OP_shl \<equiv> 0x24 :: byte"
abbreviation "DW_OP_shr \<equiv> 0x25 :: byte"
abbreviation "DW_OP_shra \<equiv> 0x26 :: byte"
abbreviation "DW_OP_skip \<equiv> 0x2f :: byte"
abbreviation "DW_OP_bra \<equiv> 0x28 :: byte"
abbreviation "DW_OP_eq \<equiv> 0x29 :: byte"
abbreviation "DW_OP_ge \<equiv> 0x2a :: byte"
abbreviation "DW_OP_gt \<equiv> 0x2b :: byte"
abbreviation "DW_OP_le \<equiv> 0x2c :: byte"
abbreviation "DW_OP_lt \<equiv> 0x2d :: byte"
abbreviation "DW_OP_ne \<equiv> 0x2e :: byte"
abbreviation "DW_OP_lit0 \<equiv> 0x30 :: byte"
abbreviation "DW_OP_lit31 \<equiv> 0x4f :: byte"
abbreviation "DW_OP_reg0 \<equiv> 0x50 :: byte"
abbreviation "DW_OP_reg31 \<equiv> 0x6f :: byte"
abbreviation "DW_OP_breg0 \<equiv> 0x70 :: byte"
abbreviation "DW_OP_breg31 \<equiv> 0x8f :: byte"
abbreviation "DW_OP_regx \<equiv> 0x90 :: byte"
abbreviation "DW_OP_bregx \<equiv> 0x92 :: byte"
abbreviation "DW_OP_deref_size \<equiv> 0x94 :: byte"

record edecoder =
  e_start :: DwarfCursor
  evalStack :: "64 word list"

definition e_push :: "64 word \<Rightarrow> edecoder \<Rightarrow> edecoder" where
  "e_push v d = d\<lparr>evalStack := v # evalStack d\<rparr>"

definition e_pop :: "edecoder \<Rightarrow> (64 word \<times> edecoder) option" where
  "e_pop d = (case evalStack d of [] \<Rightarrow> None | v # st \<Rightarrow> Some (v, d\<lparr>evalStack := st\<rparr>))"

text \<open>Reading an operand at the cursor of the decoder.\<close>

definition e_read :: "'a reader \<Rightarrow> memory \<Rightarrow> edecoder \<Rightarrow> ('a \<times> edecoder) option" where
  "e_read rd mem d = do {(v, c) \<leftarrow> rd mem (e_start d); Some (v, d\<lparr>e_start := c\<rparr>)}"

definition dereferencePointer :: "memory \<Rightarrow> 64 word \<Rightarrow> 64 word option" where
  "dereferencePointer mem p = mem_get mem p"

text \<open>\<open>sx\<close> converts the constant to the 64 bits of the stack: \<^verbatim>\<open>ucast\<close> or \<^verbatim>\<open>scast\<close>.\<close>

definition decodeConstant :: "('a::len word \<Rightarrow> 64 word) \<Rightarrow> memory \<Rightarrow> edecoder \<Rightarrow> edecoder option" where
  "decodeConstant sx mem d = do {(v, d) \<leftarrow> e_read next_word mem d; Some (e_push (sx v) d)}"

text \<open>\<^verbatim>\<open>evalStack[size() - 1 - k]\<close>, and a change of the back of the stack.\<close>

definition e_peek :: "nat \<Rightarrow> edecoder \<Rightarrow> 64 word option" where
  "e_peek k d = (if k < length (evalStack d) then Some (evalStack d ! k) else None)"

definition e_unary :: "(64 word \<Rightarrow> 64 word option) \<Rightarrow> edecoder \<Rightarrow> edecoder option" where
  "e_unary f d = do {(v, d) \<leftarrow> e_pop d; r \<leftarrow> f v; Some (e_push r d)}"

text \<open>Pop \<open>v\<close>, then replace the new back \<open>b\<close> by \<open>f b v\<close>.\<close>

definition e_binary :: "(64 word \<Rightarrow> 64 word \<Rightarrow> 64 word option) \<Rightarrow> edecoder \<Rightarrow> edecoder option" where
  "e_binary f d = do {(v, d) \<leftarrow> e_pop d; e_unary (\<lambda>b. f b v) d}"

definition reg_value :: "DwarfState \<Rightarrow> 64 word \<Rightarrow> 64 word option" where
  "reg_value st r = do {d \<leftarrow> state_get st r; Some (reg_offset d)}"

definition op_abs :: "64 word \<Rightarrow> 64 word option" where
  "op_abs v = (if sint v < 0 then signed_neg v else Some v)"

definition op_div :: "64 word \<Rightarrow> 64 word \<Rightarrow> 64 word option" where
  "op_div b v = (if v = 0 then None else Some (b div v))"

definition op_mod :: "64 word \<Rightarrow> 64 word \<Rightarrow> 64 word option" where
  "op_mod b v = (if v = 0 then None else Some (b mod v))"

definition op_shift :: "(nat \<Rightarrow> 64 word \<Rightarrow> 64 word) \<Rightarrow> 64 word \<Rightarrow> 64 word \<Rightarrow> 64 word option" where
  "op_shift f b v = (if v < 64 then Some (f (unat v) b) else None)"

definition op_cmp :: "(64 word \<Rightarrow> 64 word \<Rightarrow> bool) \<Rightarrow> 64 word \<Rightarrow> 64 word \<Rightarrow> 64 word option" where
  "op_cmp p b v = Some (of_bool (p b v))"

definition step_reg :: "memory \<Rightarrow> DwarfState \<Rightarrow> byte \<Rightarrow> edecoder \<Rightarrow> edecoder option" where
  "step_reg mem st opc d =
     (if DW_OP_lit0 \<le> opc \<and> opc \<le> DW_OP_lit31 then Some (e_push (ucast (opc - DW_OP_lit0)) d)
      else if DW_OP_reg0 \<le> opc \<and> opc \<le> DW_OP_reg31 then
        do {v \<leftarrow> reg_value st (ucast (opc - DW_OP_reg0)); Some (e_push v d)}
      else if opc = DW_OP_regx then
        do {(reg, d) \<leftarrow> e_read nextUleb128 mem d; v \<leftarrow> reg_value st reg; Some (e_push v d)}
      else if DW_OP_breg0 \<le> opc \<and> opc \<le> DW_OP_breg31 then
        do {(k, d) \<leftarrow> e_read nextSleb128 mem d; v \<leftarrow> reg_value st (ucast (opc - DW_OP_breg0));
            Some (e_push (v + k) d)}
      else if opc = DW_OP_bregx then
        do {(reg, d) \<leftarrow> e_read nextUleb128 mem d; (k, d) \<leftarrow> e_read nextSleb128 mem d;
            v \<leftarrow> reg_value st reg; Some (e_push (v + k) d)}
      else if opc = DW_OP_deref_size then
        do {(v, d) \<leftarrow> e_pop d; (size, d) \<leftarrow> e_read (next_word :: byte reader) mem d;
            if size = 1 then decodeConstant (ucast :: byte \<Rightarrow> _) mem d
            else if size = 2 then decodeConstant (ucast :: 16 word \<Rightarrow> _) mem d
            else if size = 4 then decodeConstant (ucast :: 32 word \<Rightarrow> _) mem d
            else if size = 8 then decodeConstant (\<lambda>v :: 64 word. v) mem d
            else Some (e_push v d)}
      else Some d)"

definition step_compare :: "memory \<Rightarrow> DwarfState \<Rightarrow> byte \<Rightarrow> edecoder \<Rightarrow> edecoder option" where
  "step_compare mem st opc d =
     (if opc = DW_OP_eq then e_binary (op_cmp (\<lambda>b v. b = v)) d
      else if opc = DW_OP_ge then e_binary (op_cmp (\<lambda>b v. b \<ge> v)) d
      else if opc = DW_OP_gt then e_binary (op_cmp (\<lambda>b v. b > v)) d
      else if opc = DW_OP_le then e_binary (op_cmp (\<lambda>b v. b \<le> v)) d
      else if opc = DW_OP_lt then e_binary (op_cmp (\<lambda>b v. b < v)) d
      else if opc = DW_OP_ne then e_binary (op_cmp (\<lambda>b v. b \<noteq> v)) d
      else step_reg mem st opc d)"

definition step_jump :: "memory \<Rightarrow> DwarfState \<Rightarrow> byte \<Rightarrow> edecoder \<Rightarrow> edecoder option" where
  "step_jump mem st opc d =
     (if opc = DW_OP_skip then
        do {(k :: 16 word, d) \<leftarrow> e_read next_word mem d; Some (d\<lparr>e_start := skip (scast k) (e_start d)\<rparr>)}
      else if opc = DW_OP_bra then
        do {(k :: 16 word, d) \<leftarrow> e_read next_word mem d;
            Some (if length (evalStack d) > 0
              then d\<lparr>evalStack := tl (evalStack d), e_start := skip (scast k) (e_start d)\<rparr> else d)}
      else step_compare mem st opc d)"

definition step_arith :: "memory \<Rightarrow> DwarfState \<Rightarrow> byte \<Rightarrow> edecoder \<Rightarrow> edecoder option" where
  "step_arith mem st opc d =
     (if opc = DW_OP_abs then e_unary op_abs d
      else if opc = DW_OP_neg then e_unary (\<lambda>v. Some (- v)) d
      else if opc = DW_OP_not then e_unary (\<lambda>v. Some (NOT v)) d
      else if opc = DW_OP_and then e_binary (\<lambda>b v. Some (b AND v)) d
      else if opc = DW_OP_or then e_binary (\<lambda>b v. Some (b OR v)) d
      else if opc = DW_OP_xor then e_binary (\<lambda>b v. Some (b XOR v)) d
      else if opc = DW_OP_div then e_binary op_div d
      else if opc = DW_OP_minus then e_binary (\<lambda>b v. Some (b - v)) d
      else if opc = DW_OP_mod then e_binary op_mod d
      else if opc = DW_OP_mul then e_binary (\<lambda>b v. Some (b * v)) d
      else if opc = DW_OP_plus then e_binary (\<lambda>b v. Some (b + v)) d
      else if opc = DW_OP_plus_uconst then
        do {(k, d) \<leftarrow> e_read nextUleb128 mem d; e_unary (\<lambda>v. Some (v + k)) d}
      else if opc = DW_OP_shl then e_binary (op_shift push_bit) d
      else if opc = DW_OP_shr then e_binary (op_shift drop_bit) d
      else if opc = DW_OP_shra then e_binary (op_shift signed_drop_bit) d
      else step_jump mem st opc d)"

definition step_stack :: "memory \<Rightarrow> DwarfState \<Rightarrow> byte \<Rightarrow> edecoder \<Rightarrow> edecoder option" where
  "step_stack mem st opc d =
     (if opc = DW_OP_dup then do {v \<leftarrow> e_peek 0 d; Some (e_push v d)}
      else if opc = DW_OP_drop then do {(_, d) \<leftarrow> e_pop d; Some d}
      else if opc = DW_OP_over then do {v \<leftarrow> e_peek 1 d; Some (e_push v d)}
      else if opc = DW_OP_pick then
        do {(reg :: byte, d) \<leftarrow> e_read next_word mem d; v \<leftarrow> e_peek (unat reg) d; Some (e_push v d)}
      else if opc = DW_OP_swap then
        (case evalStack d of a # b # s \<Rightarrow> Some (d\<lparr>evalStack := b # a # s\<rparr>) | _ \<Rightarrow> None)
      else if opc = DW_OP_rot then
        (case evalStack d of a # b # c # s \<Rightarrow> Some (d\<lparr>evalStack := b # c # a # s\<rparr>) | _ \<Rightarrow> None)
      else step_arith mem st opc d)"

definition step_const :: "memory \<Rightarrow> DwarfState \<Rightarrow> byte \<Rightarrow> edecoder \<Rightarrow> edecoder option" where
  "step_const mem st opc d =
     (if opc = DW_OP_addr then decodeConstant (\<lambda>v :: 64 word. v) mem d
      else if opc = DW_OP_deref then e_unary (dereferencePointer mem) d
      else if opc = DW_OP_xderef then e_unary (dereferencePointer mem) d
      else if opc = DW_OP_const1u then decodeConstant (ucast :: byte \<Rightarrow> _) mem d
      else if opc = DW_OP_const1s then decodeConstant (scast :: byte \<Rightarrow> _) mem d
      else if opc = DW_OP_const2u then decodeConstant (ucast :: 16 word \<Rightarrow> _) mem d
      else if opc = DW_OP_const2s then decodeConstant (scast :: 16 word \<Rightarrow> _) mem d
      else if opc = DW_OP_const4u then decodeConstant (ucast :: 32 word \<Rightarrow> _) mem d
      else if opc = DW_OP_const4s then decodeConstant (scast :: 32 word \<Rightarrow> _) mem d
      else if opc = DW_OP_const8u then decodeConstant (\<lambda>v :: 64 word. v) mem d
      else if opc = DW_OP_const8s then decodeConstant (\<lambda>v :: 64 word. v) mem d
      else if opc = DW_OP_constu then
        do {(v, d) \<leftarrow> e_read nextUleb128 mem d; Some (e_push v d)}
      else if opc = DW_OP_consts then
        do {(v, d) \<leftarrow> e_read nextSleb128 mem d; Some (e_push v d)}
      else step_stack mem st opc d)"

partial_function (option) expr_loop :: "memory \<Rightarrow> DwarfState \<Rightarrow> DwarfCursor \<Rightarrow> edecoder \<Rightarrow> edecoder option" where
  "expr_loop mem st e d =
     (if cursor_less (e_start d) e
      then Option.bind (e_read next_word mem d) (\<lambda>(opc, d').
        Option.bind (step_const mem st opc d') (expr_loop mem st e))
      else Some d)"

definition decode :: "memory \<Rightarrow> DwarfState \<Rightarrow> DwarfCursor \<Rightarrow> 64 word option" where
  "decode mem st c =
     do {(len, c) \<leftarrow> nextUleb128 mem c;
         d \<leftarrow> expr_loop mem st (skip len c) \<lparr>e_start = c, evalStack = []\<rparr>;
         e_peek 0 d}"

subsection \<open>Expressions and their compiled form\<close>

text \<open>
  The abstract syntax of straight-line expressions, their value, and the stack code for them. The
  value of a quotient, remainder, shift and comparison is that of unsigned words, as the decoder
  computes it.
\<close>

datatype unop = UAbs | UNeg | UNot

datatype binop = BAnd | BOr | BXor | BDiv | BMinus | BMod | BMul | BPlus | BShl | BShr | BShra | BEq | BGe | BGt | BLe | BLt | BNe

datatype dexpr = Addr "64 word" | Const8 "64 word" | Lit nat | UConst nat | SConst int | BReg nat int
  | Deref dexpr | Unary unop dexpr | PlusU dexpr nat | Binary binop dexpr dexpr

fun unop_code :: "unop \<Rightarrow> byte" where
  "unop_code UAbs = DW_OP_abs"
| "unop_code UNeg = DW_OP_neg"
| "unop_code UNot = DW_OP_not"

fun unop_value :: "unop \<Rightarrow> 64 word \<Rightarrow> 64 word option" where
  "unop_value UAbs v = (if v = - (2 ^ 63) then None else Some (if sint v < 0 then - v else v))"
| "unop_value UNeg v = Some (- v)"
| "unop_value UNot v = Some (NOT v)"

fun binop_code :: "binop \<Rightarrow> byte" where
  "binop_code BAnd = DW_OP_and"
| "binop_code BOr = DW_OP_or"
| "binop_code BXor = DW_OP_xor"
| "binop_code BDiv = DW_OP_div"
| "binop_code BMinus = DW_OP_minus"
| "binop_code BMod = DW_OP_mod"
| "binop_code BMul = DW_OP_mul"
| "binop_code BPlus = DW_OP_plus"
| "binop_code BShl = DW_OP_shl"
| "binop_code BShr = DW_OP_shr"
| "binop_code BShra = DW_OP_shra"
| "binop_code BEq = DW_OP_eq"
| "binop_code BGe = DW_OP_ge"
| "binop_code BGt = DW_OP_gt"
| "binop_code BLe = DW_OP_le"
| "binop_code BLt = DW_OP_lt"
| "binop_code BNe = DW_OP_ne"

fun binop_value :: "binop \<Rightarrow> 64 word \<Rightarrow> 64 word \<Rightarrow> 64 word option" where
  "binop_value BAnd b v = Some (b AND v)"
| "binop_value BOr b v = Some (b OR v)"
| "binop_value BXor b v = Some (b XOR v)"
| "binop_value BDiv b v = op_div b v"
| "binop_value BMinus b v = Some (b - v)"
| "binop_value BMod b v = op_mod b v"
| "binop_value BMul b v = Some (b * v)"
| "binop_value BPlus b v = Some (b + v)"
| "binop_value BShl b v = op_shift push_bit b v"
| "binop_value BShr b v = op_shift drop_bit b v"
| "binop_value BShra b v = op_shift signed_drop_bit b v"
| "binop_value BEq b v = Some (of_bool (b = v))"
| "binop_value BGe b v = Some (of_bool (v \<le> b))"
| "binop_value BGt b v = Some (of_bool (v < b))"
| "binop_value BLe b v = Some (of_bool (b \<le> v))"
| "binop_value BLt b v = Some (of_bool (b < v))"
| "binop_value BNe b v = Some (of_bool (b \<noteq> v))"

primrec expr_ok :: "dexpr \<Rightarrow> bool" where
  "expr_ok (Addr a) \<longleftrightarrow> True"
| "expr_ok (Const8 v) \<longleftrightarrow> True"
| "expr_ok (Lit n) \<longleftrightarrow> n < 32"
| "expr_ok (UConst n) \<longleftrightarrow> n < 2 ^ 31"
| "expr_ok (SConst k) \<longleftrightarrow> signed_range 31 k"
| "expr_ok (BReg r k) \<longleftrightarrow> r < 32 \<and> signed_range 31 k"
| "expr_ok (Deref e) \<longleftrightarrow> expr_ok e"
| "expr_ok (Unary u e) \<longleftrightarrow> expr_ok e"
| "expr_ok (PlusU e n) \<longleftrightarrow> expr_ok e \<and> n < 2 ^ 31"
| "expr_ok (Binary b e f) \<longleftrightarrow> expr_ok e \<and> expr_ok f"

primrec expr_value :: "memory \<Rightarrow> DwarfState \<Rightarrow> dexpr \<Rightarrow> 64 word option" where
  "expr_value mem st (Addr a) = Some a"
| "expr_value mem st (Const8 v) = Some v"
| "expr_value mem st (Lit n) = Some (of_nat n)"
| "expr_value mem st (UConst n) = Some (of_nat n)"
| "expr_value mem st (SConst k) = Some (of_int k)"
| "expr_value mem st (BReg r k) = do {v \<leftarrow> reg_value st (of_nat r); Some (v + of_int k)}"
| "expr_value mem st (Deref e) = do {v \<leftarrow> expr_value mem st e; mem_get mem v}"
| "expr_value mem st (Unary u e) = do {v \<leftarrow> expr_value mem st e; unop_value u v}"
| "expr_value mem st (PlusU e n) = do {v \<leftarrow> expr_value mem st e; Some (v + of_nat n)}"
| "expr_value mem st (Binary b e f) =
     do {v \<leftarrow> expr_value mem st e; w \<leftarrow> expr_value mem st f; binop_value b v w}"

primrec compile :: "dexpr \<Rightarrow> byte list" where
  "compile (Addr a) = DW_OP_addr # le_bytes 8 a"
| "compile (Const8 v) = DW_OP_const8u # le_bytes 8 v"
| "compile (Lit n) = [DW_OP_lit0 + of_nat n]"
| "compile (UConst n) = DW_OP_constu # uleb_encode n"
| "compile (SConst k) = DW_OP_consts # sleb_encode k"
| "compile (BReg r k) = (DW_OP_breg0 + of_nat r) # sleb_encode k"
| "compile (Deref e) = compile e @ [DW_OP_deref]"
| "compile (Unary u e) = compile e @ [unop_code u]"
| "compile (PlusU e n) = compile e @ DW_OP_plus_uconst # uleb_encode n"
| "compile (Binary b e f) = compile e @ compile f @ [binop_code b]"

subsection \<open>One step of the decoder\<close>

text \<open>A decoder with an expression still to run up to the end cursor \<open>e\<close>.\<close>

definition at_code :: "memory \<Rightarrow> DwarfCursor \<Rightarrow> edecoder \<Rightarrow> byte list \<Rightarrow> bool" where
  "at_code mem e d code \<longleftrightarrow> bytes_at mem (dc_cursor (e_start d)) code \<and>
     unat (dc_cursor (e_start d)) + length code = unat (dc_cursor e)"

definition advance :: "byte list \<Rightarrow> edecoder \<Rightarrow> edecoder" where
  "advance bs d = d\<lparr>e_start := skip (of_nat (length bs)) (e_start d)\<rparr>"

lemma at_code_advance: "at_code mem e d (bs @ code) \<Longrightarrow> at_code mem e (advance bs d) code"
proof -
  assume a: "at_code mem e d (bs @ code)"
  have "unat (dc_cursor e) < 2 ^ 64" using unsigned_less [of "dc_cursor e"] by simp
  with a have "unat (dc_cursor (e_start d)) + length bs < 2 ^ 64" by (simp add: at_code_def)
  then have "unat (dc_cursor (e_start d) + of_nat (length bs)) = unat (dc_cursor (e_start d)) + length bs"
    by (subst unat_add_no_wrap) (simp_all add: unat_of_nat)
  with a show ?thesis by (simp add: at_code_def advance_def)
qed

lemma expr_loop_step:
  assumes "at_code mem e d (opc # code)"
  shows "expr_loop mem st e d = Option.bind (step_const mem st opc (advance [opc] d)) (expr_loop mem st e)"
proof -
  have "cursor_less (e_start d) e" using assms by (simp add: at_code_def cursor_less_def word_less_nat_alt)
  moreover have "e_read next_word mem d = Some (opc, advance [opc] d)"
    using assms by (simp add: at_code_def e_read_def next_byte advance_def)
  ultimately show ?thesis by (subst expr_loop.simps) simp
qed

lemma advance_simps [simp]:
  "advance bs (advance as d) = advance (as @ bs) d"
  "advance bs (e_push v d) = e_push v (advance bs d)"
  "advance [] d = d"
  "evalStack (advance bs d) = evalStack d"
  "at_code mem e (e_push v d) code = at_code mem e d code"
  by (simp_all add: advance_def e_push_def at_code_def)

lemma e_pop_push [simp]: "e_pop (e_push v d) = Some (v, d)"
  by (simp add: e_pop_def e_push_def)

lemma e_unary_push [simp]: "e_unary f (e_push v d) = Option.bind (f v) (\<lambda>r. Some (e_push r d))"
  by (simp add: e_unary_def)

lemma e_binary_push [simp]:
  "e_binary f (e_push w (e_push v d)) = Option.bind (f v w) (\<lambda>r. Some (e_push r d))"
  by (simp add: e_binary_def)

text \<open>Reading an operand whose encoding is next in the code.\<close>

lemma e_read_const8:
  "at_code mem e d (le_bytes 8 v @ code) \<Longrightarrow>
    decodeConstant (\<lambda>v :: 64 word. v) mem d = Some (e_push v (advance (le_bytes 8 v) d))"
  using int64.dec_enc [OF TrueI, of mem "e_start d" v]
  by (simp add: at_code_def decodeConstant_def e_read_def advance_def)

lemma e_read_uleb:
  "at_code mem e d (uleb_encode n @ code) \<Longrightarrow> n < 2 ^ 31 \<Longrightarrow>
    e_read nextUleb128 mem d = Some (of_nat n, advance (uleb_encode n) d)"
  using uleb.dec_enc [of n mem "e_start d"] by (simp add: at_code_def e_read_def advance_def)

lemma e_read_sleb:
  "at_code mem e d (sleb_encode k @ code) \<Longrightarrow> signed_range 31 k \<Longrightarrow>
    e_read nextSleb128 mem d = Some (of_int k, advance (sleb_encode k) d)"
  using sleb.dec_enc [of k mem "e_start d"] by (simp add: at_code_def e_read_def advance_def)

text \<open>The opcodes that carry their operand.\<close>

lemma step_const_reg:
  assumes "0x30 \<le> opc"
  shows "step_const mem st opc d = step_reg mem st opc d"
proof -
  have "opc = c \<longleftrightarrow> False" if "c < 0x30" for c using assms that by auto
  then show ?thesis
    by (simp add: step_const_def step_stack_def step_arith_def step_jump_def step_compare_def)
qed

lemma opcode_operand:
  fixes b :: byte
  assumes "n < 32" "b \<le> 0x70"
  shows "b \<le> b + of_nat n" "b + of_nat n \<le> b + 0x1f" "ucast (of_nat n :: byte) = (of_nat n :: 64 word)"
proof -
  have b: "unat b \<le> 112" using assms(2) by (simp add: word_le_nat_alt)
  have "unat (b + of_nat n) = unat b + n" "unat (b + 0x1f) = unat b + 31"
    using assms(1) b by (simp_all add: unat_word_ariths unat_of_nat)
  then show "b \<le> b + of_nat n" "b + of_nat n \<le> b + 0x1f" using assms(1) by (simp_all add: word_le_nat_alt)
  show "ucast (of_nat n :: byte) = (of_nat n :: 64 word)"
    using assms(1) by (simp add: unsigned_of_nat take_bit_nat_eq_self)
qed

lemma step_lit:
  assumes "n < 32"
  shows "step_const mem st (DW_OP_lit0 + of_nat n) d = Some (e_push (of_nat n) d)"
  using opcode_operand [OF assms, of DW_OP_lit0] by (simp add: step_const_reg step_reg_def)

lemma step_breg:
  assumes "r < 32"
  shows "step_const mem st (DW_OP_breg0 + of_nat r) d =
    do {(k, d) \<leftarrow> e_read nextSleb128 mem d; v \<leftarrow> reg_value st (of_nat r); Some (e_push (v + k) d)}"
proof -
  let ?o = "DW_OP_breg0 + of_nat r"
  note o = opcode_operand [OF assms, of DW_OP_breg0, simplified]
  have "\<not> ?o \<le> c" if "c < DW_OP_breg0" for c using o(1) that by auto
  moreover have "\<not> ?o = c" if "c < DW_OP_breg0" for c using o(1) that by auto
  ultimately show ?thesis
    using o by (subst step_const_reg) (auto simp: step_reg_def intro: order_trans [of _ DW_OP_breg0])
qed

lemma op_abs_value: "op_abs v = unop_value UAbs v"
proof -
  have r: "- (2 ^ 63) \<le> sint v" "sint v < 2 ^ 63"
    using sint_greater_eq [of v] sint_less [of v] by simp_all
  have "signed_fits (- sint v) \<longleftrightarrow> sint v \<noteq> - (2 ^ 63)"
    using r by (auto simp: signed_fits_def)
  also have "\<dots> \<longleftrightarrow> v \<noteq> - (2 ^ 63)"
  proof -
    have "sint (- (2 ^ 63) :: 64 word) = - (2 ^ 63)" by simp
    then show ?thesis by (metis signed_word_eqI)
  qed
  finally show ?thesis by (auto simp: op_abs_def signed_neg_def)
qed

lemma step_unop: "step_const mem st (unop_code u) d = e_unary (unop_value u) d"
proof -
  have "op_abs = unop_value UAbs" "(\<lambda>v. Some (- v)) = unop_value UNeg" "(\<lambda>v. Some (NOT v)) = unop_value UNot"
    by (auto simp: op_abs_value)
  then show ?thesis by (cases u) (simp_all add: step_const_def step_stack_def step_arith_def)
qed

lemma step_binop: "step_const mem st (binop_code b) d = e_binary (binop_value b) d"
proof -
  have "binop_value b = (\<lambda>x y. binop_value b x y)" "\<And>p. op_cmp p = (\<lambda>b v. Some (of_bool (p b v)))"
    by (auto simp: op_cmp_def fun_eq_iff)
  then show ?thesis
    by (cases b)
      (simp_all add: step_const_def step_stack_def step_arith_def step_jump_def step_compare_def)
qed

lemma step_deref: "step_const mem st DW_OP_deref d = e_unary (mem_get mem) d"
  by (simp add: step_const_def dereferencePointer_def [abs_def])

lemma step_constants:
  "step_const mem st DW_OP_addr d = decodeConstant (\<lambda>v :: 64 word. v) mem d"
  "step_const mem st DW_OP_const8u d = decodeConstant (\<lambda>v :: 64 word. v) mem d"
  "step_const mem st DW_OP_constu d = do {(v, d) \<leftarrow> e_read nextUleb128 mem d; Some (e_push v d)}"
  "step_const mem st DW_OP_consts d = do {(v, d) \<leftarrow> e_read nextSleb128 mem d; Some (e_push v d)}"
  "step_const mem st DW_OP_plus_uconst d =
    do {(k, d) \<leftarrow> e_read nextUleb128 mem d; e_unary (\<lambda>v. Some (v + k)) d}"
  by (simp_all add: step_const_def step_stack_def step_arith_def)

lemmas code_steps = step_deref step_constants step_unop step_binop step_lit step_breg

lemma expr_loop_compiled:
  assumes "expr_ok x" "at_code mem e d (compile x @ code)"
  shows "expr_loop mem st e d =
    Option.bind (expr_value mem st x) (\<lambda>v. expr_loop mem st e (e_push v (advance (compile x) d)))"
  using assms
proof (induction x arbitrary: d code)
  case (Addr a)
  then show ?case
    using at_code_advance [of mem e d "[DW_OP_addr]"] e_read_const8 [of mem e "advance [DW_OP_addr] d" a code]
    by (simp add: expr_loop_step code_steps)
next
  case (Const8 v)
  then show ?case
    using at_code_advance [of mem e d "[DW_OP_const8u]"] e_read_const8 [of mem e "advance [DW_OP_const8u] d" v code]
    by (simp add: expr_loop_step code_steps)
next
  case (Lit n)
  then show ?case by (simp add: expr_loop_step code_steps)
next
  case (UConst n)
  then show ?case
    using at_code_advance [of mem e d "[DW_OP_constu]"] e_read_uleb [of mem e "advance [DW_OP_constu] d" n code]
    by (simp add: expr_loop_step code_steps)
next
  case (SConst k)
  then show ?case
    using at_code_advance [of mem e d "[DW_OP_consts]"] e_read_sleb [of mem e "advance [DW_OP_consts] d" k code]
    by (simp add: expr_loop_step code_steps)
next
  case (BReg r k)
  then show ?case
    using at_code_advance [of mem e d "[DW_OP_breg0 + of_nat r]"] e_read_sleb [of mem e "advance [DW_OP_breg0 + of_nat r] d" k code]
    by (simp add: expr_loop_step code_steps)
next
  case (Deref x)
  then show ?case
    using at_code_advance [of mem e d "compile x" "DW_OP_deref # code"]
    by (auto simp: expr_loop_step code_steps split: Option.bind_splits)
next
  case (Unary u x)
  then show ?case
    using at_code_advance [of mem e d "compile x" "unop_code u # code"]
    by (auto simp: expr_loop_step code_steps split: Option.bind_splits)
next
  case (PlusU x n)
  then show ?case
    using at_code_advance [of mem e d "compile x" "DW_OP_plus_uconst # uleb_encode n @ code"]
      at_code_advance [of mem e d "compile x @ [DW_OP_plus_uconst]" "uleb_encode n @ code"]
      e_read_uleb [of mem e "e_push v (advance (compile x @ [DW_OP_plus_uconst]) d)" n code for v]
    by (auto simp: expr_loop_step code_steps split: Option.bind_splits)
next
  case (Binary b x y)
  then show ?case
    using at_code_advance [of mem e d "compile x" "compile y @ binop_code b # code"]
      at_code_advance [of mem e d "compile x @ compile y" "binop_code b # code"]
    by (auto simp: expr_loop_step code_steps split: Option.bind_splits)
qed


definition sample_expr :: dexpr where
  "sample_expr = Binary BPlus (Binary BMul (Lit 6) (UConst 200)) (SConst (- 3))"


text \<open>\<^verbatim>\<open>DW_OP_bra\<close> pops the top of the stack and jumps whatever the popped value is; only
  on an empty stack does it not jump.\<close>

lemma bra_ignores_condition:
  assumes "at_code mem e d (DW_OP_bra # le_bytes 2 k @ code)"
  shows "expr_loop mem st e d = expr_loop mem st e
    (let d' = advance (DW_OP_bra # le_bytes 2 k) d
     in if evalStack d = [] then d'
        else d'\<lparr>evalStack := tl (evalStack d), e_start := skip (scast (k :: 16 word)) (e_start d')\<rparr>)"
proof -
  from at_code_advance [of mem e d "[DW_OP_bra]"] assms
  have "at_code mem e (advance [DW_OP_bra] d) (le_bytes 2 k @ code)" by simp
  then have "e_read next_word mem (advance [DW_OP_bra] d) = Some (k, advance (DW_OP_bra # le_bytes 2 k) d)"
    using half.dec_enc [OF TrueI, of mem "e_start (advance [DW_OP_bra] d)" k]
    by (simp add: at_code_def e_read_def advance_def)
  with expr_loop_step [OF assms] show ?thesis
    by (simp add: step_const_def step_stack_def step_arith_def step_jump_def Let_def)
qed

end
