(* ===== verification/DwarfInstr.thy ===== *)
theory DwarfInstr
  imports DwarfExpr
begin

unbundle bit_operations_syntax

section \<open>DWARF entries and call-frame instructions (\<^verbatim>\<open>src/dwarf/entry.h\<close>, \<^verbatim>\<open>parser.cpp\<close>)\<close>

text \<open>
  Common information entries, frame descriptor entries, and \<^verbatim>\<open>DwarfInstructionDecoder\<close>, which runs
  the call-frame instructions of an entry. A pointer to an optional object is an \<open>option\<close>. The
  constructors do not initialise the augmentation pointers: the value that such a pointer happens
  to have is an argument \<open>junk\<close>. The chain of remembered states is a list; copying a state gives
  an equal one (lemma \<open>copyDwarfState_id\<close>).
\<close>

abbreviation "DW_CFA_advance_loc \<equiv> 0x40 :: byte"
abbreviation "DW_CFA_offset \<equiv> 0x80 :: byte"
abbreviation "DW_CFA_restore \<equiv> 0xc0 :: byte"
abbreviation "DW_CFA_nop \<equiv> 0x00 :: byte"
abbreviation "DW_CFA_set_loc \<equiv> 0x01 :: byte"
abbreviation "DW_CFA_advance_loc1 \<equiv> 0x02 :: byte"
abbreviation "DW_CFA_advance_loc2 \<equiv> 0x03 :: byte"
abbreviation "DW_CFA_advance_loc4 \<equiv> 0x04 :: byte"
abbreviation "DW_CFA_offset_extended \<equiv> 0x05 :: byte"
abbreviation "DW_CFA_restore_extended \<equiv> 0x06 :: byte"
abbreviation "DW_CFA_undefined \<equiv> 0x07 :: byte"
abbreviation "DW_CFA_same_value \<equiv> 0x08 :: byte"
abbreviation "DW_CFA_register \<equiv> 0x09 :: byte"
abbreviation "DW_CFA_remember_state \<equiv> 0x0a :: byte"
abbreviation "DW_CFA_restore_state \<equiv> 0x0b :: byte"
abbreviation "DW_CFA_def_cfa \<equiv> 0x0c :: byte"
abbreviation "DW_CFA_def_cfa_register \<equiv> 0x0d :: byte"
abbreviation "DW_CFA_def_cfa_offset \<equiv> 0x0e :: byte"
abbreviation "DW_CFA_def_cfa_expression \<equiv> 0x0f :: byte"
abbreviation "DW_CFA_expression \<equiv> 0x10 :: byte"
abbreviation "DW_CFA_offset_extended_sf \<equiv> 0x11 :: byte"
abbreviation "DW_CFA_def_cfa_sf \<equiv> 0x12 :: byte"
abbreviation "DW_CFA_def_cfa_offset_sf \<equiv> 0x13 :: byte"
abbreviation "DW_CFA_val_offset \<equiv> 0x14 :: byte"
abbreviation "DW_CFA_val_offset_sf \<equiv> 0x15 :: byte"
abbreviation "DW_CFA_val_expression \<equiv> 0x16 :: byte"
abbreviation "DW_CFA_MIPS_advance_loc8 \<equiv> 0x1d :: byte"
abbreviation "DW_CFA_GNU_window_save \<equiv> 0x2d :: byte"
abbreviation "DW_CFA_GNU_args_size \<equiv> 0x2e :: byte"
abbreviation "DW_CFA_GNU_negative_offset_extended \<equiv> 0x2f :: byte"

record Augmentation =
  personalityEncoding :: byte
  personalityEncodingRoutine :: "64 word"
  codeEnc :: byte
  lsdaEnc :: byte
  isSignal :: bool

definition newAugmentation :: Augmentation where
  "newAugmentation = \<lparr>personalityEncoding = 0, personalityEncodingRoutine = 0, codeEnc = 0,
     lsdaEnc = DW_EH_PE_omit, isSignal = False\<rparr>"

record DwarfCIE =
  cie_startAddress :: address
  cie_length :: "64 word"
  cie_state :: "DwarfState option"
  cie_index :: "64 word"
  cieId :: "32 word"
  codeAlignFactor :: "64 word"
  dataAlignFactor :: "64 word"
  retAddressReg :: "64 word"
  cie_augmentation :: "Augmentation option"

definition newDwarfCIE :: "Augmentation option \<Rightarrow> address \<Rightarrow> 64 word \<Rightarrow> 64 word \<Rightarrow> DwarfCIE" where
  "newDwarfCIE junk a len index =
     \<lparr>cie_startAddress = a, cie_length = len, cie_state = None, cie_index = index, cieId = 0,
      codeAlignFactor = 0, dataAlignFactor = 0, retAddressReg = 0, cie_augmentation = junk\<rparr>"

record DwarfFDE =
  fde_startAddress :: address
  fde_length :: "64 word"
  fde_state :: "DwarfState option"
  cieIndex :: "64 word"
  ciePointer :: "32 word"
  pcBegin :: "64 word"
  pcRange :: "64 word"
  fde_augmentation :: "64 word option"

definition newDwarfFDE :: "64 word option \<Rightarrow> address \<Rightarrow> 64 word \<Rightarrow> 64 word \<Rightarrow> DwarfFDE" where
  "newDwarfFDE junk a len index =
     \<lparr>fde_startAddress = a, fde_length = len, fde_state = None, cieIndex = index, ciePointer = 0,
      pcBegin = 0, pcRange = 0, fde_augmentation = junk\<rparr>"

subsection \<open>The instruction decoder\<close>

record idecoder =
  i_start :: DwarfCursor
  cfaIp :: "64 word"
  i_state :: DwarfState
  rememberedState :: "DwarfState list"

definition i_read :: "'a reader \<Rightarrow> memory \<Rightarrow> idecoder \<Rightarrow> ('a \<times> idecoder) option" where
  "i_read rd mem d = do {(v, c) \<leftarrow> rd mem (i_start d); Some (v, d\<lparr>i_start := c\<rparr>)}"

text \<open>\<^verbatim>\<open>state->set(reg, type, offset)\<close>; the types are the opcodes, as \<^verbatim>\<open>int32_t\<close>.\<close>

definition i_set :: "64 word \<Rightarrow> byte \<Rightarrow> 64 word \<Rightarrow> idecoder \<Rightarrow> idecoder option" where
  "i_set reg ty ofs d =
     do {st \<leftarrow> state_set reg (mkRegisterData (ucast ty) ofs) (i_state d); Some (d\<lparr>i_state := st\<rparr>)}"

text \<open>\<^verbatim>\<open>state->set(reg, cie->getState()->get(reg))\<close>, with a null state of the entry a fault.\<close>

definition i_restore :: "DwarfCIE \<Rightarrow> 64 word \<Rightarrow> idecoder \<Rightarrow> idecoder option" where
  "i_restore cie reg d =
     do {old \<leftarrow> cie_state cie; rd \<leftarrow> state_get old reg; st \<leftarrow> state_set reg rd (i_state d);
         Some (d\<lparr>i_state := st\<rparr>)}"

definition parseAdvanceLocN :: "'a::len itself \<Rightarrow> DwarfCIE \<Rightarrow> memory \<Rightarrow> idecoder \<Rightarrow> idecoder option" where
  "parseAdvanceLocN ty cie mem d =
     do {(ofs :: 'a word, d) \<leftarrow> i_read next_word mem d;
         Some (d\<lparr>cfaIp := cfaIp d + ucast ofs * codeAlignFactor cie\<rparr>)}"

text \<open>The expression cases: run the expression on a copy of the cursor, then skip over it.\<close>

definition i_skip_expression :: "memory \<Rightarrow> idecoder \<Rightarrow> idecoder option" where
  "i_skip_expression mem d =
     do {(ul, d) \<leftarrow> i_read nextUleb128 mem d; Some (d\<lparr>i_start := skip ul (i_start d)\<rparr>)}"

definition instr_expression :: "memory \<Rightarrow> byte \<Rightarrow> idecoder \<Rightarrow> idecoder option" where
  "instr_expression mem opc d =
     (if opc = DW_CFA_def_cfa_expression then
        do {_ \<leftarrow> decode mem (i_state d) (i_start d);
            i_skip_expression mem (d\<lparr>i_state := (i_state d)\<lparr>cfaExpression := dc_cursor (i_start d)\<rparr>\<rparr>)}
      else if opc = DW_CFA_expression then
        do {(reg, d) \<leftarrow> i_read nextUleb128 mem d;
            d \<leftarrow> i_set reg DW_CFA_expression (dc_cursor (i_start d)) d;
            _ \<leftarrow> decode mem (i_state d) (i_start d);
            i_skip_expression mem d}
      else
        do {(reg, d) \<leftarrow> i_read nextUleb128 mem d;
            _ \<leftarrow> decode mem (i_state d) (i_start d);
            (ul, d) \<leftarrow> i_read nextUleb128 mem d;
            rd \<leftarrow> state_get (i_state d) reg;
            d \<leftarrow> i_set reg DW_CFA_val_expression (reg_offset rd) d;
            Some (d\<lparr>i_start := skip ul (i_start d)\<rparr>)})"

definition instr_signed :: "memory \<Rightarrow> DwarfCIE \<Rightarrow> DwarfCursor \<Rightarrow> byte \<Rightarrow> idecoder \<Rightarrow> idecoder option" where
  "instr_signed mem cie e opc d =
     (if opc = DW_CFA_offset_extended_sf then
        do {(reg, d) \<leftarrow> i_read nextUleb128 mem d; (l, d) \<leftarrow> i_read nextSleb128 mem d;
            ofs \<leftarrow> signed_mult l (dataAlignFactor cie); i_set reg DW_CFA_offset ofs d}
      else if opc = DW_CFA_val_offset_sf then
        do {(reg, d) \<leftarrow> i_read nextUleb128 mem d; (l, d) \<leftarrow> i_read nextSleb128 mem d;
            ofs \<leftarrow> signed_mult l (dataAlignFactor cie); i_set reg DW_CFA_val_offset ofs d}
      else if opc = DW_CFA_def_cfa_sf then
        do {(reg, d) \<leftarrow> i_read nextUleb128 mem d; (l, d) \<leftarrow> i_read nextSleb128 mem d;
            ofs \<leftarrow> signed_mult l (dataAlignFactor cie);
            Some (d\<lparr>i_state := (i_state d)\<lparr>cfaRegister := reg, cfaOffset := ofs, cfaExpression := 0\<rparr>\<rparr>)}
      else if opc = DW_CFA_def_cfa_offset_sf then
        do {(l, d) \<leftarrow> i_read nextSleb128 mem d; ofs \<leftarrow> signed_mult l (dataAlignFactor cie);
            Some (d\<lparr>i_state := (i_state d)\<lparr>cfaOffset := ofs\<rparr>\<rparr>)}
      else if opc = DW_CFA_MIPS_advance_loc8 then parseAdvanceLocN TYPE(64) cie mem d
      else if opc = DW_CFA_GNU_window_save then Some d
      else if opc = DW_CFA_GNU_args_size then do {(_, d) \<leftarrow> i_read nextUleb128 mem d; Some d}
      else if opc = DW_CFA_GNU_negative_offset_extended then
        do {(reg, d) \<leftarrow> i_read nextUleb128 mem d; (n, d) \<leftarrow> i_read nextUleb128 mem d;
            ofs \<leftarrow> signed_mult (- n) (dataAlignFactor cie); i_set reg DW_CFA_offset ofs d}
      else Some (d\<lparr>i_start := e\<rparr>))"

definition instr_cfa :: "memory \<Rightarrow> DwarfCIE \<Rightarrow> DwarfCursor \<Rightarrow> byte \<Rightarrow> idecoder \<Rightarrow> idecoder option" where
  "instr_cfa mem cie e opc d =
     (if opc = DW_CFA_remember_state then Some (d\<lparr>rememberedState := i_state d # rememberedState d\<rparr>)
      else if opc = DW_CFA_restore_state then
        Some (case rememberedState d of [] \<Rightarrow> d | st # sts \<Rightarrow> d\<lparr>i_state := st, rememberedState := sts\<rparr>)
      else if opc = DW_CFA_def_cfa then
        do {(reg, d) \<leftarrow> i_read nextUleb128 mem d; (n, d) \<leftarrow> i_read nextUleb128 mem d;
            Some (d\<lparr>i_state := (i_state d)\<lparr>cfaRegister := reg, cfaOffset := n, cfaExpression := 0\<rparr>\<rparr>)}
      else if opc = DW_CFA_def_cfa_register then
        do {(reg, d) \<leftarrow> i_read nextUleb128 mem d;
            Some (d\<lparr>i_state := (i_state d)\<lparr>cfaRegister := reg, cfaExpression := 0\<rparr>\<rparr>)}
      else if opc = DW_CFA_def_cfa_offset then
        do {(n, d) \<leftarrow> i_read nextUleb128 mem d; Some (d\<lparr>i_state := (i_state d)\<lparr>cfaOffset := n\<rparr>\<rparr>)}
      else if opc = DW_CFA_nop then Some d
      else if opc \<in> {DW_CFA_def_cfa_expression, DW_CFA_expression, DW_CFA_val_expression}
        then instr_expression mem opc d
      else instr_signed mem cie e opc d)"

definition instr_register :: "memory \<Rightarrow> DwarfCIE \<Rightarrow> DwarfCursor \<Rightarrow> byte \<Rightarrow> idecoder \<Rightarrow> idecoder option" where
  "instr_register mem cie e opc d =
     (if opc = DW_CFA_offset_extended then
        do {(reg, d) \<leftarrow> i_read nextUleb128 mem d; (n, d) \<leftarrow> i_read nextUleb128 mem d;
            i_set reg DW_CFA_offset (n * dataAlignFactor cie) d}
      else if opc = DW_CFA_val_offset then
        do {(reg, d) \<leftarrow> i_read nextUleb128 mem d; (n, d) \<leftarrow> i_read nextUleb128 mem d;
            i_set reg DW_CFA_val_offset (n * dataAlignFactor cie) d}
      else if opc = DW_CFA_restore_extended then
        do {(reg, d) \<leftarrow> i_read nextUleb128 mem d; i_restore cie reg d}
      else if opc = DW_CFA_undefined then
        do {(reg, d) \<leftarrow> i_read nextUleb128 mem d; i_set reg DW_CFA_undefined 0 d}
      else if opc = DW_CFA_same_value then
        do {(reg, d) \<leftarrow> i_read nextUleb128 mem d; i_set reg DW_CFA_same_value 0 d}
      else if opc = DW_CFA_register then
        do {(reg, d) \<leftarrow> i_read nextUleb128 mem d; (n, d) \<leftarrow> i_read nextUleb128 mem d;
            i_set reg DW_CFA_register n d}
      else instr_cfa mem cie e opc d)"

definition instr_location :: "memory \<Rightarrow> DwarfCIE \<Rightarrow> DwarfCursor \<Rightarrow> byte \<Rightarrow> 64 word \<Rightarrow> idecoder \<Rightarrow> idecoder option" where
  "instr_location mem cie e opc opr d =
     (if opc = DW_CFA_advance_loc then Some (d\<lparr>cfaIp := cfaIp d + opr * codeAlignFactor cie\<rparr>)
      else if opc = DW_CFA_offset then
        do {(n, d) \<leftarrow> i_read nextUleb128 mem d; i_set opr DW_CFA_offset (n * dataAlignFactor cie) d}
      else if opc = DW_CFA_restore then i_restore cie opr d
      else if opc = DW_CFA_set_loc then
        (case cie_augmentation cie of None \<Rightarrow> Some d
         | Some aug \<Rightarrow> do {(p, d) \<leftarrow> i_read (parseNextEncodedPointer (codeEnc aug)) mem d; Some (d\<lparr>cfaIp := p\<rparr>)})
      else if opc = DW_CFA_advance_loc1 then parseAdvanceLocN TYPE(8) cie mem d
      else if opc = DW_CFA_advance_loc2 then parseAdvanceLocN TYPE(16) cie mem d
      else if opc = DW_CFA_advance_loc4 then parseAdvanceLocN TYPE(32) cie mem d
      else instr_register mem cie e opc d)"

definition instr_step :: "memory \<Rightarrow> DwarfCIE \<Rightarrow> DwarfCursor \<Rightarrow> idecoder \<Rightarrow> idecoder option" where
  "instr_step mem cie e d =
     do {(opc :: byte, d) \<leftarrow> i_read next_word mem d;
         let opr = ucast (opc AND 0x3f); opc = (if opc AND 0xc0 \<noteq> 0 then opc AND 0xc0 else opc)
         in instr_location mem cie e opc opr d}"

partial_function (option) instr_loop :: "memory \<Rightarrow> DwarfCIE \<Rightarrow> DwarfCursor \<Rightarrow> idecoder \<Rightarrow> idecoder option" where
  "instr_loop mem cie e d =
     (if cursor_less (i_start d) e then Option.bind (instr_step mem cie e d) (instr_loop mem cie e) else Some d)"

definition initial_state :: "arch \<Rightarrow> DwarfCIE \<Rightarrow> DwarfState" where
  "initial_state arch cie =
     (case cie_state cie of None \<Rightarrow> newDwarfState arch | Some st \<Rightarrow> copyDwarfState arch st)"

definition newInstructionDecoder :: "arch \<Rightarrow> DwarfCIE \<Rightarrow> DwarfCursor \<Rightarrow> 64 word \<Rightarrow> idecoder" where
  "newInstructionDecoder arch cie c ip =
     \<lparr>i_start = c, cfaIp = ip, i_state = initial_state arch cie, rememberedState = []\<rparr>"

definition parseInstructions ::
    "arch \<Rightarrow> memory \<Rightarrow> DwarfCIE \<Rightarrow> DwarfCursor \<Rightarrow> DwarfCursor \<Rightarrow> 64 word \<Rightarrow> DwarfState option" where
  "parseInstructions arch mem cie c e ip =
     do {d \<leftarrow> instr_loop mem cie e (newInstructionDecoder arch cie c ip); Some (i_state d)}"

subsection \<open>An abstract frame machine\<close>

text \<open>
  What the call-frame instructions mean: a row of the unwind table gives the canonical frame
  address as a register and an offset, and a rule for every register; the machine has a location,
  a current row and a stack of remembered rows. Numbers are unbounded.
\<close>

datatype rule = Unset | UndefinedRule | SameRule | OffsetRule int | ValOffsetRule int | RegisterRule nat

record row =
  rules :: "nat \<Rightarrow> rule"
  cfa_reg :: nat
  cfa_ofs :: int

record machine =
  location :: int
  current :: row
  remembered :: "row list"

datatype cfa =
    AdvanceLoc nat | AdvanceLoc1 byte | AdvanceLoc2 "16 word" | AdvanceLoc4 "32 word"
  | Offset nat nat | OffsetExtended nat nat | OffsetExtendedSf nat int | NegativeOffset nat nat
  | ValOffset nat nat | ValOffsetSf nat int | Undefined nat | SameValue nat | Register nat nat
  | Restore nat | RestoreExtended nat | RememberState | RestoreState
  | DefCfa nat nat | DefCfaSf nat int | DefCfaRegister nat | DefCfaOffset nat | DefCfaOffsetSf int
  | ArgsSize nat | Nop

definition set_rule :: "nat \<Rightarrow> rule \<Rightarrow> machine \<Rightarrow> machine" where
  "set_rule r q m = m\<lparr>current := (current m)\<lparr>rules := (rules (current m))(r := q)\<rparr>\<rparr>"

definition set_cfa :: "nat \<Rightarrow> int \<Rightarrow> machine \<Rightarrow> machine" where
  "set_cfa r k m = m\<lparr>current := (current m)\<lparr>cfa_reg := r, cfa_ofs := k\<rparr>\<rparr>"

text \<open>\<open>caf\<close> and \<open>daf\<close> are the alignment factors, \<open>init\<close> the row of the common information entry.\<close>

fun exec :: "int \<Rightarrow> int \<Rightarrow> row \<Rightarrow> cfa \<Rightarrow> machine \<Rightarrow> machine" where
  "exec caf daf init (AdvanceLoc n) m = m\<lparr>location := location m + int n * caf\<rparr>"
| "exec caf daf init (AdvanceLoc1 w) m = m\<lparr>location := location m + uint w * caf\<rparr>"
| "exec caf daf init (AdvanceLoc2 w) m = m\<lparr>location := location m + uint w * caf\<rparr>"
| "exec caf daf init (AdvanceLoc4 w) m = m\<lparr>location := location m + uint w * caf\<rparr>"
| "exec caf daf init (Offset r n) m = set_rule r (OffsetRule (int n * daf)) m"
| "exec caf daf init (OffsetExtended r n) m = set_rule r (OffsetRule (int n * daf)) m"
| "exec caf daf init (OffsetExtendedSf r k) m = set_rule r (OffsetRule (k * daf)) m"
| "exec caf daf init (NegativeOffset r n) m = set_rule r (OffsetRule (- int n * daf)) m"
| "exec caf daf init (ValOffset r n) m = set_rule r (ValOffsetRule (int n * daf)) m"
| "exec caf daf init (ValOffsetSf r k) m = set_rule r (ValOffsetRule (k * daf)) m"
| "exec caf daf init (Undefined r) m = set_rule r UndefinedRule m"
| "exec caf daf init (SameValue r) m = set_rule r SameRule m"
| "exec caf daf init (Register r s) m = set_rule r (RegisterRule s) m"
| "exec caf daf init (Restore r) m = set_rule r (rules init r) m"
| "exec caf daf init (RestoreExtended r) m = set_rule r (rules init r) m"
| "exec caf daf init RememberState m = m\<lparr>remembered := current m # remembered m\<rparr>"
| "exec caf daf init RestoreState m =
     (case remembered m of [] \<Rightarrow> m | row # rs \<Rightarrow> m\<lparr>current := row, remembered := rs\<rparr>)"
| "exec caf daf init (DefCfa r n) m = set_cfa r (int n) m"
| "exec caf daf init (DefCfaSf r k) m = set_cfa r (k * daf) m"
| "exec caf daf init (DefCfaRegister r) m = set_cfa r (cfa_ofs (current m)) m"
| "exec caf daf init (DefCfaOffset n) m = set_cfa (cfa_reg (current m)) (int n) m"
| "exec caf daf init (DefCfaOffsetSf k) m = set_cfa (cfa_reg (current m)) (k * daf) m"
| "exec caf daf init (ArgsSize n) m = m"
| "exec caf daf init Nop m = m"

fun encode_cfa :: "cfa \<Rightarrow> byte list" where
  "encode_cfa (AdvanceLoc n) = [DW_CFA_advance_loc + of_nat n]"
| "encode_cfa (AdvanceLoc1 w) = [DW_CFA_advance_loc1, w]"
| "encode_cfa (AdvanceLoc2 w) = DW_CFA_advance_loc2 # le_bytes 2 w"
| "encode_cfa (AdvanceLoc4 w) = DW_CFA_advance_loc4 # le_bytes 4 w"
| "encode_cfa (Offset r n) = (DW_CFA_offset + of_nat r) # uleb_encode n"
| "encode_cfa (OffsetExtended r n) = DW_CFA_offset_extended # uleb_encode r @ uleb_encode n"
| "encode_cfa (OffsetExtendedSf r k) = DW_CFA_offset_extended_sf # uleb_encode r @ sleb_encode k"
| "encode_cfa (NegativeOffset r n) = DW_CFA_GNU_negative_offset_extended # uleb_encode r @ uleb_encode n"
| "encode_cfa (ValOffset r n) = DW_CFA_val_offset # uleb_encode r @ uleb_encode n"
| "encode_cfa (ValOffsetSf r k) = DW_CFA_val_offset_sf # uleb_encode r @ sleb_encode k"
| "encode_cfa (Undefined r) = DW_CFA_undefined # uleb_encode r"
| "encode_cfa (SameValue r) = DW_CFA_same_value # uleb_encode r"
| "encode_cfa (Register r s) = DW_CFA_register # uleb_encode r @ uleb_encode s"
| "encode_cfa (Restore r) = [DW_CFA_restore + of_nat r]"
| "encode_cfa (RestoreExtended r) = DW_CFA_restore_extended # uleb_encode r"
| "encode_cfa RememberState = [DW_CFA_remember_state]"
| "encode_cfa RestoreState = [DW_CFA_restore_state]"
| "encode_cfa (DefCfa r n) = DW_CFA_def_cfa # uleb_encode r @ uleb_encode n"
| "encode_cfa (DefCfaSf r k) = DW_CFA_def_cfa_sf # uleb_encode r @ sleb_encode k"
| "encode_cfa (DefCfaRegister r) = DW_CFA_def_cfa_register # uleb_encode r"
| "encode_cfa (DefCfaOffset n) = DW_CFA_def_cfa_offset # uleb_encode n"
| "encode_cfa (DefCfaOffsetSf k) = DW_CFA_def_cfa_offset_sf # sleb_encode k"
| "encode_cfa (ArgsSize n) = DW_CFA_GNU_args_size # uleb_encode n"
| "encode_cfa Nop = [DW_CFA_nop]"

text \<open>The operands that the decoder can read, for a target with \<open>R\<close> registers.\<close>

abbreviation "small n \<equiv> n < (2 ^ 31 :: nat)"

fun cfa_ok :: "nat \<Rightarrow> cfa \<Rightarrow> bool" where
  "cfa_ok R (AdvanceLoc n) \<longleftrightarrow> n < 64"
| "cfa_ok R (Offset r n) \<longleftrightarrow> r < R \<and> r < 64 \<and> small n"
| "cfa_ok R (OffsetExtended r n) \<longleftrightarrow> r < R \<and> small n"
| "cfa_ok R (OffsetExtendedSf r k) \<longleftrightarrow> r < R \<and> signed_range 31 k"
| "cfa_ok R (NegativeOffset r n) \<longleftrightarrow> r < R \<and> small n"
| "cfa_ok R (ValOffset r n) \<longleftrightarrow> r < R \<and> small n"
| "cfa_ok R (ValOffsetSf r k) \<longleftrightarrow> r < R \<and> signed_range 31 k"
| "cfa_ok R (Undefined r) \<longleftrightarrow> r < R"
| "cfa_ok R (SameValue r) \<longleftrightarrow> r < R"
| "cfa_ok R (Register r s) \<longleftrightarrow> r < R \<and> small s"
| "cfa_ok R (Restore r) \<longleftrightarrow> r < R \<and> r < 64"
| "cfa_ok R (RestoreExtended r) \<longleftrightarrow> r < R"
| "cfa_ok R (DefCfa r n) \<longleftrightarrow> small r \<and> small n"
| "cfa_ok R (DefCfaSf r k) \<longleftrightarrow> small r \<and> signed_range 31 k"
| "cfa_ok R (DefCfaRegister r) \<longleftrightarrow> small r"
| "cfa_ok R (DefCfaOffset n) \<longleftrightarrow> small n"
| "cfa_ok R (DefCfaOffsetSf k) \<longleftrightarrow> signed_range 31 k"
| "cfa_ok R (ArgsSize n) \<longleftrightarrow> small n"
| "cfa_ok R _ \<longleftrightarrow> True"

fun no_restore :: "cfa \<Rightarrow> bool" where
  "no_restore (Restore r) \<longleftrightarrow> False"
| "no_restore (RestoreExtended r) \<longleftrightarrow> False"
| "no_restore _ \<longleftrightarrow> True"

subsection \<open>The decoder implements the frame machine\<close>

fun rule_data :: "rule \<Rightarrow> DwarfRegisterData" where
  "rule_data Unset = mkRegisterData 0 0"
| "rule_data UndefinedRule = mkRegisterData (ucast DW_CFA_undefined) 0"
| "rule_data SameRule = mkRegisterData (ucast DW_CFA_same_value) 0"
| "rule_data (OffsetRule k) = mkRegisterData (ucast DW_CFA_offset) (of_int k)"
| "rule_data (ValOffsetRule k) = mkRegisterData (ucast DW_CFA_val_offset) (of_int k)"
| "rule_data (RegisterRule r) = mkRegisterData (ucast DW_CFA_register) (of_nat r)"

definition row_state :: "arch \<Rightarrow> row \<Rightarrow> DwarfState" where
  "row_state arch row =
     \<lparr>registers = map (\<lambda>r. rule_data (rules row r)) [0..<NUM_REGISTERS arch],
      cfaRegister = of_nat (cfa_reg row), cfaOffset = of_int (cfa_ofs row), cfaExpression = 0,
      cfaExpressionLength = 0\<rparr>"

definition machine_decoder :: "arch \<Rightarrow> DwarfCursor \<Rightarrow> machine \<Rightarrow> idecoder" where
  "machine_decoder arch c m =
     \<lparr>i_start = c, cfaIp = of_int (location m), i_state = row_state arch (current m),
      rememberedState = map (row_state arch) (remembered m)\<rparr>"

definition new_row :: row where
  "new_row = \<lparr>rules = (\<lambda>_. Unset), cfa_reg = 0, cfa_ofs = 0\<rparr>"

lemma newDwarfState_row: "newDwarfState arch = row_state arch new_row"
  by (simp add: newDwarfState_def row_state_def new_row_def map_replicate_const)

lemma NUM_REGISTERS_le: "r < NUM_REGISTERS arch \<Longrightarrow> r < 256"
  by (cases arch) auto

lemma length_registers_row [simp]: "length (registers (row_state arch row)) = NUM_REGISTERS arch"
  by (simp add: row_state_def)

lemma unat_register: "r < NUM_REGISTERS arch \<Longrightarrow> unat (of_nat r :: 64 word) = r"
  using NUM_REGISTERS_le [of r arch] by (simp add: unat_of_nat)

lemma state_set_rule:
  assumes "r < NUM_REGISTERS arch"
  shows "state_set (of_nat r) (rule_data q) (row_state arch row) =
    Some (row_state arch (row\<lparr>rules := (rules row)(r := q)\<rparr>))"
proof -
  have "(map (\<lambda>r. rule_data (rules row r)) [0..<NUM_REGISTERS arch])[r := rule_data q] =
    map (\<lambda>s. rule_data (((rules row)(r := q)) s)) [0..<NUM_REGISTERS arch]"
    using assms by (intro nth_equalityI) (auto simp: nth_list_update)
  then show ?thesis
    using assms by (simp add: state_set_def unat_register) (simp add: row_state_def)
qed

lemma i_set_rule:
  assumes "r < NUM_REGISTERS arch" "mkRegisterData (ucast ty) ofs = rule_data q"
  shows "i_set (of_nat r) ty ofs (machine_decoder arch c m) = Some (machine_decoder arch c (set_rule r q m))"
  using assms by (simp add: i_set_def state_set_rule) (simp add: machine_decoder_def state_set_rule set_rule_def)

lemma i_restore_rule:
  assumes "r < NUM_REGISTERS arch" "cie_state cie = Some (row_state arch init)"
  shows "i_restore cie (of_nat r) (machine_decoder arch c m) =
    Some (machine_decoder arch c (set_rule r (rules init r) m))"
proof -
  have "state_get (row_state arch init) (of_nat r) = Some (rule_data (rules init r))"
    using assms(1) by (simp add: state_get_def unat_register) (simp add: row_state_def)
  with assms show ?thesis
    by (simp add: i_restore_def) (simp add: machine_decoder_def state_set_rule set_rule_def)
qed

lemma i_read_simps:
  "i_read rd mem (machine_decoder arch c m) =
    Option.bind (rd mem c) (\<lambda>(v, c'). Some (v, machine_decoder arch c' m))"
  by (simp add: i_read_def machine_decoder_def split: Option.bind_splits)

lemma signed_mult_small:
  assumes "signed_range 31 k" "signed_range 31 l"
  shows "signed_mult (of_int k) (of_int l) = Some (of_int (k * l))"
proof -
  have "\<bar>k\<bar> \<le> 2 ^ 31" "\<bar>l\<bar> \<le> 2 ^ 31" using assms by (auto simp: signed_range_def)
  then have "\<bar>k\<bar> * \<bar>l\<bar> \<le> 2 ^ 31 * 2 ^ 31" by (rule mult_mono) simp_all
  then have "\<bar>k * l\<bar> \<le> 2 ^ 62" by (simp add: abs_mult)
  then have f: "signed_fits (k * l)" by (auto simp: signed_fits_def)
  have "sint (of_int j :: 64 word) = j" if "signed_range 31 j" for j
    using that by (simp add: signed_of_int signed_range_def signed_take_bit_int_eq_self)
  with assms f show ?thesis by (simp add: signed_mult_def)
qed

lemma primary_opcode:
  assumes "n < 64"
  shows "(DW_CFA_advance_loc + of_nat n) AND 0x3f = of_nat n" "(DW_CFA_advance_loc + of_nat n) AND 0xc0 = 0x40"
    "(DW_CFA_offset + of_nat n) AND 0x3f = of_nat n" "(DW_CFA_offset + of_nat n) AND 0xc0 = 0x80"
    "(DW_CFA_restore + of_nat n) AND 0x3f = of_nat n" "(DW_CFA_restore + of_nat n) AND 0xc0 = 0xc0"
    "ucast (of_nat n :: byte) = (of_nat n :: 64 word)"
proof -
  have "\<forall>n \<in> set [0..<64]. (0x40 + of_nat n :: byte) AND 0x3f = of_nat n \<and> (0x40 + of_nat n :: byte) AND 0xc0 = 0x40 \<and>
    (0x80 + of_nat n :: byte) AND 0x3f = of_nat n \<and> (0x80 + of_nat n :: byte) AND 0xc0 = 0x80 \<and>
    (0xc0 + of_nat n :: byte) AND 0x3f = of_nat n \<and> (0xc0 + of_nat n :: byte) AND 0xc0 = 0xc0"
    by code_simp
  then show "(DW_CFA_advance_loc + of_nat n) AND 0x3f = of_nat n" "(DW_CFA_advance_loc + of_nat n) AND 0xc0 = 0x40"
    "(DW_CFA_offset + of_nat n) AND 0x3f = of_nat n" "(DW_CFA_offset + of_nat n) AND 0xc0 = 0x80"
    "(DW_CFA_restore + of_nat n) AND 0x3f = of_nat n" "(DW_CFA_restore + of_nat n) AND 0xc0 = 0xc0"
    using assms by auto
  show "ucast (of_nat n :: byte) = (of_nat n :: 64 word)"
    using assms by (simp add: unsigned_of_nat take_bit_nat_eq_self)
qed

lemmas instr_defs = instr_location_def instr_register_def instr_cfa_def instr_signed_def parseAdvanceLocN_def

lemma machine_updates:
  "cfaIp (machine_decoder arch c m) = of_int (location m)"
  "i_state (machine_decoder arch c m) = row_state arch (current m)"
  "rememberedState (machine_decoder arch c m) = map (row_state arch) (remembered m)"
  by (simp_all add: machine_decoder_def)

text \<open>One instruction: the step reads its encoding and performs it.\<close>

lemma instr_step_primary:
  assumes "mem (dc_cursor c) = Some b" "b AND 0xc0 \<noteq> 0"
  shows "instr_step mem cie e (machine_decoder arch c m) =
    instr_location mem cie e (b AND 0xc0) (ucast (b AND 0x3f)) (machine_decoder arch (skip 1 c) m)"
  using assms by (simp add: instr_step_def i_read_simps next_byte)

lemma instr_step_extended:
  assumes "mem (dc_cursor c) = Some b" "b AND 0xc0 = 0"
  shows "instr_step mem cie e (machine_decoder arch c m) =
    instr_location mem cie e b (ucast (b AND 0x3f)) (machine_decoder arch (skip 1 c) m)"
  using assms by (simp add: instr_step_def i_read_simps next_byte)

lemma read_uleb:
  assumes "bytes_at mem (dc_cursor c) (uleb_encode n)" "small n"
  shows "i_read nextUleb128 mem (machine_decoder arch c m) =
    Some (of_nat n, machine_decoder arch (skip (of_nat (length (uleb_encode n))) c) m)"
  using uleb.dec_enc [OF assms(2,1)] by (simp add: i_read_simps)

lemma read_sleb:
  assumes "bytes_at mem (dc_cursor c) (sleb_encode k)" "signed_range 31 k"
  shows "i_read nextSleb128 mem (machine_decoder arch c m) =
    Some (of_int k, machine_decoder arch (skip (of_nat (length (sleb_encode k))) c) m)"
  using sleb.dec_enc [OF assms(2,1)] by (simp add: i_read_simps)

lemma read_uleb_uleb:
  assumes "bytes_at mem (dc_cursor c) (uleb_encode r @ uleb_encode n)" "small r" "small n"
  shows "Option.bind (i_read nextUleb128 mem (machine_decoder arch c m))
      (\<lambda>(r, d). Option.bind (i_read nextUleb128 mem d) (\<lambda>(n, d). f r n d)) =
    f (of_nat r) (of_nat n) (machine_decoder arch (skip (of_nat (length (uleb_encode r @ uleb_encode n))) c) m)"
  using assms read_uleb [of mem c r] read_uleb [of mem "skip (of_nat (length (uleb_encode r))) c" n] by simp

lemma read_uleb_sleb:
  assumes "bytes_at mem (dc_cursor c) (uleb_encode r @ sleb_encode k)" "small r" "signed_range 31 k"
  shows "Option.bind (i_read nextUleb128 mem (machine_decoder arch c m))
      (\<lambda>(r, d). Option.bind (i_read nextSleb128 mem d) (\<lambda>(n, d). f r n d)) =
    f (of_nat r) (of_int k) (machine_decoder arch (skip (of_nat (length (uleb_encode r @ sleb_encode k))) c) m)"
  using assms read_uleb [of mem c r] read_sleb [of mem "skip (of_nat (length (uleb_encode r))) c" k] by simp

lemma small_register: "r < NUM_REGISTERS arch \<Longrightarrow> small r"
  using NUM_REGISTERS_le [of r arch] by simp

lemma instr_step_locations:
  assumes "codeAlignFactor cie = of_int caf" "i \<in> {AdvanceLoc n, AdvanceLoc1 w1, AdvanceLoc2 w2, AdvanceLoc4 w4}"
    and "cfa_ok R i" "bytes_at mem (dc_cursor c) (encode_cfa i)"
  shows "instr_step mem cie e (machine_decoder arch c m) =
    Some (machine_decoder arch (skip (of_nat (length (encode_cfa i))) c) (exec caf daf init i m))"
proof -
  have adv: "(machine_decoder arch c' m)\<lparr>cfaIp := of_int (location m) + of_int k * of_int caf\<rparr> =
    machine_decoder arch c' (m\<lparr>location := location m + k * caf\<rparr>)" for c' k
    by (simp add: machine_decoder_def)
  note rd = byte.dec_enc [OF TrueI, of mem "skip 1 c" w1] half.dec_enc [OF TrueI, of mem "skip 1 c" w2]
    int32.dec_enc [OF TrueI, of mem "skip 1 c" w4]
  from assms(2) consider "i = AdvanceLoc n" | "i = AdvanceLoc1 w1" | "i = AdvanceLoc2 w2" | "i = AdvanceLoc4 w4" by auto
  then show ?thesis
  proof cases
    case 1
    with assms show ?thesis using adv [where k = "int n"]
      by (simp add: instr_step_primary primary_opcode instr_location_def machine_updates)
  next
    case 2
    with assms rd show ?thesis using adv [where k = "uint w1"]
      by (simp add: instr_step_extended instr_location_def parseAdvanceLocN_def i_read_simps machine_updates)
  next
    case 3
    with assms rd show ?thesis using adv [where k = "uint w2"]
      by (simp add: instr_step_extended instr_location_def parseAdvanceLocN_def i_read_simps machine_updates)
  next
    case 4
    with assms rd show ?thesis using adv [where k = "uint w4"]
      by (simp add: instr_step_extended instr_location_def parseAdvanceLocN_def i_read_simps machine_updates)
  qed
qed

lemma signed_range_minus: "small n \<Longrightarrow> signed_range 31 (- int n)"
  by (simp add: signed_range_def)

text \<open>The updates of the canonical frame address, as the decoder writes them.\<close>

lemma set_cfa_machine:
  "(machine_decoder arch c m)\<lparr>i_state := (i_state (machine_decoder arch c m))
      \<lparr>cfaRegister := of_nat r, cfaOffset := of_int k, cfaExpression := 0\<rparr>\<rparr> = machine_decoder arch c (set_cfa r k m)"
  "(machine_decoder arch c m)\<lparr>i_state := (i_state (machine_decoder arch c m))
      \<lparr>cfaRegister := of_nat r, cfaOffset := of_int k * of_int l, cfaExpression := 0\<rparr>\<rparr> =
    machine_decoder arch c (set_cfa r (k * l) m)"
  "(machine_decoder arch c m)\<lparr>i_state := (i_state (machine_decoder arch c m))\<lparr>cfaOffset := of_int k * of_int l\<rparr>\<rparr> =
    machine_decoder arch c (set_cfa (cfa_reg (current m)) (k * l) m)"
  "(machine_decoder arch c m)\<lparr>i_state := (i_state (machine_decoder arch c m))
      \<lparr>cfaRegister := of_nat r, cfaOffset := of_nat n, cfaExpression := 0\<rparr>\<rparr> = machine_decoder arch c (set_cfa r (int n) m)"
  "(machine_decoder arch c m)\<lparr>i_state := (i_state (machine_decoder arch c m))
      \<lparr>cfaRegister := of_nat r, cfaExpression := 0\<rparr>\<rparr> = machine_decoder arch c (set_cfa r (cfa_ofs (current m)) m)"
  "(machine_decoder arch c m)\<lparr>i_state := (i_state (machine_decoder arch c m))\<lparr>cfaOffset := of_int k\<rparr>\<rparr> =
    machine_decoder arch c (set_cfa (cfa_reg (current m)) k m)"
  "(machine_decoder arch c m)\<lparr>i_state := (i_state (machine_decoder arch c m))\<lparr>cfaOffset := of_nat n\<rparr>\<rparr> =
    machine_decoder arch c (set_cfa (cfa_reg (current m)) (int n) m)"
  by (simp_all add: machine_decoder_def set_cfa_def row_state_def)

lemma instr_step_encoded:
  assumes "cfa_ok (NUM_REGISTERS arch) i" "bytes_at mem (dc_cursor c) (encode_cfa i)"
    and cie: "codeAlignFactor cie = of_int caf" "dataAlignFactor cie = of_int daf" "signed_range 31 daf"
      "cie_state cie = Some (row_state arch init) \<or> no_restore i"
  shows "instr_step mem cie e (machine_decoder arch c m) =
    Some (machine_decoder arch (skip (of_nat (length (encode_cfa i))) c) (exec caf daf init i m))"
proof (cases i)
  case (Offset r n)
  with assms(1,2) cie show ?thesis
    using read_uleb [of mem "skip 1 c" n]
    by (simp add: instr_step_primary primary_opcode instr_defs i_set_rule)
next
  case (OffsetExtended r n)
  with assms(1,2) cie show ?thesis
    using small_register [of r arch]
    by (simp add: read_uleb_uleb [of mem "skip 1 c" r n] instr_step_extended instr_defs i_set_rule)
next
  case (OffsetExtendedSf r k)
  with assms(1,2) cie show ?thesis
    using small_register [of r arch] signed_mult_small [of k daf]
    by (simp add: read_uleb_sleb [of mem "skip 1 c" r k] instr_step_extended instr_defs i_set_rule)
next
  case (NegativeOffset r n)
  with assms(1,2) cie show ?thesis
    using small_register [of r arch] signed_mult_small [of "- int n" daf] signed_range_minus [of n]
    by (simp add: read_uleb_uleb [of mem "skip 1 c" r n] instr_step_extended instr_defs i_set_rule)
next
  case (ValOffset r n)
  with assms(1,2) cie show ?thesis
    using small_register [of r arch]
    by (simp add: read_uleb_uleb [of mem "skip 1 c" r n] instr_step_extended instr_defs i_set_rule)
next
  case (ValOffsetSf r k)
  with assms(1,2) cie show ?thesis
    using small_register [of r arch] signed_mult_small [of k daf]
    by (simp add: read_uleb_sleb [of mem "skip 1 c" r k] instr_step_extended instr_defs i_set_rule)
next
  case (Undefined r)
  with assms(1,2) cie show ?thesis
    using read_uleb [of mem "skip 1 c" r] small_register [of r arch]
    by (simp add: instr_step_extended instr_defs i_set_rule)
next
  case (SameValue r)
  with assms(1,2) cie show ?thesis
    using read_uleb [of mem "skip 1 c" r] small_register [of r arch]
    by (simp add: instr_step_extended instr_defs i_set_rule)
next
  case (Register r n)
  with assms(1,2) cie show ?thesis
    using small_register [of r arch]
    by (simp add: read_uleb_uleb [of mem "skip 1 c" r n] instr_step_extended instr_defs i_set_rule)
next
  case (Restore r)
  with assms(1,2) cie show ?thesis
    by (simp add: instr_step_primary primary_opcode instr_defs i_restore_rule)
next
  case (RestoreExtended r)
  with assms(1,2) cie show ?thesis
    using read_uleb [of mem "skip 1 c" r] small_register [of r arch]
    by (simp add: instr_step_extended instr_defs i_restore_rule)
next
  case (DefCfa r n)
  with assms(1,2) cie show ?thesis
    using small_register [of r arch]
    by (simp add: read_uleb_uleb [of mem "skip 1 c" r n] instr_step_extended instr_defs set_cfa_machine)
next
  case (DefCfaSf r k)
  with assms(1,2) cie show ?thesis
    using small_register [of r arch] signed_mult_small [of k daf]
    by (simp add: read_uleb_sleb [of mem "skip 1 c" r k] instr_step_extended instr_defs set_cfa_machine)
next
  case (DefCfaRegister r)
  with assms(1,2) cie show ?thesis
    using read_uleb [of mem "skip 1 c" r] small_register [of r arch]
    by (simp add: instr_step_extended instr_defs set_cfa_machine)
next
  case (DefCfaOffset n)
  with assms(1,2) cie show ?thesis
    using read_uleb [of mem "skip 1 c" n]
    by (simp add: instr_step_extended instr_defs set_cfa_machine)
next
  case (DefCfaOffsetSf k)
  with assms(1,2) cie show ?thesis
    using read_sleb [of mem "skip 1 c" k] signed_mult_small [of k daf]
    by (simp add: instr_step_extended instr_defs set_cfa_machine)
next
  case (ArgsSize n)
  with assms(1,2) cie show ?thesis
    using read_uleb [of mem "skip 1 c" n]
    by (simp add: instr_step_extended instr_defs )
next
  case (Nop)
  with assms(1,2) cie show ?thesis
    by (simp add: instr_step_extended instr_defs )
next
  case (RememberState)
  with assms(1,2) cie show ?thesis
    by (simp add: instr_step_extended instr_defs) (simp add: machine_decoder_def)
next
  case (RestoreState)
  with assms(1,2) cie show ?thesis
    by (simp add: instr_step_extended instr_defs) (simp add: machine_decoder_def split: list.split)
qed (rule instr_step_locations [OF cie(1) _ assms(1,2)], blast)+

lemma instr_loop_encoded:
  assumes "\<forall>i \<in> set prog. cfa_ok (NUM_REGISTERS arch) i"
    and "bytes_at mem (dc_cursor c) (concat (map encode_cfa prog))"
    and "unat (dc_cursor c) + length (concat (map encode_cfa prog)) = unat (dc_cursor e)"
    and cie: "codeAlignFactor cie = of_int caf" "dataAlignFactor cie = of_int daf" "signed_range 31 daf"
      "cie_state cie = Some (row_state arch init) \<or> (\<forall>i \<in> set prog. no_restore i)"
  shows "instr_loop mem cie e (machine_decoder arch c m) =
    Some (machine_decoder arch (skip (of_nat (length (concat (map encode_cfa prog)))) c)
      (fold (exec caf daf init) prog m))"
  using assms(1-3) cie(4)
proof (induction prog arbitrary: c m)
  case Nil
  then show ?case by (subst instr_loop.simps) (simp add: cursor_less_def machine_decoder_def word_less_nat_alt)
next
  case (Cons i prog)
  let ?n = "length (encode_cfa i)" and ?k = "length (concat (map encode_cfa prog))"
  have pos: "0 < ?n" by (cases i) simp_all
  have "unat (dc_cursor e) < 2 ^ 64" using unsigned_less [of "dc_cursor e"] by simp
  with Cons.prems(3) have "unat (dc_cursor c) + ?n < 2 ^ 64" by simp
  then have u: "unat (dc_cursor (skip (of_nat ?n) c)) = unat (dc_cursor c) + ?n"
    by (simp add: unat_add_no_wrap unat_of_nat)
  have less: "cursor_less (i_start (machine_decoder arch c m)) e"
    using pos Cons.prems(3) by (simp add: cursor_less_def machine_decoder_def word_less_nat_alt del: length_greater_0_conv)
  have "instr_loop mem cie e (machine_decoder arch (skip (of_nat ?n) c) (exec caf daf init i m)) =
      Some (machine_decoder arch (skip (of_nat ?k) (skip (of_nat ?n) c)) (fold (exec caf daf init) prog (exec caf daf init i m)))"
    using Cons.prems u by (intro Cons.IH) (simp_all, blast)
  moreover have "cie_state cie = Some (row_state arch init) \<or> no_restore i" using Cons.prems(4) by auto
  moreover have "cfa_ok (NUM_REGISTERS arch) i" "bytes_at mem (dc_cursor c) (encode_cfa i)"
    using Cons.prems(1,2) by simp_all
  ultimately show ?case
    using less instr_step_encoded [of arch i mem c cie caf daf init e m] cie(1-3)
    by (subst instr_loop.simps) simp
qed

lemma parseInstructions_encoded:
  assumes "\<forall>i \<in> set prog. cfa_ok (NUM_REGISTERS arch) i"
    and "bytes_at mem (dc_cursor c) (concat (map encode_cfa prog))"
    and "unat (dc_cursor c) + length (concat (map encode_cfa prog)) = unat (dc_cursor e)"
    and "codeAlignFactor cie = of_int caf" "dataAlignFactor cie = of_int daf" "signed_range 31 daf"
    and "cie_state cie = map_option (row_state arch) row0" "row0 = None \<longrightarrow> (\<forall>i \<in> set prog. no_restore i)"
    and "init = (case row0 of None \<Rightarrow> new_row | Some r \<Rightarrow> r)"
  shows "parseInstructions arch mem cie c e ip = Some (row_state arch
    (current (fold (exec caf daf init) prog \<lparr>location = uint ip, current = init, remembered = []\<rparr>)))"
proof -
  let ?m = "\<lparr>location = uint ip, current = init, remembered = []\<rparr>"
  have "state_wf arch (row_state arch r)" for r by (simp add: state_wf_def)
  then have "newInstructionDecoder arch cie c ip = machine_decoder arch c ?m"
    using assms(7,9) by (simp add: newInstructionDecoder_def initial_state_def machine_decoder_def newDwarfState_row
      split: option.split)
  moreover have "cie_state cie = Some (row_state arch init) \<or> (\<forall>i \<in> set prog. no_restore i)"
    using assms(7-9) by (auto split: option.splits)
  ultimately show ?thesis
    using instr_loop_encoded [OF assms(1-6), of init ?m] by (simp add: parseInstructions_def machine_updates)
qed

text \<open>Claim C17: the call-frame instruction decoder implements the abstract frame machine. On the
  encoding of any sequence of instructions with operands in range, \<^verbatim>\<open>parseInstructions\<close> returns,
  and its state is the row that the machine reaches, remembered rows and restored rules included,
  starting from the row of the common information entry, or, for that entry itself, from the
  empty row (an entry without a row cannot restore from it).\<close>

theorem instructions_refine_machine:
  assumes "\<forall>i \<in> set prog. cfa_ok (NUM_REGISTERS arch) i"
    and "bytes_at mem (dc_cursor c) (concat (map encode_cfa prog))"
    and "unat (dc_cursor c) + length (concat (map encode_cfa prog)) = unat (dc_cursor e)"
    and "codeAlignFactor cie = of_int caf" "dataAlignFactor cie = of_int daf" "signed_range 31 daf"
    and "cie_state cie = map_option (row_state arch) row0" "row0 = None \<longrightarrow> (\<forall>i \<in> set prog. no_restore i)"
    and "init = (case row0 of None \<Rightarrow> new_row | Some r \<Rightarrow> r)"
  shows "parseInstructions arch mem cie c e ip = Some (row_state arch
    (current (fold (exec caf daf init) prog \<lparr>location = uint ip, current = init, remembered = []\<rparr>)))"
  using assms by (rule parseInstructions_encoded)

theorem instructions_refine_machine_witness:
  "parseInstructions ARCH_X86_64
      (mem_of 0x1000 (concat (map encode_cfa [DefCfaOffset 16, Offset 6 2, RememberState, DefCfaRegister 6, RestoreState])))
      ((newDwarfCIE None 0 0 0)\<lparr>codeAlignFactor := 1, dataAlignFactor := - 8,
        cie_state := Some (row_state ARCH_X86_64 (new_row\<lparr>cfa_reg := 7, cfa_ofs := 8\<rparr>))\<rparr>)
      (newDwarfCursor 0x1000) (newDwarfCursor 0x1008) 0 =
    Some (row_state ARCH_X86_64
      \<lparr>rules = (\<lambda>_. Unset)(6 := OffsetRule (- 16)), cfa_reg = 7, cfa_ofs = 16\<rparr>)"
proof -
  let ?p = "[DefCfaOffset 16, Offset 6 2, RememberState, DefCfaRegister 6, RestoreState]"
  have "concat (map encode_cfa ?p) = [0x0e, 16, 0x86, 2, 0x0a, 0x0d, 6, 0x0b]"
    by (simp add: uleb_encode.simps)
  with bytes_at_mem_of [of "concat (map encode_cfa ?p)" "0x1000"]
    instructions_refine_machine [of ?p ARCH_X86_64 "mem_of 0x1000 (concat (map encode_cfa ?p))"
      "newDwarfCursor 0x1000" "newDwarfCursor 0x1008"
      "(newDwarfCIE None 0 0 0)\<lparr>codeAlignFactor := 1, dataAlignFactor := - 8,
        cie_state := Some (row_state ARCH_X86_64 (new_row\<lparr>cfa_reg := 7, cfa_ofs := 8\<rparr>))\<rparr>" 1 "- 8"
      "Some (new_row\<lparr>cfa_reg := 7, cfa_ofs := 8\<rparr>)" _ 0]
  show ?thesis
    by (simp add: newDwarfCursor_def signed_range_def set_cfa_def set_rule_def new_row_def uleb_encode.simps)
qed

end
