(* ===== verification/DwarfParser.thy ===== *)
theory DwarfParser
  imports DwarfInstr
begin

unbundle bit_operations_syntax

section \<open>The .eh_frame parser (\<^verbatim>\<open>src/dwarf/parser.cpp\<close>, \<^verbatim>\<open>entry.cpp\<close>)\<close>

text \<open>
  \<^verbatim>\<open>DwarfUnwindInfo\<close> and \<^verbatim>\<open>DwarfParser\<close>. The parser walks the mapped section and collects the
  common information entries and the frame descriptor entries, whose function bounds the
  disassembler uses. \<open>None\<close> stands for a fault, undefined behaviour, a failed assertion or a loop
  that does not end; \<open>Some None\<close> is the null pointer that \<^verbatim>\<open>parseCIE\<close> returns on an error.
\<close>

record DwarfUnwindInfo =
  cieList :: "DwarfCIE list"
  fdeList :: "DwarfFDE list"
  cieMap :: "address \<rightharpoonup> 64 word"

definition newDwarfUnwindInfo :: DwarfUnwindInfo where
  "newDwarfUnwindInfo = \<lparr>cieList = [], fdeList = [], cieMap = Map.empty\<rparr>"

definition addCIE :: "DwarfCIE \<Rightarrow> DwarfUnwindInfo \<Rightarrow> DwarfUnwindInfo" where
  "addCIE cie info =
     info\<lparr>cieList := cieList info @ [cie], cieMap := (cieMap info)(cie_startAddress cie \<mapsto> cie_index cie)\<rparr>"

definition addFDE :: "DwarfFDE \<Rightarrow> DwarfUnwindInfo \<Rightarrow> DwarfUnwindInfo" where
  "addFDE fde info = info\<lparr>fdeList := fdeList info @ [fde]\<rparr>"

definition getCIECount :: "DwarfUnwindInfo \<Rightarrow> 64 word" where
  "getCIECount info = of_nat (length (cieList info))"

definition findCIE :: "address \<Rightarrow> DwarfUnwindInfo \<Rightarrow> 64 word option" where
  "findCIE a info = cieMap info a"

definition getCIE :: "64 word \<Rightarrow> DwarfUnwindInfo \<Rightarrow> DwarfCIE option" where
  "getCIE i info = (if unat i < length (cieList info) then Some (cieList info ! unat i) else None)"

subsection \<open>Common information entries\<close>

text \<open>The loop over the characters of the augmentation string after its \<^verbatim>\<open>z\<close>.\<close>

abbreviation char_code :: "char \<Rightarrow> byte" where
  "char_code ch \<equiv> of_char ch"

definition aug_char :: "memory \<Rightarrow> byte \<Rightarrow> Augmentation \<times> DwarfCursor \<Rightarrow> (Augmentation \<times> DwarfCursor) option" where
  "aug_char mem b ac =
     (let (aug, c) = ac
      in if b = char_code (CHR ''P'') then
           do {(pe, c) \<leftarrow> next_word mem c; (pr, c) \<leftarrow> parseNextEncodedPointer pe mem c;
               Some (aug\<lparr>personalityEncoding := pe, personalityEncodingRoutine := pr\<rparr>, c)}
         else if b = char_code (CHR ''R'') then
           do {(x, c) \<leftarrow> next_word mem c; Some (aug\<lparr>codeEnc := x\<rparr>, c)}
         else if b = char_code (CHR ''L'') then
           do {(x, c) \<leftarrow> next_word mem c; Some (aug\<lparr>lsdaEnc := x\<rparr>, c)}
         else if b = char_code (CHR ''S'') then Some (aug\<lparr>isSignal := True\<rparr>, c)
         else Some (aug, c))"

partial_function (option) aug_loop ::
    "memory \<Rightarrow> address \<Rightarrow> Augmentation \<times> DwarfCursor \<Rightarrow> (Augmentation \<times> DwarfCursor) option" where
  "aug_loop mem p ac =
     Option.bind (mem p) (\<lambda>b. if b = 0 then Some ac else Option.bind (aug_char mem b ac) (aug_loop mem (p + 1)))"

text \<open>\<open>junk\<close> is the value of the uninitialised augmentation pointer.\<close>

definition parseCIE ::
    "arch \<Rightarrow> memory \<Rightarrow> Augmentation option \<Rightarrow> DwarfCursor \<Rightarrow> DwarfCursor \<Rightarrow> 64 word \<Rightarrow> 64 word \<Rightarrow> DwarfCIE option option" where
  "parseCIE arch mem junk c e len index =
     do {let cie = newDwarfCIE junk (dc_start c) len index;
         (version :: byte, c) \<leftarrow> next_word mem c;
         if version \<noteq> 1 \<and> version \<noteq> 3 then Some None
         else do {
           (str, c) \<leftarrow> nextString mem c;
           (caf, c) \<leftarrow> nextUleb128 mem c;
           (daf, c) \<leftarrow> nextSleb128 mem c;
           (ra, c) \<leftarrow> nextUleb128 mem c;
           let cie = cie\<lparr>codeAlignFactor := caf, dataAlignFactor := daf, retAddressReg := ra\<rparr>;
           b \<leftarrow> mem str;
           if b \<noteq> 0 \<and> b \<noteq> char_code (CHR ''z'') then Some None
           else do {
             (cie, c) \<leftarrow> (if b = 0 then Some (cie, c)
               else do {
                 (_, c) \<leftarrow> nextUleb128 mem c;
                 (aug, c) \<leftarrow> aug_loop mem (str + 1) (newAugmentation, c);
                 Some (cie\<lparr>cie_augmentation := Some aug\<rparr>, c)});
             st \<leftarrow> parseInstructions arch mem cie c e 0;
             Some (Some (cie\<lparr>cie_state := Some st\<rparr>))}}}"

subsection \<open>Frame descriptor entries\<close>

record DwarfParser =
  p_info :: DwarfUnwindInfo
  readAddress :: address
  virtualAddress :: address

definition parseFDE ::
    "memory \<Rightarrow> 64 word option \<Rightarrow> DwarfParser \<Rightarrow> DwarfCursor \<Rightarrow> 64 word \<Rightarrow> 64 word \<Rightarrow> 32 word \<Rightarrow> DwarfFDE option" where
  "parseFDE mem junk ps c len index entryID =
     do {cie \<leftarrow> getCIE index (p_info ps);
         let fde = (newDwarfFDE junk (dc_start c) len index)\<lparr>ciePointer := entryID\<rparr>;
         let enc = (case cie_augmentation cie of Some aug \<Rightarrow> codeEnc aug | None \<Rightarrow> 0);
         (p, c) \<leftarrow> parseNextEncodedPointer enc mem c;
         (n, c) \<leftarrow> parseNextEncodedPointer (enc AND 0x0f) mem c;
         let fde = fde\<lparr>pcBegin := p + virtualAddress ps - readAddress ps, pcRange := n\<rparr>;
         (case cie_augmentation cie of None \<Rightarrow> Some fde
          | Some aug \<Rightarrow>
            do {(_, c) \<leftarrow> nextUleb128 mem c;
                (lsda, c) \<leftarrow> parseNextEncodedPointer (lsdaEnc aug) mem c;
                Some (fde\<lparr>fde_augmentation := Some lsda\<rparr>)})}"

subsection \<open>The section\<close>

text \<open>The length of an entry, the length with its own field, and the cursor after the field.\<close>

definition entry_length :: "memory \<Rightarrow> DwarfCursor \<Rightarrow> (64 word \<times> 64 word \<times> DwarfCursor) option" where
  "entry_length mem c =
     do {(n :: 32 word, c) \<leftarrow> next_word mem c;
         let len = (ucast n :: 64 word);
         if len = 0xffffffff then do {(len :: 64 word, c) \<leftarrow> next_word mem c; Some (len, len + 8, c)}
         else Some (len, len + 4, c)}"

text \<open>\<open>cjunk\<close> and \<open>fjunk\<close> give the value of the uninitialised pointer of an entry at an address.\<close>

definition parse_entry ::
    "arch \<Rightarrow> memory \<Rightarrow> (address \<Rightarrow> Augmentation option) \<Rightarrow> (address \<Rightarrow> 64 word option) \<Rightarrow> 64 word \<Rightarrow>
      DwarfCursor \<Rightarrow> DwarfCursor \<Rightarrow> DwarfParser \<Rightarrow> DwarfParser option" where
  "parse_entry arch mem cjunk fjunk len c endOfEntry ps =
     do {let startOfEntry = newDwarfCursor (dc_cursor c);
         (entryID :: 32 word, c) \<leftarrow> next_word mem c;
         if entryID = 0 then
           do {cie \<leftarrow> parseCIE arch mem (cjunk (dc_start c)) c endOfEntry len (getCIECount (p_info ps));
               cie \<leftarrow> cie;
               Some (ps\<lparr>p_info := addCIE cie (p_info ps)\<rparr>)}
         else (case findCIE (dc_cursor startOfEntry - ucast entryID) (p_info ps) of
             None \<Rightarrow> Some ps
           | Some index \<Rightarrow>
             do {fde \<leftarrow> parseFDE mem (fjunk (dc_start c)) ps c len index entryID;
                 Some (ps\<lparr>p_info := addFDE fde (p_info ps)\<rparr>)})}"

partial_function (option) parse_loop ::
    "arch \<Rightarrow> memory \<Rightarrow> (address \<Rightarrow> Augmentation option) \<Rightarrow> (address \<Rightarrow> 64 word option) \<Rightarrow> DwarfCursor \<Rightarrow>
      DwarfCursor \<Rightarrow> DwarfParser \<Rightarrow> DwarfParser option" where
  "parse_loop arch mem cjunk fjunk e c ps =
     (if cursor_less c e then
        Option.bind (entry_length mem c) (\<lambda>(len, entryLength, c').
          if len = 0 then Some ps
          else Option.bind
            (parse_entry arch mem cjunk fjunk len c' (newDwarfCursor (dc_start c' + entryLength)) ps)
            (parse_loop arch mem cjunk fjunk e (newDwarfCursor (dc_start c' + entryLength))))
      else Some ps)"

definition parse ::
    "arch \<Rightarrow> memory \<Rightarrow> (address \<Rightarrow> Augmentation option) \<Rightarrow> (address \<Rightarrow> 64 word option) \<Rightarrow> 64 word \<Rightarrow>
      DwarfParser \<Rightarrow> DwarfParser option" where
  "parse arch mem cjunk fjunk virtualSize ps =
     parse_loop arch mem cjunk fjunk (newDwarfCursor (readAddress ps + virtualSize))
       (newDwarfCursor (readAddress ps)) (ps\<lparr>p_info := newDwarfUnwindInfo\<rparr>)"

text \<open>
  The constructor: \<open>section\<close> is the read address, virtual address and size of the .eh_frame section,
  if the ELF file has one. Without it the parser has no unwind information.
\<close>

definition newDwarfParser ::
    "arch \<Rightarrow> memory \<Rightarrow> (address \<Rightarrow> Augmentation option) \<Rightarrow> (address \<Rightarrow> 64 word option) \<Rightarrow>
      (address \<times> address \<times> 64 word) option \<Rightarrow> DwarfUnwindInfo option option" where
  "newDwarfParser arch mem cjunk fjunk eh_frame =
     (case eh_frame of None \<Rightarrow> Some None
      | Some (ra, va, sz) \<Rightarrow>
        do {ps \<leftarrow> parse arch mem cjunk fjunk sz \<lparr>p_info = newDwarfUnwindInfo, readAddress = ra, virtualAddress = va\<rparr>;
            Some (Some (p_info ps))})"

lemma newDwarfCursor_simps [simp]: "dc_cursor (newDwarfCursor a) = a" "dc_start (newDwarfCursor a) = a"
  by (simp_all add: newDwarfCursor_def)

subsection \<open>Register tables keep their size\<close>

definition decoder_wf :: "arch \<Rightarrow> idecoder \<Rightarrow> bool" where
  "decoder_wf arch d \<longleftrightarrow> state_wf arch (i_state d) \<and> (\<forall>st \<in> set (rememberedState d). state_wf arch st)"

lemma decoder_wf_simps [simp]:
  "decoder_wf arch (d\<lparr>i_start := c\<rparr>) = decoder_wf arch d"
  "decoder_wf arch (d\<lparr>cfaIp := ip\<rparr>) = decoder_wf arch d"
  "state_wf arch (st\<lparr>cfaRegister := r\<rparr>) = state_wf arch st"
  "state_wf arch (st\<lparr>cfaOffset := v\<rparr>) = state_wf arch st"
  "state_wf arch (st\<lparr>cfaExpression := v\<rparr>) = state_wf arch st"
  by (simp_all add: decoder_wf_def state_wf_def)

lemma decoder_wf_state: "decoder_wf arch d \<Longrightarrow> state_wf arch st \<Longrightarrow> decoder_wf arch (d\<lparr>i_state := st\<rparr>)"
  by (simp add: decoder_wf_def)

lemma decoder_wf_i_state: "decoder_wf arch d \<Longrightarrow> state_wf arch (i_state d)"
  by (simp add: decoder_wf_def)

text \<open>Postconditions of readers: \<open>pred_option Q m\<close> says that the result of \<open>m\<close>, if any, satisfies \<open>Q\<close>.\<close>

lemma post_bind: "pred_option Q (Option.bind m k) \<longleftrightarrow> pred_option (\<lambda>x. pred_option Q (k x)) m"
  by (cases m) auto

lemma post_any: "(\<And>x. Q x) \<Longrightarrow> pred_option Q m"
  by (cases m) auto

lemma post_read:
  "decoder_wf arch d \<Longrightarrow> (\<And>v d'. decoder_wf arch d' \<Longrightarrow> Q (v, d')) \<Longrightarrow> pred_option Q (i_read rd mem d)"
  by (simp add: i_read_def post_bind split: prod.split) (auto intro!: post_any)

lemma post_set:
  "decoder_wf arch d \<Longrightarrow> (\<And>d'. decoder_wf arch d' \<Longrightarrow> Q d') \<Longrightarrow> pred_option Q (i_set r ty ofs d)"
  by (auto simp: i_set_def state_set_def decoder_wf_def state_wf_def)

lemma post_restore:
  "decoder_wf arch d \<Longrightarrow> (\<And>d'. decoder_wf arch d' \<Longrightarrow> Q d') \<Longrightarrow> pred_option Q (i_restore cie r d)"
  by (auto simp: i_restore_def post_bind state_set_def decoder_wf_def state_wf_def intro!: post_any)

lemmas post_intros = post_read post_set post_restore decoder_wf_state decoder_wf_i_state

lemma post_advance: "decoder_wf arch d \<Longrightarrow> pred_option (decoder_wf arch) (parseAdvanceLocN ty cie mem d)"
  by (auto simp: parseAdvanceLocN_def post_bind intro!: post_intros)

lemma post_expression: "decoder_wf arch d \<Longrightarrow> pred_option (decoder_wf arch) (instr_expression mem opc d)"
  unfolding instr_expression_def i_skip_expression_def
  by (auto simp: post_bind intro!: post_intros post_any [of _ "decode _ _ _"] post_any [of _ "state_get _ _"])

lemma post_signed: "decoder_wf arch d \<Longrightarrow> pred_option (decoder_wf arch) (instr_signed mem cie e opc d)"
  unfolding instr_signed_def
  by (auto simp: post_bind post_advance intro!: post_intros post_any [of _ "signed_mult _ _"])

lemma post_cfa: "decoder_wf arch d \<Longrightarrow> pred_option (decoder_wf arch) (instr_cfa mem cie e opc d)"
proof -
  assume wf: "decoder_wf arch d"
  then have "decoder_wf arch (d\<lparr>rememberedState := i_state d # rememberedState d\<rparr>)"
    "rememberedState d = st # sts \<Longrightarrow> decoder_wf arch (d\<lparr>i_state := st, rememberedState := sts\<rparr>)" for st sts
    by (auto simp: decoder_wf_def)
  with wf show ?thesis
    unfolding instr_cfa_def
    by (auto simp: post_bind post_expression post_signed split: list.split intro!: post_intros)
qed

lemma post_register: "decoder_wf arch d \<Longrightarrow> pred_option (decoder_wf arch) (instr_register mem cie e opc d)"
  unfolding instr_register_def by (auto simp: post_bind post_cfa intro!: post_intros)

lemma post_location: "decoder_wf arch d \<Longrightarrow> pred_option (decoder_wf arch) (instr_location mem cie e opc opr d)"
  unfolding instr_location_def
  by (auto simp: post_bind post_register post_advance split: option.split intro!: post_intros)

lemma instr_step_wf:
  assumes "instr_step mem cie e d = Some d'" "decoder_wf arch d"
  shows "decoder_wf arch d'"
proof -
  have "pred_option (decoder_wf arch) (instr_step mem cie e d)"
    using assms(2) by (auto simp: instr_step_def post_bind Let_def post_location intro!: post_read)
  with assms(1) show ?thesis by simp
qed

lemma instr_loop_wf:
  assumes "instr_loop mem cie e d = Some d'" "decoder_wf arch d"
  shows "decoder_wf arch d'"
proof -
  have "decoder_wf arch d \<longrightarrow> decoder_wf arch d'"
    by (rule instr_loop.raw_induct [where P = "\<lambda>mem cie e d d'. decoder_wf arch d \<longrightarrow> decoder_wf arch d'", OF _ assms(1)])
      (auto simp: bind_eq_Some_conv dest: instr_step_wf split: if_splits)
  with assms(2) show ?thesis by simp
qed

lemma parseInstructions_wf:
  assumes "parseInstructions arch mem cie c e ip = Some st" "cie_state cie = None"
  shows "state_wf arch st"
proof -
  from assms(1) obtain d where "instr_loop mem cie e (newInstructionDecoder arch cie c ip) = Some d" "st = i_state d"
    by (auto simp: parseInstructions_def bind_eq_Some_conv)
  moreover have "decoder_wf arch (newInstructionDecoder arch cie c ip)"
    using assms(2) by (simp add: decoder_wf_def newInstructionDecoder_def initial_state_def)
  ultimately show ?thesis by (auto dest: instr_loop_wf decoder_wf_i_state)
qed

subsection \<open>The unwind information is well formed\<close>

definition info_wf :: "arch \<Rightarrow> DwarfUnwindInfo \<Rightarrow> bool" where
  "info_wf arch info \<longleftrightarrow>
     (\<forall>cie \<in> set (cieList info). \<exists>st. cie_state cie = Some st \<and> state_wf arch st) \<and>
     (\<forall>i < length (cieList info). cie_index (cieList info ! i) = of_nat i) \<and>
     (\<forall>a i. cieMap info a = Some i \<longrightarrow> unat i < length (cieList info) \<and>
       (length (cieList info) < 2 ^ 64 \<longrightarrow> cie_startAddress (cieList info ! unat i) = a)) \<and>
     (\<forall>fde \<in> set (fdeList info). unat (cieIndex fde) < length (cieList info))"

lemma info_wf_new: "info_wf arch newDwarfUnwindInfo"
  by (simp add: info_wf_def newDwarfUnwindInfo_def)

lemma unat_of_nat_le: "unat (of_nat n :: 64 word) \<le> n"
  by (simp add: unat_of_nat)

lemma info_wf_addCIE:
  assumes "info_wf arch info" "cie_state cie = Some st" "state_wf arch st" "cie_index cie = getCIECount info"
  shows "info_wf arch (addCIE cie info)"
proof -
  let ?n = "length (cieList info)"
  have "unat (of_nat ?n :: 64 word) < Suc ?n" using unat_of_nat_le [of ?n] by simp
  moreover have "unat (of_nat ?n :: 64 word) = ?n" if "?n < 2 ^ 64" using that by (simp add: unat_of_nat)
  ultimately show ?thesis
    using assms unfolding info_wf_def addCIE_def getCIECount_def
    by (auto simp: nth_append less_Suc_eq)
qed

lemma info_wf_addFDE:
  "info_wf arch info \<Longrightarrow> unat (cieIndex fde) < length (cieList info) \<Longrightarrow> info_wf arch (addFDE fde info)"
  by (auto simp: info_wf_def addFDE_def)

lemma parseCIE_entry:
  assumes "parseCIE arch mem junk c e len index = Some (Some cie)"
  shows "cie_startAddress cie = dc_start c" "cie_index cie = index"
    "\<exists>st. cie_state cie = Some st \<and> state_wf arch st"
proof -
  from assms obtain cie' st c' where "parseInstructions arch mem cie' c' e 0 = Some st"
    "cie = cie'\<lparr>cie_state := Some st\<rparr>" "cie_startAddress cie' = dc_start c" "cie_index cie' = index" "cie_state cie' = None"
    unfolding parseCIE_def
    by (auto simp: bind_eq_Some_conv Let_def newDwarfCIE_def split: if_splits)
  then show "cie_startAddress cie = dc_start c" "cie_index cie = index"
    "\<exists>st. cie_state cie = Some st \<and> state_wf arch st"
    by (auto dest: parseInstructions_wf)
qed

lemma parseFDE_entry:
  assumes "parseFDE mem junk ps c len index entryID = Some fde"
  shows "cieIndex fde = index" "unat index < length (cieList (p_info ps))"
  using assms unfolding parseFDE_def
  by (auto simp: bind_eq_Some_conv Let_def newDwarfFDE_def getCIE_def split: if_splits option.splits)

definition parser_ok :: "arch \<Rightarrow> DwarfParser \<Rightarrow> DwarfParser \<Rightarrow> bool" where
  "parser_ok arch ps ps' \<longleftrightarrow>
     info_wf arch (p_info ps') \<and> readAddress ps' = readAddress ps \<and> virtualAddress ps' = virtualAddress ps"

lemma parser_ok_refl: "info_wf arch (p_info ps) \<Longrightarrow> parser_ok arch ps ps"
  by (simp add: parser_ok_def)

lemma parse_entry_wf:
  assumes "parse_entry arch mem cjunk fjunk len c e ps = Some ps'" "info_wf arch (p_info ps)"
  shows "parser_ok arch ps ps'"
proof -
  have cie: "parser_ok arch ps (ps\<lparr>p_info := addCIE cie (p_info ps)\<rparr>)"
    if "parseCIE arch mem junk c' e len (getCIECount (p_info ps)) = Some (Some cie)" for junk c' cie
    using parseCIE_entry [OF that] info_wf_addCIE assms(2) by (auto simp: parser_ok_def)
  have fde: "parser_ok arch ps (ps\<lparr>p_info := addFDE fde (p_info ps)\<rparr>)"
    if "parseFDE mem junk ps c' len index eid = Some fde" for junk c' index eid fde
    using parseFDE_entry [OF that] info_wf_addFDE assms(2) by (auto simp: parser_ok_def)
  from assms show ?thesis
    unfolding parse_entry_def
    by (auto simp: bind_eq_Some_conv Let_def intro: parser_ok_refl cie fde split: if_splits option.splits)
qed

lemma parse_loop_wf:
  assumes "parse_loop arch mem cjunk fjunk e c ps = Some ps'" "info_wf arch (p_info ps)"
  shows "parser_ok arch ps ps'"
proof -
  have "info_wf arch (p_info ps) \<longrightarrow> parser_ok arch ps ps'"
  proof (rule parse_loop.raw_induct [where P = "\<lambda>arch mem cjunk fjunk e c ps ps'.
        info_wf arch (p_info ps) \<longrightarrow> parser_ok arch ps ps'", OF _ assms(1)], rule impI)
    fix f arch mem cjunk fjunk e c ps ps'
    assume IH: "\<And>arch mem cjunk fjunk e c ps ps'. f arch mem cjunk fjunk e c ps = Some ps' \<Longrightarrow>
        info_wf arch (p_info ps) \<longrightarrow> parser_ok arch ps ps'"
      and wf: "info_wf arch (p_info ps)"
      and "(if cursor_less c e
        then entry_length mem c \<bind> (\<lambda>(len, entryLength, c').
            if len = 0 then Some ps
            else parse_entry arch mem cjunk fjunk len c' (newDwarfCursor (dc_start c' + entryLength)) ps \<bind>
              f arch mem cjunk fjunk e (newDwarfCursor (dc_start c' + entryLength)))
        else Some ps) = Some ps'"
    then consider "ps' = ps"
      | len c' e' c'' ps1 where "parse_entry arch mem cjunk fjunk len c' e' ps = Some ps1"
        "f arch mem cjunk fjunk e c'' ps1 = Some ps'"
      by (auto simp: bind_eq_Some_conv split: if_splits)
    then show "parser_ok arch ps ps'"
    proof cases
      case 1
      with wf show ?thesis by (simp add: parser_ok_refl)
    next
      case 2
      from parse_entry_wf [OF this(1) wf] IH [OF this(2)] show ?thesis
        by (auto simp: parser_ok_def)
    qed
  qed
  with assms(2) show ?thesis by simp
qed

subsection \<open>Parsing a section\<close>

text \<open>
  The bytes of a section as GCC emits it on x86-64: a common information entry with augmentation
  \<^verbatim>\<open>zR\<close> and pointer encoding \<^verbatim>\<open>pcrel | sdata4\<close>, frame descriptors for it, and the terminator.
\<close>

record cie_spec =
  s_caf :: nat
  s_daf :: int
  s_ra :: nat
  s_prog :: "cfa list"

record fde_spec =
  f_pc :: address
  f_range :: nat
  f_tail :: "byte list"

definition cie_body :: "cie_spec \<Rightarrow> byte list" where
  "cie_body s = [1, 0x7a, 0x52, 0] @ uleb_encode (s_caf s) @ sleb_encode (s_daf s) @ uleb_encode (s_ra s) @
     uleb_encode 1 @ [0x1b] @ concat (map encode_cfa (s_prog s))"

definition entry_bytes :: "32 word \<Rightarrow> byte list \<Rightarrow> byte list" where
  "entry_bytes eid body = le_bytes 4 (of_nat (4 + length body) :: 32 word) @ le_bytes 4 eid @ body"

definition fde_bytes :: "address \<Rightarrow> address \<Rightarrow> fde_spec \<Rightarrow> byte list" where
  "fde_bytes cie a f = entry_bytes (ucast (a + 4 - cie))
     (le_bytes 4 (of_int (uint (f_pc f) - uint (a + 8)) :: 32 word) @ le_bytes 4 (of_nat (f_range f) :: 32 word) @
      [0] @ f_tail f)"

primrec fdes_bytes :: "address \<Rightarrow> address \<Rightarrow> fde_spec list \<Rightarrow> byte list" where
  "fdes_bytes cie a [] = [0, 0, 0, 0]"
| "fdes_bytes cie a (f # fs) = fde_bytes cie a f @ fdes_bytes cie (a + of_nat (17 + length (f_tail f))) fs"

definition section_bytes :: "address \<Rightarrow> cie_spec \<Rightarrow> fde_spec list \<Rightarrow> byte list" where
  "section_bytes a s fs = entry_bytes 0 (cie_body s) @ fdes_bytes a (a + of_nat (8 + length (cie_body s))) fs"

definition cie_ok :: "arch \<Rightarrow> cie_spec \<Rightarrow> bool" where
  "cie_ok arch s \<longleftrightarrow> small (s_caf s) \<and> signed_range 31 (s_daf s) \<and> small (s_ra s) \<and>
     (\<forall>i \<in> set (s_prog s). cfa_ok (NUM_REGISTERS arch) i \<and> no_restore i)"

definition fde_ok :: "address \<Rightarrow> fde_spec \<Rightarrow> bool" where
  "fde_ok a f \<longleftrightarrow> f_pc f < 2 ^ 63 \<and> signed_range 31 (uint (f_pc f) - uint (a + 8)) \<and> f_range f < 2 ^ 31"

primrec fdes_ok :: "address \<Rightarrow> fde_spec list \<Rightarrow> bool" where
  "fdes_ok a [] \<longleftrightarrow> True"
| "fdes_ok a (f # fs) \<longleftrightarrow> fde_ok a f \<and> fdes_ok (a + of_nat (17 + length (f_tail f))) fs"

text \<open>The entries that the parser should find.\<close>

definition cie_of :: "arch \<Rightarrow> address \<Rightarrow> cie_spec \<Rightarrow> DwarfCIE" where
  "cie_of arch a s =
     \<lparr>cie_startAddress = a, cie_length = of_nat (4 + length (cie_body s)),
      cie_state = Some (row_state arch (current (fold (exec (int (s_caf s)) (s_daf s) new_row) (s_prog s)
        \<lparr>location = 0, current = new_row, remembered = []\<rparr>))),
      cie_index = 0, cieId = 0, codeAlignFactor = of_nat (s_caf s), dataAlignFactor = of_int (s_daf s),
      retAddressReg = of_nat (s_ra s), cie_augmentation = Some (newAugmentation\<lparr>codeEnc := 0x1b\<rparr>)\<rparr>"

definition fde_of :: "DwarfParser \<Rightarrow> address \<Rightarrow> address \<Rightarrow> fde_spec \<Rightarrow> DwarfFDE" where
  "fde_of ps cie a f =
     \<lparr>fde_startAddress = a, fde_length = of_nat (13 + length (f_tail f)), fde_state = None, cieIndex = 0,
      ciePointer = ucast (a + 4 - cie), pcBegin = f_pc f + virtualAddress ps - readAddress ps,
      pcRange = of_nat (f_range f), fde_augmentation = Some 0\<rparr>"

primrec fdes_of :: "DwarfParser \<Rightarrow> address \<Rightarrow> address \<Rightarrow> fde_spec list \<Rightarrow> DwarfFDE list" where
  "fdes_of ps cie a [] = []"
| "fdes_of ps cie a (f # fs) = fde_of ps cie a f # fdes_of ps cie (a + of_nat (17 + length (f_tail f))) fs"

lemma ucast_of_nat32: "n < 2 ^ 32 \<Longrightarrow> ucast (of_nat n :: 32 word) = (of_nat n :: 64 word)"
  by (simp add: unsigned_of_nat take_bit_nat_eq_self)

lemma ucast_ucast_small:
  assumes "unat w < 2 ^ 32"
  shows "ucast (ucast w :: 32 word) = (w :: 64 word)"
proof -
  have "(ucast w :: 32 word) = of_nat (unat w)" by simp
  moreover have "ucast (of_nat (unat w) :: 32 word) = (of_nat (unat w) :: 64 word)"
    using assms by (rule ucast_of_nat32)
  ultimately show ?thesis by simp
qed

lemma entry_length_bytes:
  assumes "bytes_at mem (dc_cursor c) (entry_bytes eid body)" "4 + length body < 2 ^ 32 - 1"
  shows "entry_length mem c = Some (of_nat (4 + length body), of_nat (8 + length body), skip 4 c)"
    and "(of_nat (4 + length body) :: 64 word) \<noteq> 0"
    and "next_word mem (skip 4 c) = Some (eid, skip 8 c)"
    and "bytes_at mem (dc_cursor (skip 8 c)) body"
proof -
  let ?n = "4 + length body"
  have b: "bytes_at mem (dc_cursor c) (le_bytes 4 (of_nat ?n :: 32 word))"
    "bytes_at mem (dc_cursor (skip 4 c)) (le_bytes 4 eid)" "bytes_at mem (dc_cursor (skip 8 c)) body"
    using assms(1) by (simp_all add: entry_bytes_def add.assoc)
  then show "bytes_at mem (dc_cursor (skip 8 c)) body" "next_word mem (skip 4 c) = Some (eid, skip 8 c)"
    using int32.dec_enc [OF TrueI b(2)] by simp_all
  have u: "ucast (of_nat ?n :: 32 word) = (of_nat ?n :: 64 word)"
    using assms(2) by (intro ucast_of_nat32) simp
  have "unat (of_nat ?n :: 64 word) = ?n" using assms(2) by (subst unat_of_nat) simp
  then show nz: "(of_nat ?n :: 64 word) \<noteq> 0" by auto
  have "(of_nat ?n :: 64 word) \<noteq> 0xffffffff"
    using assms(2) \<open>unat (of_nat ?n :: 64 word) = ?n\<close> by (auto simp: word_unat_eq_iff)
  with int32.dec_enc [OF TrueI b(1)] u
  show "entry_length mem c = Some (of_nat ?n, of_nat (8 + length body), skip 4 c)"
    by (simp add: entry_length_def)
qed

lemma fde_pointers:
  assumes "fde_ok a f" "a + 8 < 2 ^ 63" "a + 12 < 2 ^ 63"
    and "bytes_at mem (a + 8) (le_bytes 4 (of_int (uint (f_pc f) - uint (a + 8)) :: 32 word))"
    and "bytes_at mem (a + 12) (le_bytes 4 (of_nat (f_range f) :: 32 word))"
  shows "parseNextEncodedPointer 0x1b mem (skip 8 (newDwarfCursor a)) = Some (f_pc f, skip 12 (newDwarfCursor a))"
    and "parseNextEncodedPointer 0x0b mem (skip 12 (newDwarfCursor a)) = Some (of_nat (f_range f), skip 16 (newDwarfCursor a))"
proof -
  let ?c = "newDwarfCursor a"
  have c: "dc_cursor ?c = a" by (simp add: newDwarfCursor_def)
  show "parseNextEncodedPointer 0x1b mem (skip 8 ?c) = Some (f_pc f, skip 12 ?c)"
    using assms parseNextEncodedPointer_encoded [of "0x1b" "skip 8 ?c" "f_pc f"
        "le_bytes 4 (of_int (uint (f_pc f) - uint (a + 8)) :: 32 word)" mem]
    by (simp add: c fde_ok_def encode_distance_def pointer_distance_def)
  have u: "uint (of_nat (f_range f) :: 64 word) = int (f_range f)" "(of_nat (f_range f) :: 64 word) < 2 ^ 63"
    using assms(1) by (simp_all add: fde_ok_def unsigned_of_nat take_bit_nat_eq_self word_less_nat_alt)
  show "parseNextEncodedPointer 0x0b mem (skip 12 ?c) = Some (of_nat (f_range f), skip 16 ?c)"
    using assms u parseNextEncodedPointer_encoded [of "0x0b" "skip 12 ?c" "of_nat (f_range f)"
        "le_bytes 4 (of_nat (f_range f) :: 32 word)" mem]
    by (simp add: c fde_ok_def encode_distance_def pointer_distance_def signed_range_def)
qed

lemma parse_entry_fde:
  assumes "bytes_at mem a (fde_bytes cie a f)" "fde_ok a f" "13 + length (f_tail f) < 2 ^ 32 - 1"
    and "findCIE cie (p_info ps) = Some 0" "cieList (p_info ps) = [x]"
    and "cie_augmentation x = Some (newAugmentation\<lparr>codeEnc := 0x1b\<rparr>)"
    and "0 < unat (a + 4 - cie)" "unat (a + 4 - cie) < 2 ^ 32" "unat a + 17 < 2 ^ 63"
  shows "entry_length mem (newDwarfCursor a) =
      Some (of_nat (13 + length (f_tail f)), of_nat (17 + length (f_tail f)), skip 4 (newDwarfCursor a))"
    and "parse_entry arch mem cjunk fjunk (of_nat (13 + length (f_tail f))) (skip 4 (newDwarfCursor a)) e ps =
      Some (ps\<lparr>p_info := addFDE (fde_of ps cie a f) (p_info ps)\<rparr>)"
proof -
  let ?c = "newDwarfCursor a"
  let ?body = "le_bytes 4 (of_int (uint (f_pc f) - uint (a + 8)) :: 32 word) @
    le_bytes 4 (of_nat (f_range f) :: 32 word) @ [0] @ f_tail f"
  let ?id = "ucast (a + 4 - cie) :: 32 word"
  have c: "dc_cursor ?c = a" "dc_start ?c = a" by (simp_all add: newDwarfCursor_def)
  have "bytes_at mem (dc_cursor ?c) (entry_bytes ?id ?body)" using assms(1) by (simp add: fde_bytes_def c)
  note e = entry_length_bytes [OF this, simplified]
  show "entry_length mem ?c = Some (of_nat (13 + length (f_tail f)), of_nat (17 + length (f_tail f)), skip 4 ?c)"
    using e(1) assms(3) by simp
  have n: "next_word mem (skip 4 ?c) = Some (?id, skip 8 ?c)" using e(3) assms(3) by simp
  have id: "ucast ?id = a + 4 - cie" using assms(8) by (rule ucast_ucast_small)
  then have "?id \<noteq> 0" using assms(7) by auto
  note id = id this
  have "a + 8 < 2 ^ 63" "a + 12 < 2 ^ 63"
    using assms(9) by (simp_all add: word_less_nat_alt unat_add_no_wrap)
  moreover have b: "bytes_at mem (a + 8) (le_bytes 4 (of_int (uint (f_pc f) - uint (a + 8)) :: 32 word))"
      "bytes_at mem (a + 12) (le_bytes 4 (of_nat (f_range f) :: 32 word))" "bytes_at mem (a + 16) [0]"
    using e(4) assms(3) by (simp_all add: c add.commute)
  ultimately have p: "parseNextEncodedPointer 0x1b mem (skip 8 ?c) = Some (f_pc f, skip 12 ?c)"
      "parseNextEncodedPointer 0x0b mem (skip 12 ?c) = Some (of_nat (f_range f), skip 16 ?c)"
    using fde_pointers [OF assms(2) _ _ b(1,2)] by simp_all
  have "nextUleb128 mem (skip 16 ?c) = Some (0, skip 17 ?c)"
    using uleb.dec_enc [of 0 mem "skip 16 ?c"] b(3) by (simp add: c uleb_encode.simps)
  with p n id assms(4-6) show "parse_entry arch mem cjunk fjunk (of_nat (13 + length (f_tail f))) (skip 4 ?c) e ps =
      Some (ps\<lparr>p_info := addFDE (fde_of ps cie a f) (p_info ps)\<rparr>)"
    by (simp add: parse_entry_def c parseFDE_def getCIE_def newAugmentation_def parseNextEncodedPointer_def [of DW_EH_PE_omit]
       newDwarfFDE_def fde_of_def)
qed

lemma length_fde_bytes [simp]: "length (fde_bytes cie a f) = 17 + length (f_tail f)"
  by (simp add: fde_bytes_def entry_bytes_def)

lemma unat_offset:
  fixes a b :: "64 word"
  assumes "unat a + n \<le> unat b"
  shows "unat (a + of_nat n) = unat a + n"
proof -
  have "unat b < 2 ^ 64" using unsigned_less [of b] by simp
  with assms have "unat (of_nat n :: 64 word) = n" "unat a + n < 2 ^ 64" by (simp_all add: unat_of_nat)
  then show ?thesis by (subst unat_add_no_wrap) simp_all
qed

lemma fdes_of_info [simp]:
  "fdes_of (ps\<lparr>p_info := i\<rparr>) cie a fs = fdes_of ps cie a fs" "fde_of (ps\<lparr>p_info := i\<rparr>) cie a f = fde_of ps cie a f"
  by (induction fs arbitrary: a) (simp_all add: fde_of_def)

lemma parse_loop_fdes:
  assumes "bytes_at mem a (fdes_bytes cie a fs)" "fdes_ok a fs"
    and "findCIE cie (p_info ps) = Some 0" "cieList (p_info ps) = [x]"
    and "cie_augmentation x = Some (newAugmentation\<lparr>codeEnc := 0x1b\<rparr>)"
    and "unat cie < unat a" "unat a + length (fdes_bytes cie a fs) \<le> unat (dc_cursor e)"
    and "unat (dc_cursor e) < unat cie + 2 ^ 32" "unat (dc_cursor e) < 2 ^ 63"
  shows "parse_loop arch mem cjunk fjunk e (newDwarfCursor a) ps =
    Some (ps\<lparr>p_info := (p_info ps)\<lparr>fdeList := fdeList (p_info ps) @ fdes_of ps cie a fs\<rparr>\<rparr>)"
  using assms
proof (induction fs arbitrary: a ps)
  case Nil
  have "bytes_at mem (dc_cursor (newDwarfCursor a)) (le_bytes 4 (0 :: 32 word))"
    using Nil.prems(1) by (simp add: le_bytes_def upt_rec)
  from int32.dec_enc [OF TrueI this] have "entry_length mem (newDwarfCursor a) = Some (0, 4, skip 4 (newDwarfCursor a))"
    by (simp add: entry_length_def)
  moreover have "cursor_less (newDwarfCursor a) e" using Nil.prems(7) by (simp add: cursor_less_def word_less_nat_alt)
  ultimately show ?case by (subst parse_loop.simps) simp
next
  case (Cons f fs)
  let ?n = "17 + length (f_tail f)"
  let ?a = "a + of_nat ?n"
  have len: "unat a + ?n + length (fdes_bytes cie ?a fs) \<le> unat (dc_cursor e)" using Cons.prems(7) by simp
  then have a: "unat ?a = unat a + ?n" using unat_offset [of a ?n "dc_cursor e"] by simp
  have a4: "unat (a + of_nat 4) = unat a + 4" using len unat_offset [of a 4 "dc_cursor e"] by simp
  have "unat (a + 4 - cie) = unat a + 4 - unat cie"
    using a4 Cons.prems(6) by (subst unat_sub) (simp_all add: word_le_nat_alt)
  with Cons.prems(6,8) len have d: "0 < unat (a + 4 - cie)" "unat (a + 4 - cie) < 2 ^ 32" by linarith+
  have t: "13 + length (f_tail f) < 2 ^ 32 - 1" "unat a + 17 < 2 ^ 63" using len Cons.prems(6,8,9) by simp_all
  have b: "bytes_at mem a (fde_bytes cie a f)" and b': "bytes_at mem ?a (fdes_bytes cie ?a fs)"
    using Cons.prems(1) by simp_all
  have ok: "fde_ok a f" "fdes_ok ?a fs" using Cons.prems(2) by simp_all
  let ?ps = "ps\<lparr>p_info := addFDE (fde_of ps cie a f) (p_info ps)\<rparr>"
  note entry = parse_entry_fde [OF b ok(1) t(1) Cons.prems(3-5) d t(2)]
  have "parse_loop arch mem cjunk fjunk e (newDwarfCursor ?a) ?ps =
      Some (?ps\<lparr>p_info := (p_info ?ps)\<lparr>fdeList := fdeList (p_info ?ps) @ fdes_of ?ps cie ?a fs\<rparr>\<rparr>)"
    by (rule Cons.IH [OF b' ok(2) _ _ Cons.prems(5) _ _ Cons.prems(8,9)])
      (use Cons.prems(3,4,6) a len in \<open>simp_all add: addFDE_def findCIE_def\<close>)
  moreover have "cursor_less (newDwarfCursor a) e" using len by (simp add: cursor_less_def word_less_nat_alt)
  moreover have "(of_nat (13 + length (f_tail f)) :: 64 word) \<noteq> 0"
  proof -
    have "unat (of_nat (13 + length (f_tail f)) :: 64 word) = 13 + length (f_tail f)"
      using t(1) by (subst unat_of_nat) simp
    then show ?thesis by auto
  qed
  ultimately show ?case
    using entry by (subst parse_loop.simps) (simp add: addFDE_def)
qed

lemma aug_loop_zR:
  assumes "bytes_at mem p [0x52, 0]" "mem (dc_cursor c) = Some x"
  shows "aug_loop mem p (newAugmentation, c) = Some (newAugmentation\<lparr>codeEnc := x\<rparr>, skip 1 c)"
proof -
  have "aug_char mem 0x52 (newAugmentation, c) = Some (newAugmentation\<lparr>codeEnc := x\<rparr>, skip 1 c)"
    using assms(2) by (simp add: aug_char_def next_byte of_char_def)
  then show ?thesis using assms(1) by (subst aug_loop.simps) (simp add: aug_loop.simps [of mem "p + 1"])
qed

lemma uleb_encode_1: "uleb_encode 1 = [1]" "uleb_encode (Suc 0) = [1]"
  by (simp_all add: uleb_encode.simps)

lemma parseCIE_bytes:
  assumes "cie_ok arch s" "bytes_at mem (a + 8) (cie_body s)"
    and "unat a + 8 + length (cie_body s) = unat (dc_cursor e)"
  shows "parseCIE arch mem junk (skip 8 (newDwarfCursor a)) e (of_nat (4 + length (cie_body s))) 0 =
    Some (Some (cie_of arch a s))"
proof -
  let ?u = "uleb_encode (s_caf s)" and ?v = "sleb_encode (s_daf s)" and ?w = "uleb_encode (s_ra s)"
  let ?p = "concat (map encode_cfa (s_prog s))"
  define c0 where "c0 = skip 8 (newDwarfCursor a)"
  define c1 where "c1 = skip 1 c0"
  define c2 where "c2 = skip 3 c1"
  define c3 where "c3 = skip (of_nat (length ?u)) c2"
  define c4 where "c4 = skip (of_nat (length ?v)) c3"
  define c5 where "c5 = skip (of_nat (length ?w)) c4"
  define c6 where "c6 = skip 1 c5"
  define c7 where "c7 = skip 1 c6"
  note ok = assms(1) [unfolded cie_ok_def]
  have len: "length (cie_body s) = 6 + length ?u + length ?v + length ?w + length ?p"
    by (simp add: cie_body_def uleb_encode_1)
  have str: "bytes_at mem (dc_cursor c1) ([0x7a, 0x52] @ [0])" and
    b: "bytes_at mem (dc_cursor c0) [1]" "bytes_at mem (dc_cursor c2) ?u" "bytes_at mem (dc_cursor c3) ?v"
      "bytes_at mem (dc_cursor c4) ?w" "bytes_at mem (dc_cursor c5) (uleb_encode 1)"
      "bytes_at mem (dc_cursor c6) [0x1b]" "bytes_at mem (dc_cursor c7) ?p"
    using assms(2) unfolding c7_def c6_def c5_def c4_def c3_def c2_def c1_def c0_def
    by (simp_all add: cie_body_def uleb_encode_1 algebra_simps)
  have pos: "unat (dc_cursor c7) + length ?p = unat (dc_cursor e)"
  proof -
    have "dc_cursor c7 = a + of_nat (14 + length ?u + length ?v + length ?w)"
      unfolding c7_def c6_def c5_def c4_def c3_def c2_def c1_def c0_def by simp
    then show ?thesis using unat_offset [of a "14 + length ?u + length ?v + length ?w" "dc_cursor e"] assms(3) len
      by simp
  qed
  have reads: "next_word mem c0 = Some (1 :: byte, c1)" "nextUleb128 mem c2 = Some (of_nat (s_caf s), c3)"
      "nextSleb128 mem c3 = Some (of_int (s_daf s), c4)" "nextUleb128 mem c4 = Some (of_nat (s_ra s), c5)"
      "nextUleb128 mem c5 = Some (1, c6)"
    using byte.dec_enc [OF TrueI b(1)] uleb.dec_enc [OF _ b(2)] sleb.dec_enc [OF _ b(3)] uleb.dec_enc [OF _ b(4)]
      uleb.dec_enc [OF _ b(5)] ok
    by (simp_all add: c1_def c3_def c4_def c5_def c6_def uleb_encode_1)
  have string: "nextString mem c1 = Some (dc_cursor c1, c2)" "mem (dc_cursor c1) = Some 0x7a"
    using nextString_bytes [OF _ str] str by (simp_all add: c2_def)
  have aug: "aug_loop mem (dc_cursor c1 + 1) (newAugmentation, c6) = Some (newAugmentation\<lparr>codeEnc := 0x1b\<rparr>, c7)"
    using aug_loop_zR [of mem "dc_cursor c1 + 1" c6 "0x1b"] str b(6) by (simp add: c7_def)
  let ?cie = "(newDwarfCIE junk a (of_nat (4 + length (cie_body s))) 0)\<lparr>codeAlignFactor := of_nat (s_caf s),
    dataAlignFactor := of_int (s_daf s), retAddressReg := of_nat (s_ra s),
    cie_augmentation := Some (newAugmentation\<lparr>codeEnc := 0x1b\<rparr>)\<rparr>"
  have instrs: "parseInstructions arch mem ?cie c7 e 0 = Some (row_state arch (current
      (fold (exec (int (s_caf s)) (s_daf s) new_row) (s_prog s) \<lparr>location = uint (0 :: 64 word), current = new_row, remembered = []\<rparr>)))"
    by (rule parseInstructions_encoded [OF _ b(7) pos, where ?row0.0 = None])
      (use ok in \<open>simp_all add: newDwarfCIE_def\<close>)
  have z: "char_code (CHR ''z'') = 0x7a" by (simp add: of_char_def)
  have "dc_start c0 = a" by (simp add: c0_def)
  then show ?thesis
    unfolding parseCIE_def c0_def [symmetric]
    using reads string aug instrs by (simp add: z) (simp add: cie_of_def newDwarfCIE_def)
qed

lemma parse_entry_cie:
  assumes "cie_ok arch s" "bytes_at mem a (entry_bytes 0 (cie_body s))" "4 + length (cie_body s) < 2 ^ 32 - 1"
    and "unat a + 8 + length (cie_body s) = unat (a + of_nat (8 + length (cie_body s)))" "cieList (p_info ps) = []"
  shows "entry_length mem (newDwarfCursor a) =
      Some (of_nat (4 + length (cie_body s)), of_nat (8 + length (cie_body s)), skip 4 (newDwarfCursor a))"
    and "parse_entry arch mem cjunk fjunk (of_nat (4 + length (cie_body s))) (skip 4 (newDwarfCursor a))
        (newDwarfCursor (a + of_nat (8 + length (cie_body s)))) ps =
      Some (ps\<lparr>p_info := addCIE (cie_of arch a s) (p_info ps)\<rparr>)"
proof -
  let ?c = "newDwarfCursor a"
  have "bytes_at mem (dc_cursor ?c) (entry_bytes 0 (cie_body s))" using assms(2) by simp
  note e = entry_length_bytes [OF this assms(3)]
  show "entry_length mem ?c = Some (of_nat (4 + length (cie_body s)), of_nat (8 + length (cie_body s)), skip 4 ?c)"
    by (rule e(1))
  have "bytes_at mem (a + 8) (cie_body s)" using e(4) by simp
  note p = parseCIE_bytes [OF assms(1) this, of "newDwarfCursor (a + of_nat (8 + length (cie_body s)))"]
  show "parse_entry arch mem cjunk fjunk (of_nat (4 + length (cie_body s))) (skip 4 ?c)
      (newDwarfCursor (a + of_nat (8 + length (cie_body s)))) ps =
      Some (ps\<lparr>p_info := addCIE (cie_of arch a s) (p_info ps)\<rparr>)"
    using p e(3) assms(4,5) by (simp add: parse_entry_def getCIECount_def)
qed

lemma parse_section_bytes:
  assumes "cie_ok arch s" "fdes_ok (ra + of_nat (8 + length (cie_body s))) fs" "readAddress ps = ra"
    and "bytes_at mem ra (section_bytes ra s fs)" "length (section_bytes ra s fs) < 2 ^ 32"
    and "unat ra + length (section_bytes ra s fs) < 2 ^ 63"
  shows "parse arch mem cjunk fjunk (of_nat (length (section_bytes ra s fs))) ps =
    Some (ps\<lparr>p_info := \<lparr>cieList = [cie_of arch ra s],
      fdeList = fdes_of ps ra (ra + of_nat (8 + length (cie_body s))) fs, cieMap = [ra \<mapsto> 0]\<rparr>\<rparr>)"
proof -
  let ?n = "8 + length (cie_body s)"
  let ?a = "ra + of_nat ?n"
  let ?e = "newDwarfCursor (ra + of_nat (length (section_bytes ra s fs)))"
  let ?ps = "ps\<lparr>p_info := newDwarfUnwindInfo\<rparr>"
  let ?ps1 = "?ps\<lparr>p_info := addCIE (cie_of arch ra s) (p_info ?ps)\<rparr>"
  have len: "length (section_bytes ra s fs) = ?n + length (fdes_bytes ra ?a fs)"
    by (simp add: section_bytes_def entry_bytes_def)
  have pos: "0 < length (fdes_bytes ra ?a fs)" by (cases fs) auto
  have 4: "4 \<le> length (fdes_bytes ra ?a fs)" by (cases fs) auto
  have u: "unat (dc_cursor ?e) = unat ra + length (section_bytes ra s fs)"
    using assms(5,6) by (simp add: unat_add_no_wrap unat_of_nat)
  then have a: "unat ?a = unat ra + ?n" using unat_offset [of ra ?n "dc_cursor ?e"] len by simp
  have b: "bytes_at mem ra (entry_bytes 0 (cie_body s))" "bytes_at mem ?a (fdes_bytes ra ?a fs)"
    using assms(4) by (simp_all add: section_bytes_def entry_bytes_def algebra_simps)
  have "parse_loop arch mem cjunk fjunk ?e (newDwarfCursor ?a) ?ps1 =
      Some (?ps1\<lparr>p_info := (p_info ?ps1)\<lparr>fdeList := fdeList (p_info ?ps1) @ fdes_of ?ps1 ra ?a fs\<rparr>\<rparr>)"
    by (rule parse_loop_fdes [where x = "cie_of arch ra s", OF b(2) assms(2)])
      (use u a len assms(5,6) in \<open>simp_all add: addCIE_def findCIE_def cie_of_def newDwarfUnwindInfo_def\<close>)
  moreover have "cursor_less (newDwarfCursor ra) ?e"
    using u len by (simp add: cursor_less_def word_less_nat_alt)
  moreover note parse_entry_cie(1) [OF assms(1) b(1), of ?ps] parse_entry_cie(2) [OF assms(1) b(1), of ?ps cjunk fjunk]
  moreover have "(of_nat (4 + length (cie_body s)) :: 64 word) \<noteq> 0"
  proof -
    have "unat (of_nat (4 + length (cie_body s)) :: 64 word) = 4 + length (cie_body s)"
      using len assms(5) by (subst unat_of_nat) simp
    then show ?thesis by auto
  qed
  ultimately show ?thesis
    unfolding parse_def assms(3)
    using len 4 a assms(5)
    by (subst parse_loop.simps) (simp add: addCIE_def newDwarfUnwindInfo_def cie_of_def)
qed

definition sample_cie :: cie_spec where
  "sample_cie = \<lparr>s_caf = 1, s_daf = - 8, s_ra = 16, s_prog = [DefCfa 7 8, Offset 16 1]\<rparr>"

definition sample_fdes :: "fde_spec list" where
  "sample_fdes = [\<lparr>f_pc = 0x800, f_range = 0x40, f_tail = [0, 0, 0]\<rparr>, \<lparr>f_pc = 0x840, f_range = 0x20, f_tail = []\<rparr>]"

definition sample_memory :: memory where
  "sample_memory = mem_of 0x1000 (section_bytes 0x1000 sample_cie sample_fdes)"

definition sample_parser :: DwarfParser where
  "sample_parser = \<lparr>p_info = newDwarfUnwindInfo, readAddress = 0x1000, virtualAddress = 0x401000\<rparr>"

lemma length_sample: "length (cie_body sample_cie) = 14" "length (section_bytes 0x1000 sample_cie sample_fdes) = 63"
  by (simp_all add: section_bytes_def entry_bytes_def cie_body_def sample_cie_def sample_fdes_def uleb_encode.simps
    sleb_encode.simps)

lemma sample_ok:
  "cie_ok ARCH_X86_64 sample_cie" "fdes_ok (0x1000 + of_nat (8 + length (cie_body sample_cie))) sample_fdes"
  "readAddress sample_parser = 0x1000" "bytes_at sample_memory 0x1000 (section_bytes 0x1000 sample_cie sample_fdes)"
  using bytes_at_mem_of [of "section_bytes 0x1000 sample_cie sample_fdes" "0x1000"]
  by (simp_all add: length_sample sample_memory_def sample_parser_def)
    (simp_all add: cie_ok_def sample_cie_def sample_fdes_def fde_ok_def signed_range_def)

text \<open>Claim C33: whatever bytes the section holds, if the parser returns, its result is consistent:
  the index of every common information entry is its position, the address map leads to the
  entry that starts at the address, every unwind state has the register table of the target, and
  every frame descriptor's entry index is valid, so that the assertion of \<^verbatim>\<open>getCIE\<close> holds.\<close>

theorem parse_invariant:
  assumes "parse arch mem cjunk fjunk sz ps = Some ps'"
  shows "info_wf arch (p_info ps') \<and> readAddress ps' = readAddress ps \<and> virtualAddress ps' = virtualAddress ps \<and>
    (\<forall>fde \<in> set (fdeList (p_info ps')). getCIE (cieIndex fde) (p_info ps') \<noteq> None)"
proof -
  have "parser_ok arch (ps\<lparr>p_info := newDwarfUnwindInfo\<rparr>) ps'"
    using assms info_wf_new unfolding parse_def by (intro parse_loop_wf) simp_all
  then show ?thesis by (auto simp: parser_ok_def info_wf_def getCIE_def)
qed

theorem parse_invariant_witness:
  "\<exists>ps'. parse ARCH_X86_64 sample_memory (\<lambda>_. None) (\<lambda>_. None) 63 sample_parser = Some ps' \<and>
    info_wf ARCH_X86_64 (p_info ps') \<and> length (fdeList (p_info ps')) = 2"
proof -
  from parse_section_bytes [OF sample_ok, of "\<lambda>_. None" "\<lambda>_. None"]
  obtain ps' where "parse ARCH_X86_64 sample_memory (\<lambda>_. None) (\<lambda>_. None) 63 sample_parser = Some ps'"
    "length (fdeList (p_info ps')) = 2"
    by (simp add: length_sample) (simp add: sample_fdes_def)
  with parse_invariant [OF this(1)] show ?thesis by blast
qed



end
