(* ===== verification/AArch64Link.thy ===== *)
theory AArch64Link
  imports Streams
begin

unbundle bit_operations_syntax

section \<open>Linked instructions on AArch64 (\<^verbatim>\<open>src/instr/linked-aarch64.cpp\<close>)\<close>

text \<open>
  A linked instruction keeps the bits of the original instruction that do not encode its target
  (\<^verbatim>\<open>fixedMask\<close>) and recomputes the others when it is written at a new place (\<^verbatim>\<open>makeImm\<close>). The
  table \<^verbatim>\<open>AARCH64_ImInfo\<close> is the functions \<open>fixedMask\<close>, \<open>makeImm\<close> and \<open>immediateIndex\<close> of the
  mode. \<^verbatim>\<open>diff_t\<close> is a 64-bit signed integer, so its right shift copies the sign.
\<close>

datatype Mode =
    AARCH64_IM_ADRP | AARCH64_IM_ADR | AARCH64_IM_ADDIMM | AARCH64_IM_LDRIMM | AARCH64_IM_LDRH
  | AARCH64_IM_LDRB | AARCH64_IM_LDRSW | AARCH64_IM_LDRSH | AARCH64_IM_LDRSB | AARCH64_IM_LDRLIT
  | AARCH64_IM_MOV | AARCH64_IM_MOVK | AARCH64_IM_STR | AARCH64_IM_STRH | AARCH64_IM_STRB
  | AARCH64_IM_BL | AARCH64_IM_B | AARCH64_IM_BCOND | AARCH64_IM_CBZ | AARCH64_IM_CBNZ
  | AARCH64_IM_TBZ | AARCH64_IM_TBNZ

fun fixedMask :: "Mode \<Rightarrow> 32 word" where
  "fixedMask AARCH64_IM_ADRP = 0x9000001F"
| "fixedMask AARCH64_IM_ADR = 0x9F00001F"
| "fixedMask AARCH64_IM_ADDIMM = 0xFFC003FF"
| "fixedMask AARCH64_IM_LDRIMM = 0xFFE003FF"
| "fixedMask AARCH64_IM_LDRH = 0xFFE003FF"
| "fixedMask AARCH64_IM_LDRB = 0xFFE003FF"
| "fixedMask AARCH64_IM_LDRSW = 0xFFE003FF"
| "fixedMask AARCH64_IM_LDRSH = 0xFFE003FF"
| "fixedMask AARCH64_IM_LDRSB = 0xFFE003FF"
| "fixedMask AARCH64_IM_LDRLIT = 0xFF00001F"
| "fixedMask AARCH64_IM_MOV = 0xFFE0001F"
| "fixedMask AARCH64_IM_MOVK = 0xFFE0001F"
| "fixedMask AARCH64_IM_STR = 0xFFE003FF"
| "fixedMask AARCH64_IM_STRH = 0xFFE003FF"
| "fixedMask AARCH64_IM_STRB = 0xFFE003FF"
| "fixedMask AARCH64_IM_BL = 0xFC000000"
| "fixedMask AARCH64_IM_B = 0xFC000000"
| "fixedMask AARCH64_IM_BCOND = 0xFF00001F"
| "fixedMask AARCH64_IM_CBZ = 0xFF00001F"
| "fixedMask AARCH64_IM_CBNZ = 0xFF00001F"
| "fixedMask AARCH64_IM_TBZ = 0xFFF8001F"
| "fixedMask AARCH64_IM_TBNZ = 0xFFF8001F"

fun immediateIndex :: "Mode \<Rightarrow> nat" where
  "immediateIndex AARCH64_IM_ADDIMM = 2"
| "immediateIndex AARCH64_IM_TBZ = 2"
| "immediateIndex AARCH64_IM_TBNZ = 2"
| "immediateIndex AARCH64_IM_BL = 0"
| "immediateIndex AARCH64_IM_B = 0"
| "immediateIndex AARCH64_IM_BCOND = 0"
| "immediateIndex _ = 1"

text \<open>The bodies that several entries of the table share.\<close>

definition adr_imm :: "32 word \<Rightarrow> 32 word" where
  "adr_imm imm = push_bit 29 (imm AND 0x3) OR push_bit 3 (imm AND 0x1FFFFC)"

definition page_imm :: "nat \<Rightarrow> address \<Rightarrow> 32 word \<Rightarrow> 32 word" where
  "page_imm scale dest m =
     (let disp = dest AND 0xFFF; imm = ucast (push_bit 10 (signed_drop_bit scale disp)) in imm AND NOT m)"

definition branch_imm :: "nat \<Rightarrow> address \<Rightarrow> address \<Rightarrow> 32 word \<Rightarrow> 32 word" where
  "branch_imm pos dest src m =
     (let disp = dest - src; imm = ucast (signed_drop_bit 2 disp) in push_bit pos imm AND NOT m)"

definition LDRIMM_scale :: "32 word \<Rightarrow> nat" where
  "LDRIMM_scale fixed = unat (drop_bit 21 (fixed AND 0x00800000) OR drop_bit 30 fixed)"

fun makeImm :: "Mode \<Rightarrow> address \<Rightarrow> address \<Rightarrow> 32 word \<Rightarrow> 32 word" where
  "makeImm AARCH64_IM_ADRP dest src fixed =
     (let disp = dest - (src AND NOT 0xFFF) in adr_imm (ucast (signed_drop_bit 12 disp)))"
| "makeImm AARCH64_IM_ADR dest src fixed = (let disp = dest - src in adr_imm (ucast disp))"
| "makeImm AARCH64_IM_ADDIMM dest src fixed = page_imm 0 dest 0xFFC003FF"
| "makeImm AARCH64_IM_LDRIMM dest src fixed = page_imm (LDRIMM_scale fixed) dest 0xFFE003FF"
| "makeImm AARCH64_IM_LDRH dest src fixed = page_imm 1 dest 0xFFE003FF"
| "makeImm AARCH64_IM_LDRB dest src fixed = page_imm 0 dest 0xFFE003FF"
| "makeImm AARCH64_IM_LDRSW dest src fixed = page_imm 2 dest 0xFFE003FF"
| "makeImm AARCH64_IM_LDRSH dest src fixed = page_imm 1 dest 0xFFE003FF"
| "makeImm AARCH64_IM_LDRSB dest src fixed = page_imm 0 dest 0xFFE003FF"
| "makeImm AARCH64_IM_LDRLIT dest src fixed =
     (let disp = (dest - src) AND 0x7FFFF; imm = ucast (push_bit 5 (signed_drop_bit 2 disp))
      in imm AND NOT 0xFF00001F)"
| "makeImm AARCH64_IM_MOV dest src fixed =
     (let disp = dest AND 0xFFFF; imm = ucast (push_bit 5 disp) in imm AND NOT 0xFFE0001F)"
| "makeImm AARCH64_IM_MOVK dest src fixed =
     (let hw = drop_bit 21 fixed AND 0x3; disp = drop_bit (unat (push_bit 4 hw)) dest AND 0xFFFF;
        imm = ucast (push_bit 5 disp)
      in imm AND NOT 0xFFE0001F)"
| "makeImm AARCH64_IM_STR dest src fixed = page_imm (unat (drop_bit 30 fixed)) dest 0xFFE003FF"
| "makeImm AARCH64_IM_STRH dest src fixed = page_imm 1 dest 0xFFE003FF"
| "makeImm AARCH64_IM_STRB dest src fixed = page_imm 0 dest 0xFFE003FF"
| "makeImm AARCH64_IM_BL dest src fixed = branch_imm 0 dest src 0xFC000000"
| "makeImm AARCH64_IM_B dest src fixed = branch_imm 0 dest src 0xFC000000"
| "makeImm AARCH64_IM_BCOND dest src fixed = branch_imm 5 dest src 0xFF00001F"
| "makeImm AARCH64_IM_CBZ dest src fixed = branch_imm 5 dest src 0xFF00001F"
| "makeImm AARCH64_IM_CBNZ dest src fixed = branch_imm 5 dest src 0xFF00001F"
| "makeImm AARCH64_IM_TBZ dest src fixed = branch_imm 5 dest src 0xFFF8001F"
| "makeImm AARCH64_IM_TBNZ dest src fixed = branch_imm 5 dest src 0xFFF8001F"

definition rebuild :: "Mode \<Rightarrow> 32 word \<Rightarrow> address \<Rightarrow> address \<Rightarrow> 32 word" where
  "rebuild mode data dest src =
     (let fixedBytes = data AND fixedMask mode in fixedBytes OR makeImm mode dest src fixedBytes)"

text \<open>\<^verbatim>\<open>check\<close> asserts that rebuilding in place gives the original; \<open>None\<close> is a failed assertion.\<close>

definition check :: "Mode \<Rightarrow> 32 word \<Rightarrow> address \<Rightarrow> address \<Rightarrow> bool option" where
  "check mode data dest src = (if data = rebuild mode data dest src then Some True else None)"

definition writeTo :: "Mode \<Rightarrow> 32 word \<Rightarrow> address \<Rightarrow> address \<Rightarrow> byte list \<Rightarrow> byte list" where
  "writeTo mode data dest src target = target @ le_bytes 4 (rebuild mode data dest src)"

subsection \<open>The mode of an instruction\<close>

text \<open>The instruction ids that the switch names; every other id throws.\<close>

datatype arm64_ins =
    ARM64_INS_B | ARM64_INS_BL | ARM64_INS_CBZ | ARM64_INS_CBNZ | ARM64_INS_TBZ | ARM64_INS_TBNZ
  | ARM64_INS_ADRP | ARM64_INS_ADR | ARM64_INS_ADD | ARM64_INS_LDR | ARM64_INS_LDRH | ARM64_INS_LDRB
  | ARM64_INS_LDRSB | ARM64_INS_LDRSW | ARM64_INS_LDRSH | ARM64_INS_MOV | ARM64_INS_MOVK
  | ARM64_INS_STR | ARM64_INS_STRH | ARM64_INS_STRB | ARM64_INS_other nat

datatype link_error = NotImplemented | AssertionFailed

text \<open>The two \<^verbatim>\<open>LDR\<close> cases differ in the bit that tells an immediate from a literal.\<close>

definition ldr_mode :: "byte \<Rightarrow> byte \<Rightarrow> link_error + Mode" where
  "ldr_mode b3 m =
     (if b3 AND m \<noteq> 0 then
        if b3 AND 0x01 = 0 then Inl AssertionFailed else Inr AARCH64_IM_LDRIMM
      else Inr AARCH64_IM_LDRLIT)"

text \<open>\<open>b3\<close> is \<^verbatim>\<open>assembly.getBytes()[3]\<close>.\<close>

fun getMode :: "arm64_ins \<Rightarrow> byte \<Rightarrow> link_error + Mode" where
  "getMode ARM64_INS_B b3 = (if b3 = 0x54 then Inr AARCH64_IM_BCOND else Inr AARCH64_IM_B)"
| "getMode ARM64_INS_BL b3 = Inr AARCH64_IM_BL"
| "getMode ARM64_INS_CBZ b3 = Inr AARCH64_IM_CBZ"
| "getMode ARM64_INS_CBNZ b3 = Inr AARCH64_IM_CBNZ"
| "getMode ARM64_INS_TBZ b3 = Inr AARCH64_IM_TBZ"
| "getMode ARM64_INS_TBNZ b3 = Inr AARCH64_IM_TBNZ"
| "getMode ARM64_INS_ADRP b3 = Inr AARCH64_IM_ADRP"
| "getMode ARM64_INS_ADR b3 = Inr AARCH64_IM_ADR"
| "getMode ARM64_INS_ADD b3 = Inr AARCH64_IM_ADDIMM"
| "getMode ARM64_INS_LDR b3 = (if b3 AND 0x04 = 0 then ldr_mode b3 0x80 else ldr_mode b3 0x20)"
| "getMode ARM64_INS_LDRH b3 = Inr AARCH64_IM_LDRH"
| "getMode ARM64_INS_LDRB b3 = Inr AARCH64_IM_LDRB"
| "getMode ARM64_INS_LDRSB b3 = Inr AARCH64_IM_LDRSB"
| "getMode ARM64_INS_LDRSW b3 = Inr AARCH64_IM_LDRSW"
| "getMode ARM64_INS_LDRSH b3 = Inr AARCH64_IM_LDRSH"
| "getMode ARM64_INS_MOV b3 = Inr AARCH64_IM_MOV"
| "getMode ARM64_INS_MOVK b3 = Inr AARCH64_IM_MOVK"
| "getMode ARM64_INS_STR b3 = Inr AARCH64_IM_STR"
| "getMode ARM64_INS_STRH b3 = Inr AARCH64_IM_STRH"
| "getMode ARM64_INS_STRB b3 = Inr AARCH64_IM_STRB"
| "getMode (ARM64_INS_other n) b3 = Inl NotImplemented"

text \<open>A linked literal holds the low 32 bits of its target.\<close>

definition literal_relocate :: "address \<Rightarrow> 32 word" where
  "literal_relocate dest = ucast dest"

subsection \<open>What the instructions compute\<close>

text \<open>
  The operands as the architecture manual defines them: \<open>field lo n w\<close> is the field of \<open>n\<close> bits of
  \<open>w\<close> from bit \<open>lo\<close> up, and \<open>sx\<close> sign-extends it.
\<close>

definition field :: "nat \<Rightarrow> nat \<Rightarrow> 32 word \<Rightarrow> nat" where
  "field lo n w = unat (take_bit n (drop_bit lo w))"

definition sx :: "nat \<Rightarrow> nat \<Rightarrow> int" where
  "sx n v = signed_take_bit (n - 1) (int v)"

definition branch_target :: "nat \<Rightarrow> nat \<Rightarrow> 32 word \<Rightarrow> address \<Rightarrow> address" where
  "branch_target lo n insn src = src + of_int (4 * sx n (field lo n insn))"

definition adr_offset :: "32 word \<Rightarrow> int" where
  "adr_offset insn = sx 21 (4 * field 5 19 insn + field 29 2 insn)"

definition adrp_value :: "32 word \<Rightarrow> address \<Rightarrow> address" where
  "adrp_value insn src = (src AND NOT 0xFFF) + of_int (4096 * adr_offset insn)"

definition offset12 :: "nat \<Rightarrow> 32 word \<Rightarrow> address" where
  "offset12 scale insn = of_nat (2 ^ scale * field 10 12 insn)"

subsection \<open>Fields of rebuilt instructions\<close>

lemma mask_fields:
  "NOT (0xFC000000 :: 32 word) = push_bit 0 (mask 26)" "NOT (0xFF00001F :: 32 word) = push_bit 5 (mask 19)"
  "NOT (0xFFF8001F :: 32 word) = push_bit 5 (mask 14)" "NOT (0xFFC003FF :: 32 word) = push_bit 10 (mask 12)"
  "NOT (0xFFE003FF :: 32 word) = push_bit 10 (mask 11)" "NOT (0xFFE0001F :: 32 word) = push_bit 5 (mask 16)"
  by (simp_all add: mask_eq_exp_minus_1)

lemma field_insert:
  fixes m :: "32 word"
  assumes "NOT m = push_bit lo (mask n)" "lo + n \<le> 32"
  shows "take_bit n (drop_bit lo ((data AND m) OR (push_bit lo imm AND NOT m))) = take_bit n imm"
proof (rule bit_word_eqI)
  fix i
  assume "i < LENGTH(32)"
  have "bit (NOT m) j \<longleftrightarrow> lo \<le> j \<and> j < lo + n" if "j < 32" for j
    using that assms(2) by (auto simp: assms(1) bit_push_bit_iff bit_mask_iff)
  then have "bit m j \<longleftrightarrow> \<not> (lo \<le> j \<and> j < lo + n)" if "j < 32" for j
    using that by (auto simp: bit_not_iff)
  then show "bit (take_bit n (drop_bit lo ((data AND m) OR (push_bit lo imm AND NOT m)))) i \<longleftrightarrow> bit (take_bit n imm) i"
    using assms(2)
    by (auto simp: bit_take_bit_iff bit_drop_bit_eq bit_or_iff bit_and_iff bit_not_iff bit_push_bit_iff)
qed

lemma sx_low:
  assumes "0 < n" "n \<le> 32"
  shows "sx n (unat (take_bit n (ucast (x :: 64 word) :: 32 word))) = signed_take_bit (n - 1) (sint x)"
proof (rule bit_eqI)
  fix i
  have "bit (int (unat (take_bit n (ucast x :: 32 word)))) j \<longleftrightarrow> bit (sint x) j" if "j < n" for j
    using that assms(2) by (auto simp: bit_of_nat_iff bit_unsigned_iff bit_take_bit_iff bit_sint_iff)
  then show "bit (sx n (unat (take_bit n (ucast x :: 32 word)))) i \<longleftrightarrow> bit (signed_take_bit (n - 1) (sint x)) i"
    using assms(1) by (simp add: sx_def bit_signed_take_bit_iff)
qed

text \<open>The immediate never overlaps the bits that are kept.\<close>

lemma and_not_field: "(x AND NOT m) AND m = (0 :: 32 word)"
  by (rule bit_word_eqI) (auto simp: bit_and_iff bit_not_iff)

lemma adr_imm_fixed: "adr_imm imm AND 0x9F00001F = 0" "adr_imm imm AND 0x9000001F = 0"
proof -
  have m: "(0x3 :: 32 word) = mask 2" "(0x1FFFFC :: 32 word) = push_bit 2 (mask 19)"
    "(0x9F00001F :: 32 word) = NOT (push_bit 5 (mask 19) OR push_bit 29 (mask 2))"
    by (simp_all add: mask_eq_exp_minus_1)
  have "adr_imm imm AND NOT (push_bit 5 (mask 19) OR push_bit 29 (mask 2)) = 0"
    unfolding adr_imm_def m(1,2)
    by (rule bit_word_eqI)
      (auto simp: bit_or_iff bit_and_iff bit_not_iff bit_push_bit_iff bit_mask_iff)
  then show *: "adr_imm imm AND 0x9F00001F = 0" by (simp only: m(3))
  have "adr_imm imm AND 0x9000001F = (adr_imm imm AND 0x9F00001F) AND 0x9000001F" by (simp add: and.assoc)
  then show "adr_imm imm AND 0x9000001F = 0" using * by simp
qed

lemma makeImm_fixed: "makeImm mode dest src fixed AND fixedMask mode = 0"
  by (cases mode) (simp_all only: makeImm.simps fixedMask.simps adr_imm_fixed page_imm_def branch_imm_def Let_def and_not_field)

lemma rebuild_fixed: "rebuild mode data dest src AND fixedMask mode = data AND fixedMask mode"
proof -
  have "((data AND fixedMask mode) OR makeImm mode dest src (data AND fixedMask mode)) AND fixedMask mode =
    (data AND fixedMask mode) OR (makeImm mode dest src (data AND fixedMask mode) AND fixedMask mode)"
    by (rule bit_word_eqI) (auto simp: bit_and_iff bit_or_iff)
  then show ?thesis by (simp add: rebuild_def Let_def makeImm_fixed)
qed

text \<open>Rebuilding a linked instruction changes only the bits of its immediate, and the
  result depends only on the last move: an instruction that was moved before is rebuilt to the
  same word as the original. An instruction that passes \<^verbatim>\<open>check\<close> is rebuilt to itself.\<close>

lemma rebuild_stable:
  "rebuild mode data dest src AND fixedMask mode = data AND fixedMask mode \<and>
   rebuild mode (rebuild mode data dest src) dest' src' = rebuild mode data dest' src' \<and>
   check mode (rebuild mode data dest src) dest src = Some True"
  using rebuild_fixed [of mode data dest src] by (simp add: check_def) (simp add: rebuild_def [of mode] Let_def)

subsection \<open>Branches\<close>

fun branch_field :: "Mode \<Rightarrow> (nat \<times> nat) option" where
  "branch_field AARCH64_IM_BL = Some (0, 26)"
| "branch_field AARCH64_IM_B = Some (0, 26)"
| "branch_field AARCH64_IM_BCOND = Some (5, 19)"
| "branch_field AARCH64_IM_CBZ = Some (5, 19)"
| "branch_field AARCH64_IM_CBNZ = Some (5, 19)"
| "branch_field AARCH64_IM_TBZ = Some (5, 14)"
| "branch_field AARCH64_IM_TBNZ = Some (5, 14)"
| "branch_field _ = None"

lemma branch_field_mask:
  assumes "branch_field mode = Some (lo, n)"
  shows "makeImm mode dest src fixed = branch_imm lo dest src (fixedMask mode)"
    and "NOT (fixedMask mode) = push_bit lo (mask n)" "lo + n \<le> 32" "0 < n"
  using assms mask_fields(1-3) by (cases mode; simp)+

text \<open>Claim C15: a rebuilt branch reaches its target. For every branch mode, if the displacement is a
  multiple of four within the range of the instruction's field, the architecture's branch target
  of the rebuilt word at the new place is the linked address.\<close>

theorem branch_reaches_target:
  assumes "branch_field mode = Some (lo, n)" "4 dvd sint (dest - src)"
    and "- (2 ^ (n + 1)) \<le> sint (dest - src)" "sint (dest - src) < 2 ^ (n + 1)"
  shows "branch_target lo n (rebuild mode data dest src) src = dest"
proof -
  let ?d = "sint (dest - src)"
  note m = branch_field_mask [OF assms(1)]
  have "2 ^ (n + 1) = 4 * (2 ^ (n - 1) :: int)" using m(4) by (cases n) simp_all
  then have r: "- (2 ^ (n - 1)) \<le> ?d div 4" "?d div 4 < 2 ^ (n - 1)" using assms(3,4) by simp_all
  have "take_bit n (drop_bit lo (rebuild mode data dest src)) = take_bit n (ucast (signed_drop_bit 2 (dest - src)))"
    using field_insert [OF m(2,3)] by (simp add: rebuild_def m(1) branch_imm_def Let_def)
  then have "sx n (field lo n (rebuild mode data dest src)) = signed_take_bit (n - 1) (?d div 4)"
    using sx_low [of n "signed_drop_bit 2 (dest - src)"] m(3,4)
    by (simp add: field_def sint_signed_drop_bit_eq drop_bit_eq_div)
  also have "\<dots> = ?d div 4" using r m(4) by (intro signed_take_bit_int_eq_self) simp_all
  finally show ?thesis using assms(2) by (simp add: branch_target_def)
qed

theorem branch_reaches_target_witness:
  "branch_target 0 26 (rebuild AARCH64_IM_BL 0x94000000 0x3F0000 0x400000) 0x400000 = 0x3F0000"
  by (rule branch_reaches_target) simp_all

subsection \<open>Page addresses\<close>

lemma adr_fields:
  assumes "f AND NOT 0x9F00001F = 0"
  shows "4 * field 5 19 (f OR adr_imm imm) + field 29 2 (f OR adr_imm imm) = unat (take_bit 21 imm)"
proof -
  have m: "(0x3 :: 32 word) = mask 2" "(0x1FFFFC :: 32 word) = push_bit 2 (mask 19)"
    "NOT (0x9F00001F :: 32 word) = push_bit 5 (mask 19) OR push_bit 29 (mask 2)"
    by (simp_all add: mask_eq_exp_minus_1)
  have f: "\<not> bit f j" if "5 \<le> j \<and> j < 24 \<or> 29 \<le> j \<and> j < 31" for j
  proof -
    have "\<not> bit (f AND (push_bit 5 (mask 19) OR push_bit 29 (mask 2))) j" using assms unfolding m(3) by simp
    then show ?thesis using that by (auto simp: bit_and_iff bit_or_iff bit_push_bit_iff bit_mask_iff)
  qed
  have "take_bit 19 (drop_bit 5 (f OR adr_imm imm)) = take_bit 19 (drop_bit 2 imm)"
    unfolding adr_imm_def m(1,2)
    by (rule bit_word_eqI)
      (auto simp: f bit_take_bit_iff bit_drop_bit_eq bit_or_iff bit_and_iff bit_push_bit_iff bit_mask_iff)
  moreover have "take_bit 2 (drop_bit 29 (f OR adr_imm imm)) = take_bit 2 imm"
    unfolding adr_imm_def m(1,2)
    by (rule bit_word_eqI)
      (auto simp: f bit_take_bit_iff bit_drop_bit_eq bit_or_iff bit_and_iff bit_push_bit_iff bit_mask_iff)
  moreover have "4 * (N div 4 mod 2 ^ 19) + N mod 4 = N mod 2 ^ 21" for N :: nat
    using mod_mult2_eq [of N 4 "2 ^ 19"] by simp
  moreover have "unat (take_bit 19 (drop_bit 2 imm)) = unat imm div 4 mod 2 ^ 19" "unat (take_bit 2 imm) = unat imm mod 4"
      "unat (take_bit 21 imm) = unat imm mod 2 ^ 21"
    using unsigned_less [of imm, where 'a = nat]
    by (simp_all only: unsigned_take_bit_eq unsigned_drop_bit_eq) (simp_all add: take_bit_eq_mod drop_bit_eq_div)
  ultimately show ?thesis unfolding field_def by metis
qed

lemma low_bits_page: "sint (dest - (src AND NOT 0xFFF)) mod 4096 = uint dest mod 4096" for dest src :: address
proof -
  let ?p = "src AND NOT 0xFFF"
  have s: "sint w mod 4096 = uint w mod 4096" for w :: address
    using take_bit_signed_take_bit [of 12 63 "uint w"] by (simp add: sint_uint take_bit_eq_mod)
  have "(0xFFF :: address) = mask 12" by (simp add: mask_eq_exp_minus_1)
  then have "take_bit 12 ?p = 0"
    by (intro bit_word_eqI) (auto simp: bit_take_bit_iff bit_and_iff bit_not_iff bit_mask_iff)
  then have "uint ?p mod 4096 = 0"
    using unsigned_take_bit_eq [of 12 ?p, where 'a = int] by (simp add: take_bit_eq_mod)
  moreover have "uint (dest - ?p) mod 4096 = (uint dest - uint ?p) mod 4096"
    by (simp add: uint_word_ariths mod_mod_cancel)
  ultimately show ?thesis using s by (metis diff_zero mod_diff_right_eq)
qed

lemma adrp_value_rebuilt:
  assumes "- (2 ^ 32) \<le> sint (dest - (src AND NOT 0xFFF))" "sint (dest - (src AND NOT 0xFFF)) < 2 ^ 32"
  shows "adrp_value (rebuild AARCH64_IM_ADRP data dest src) src = dest - of_int (uint dest mod 4096)"
proof -
  let ?p = "src AND NOT 0xFFF"
  let ?d = "sint (dest - ?p)"
  have "(data AND 0x9000001F) AND NOT 0x9F00001F = 0" by (simp add: and.assoc)
  from adr_fields [OF this, of "ucast (signed_drop_bit 12 (dest - ?p))"]
  have "adr_offset (rebuild AARCH64_IM_ADRP data dest src) = signed_take_bit 20 (drop_bit 12 ?d)"
    using sx_low [of 21 "signed_drop_bit 12 (dest - ?p)"]
    by (simp add: adr_offset_def rebuild_def Let_def sint_signed_drop_bit_eq)
  also have "\<dots> = ?d div 4096"
    using assms by (simp add: drop_bit_eq_div signed_take_bit_int_eq_self)
  finally have "adrp_value (rebuild AARCH64_IM_ADRP data dest src) src = ?p + of_int (4096 * (?d div 4096))"
    by (simp add: adrp_value_def)
  also have "4096 * (?d div 4096) = ?d - uint dest mod 4096"
    using low_bits_page [of dest src] by (simp add: minus_mod_eq_mult_div [symmetric])
  finally show ?thesis by simp
qed

text \<open>The unsigned-offset field, of which the table keeps the top bit for loads and stores.\<close>

lemma ucast_push_bit: "(ucast (push_bit k w) :: 32 word) = push_bit k (ucast w)" for w :: "64 word"
  by (rule bit_word_eqI) (auto simp: bit_push_bit_iff bit_unsigned_iff)

lemma unat_take_bit_ucast:
  fixes w :: "64 word"
  assumes "n \<le> 32"
  shows "unat (take_bit n (ucast w :: 32 word)) = unat w mod 2 ^ n"
proof -
  have "(2::nat) ^ n dvd 2 ^ 32" using assms by (rule le_imp_power_dvd)
  then show ?thesis
    by (simp only: unsigned_take_bit_eq unsigned_ucast_eq)
      (simp add: take_bit_eq_mod unsigned_take_bit_eq mod_mod_cancel)
qed

lemma page_offset:
  fixes dest :: address
  shows "dest AND 0xFFF = take_bit 12 dest" "unat (dest AND 0xFFF) = unat dest mod 4096"
proof -
  have "(0xFFF :: address) = mask 12" by (simp add: mask_eq_exp_minus_1)
  then show t: "dest AND 0xFFF = take_bit 12 dest" by (simp only: take_bit_eq_mask)
  then show "unat (dest AND 0xFFF) = unat dest mod 4096"
    by (simp only: unsigned_take_bit_eq) (simp add: take_bit_eq_mod)
qed

lemma unat_signed_drop_page:
  fixes dest :: address
  shows "unat (signed_drop_bit k (dest AND 0xFFF)) = unat dest mod 4096 div 2 ^ k"
proof -
  have "signed_drop_bit k (dest AND 0xFFF) = drop_bit k (dest AND 0xFFF)"
    unfolding page_offset(1)
    by (rule bit_word_eqI) (auto simp: bit_signed_drop_bit_iff bit_drop_bit_eq bit_take_bit_iff)
  moreover have "unat (drop_bit k (dest AND 0xFFF)) = unat (dest AND 0xFFF) div 2 ^ k"
    using unsigned_less [of "dest AND 0xFFF", where 'a = nat]
    by (simp only: unsigned_drop_bit_eq) (simp add: take_bit_nat_eq_self drop_bit_eq_div)
  ultimately show ?thesis by (simp only: page_offset(2))
qed

lemma field_page_imm:
  assumes "NOT m = push_bit 10 (mask n)" "10 + n \<le> 32"
  shows "field 10 n ((data AND m) OR page_imm k dest m) = unat dest mod 4096 div 2 ^ k mod 2 ^ n"
  using field_insert [OF assms, of data "ucast (signed_drop_bit k (dest AND 0xFFF))"] assms(2)
    unat_take_bit_ucast [of n "signed_drop_bit k (dest AND 0xFFF)"]
  unfolding field_def page_imm_def Let_def ucast_push_bit unat_signed_drop_page by simp

text \<open>Claim C23: the pair of a rebuilt \<^verbatim>\<open>ADRP\<close> and a rebuilt \<^verbatim>\<open>ADD\<close> immediate computes the linked
  address, wherever the two instructions are moved, if the address is within 4 GiB of the page of
  the \<^verbatim>\<open>ADRP\<close>.\<close>

theorem adrp_add_computes_target:
  assumes "- (2 ^ 32) \<le> sint (dest - (src AND NOT 0xFFF))" "sint (dest - (src AND NOT 0xFFF)) < 2 ^ 32"
  shows "adrp_value (rebuild AARCH64_IM_ADRP data dest src) src +
    offset12 0 (rebuild AARCH64_IM_ADDIMM data' dest src') = dest"
proof -
  have "field 10 12 (rebuild AARCH64_IM_ADDIMM data' dest src') = unat dest mod 4096"
    using field_page_imm [OF mask_fields(4), of data' 0 dest] by (simp add: rebuild_def Let_def)
  moreover have "uint dest mod 4096 = int (unat dest mod 4096)" by (simp add: zmod_int)
  ultimately have "offset12 0 (rebuild AARCH64_IM_ADDIMM data' dest src') = of_int (uint dest mod 4096)"
    by (simp only: offset12_def of_int_of_nat_eq) simp
  then show ?thesis using adrp_value_rebuilt [OF assms] by simp
qed

theorem adrp_add_computes_target_witness:
  "adrp_value (rebuild AARCH64_IM_ADRP 0x90000001 0x412345 0x400ABC) 0x400ABC +
    offset12 0 (rebuild AARCH64_IM_ADDIMM 0x91000021 0x412345 0x400AC0) = 0x412345"
  by (rule adrp_add_computes_target) simp_all

subsection \<open>Loads and stores\<close>

text \<open>The scale of the unsigned offset of a load or store, as the table computes it.\<close>

fun ldst_scale :: "Mode \<Rightarrow> 32 word \<Rightarrow> nat option" where
  "ldst_scale AARCH64_IM_LDRIMM data = Some (LDRIMM_scale (data AND 0xFFE003FF))"
| "ldst_scale AARCH64_IM_LDRH data = Some 1"
| "ldst_scale AARCH64_IM_LDRB data = Some 0"
| "ldst_scale AARCH64_IM_LDRSW data = Some 2"
| "ldst_scale AARCH64_IM_LDRSH data = Some 1"
| "ldst_scale AARCH64_IM_LDRSB data = Some 0"
| "ldst_scale AARCH64_IM_STR data = Some (unat (drop_bit 30 (data AND 0xFFE003FF)))"
| "ldst_scale AARCH64_IM_STRH data = Some 1"
| "ldst_scale AARCH64_IM_STRB data = Some 0"
| "ldst_scale _ data = None"

lemma ldst_rebuild:
  assumes "ldst_scale mode data = Some k"
  shows "rebuild mode data dest src = (data AND 0xFFE003FF) OR page_imm k dest 0xFFE003FF" "fixedMask mode = 0xFFE003FF"
  using assms by (cases mode; simp add: rebuild_def Let_def)+

lemma field_Suc: "field lo (Suc n) w = field lo n w + 2 ^ n * of_bool (bit w (lo + n))"
proof -
  have "unat (take_bit (Suc n) v) = unat (take_bit n v) + 2 ^ n * of_bool (bit v n)" for v :: "32 word"
    by (simp add: unsigned_take_bit_eq take_bit_Suc_from_most bit_unsigned_iff)
  then show ?thesis by (simp add: field_def bit_drop_bit_eq)
qed

lemma ldst_field:
  assumes "ldst_scale mode data = Some k"
  shows "field 10 12 (rebuild mode data dest src) =
    unat dest mod 4096 div 2 ^ k mod 2048 + 2048 * of_bool (bit data 21)"
proof -
  have "bit (rebuild mode data dest src AND fixedMask mode) 21 \<longleftrightarrow> bit (data AND fixedMask mode) 21"
    by (simp only: rebuild_fixed)
  moreover have "bit (0xFFE003FF :: 32 word) 21" by simp
  ultimately have b: "bit (rebuild mode data dest src) 21 \<longleftrightarrow> bit data 21"
    by (simp only: ldst_rebuild(2) [OF assms] bit_and_iff) simp
  have "field 10 (Suc 11) (rebuild mode data dest src) =
      field 10 11 (rebuild mode data dest src) + 2 ^ 11 * of_bool (bit data 21)"
    unfolding field_Suc [of 10 11] using b by simp
  then show ?thesis
    using field_page_imm [OF mask_fields(5), of data k dest] by (simp add: ldst_rebuild(1) [OF assms])
qed



text \<open>Claim C37: a byte load or store whose target lies in the upper half of its page is rebuilt with
  an offset that is 2048 too small, because the table takes bit 21 of the instruction for a fixed
  bit although it is the top bit of the offset.\<close>

theorem byte_access_upper_half:
  assumes "mode \<in> {AARCH64_IM_LDRB, AARCH64_IM_LDRSB, AARCH64_IM_STRB}" "\<not> bit data 21"
    and "2048 \<le> unat dest mod 4096"
  shows "offset12 0 (rebuild mode data dest src) = (dest AND 0xFFF) - 2048"
proof -
  let ?o = "unat dest mod 4096"
  have "ldst_scale mode data = Some 0" using assms(1) by auto
  then have "field 10 12 (rebuild mode data dest src) = ?o mod 2048" using assms(2) by (simp add: ldst_field)
  moreover have "?o < 4096" by simp
  then have "?o - 2048 < 2048" using assms(3) by linarith
  then have "?o mod 2048 = ?o - 2048" using assms(3) by (simp add: le_mod_geq)
  moreover have "dest AND 0xFFF = of_nat ?o" using page_offset(2) [of dest] by (simp add: word_unat_eq_iff unat_of_nat)
  ultimately show ?thesis using assms(3) by (simp add: offset12_def of_nat_diff)
qed

theorem byte_access_upper_half_witness:
  "offset12 0 (rebuild AARCH64_IM_LDRB 0x39400021 0x412FF8 0x400AC0) = 0x7F8"
  using byte_access_upper_half [of AARCH64_IM_LDRB "0x39400021" "0x412FF8" "0x400AC0"] by simp

text \<open>
  A load of a literal reaches its target only forwards and within 512 KiB: the displacement is cut
  to 19 bits before it is scaled, so the sign of a backward displacement is lost.
\<close>

lemma literal_load_forward:
  assumes "4 dvd sint (dest - src)"
  shows "branch_target 5 19 (rebuild AARCH64_IM_LDRLIT data dest src) src = dest \<longleftrightarrow>
    0 \<le> sint (dest - src) \<and> sint (dest - src) < 2 ^ 19"
proof -
  let ?d = "sint (dest - src)"
  have m: "(0x7FFFF :: address) = mask 19" by (simp add: mask_eq_exp_minus_1)
  let ?x = "(dest - src) AND 0x7FFFF"
  have x: "sint ?x = ?d mod 2 ^ 19"
    unfolding m take_bit_eq_mod [symmetric]
    by (rule bit_eqI) (auto simp: bit_sint_iff bit_and_iff bit_mask_iff bit_take_bit_iff)
  have "take_bit 19 (drop_bit 5 (rebuild AARCH64_IM_LDRLIT data dest src)) = take_bit 19 (ucast (signed_drop_bit 2 ?x))"
    using field_insert [OF mask_fields(2), of data "ucast (signed_drop_bit 2 ?x)"]
    by (simp add: rebuild_def Let_def ucast_push_bit)
  then have "sx 19 (field 5 19 (rebuild AARCH64_IM_LDRLIT data dest src)) = signed_take_bit 18 (?d mod 2 ^ 19 div 4)"
    using sx_low [of 19 "signed_drop_bit 2 ?x"] by (simp add: field_def sint_signed_drop_bit_eq drop_bit_eq_div x)
  also have "\<dots> = ?d mod 2 ^ 19 div 4"
  proof (rule signed_take_bit_int_eq_self)
    have "0 \<le> ?d mod 2 ^ 19" "?d mod 2 ^ 19 < 2 ^ 19" by simp_all
    then show "- (2 ^ 18) \<le> ?d mod 2 ^ 19 div 4" "?d mod 2 ^ 19 div 4 < 2 ^ 18" by simp_all
  qed
  finally have "branch_target 5 19 (rebuild AARCH64_IM_LDRLIT data dest src) src = src + of_int (?d mod 2 ^ 19)"
    using assms by (simp add: branch_target_def dvd_mod)
  moreover have "src + of_int (?d mod 2 ^ 19) = dest \<longleftrightarrow> ?d mod 2 ^ 19 = ?d"
  proof
    assume "src + of_int (?d mod 2 ^ 19) = dest"
    then have "dest - src = of_int (?d mod 2 ^ 19)" by (metis add_diff_cancel_left')
    moreover have "sint (of_int (?d mod 2 ^ 19) :: address) = ?d mod 2 ^ 19"
    proof -
      have "0 \<le> ?d mod 2 ^ 19" "?d mod 2 ^ 19 < 2 ^ 19" by simp_all
      then have "- (2 ^ 63) \<le> ?d mod 2 ^ 19" "?d mod 2 ^ 19 < 2 ^ 63" by simp_all
      then show ?thesis by (simp add: signed_of_int signed_take_bit_int_eq_self)
    qed
    ultimately show "?d mod 2 ^ 19 = ?d" by metis
  next
    assume "?d mod 2 ^ 19 = ?d"
    then show "src + of_int (?d mod 2 ^ 19) = dest" by simp
  qed
  moreover have "?d mod 2 ^ 19 = ?d \<longleftrightarrow> 0 \<le> ?d \<and> ?d < 2 ^ 19"
  proof
    have "0 \<le> ?d mod 2 ^ 19" "?d mod 2 ^ 19 < 2 ^ 19" by simp_all
    then show "?d mod 2 ^ 19 = ?d \<Longrightarrow> 0 \<le> ?d \<and> ?d < 2 ^ 19" by metis
  qed (simp add: mod_pos_pos_trivial)
  ultimately show ?thesis by simp
qed

end
