(* ===== verification/AArch64RegBits.thy ===== *)
theory AArch64RegBits
  imports Streams
begin

unbundle bit_operations_syntax

section \<open>Register fields of AArch64 instructions (\<^verbatim>\<open>src/disasm/aarch64-regbits.cpp\<close>)\<close>

text \<open>
  \<^verbatim>\<open>AARCH64RegBits\<close> holds an instruction word, and caches the positions of its source and
  destination register fields. A register is its 5-bit encoding. On the target \<^verbatim>\<open>char\<close> is unsigned.
  The getter of the positions updates the cache, so it returns the object too.
\<close>

type_synonym RegPositionsList = "nat list \<times> nat list"

record AARCH64RegBits =
  bin :: "32 word"
  cached :: bool
  rb_list :: RegPositionsList

abbreviation regMask :: "32 word" where
  "regMask \<equiv> 0x1F"

text \<open>The constructor leaves \<^verbatim>\<open>bin\<close> uninitialised: \<open>junk\<close>.\<close>

definition newRegBits :: "32 word \<Rightarrow> AARCH64RegBits" where
  "newRegBits junk = \<lparr>bin = junk, cached = False, rb_list = ([], [])\<rparr>"

definition invalidateCache :: "AARCH64RegBits \<Rightarrow> AARCH64RegBits" where
  "invalidateCache rb = rb\<lparr>cached := False, rb_list := ([], [])\<rparr>"

definition regbits_decode :: "byte list \<Rightarrow> AARCH64RegBits \<Rightarrow> AARCH64RegBits" where
  "regbits_decode bytes rb =
     invalidateCache (rb\<lparr>bin := push_bit 24 (ucast (bytes ! 3)) OR push_bit 16 (ucast (bytes ! 2)) OR
       push_bit 8 (ucast (bytes ! 1)) OR ucast (bytes ! 0)\<rparr>)"

definition regbits_encode :: "AARCH64RegBits \<Rightarrow> byte list" where
  "regbits_encode rb =
     [ucast (drop_bit 0 (bin rb) AND 0xFF), ucast (drop_bit 8 (bin rb) AND 0xFF),
      ucast (drop_bit 16 (bin rb) AND 0xFF), ucast (drop_bit 24 (bin rb) AND 0xFF)]"

subsection \<open>The positions of the register fields\<close>

definition makeDPImm :: "32 word \<Rightarrow> RegPositionsList" where
  "makeDPImm b =
     (if b AND 0x1F000000 = 0x11000000 \<or> b AND 0x1F800000 = 0x13000000 \<or> b AND 0x1F800000 = 0x12000000
        then ([5], [0])
      else if b AND 0x1F800000 = 0x13800000 then ([5, 16], [0])
      else if b AND 0x1F800000 = 0x12800000 \<or> b AND 0x1F000000 = 0x10000000 then ([], [0])
      else ([], []))"

definition makeBranch :: "32 word \<Rightarrow> RegPositionsList" where
  "makeBranch b =
     (if b AND 0xFE000000 = 0x34000000 \<or> b AND 0x7E000000 = 0x36000000 then ([0], [])
      else if b AND 0xFFC00000 = 0xD5000000 then
        let L = drop_bit 21 b AND 0x1; op0 = drop_bit 19 b AND 0x3
        in if L = 0 then (if op0 = 0x1 \<or> op0 AND 0x3 = 0x3 then ([0], []) else ([], []))
           else if L = 1 then ([], [0]) else ([], [])
      else if b AND 0xFE000000 = 0xD6000000 then ([5], [])
      else ([], []))"

text \<open>
  The value that the two switches of \<^verbatim>\<open>makeLDST_RegPositionList\<close> test. In C++ a shift binds
  tighter than \<^verbatim>\<open>&\<close>.
\<close>

definition ldst_opcode :: "32 word \<Rightarrow> 32 word" where
  "ldst_opcode b = (b AND drop_bit (26 - 2) 0x04000000) OR (b AND drop_bit 22 0x00C00000)"

definition ldst_imm :: "32 word \<Rightarrow> RegPositionsList" where
  "ldst_imm b =
     (let writeback = drop_bit 10 b AND 0x1; wb = (if writeback \<noteq> 0 then [5] else [])
      in if ldst_opcode b \<in> {1, 2, 3, 5, 7} then ([5], 0 # wb)
         else if ldst_opcode b \<in> {0, 4, 6} then ([0, 5], wb)
         else ([], []))"

definition ldst_reg :: "32 word \<Rightarrow> RegPositionsList" where
  "ldst_reg b =
     (if ldst_opcode b \<in> {1, 2, 3, 5, 7} then ([5, 16], [0])
      else if ldst_opcode b \<in> {0, 4, 6} then ([0, 5, 16], [])
      else ([], []))"

definition ldst_pair :: "32 word \<Rightarrow> RegPositionsList" where
  "ldst_pair b =
     (let writeback = drop_bit 23 b AND 0x1; L = drop_bit 22 b AND 0x1; wb = (if writeback \<noteq> 0 then [5] else [])
      in if L \<noteq> 0 then ([5], [0, 10] @ wb) else ([0, 5, 10], wb))"

definition is_ldst_imm :: "32 word \<Rightarrow> bool" where
  "is_ldst_imm b \<longleftrightarrow>
     b AND 0x3B200C00 = 0x38000400 \<or> b AND 0x3B200C00 = 0x38000C00 \<or> b AND 0x3B200C00 = 0x38000800 \<or>
     b AND 0x3B200C00 = 0x38000000 \<or> b AND 0x3B000C00 = 0x39000000"

definition is_ldst_reg :: "32 word \<Rightarrow> bool" where
  "is_ldst_reg b \<longleftrightarrow> b AND 0x3B200C00 = 0x38200800"

text \<open>\<open>None\<close> is the early return that leaves the list as it is.\<close>

definition makeLDST :: "32 word \<Rightarrow> RegPositionsList option" where
  "makeLDST b =
     (if drop_bit 28 b AND 0x3 = 0 then None
      else if b AND 0x3B000000 = 0x18000000 then Some ([], [0])
      else if is_ldst_imm b then Some (ldst_imm b)
      else if is_ldst_reg b then Some (ldst_reg b)
      else if b AND 0x3BC00000 = 0x28000000 \<or> b AND 0x3B800000 = 0x29000000 \<or>
        b AND 0x3B800000 = 0x28800000 \<or> b AND 0x3B800000 = 0x29800000 then Some (ldst_pair b)
      else Some ([], []))"

definition makeDPIReg :: "32 word \<Rightarrow> RegPositionsList" where
  "makeDPIReg b =
     (if b AND 0x1F200000 = 0x0B200000 \<or> b AND 0x1F200000 = 0x0B000000 \<or> b AND 0x1FE00000 = 0x1A000000 \<or>
        b AND 0x1FE00800 = 0x1A400000 \<or> b AND 0x3FE00000 = 0x1AC00000 \<or> b AND 0x1F000000 = 0x0A000000
        then ([5, 16], [0])
      else if b AND 0x1FE00800 = 0x1A400800 then ([5], [])
      else if b AND 0x1FE00000 = 0x1A800000 then ([5, 16], [0])
      else if b AND 0x3FE00000 = 0x3AC00000 then ([5], [0])
      else if b AND 0x1F000000 = 0x1A000000 then ([5, 10, 16], [0])
      else ([], []))"

text \<open>The list of a word, \<open>None\<close> where the code leaves the list as it is; the flag tells whether it is cached.\<close>

definition classify :: "32 word \<Rightarrow> RegPositionsList option \<times> bool" where
  "classify b =
     (let op0 = drop_bit 25 b AND 0xF
      in if op0 AND 0xE = 0x8 then (Some (makeDPImm b), True)
         else if op0 AND 0xA = 0xA then (Some (makeBranch b), True)
         else if op0 AND 0x5 = 0x4 then (makeLDST b, True)
         else if op0 AND 0x7 = 0x5 then (Some (makeDPIReg b), True)
         else (None, False))"

definition getRegPositionList :: "AARCH64RegBits \<Rightarrow> RegPositionsList \<times> AARCH64RegBits" where
  "getRegPositionList rb =
     (if cached rb then (rb_list rb, rb)
      else let (l, c) = classify (bin rb); rb' = rb\<lparr>rb_list := (case l of None \<Rightarrow> rb_list rb | Some l \<Rightarrow> l), cached := c\<rparr>
        in (rb_list rb', rb'))"

subsection \<open>Queries and replacement\<close>

definition reg_at :: "32 word \<Rightarrow> nat \<Rightarrow> 32 word" where
  "reg_at b pos = drop_bit pos b AND regMask"

definition isReading :: "32 word \<Rightarrow> AARCH64RegBits \<Rightarrow> bool \<times> AARCH64RegBits" where
  "isReading reg rb = (let (l, rb') = getRegPositionList rb in (\<exists>pos \<in> set (fst l). reg_at (bin rb) pos = reg, rb'))"

definition isWriting :: "32 word \<Rightarrow> AARCH64RegBits \<Rightarrow> bool \<times> AARCH64RegBits" where
  "isWriting reg rb = (let (l, rb') = getRegPositionList rb in (\<exists>pos \<in> set (snd l). reg_at (bin rb) pos = reg, rb'))"

definition replace_at :: "32 word \<Rightarrow> 32 word \<Rightarrow> nat \<Rightarrow> 32 word \<Rightarrow> 32 word" where
  "replace_at old new pos b =
     (if reg_at b pos = old then (b AND NOT (push_bit pos regMask)) OR push_bit pos new else b)"

definition replaceRegister :: "32 word \<Rightarrow> 32 word \<Rightarrow> AARCH64RegBits \<Rightarrow> AARCH64RegBits" where
  "replaceRegister old new rb =
     (let (l, rb') = getRegPositionList rb
      in invalidateCache (rb'\<lparr>bin := fold (replace_at old new) (snd l) (fold (replace_at old new) (fst l) (bin rb'))\<rparr>))"

subsection \<open>Encoding and decoding\<close>

text \<open>The word of an instruction round-trips through its four bytes, in both directions, and
  decoding forgets the cached positions.\<close>

lemma regbits_roundtrip:
  assumes "length bytes = 4"
  shows "regbits_encode (regbits_decode bytes rb) = bytes \<and> regbits_decode (regbits_encode rb) rb = invalidateCache rb"
proof -
  obtain b0 b1 b2 b3 where b: "bytes = [b0, b1, b2, b3]"
    using assms by (auto simp: numeral_eq_Suc length_Suc_conv)
  have m: "(0xFF :: 32 word) = mask 8" by (simp add: mask_eq_exp_minus_1)
  have z: "\<not> bit v i" if "8 \<le> i" for v :: byte and i using that by (auto dest: bit_imp_le_length)
  have "regbits_encode (regbits_decode bytes rb) = bytes"
    unfolding b regbits_encode_def regbits_decode_def invalidateCache_def m
    by (simp, intro conjI; rule bit_word_eqI)
      (auto simp: bit_or_iff bit_and_iff bit_push_bit_iff bit_drop_bit_eq bit_unsigned_iff bit_mask_iff z)
  moreover have "bin (regbits_decode (regbits_encode rb) rb) = bin rb"
  proof (rule bit_word_eqI)
    fix i assume "i < LENGTH(32)"
    then consider "i < 8" | "8 \<le> i \<and> i < 16" | "16 \<le> i \<and> i < 24" | "24 \<le> i \<and> i < 32" by force
    then show "bit (bin (regbits_decode (regbits_encode rb) rb)) i \<longleftrightarrow> bit (bin rb) i"
      unfolding regbits_encode_def regbits_decode_def invalidateCache_def m
      by cases (auto simp: less_diff_conv2 bit_or_iff bit_and_iff bit_push_bit_iff bit_drop_bit_eq bit_unsigned_iff bit_mask_iff)
  qed
  ultimately show ?thesis by (simp add: regbits_decode_def invalidateCache_def)
qed

lemma regbits_roundtrip_witness:
  "regbits_encode (regbits_decode [0x20, 0x00, 0x40, 0xF9] (newRegBits 0)) = [0x20, 0x00, 0x40, 0xF9]"
  using regbits_roundtrip [of "[0x20, 0x00, 0x40, 0xF9]" "newRegBits 0"] by simp

subsection \<open>Renaming a register\<close>

abbreviation reg_positions :: "nat set" where
  "reg_positions \<equiv> {0, 5, 10, 16}"

lemma classify_positions:
  "fst (classify b) = Some l \<Longrightarrow> set (fst l) \<union> set (snd l) \<subseteq> reg_positions"
  unfolding classify_def makeLDST_def
  by (auto simp: Let_def makeDPImm_def makeBranch_def makeDPIReg_def ldst_imm_def ldst_reg_def ldst_pair_def
    split: if_splits)

lemma bit_reg_at: "bit (reg_at b pos) i \<longleftrightarrow> i < 5 \<and> bit b (pos + i)"
proof -
  have m: "regMask = mask 5" by (simp add: mask_eq_exp_minus_1)
  show ?thesis unfolding reg_at_def m by (auto simp: bit_and_iff bit_drop_bit_eq bit_mask_iff dest: bit_imp_le_length)
qed

definition in_field :: "nat \<Rightarrow> nat \<Rightarrow> bool" where
  "in_field pos i \<longleftrightarrow> pos \<le> i \<and> i < pos + 5"

lemma bit_replace_at:
  assumes "pos \<le> 27" "unat new < 32"
  shows "bit (replace_at old new pos b) i \<longleftrightarrow>
    (if in_field pos i \<and> reg_at b pos = old then bit new (i - pos) else bit b i)"
proof -
  have m: "regMask = mask 5" by (simp add: mask_eq_exp_minus_1)
  have "unat (take_bit 5 new) = unat new" using assms(2) by (simp only: unsigned_take_bit_eq) (simp add: take_bit_nat_eq_self)
  then have "take_bit 5 new = new" by (simp only: word_unat_eq_iff)
  then have n: "\<not> bit new j" if "5 \<le> j" for j using that by (metis bit_take_bit_iff not_less)
  show ?thesis
    using assms(1) n unfolding replace_at_def m in_field_def
    by (auto simp: bit_or_iff bit_and_iff bit_not_iff bit_push_bit_iff bit_mask_iff dest: bit_imp_le_length)
qed

lemma reg_at_replace_at:
  assumes "pos \<in> reg_positions" "q \<in> reg_positions" "unat new < 32"
  shows "reg_at (replace_at old new pos b) q = (if q = pos \<and> reg_at b pos = old then new else reg_at b q)"
proof -
  have "unat (take_bit 5 new) = unat new" using assms(3) by (simp only: unsigned_take_bit_eq) (simp add: take_bit_nat_eq_self)
  then have "take_bit 5 new = new" by (simp only: word_unat_eq_iff)
  then have n: "bit new i \<longleftrightarrow> i < 5 \<and> bit new i" for i by (metis bit_take_bit_iff)
  have p: "pos \<le> 27" using assms(1) by auto
  have f: "in_field pos (q + i) \<longleftrightarrow> q = pos" if "i < 5" for i
    using assms(1,2) that by (auto simp: in_field_def)
  show ?thesis
  proof (rule bit_word_eqI)
    fix i assume "i < LENGTH(32)"
    show "bit (reg_at (replace_at old new pos b) q) i \<longleftrightarrow>
        bit (if q = pos \<and> reg_at b pos = old then new else reg_at b q) i"
      using f [of i] n [of i] by (auto simp: bit_reg_at bit_replace_at [OF p assms(3)])
  qed
qed

text \<open>Replacing at every position of a list renames the field at each of them, and no other bit.\<close>

lemma fold_replace_at:
  assumes "set ps \<subseteq> reg_positions" "unat new < 32" "old \<noteq> new"
  shows "(\<forall>q \<in> reg_positions. reg_at (fold (replace_at old new) ps b) q =
      (if q \<in> set ps \<and> reg_at b q = old then new else reg_at b q)) \<and>
    (\<forall>i. (\<forall>q \<in> set ps. \<not> in_field q i) \<longrightarrow> bit (fold (replace_at old new) ps b) i = bit b i)"
  using assms(1)
proof (induction ps arbitrary: b)
  case Nil
  then show ?case by simp
next
  case (Cons p ps)
  then have p: "p \<in> reg_positions" "p \<le> 27" and ps: "set ps \<subseteq> reg_positions" by auto
  let ?b = "replace_at old new p b"
  note IH = Cons.IH [OF ps, of ?b]
  have "reg_at (fold (replace_at old new) ps ?b) q = (if q \<in> set (p # ps) \<and> reg_at b q = old then new else reg_at b q)"
    if "q \<in> reg_positions" for q
    using IH that reg_at_replace_at [OF p(1) that assms(2), of old b] assms(3) by auto
  moreover have "bit (fold (replace_at old new) ps ?b) i = bit b i" if "\<forall>q \<in> set (p # ps). \<not> in_field q i" for i
    using IH that bit_replace_at [OF p(2) assms(2), of old b i] by simp
  ultimately show ?case by simp
qed

subsection \<open>Renaming keeps the class of the instruction\<close>

definition positions :: "32 word \<Rightarrow> RegPositionsList" where
  "positions b = (case fst (classify b) of None \<Rightarrow> ([], []) | Some l \<Rightarrow> l)"

definition all_positions :: "32 word \<Rightarrow> nat set" where
  "all_positions b = set (fst (positions b)) \<union> set (snd (positions b))"

text \<open>Loads and stores of a single register, whose direction the code reads off the register number.\<close>

definition single_ldst :: "32 word \<Rightarrow> bool" where
  "single_ldst b \<longleftrightarrow> (drop_bit 25 b AND 0xF) AND 0x5 = 0x4 \<and> (is_ldst_imm b \<or> is_ldst_reg b)"

lemma and_high_cong:
  fixes b b' M :: "32 word"
  assumes "\<forall>i \<ge> k. bit b' i = bit b i" "take_bit k M = 0"
  shows "b' AND M = b AND M"
proof (rule bit_word_eqI)
  fix i
  have "\<not> bit M i" if "i < k" using assms(2) that by (metis bit_0_eq bit_take_bit_iff bot_apply bot_bool_def)
  then show "bit (b' AND M) i \<longleftrightarrow> bit (b AND M) i" using assms(1) by (cases "i < k") (auto simp: bit_and_iff)
qed

lemma drop_high_cong:
  fixes b b' :: "32 word"
  assumes "\<forall>i \<ge> k. bit b' i = bit b i" "k \<le> n"
  shows "drop_bit n b' = drop_bit n b"
  by (rule bit_word_eqI) (use assms in \<open>auto simp: bit_drop_bit_eq\<close>)

lemma mask_bit11: "b AND 0x1FE00800 = (b AND 0x1FE00000) OR (b AND 0x800)" for b :: "32 word"
proof -
  have "(0x1FE00800 :: 32 word) = 0x1FE00000 OR 0x800" by simp
  then show ?thesis by (metis bit.conj_disj_distrib)
qed

lemma bit11: "b AND 0x800 = (if bit b 11 then 0x800 else 0)" for b :: "32 word"
proof -
  let ?p = "push_bit 11 1 :: 32 word"
  have e: "?p = 0x800" by simp
  have p: "bit ?p i \<longleftrightarrow> i = 11" for i by (simp only: bit_push_bit_iff bit_1_iff) auto
  have "b AND ?p = (if bit b 11 then ?p else 0)"
  proof (rule bit_word_eqI)
    fix i
    show "bit (b AND ?p) i \<longleftrightarrow> bit (if bit b 11 then ?p else 0) i"
      by (cases "bit b 11") (simp_all only: bit_and_iff p if_True if_False bit_0_eq bot_apply, auto)
  qed
  then show ?thesis by (simp only: e)
qed

lemma compare_bit11:
  fixes b :: "32 word"
  shows "b AND 0x1FE00800 = 0x1A400000 \<longleftrightarrow> b AND 0x1FE00000 = 0x1A400000 \<and> \<not> bit b 11"
    and "b AND 0x1FE00800 = 0x1A400800 \<longleftrightarrow> b AND 0x1FE00000 = 0x1A400000 \<and> bit b 11"
proof -
  have d: "b AND 0x1FE00000 = (b AND 0x1FE00800) AND 0x1FE00000" "b AND 0x800 = (b AND 0x1FE00800) AND 0x800"
    by (simp_all add: and.assoc)
  show "b AND 0x1FE00800 = 0x1A400000 \<longleftrightarrow> b AND 0x1FE00000 = 0x1A400000 \<and> \<not> bit b 11"
  proof
    assume "b AND 0x1FE00800 = 0x1A400000"
    with d have "b AND 0x1FE00000 = 0x1A400000" "b AND 0x800 = 0" by simp_all
    then show "b AND 0x1FE00000 = 0x1A400000 \<and> \<not> bit b 11" by (simp add: bit11 split: if_splits)
  qed (simp add: mask_bit11 bit11)
  show "b AND 0x1FE00800 = 0x1A400800 \<longleftrightarrow> b AND 0x1FE00000 = 0x1A400000 \<and> bit b 11"
  proof
    assume "b AND 0x1FE00800 = 0x1A400800"
    with d have "b AND 0x1FE00000 = 0x1A400000" "b AND 0x800 = 0x800" by simp_all
    then show "b AND 0x1FE00000 = 0x1A400000 \<and> bit b 11" by (simp add: bit11 split: if_splits)
  qed (simp add: mask_bit11 bit11)
qed

text \<open>Words that agree outside the listed fields have the same list.\<close>

lemma makeDPImm_cong: "\<forall>i \<ge> 21. bit b' i = bit b i \<Longrightarrow> makeDPImm b' = makeDPImm b"
  unfolding makeDPImm_def by (simp add: and_high_cong [of 21 b' b])

lemma makeBranch_cong: "\<forall>i \<ge> 10. bit b' i = bit b i \<Longrightarrow> makeBranch b' = makeBranch b"
  unfolding makeBranch_def by (simp add: and_high_cong [of 10 b' b] drop_high_cong [of 10 b' b])

lemma makeDPIReg_cong:
  assumes "\<forall>i \<ge> 21. bit b' i = bit b i" "bit b' 11 = bit b 11 \<or> 10 \<in> set (fst (makeDPIReg b))"
  shows "makeDPIReg b' = makeDPIReg b"
  using assms(2) unfolding makeDPIReg_def compare_bit11
  by (auto simp: and_high_cong [OF assms(1)] split: if_splits)

definition is_ldst_pair :: "32 word \<Rightarrow> bool" where
  "is_ldst_pair b \<longleftrightarrow> b AND 0x3BC00000 = 0x28000000 \<or> b AND 0x3B800000 = 0x29000000 \<or>
     b AND 0x3B800000 = 0x28800000 \<or> b AND 0x3B800000 = 0x29800000"

lemma ldst_class:
  "is_ldst_imm b \<Longrightarrow> b AND 0x3B000000 \<in> {0x38000000, 0x39000000}"
  "is_ldst_reg b \<Longrightarrow> b AND 0x3B000000 = 0x38000000"
  "is_ldst_pair b \<Longrightarrow> b AND 0x3B000000 \<in> {0x28000000, 0x29000000}"
proof -
  have d: "b AND 0x3B000000 = (b AND 0x3B200C00) AND 0x3B000000" "b AND 0x3B000000 = (b AND 0x3B000C00) AND 0x3B000000"
    "b AND 0x3B000000 = (b AND 0x3BC00000) AND 0x3B000000" "b AND 0x3B000000 = (b AND 0x3B800000) AND 0x3B000000"
    by (simp_all add: and.assoc)
  show "is_ldst_imm b \<Longrightarrow> b AND 0x3B000000 \<in> {0x38000000, 0x39000000}"
    unfolding is_ldst_imm_def using d(1,2) by (elim disjE) simp_all
  show "is_ldst_reg b \<Longrightarrow> b AND 0x3B000000 = 0x38000000"
    unfolding is_ldst_reg_def using d(1) by simp
  show "is_ldst_pair b \<Longrightarrow> b AND 0x3B000000 \<in> {0x28000000, 0x29000000}"
    unfolding is_ldst_pair_def using d(3,4) by (elim disjE) simp_all
qed

lemma makeLDST_cong:
  assumes a: "\<forall>i \<ge> 15. bit b' i = bit b i" and "\<not> is_ldst_imm b" "\<not> is_ldst_reg b"
    and "b' = b \<or> b AND 0x3B000000 = 0x18000000 \<or> is_ldst_pair b"
  shows "makeLDST b' = makeLDST b"
proof (cases "b' = b")
  case False
  have h: "b' AND 0x3B000000 = b AND 0x3B000000" by (rule and_high_cong [OF a]) simp
  have "\<not> is_ldst_imm b' \<and> \<not> is_ldst_reg b'"
    using False assms(4) ldst_class(1,2) [of b'] ldst_class(3) [of b] h by auto
  moreover have "ldst_pair b' = ldst_pair b" by (simp add: ldst_pair_def drop_high_cong [OF a])
  moreover have "is_ldst_pair b' = is_ldst_pair b" by (simp add: is_ldst_pair_def and_high_cong [OF a])
  moreover have "drop_bit 28 b' = drop_bit 28 b" by (rule drop_high_cong [OF a]) simp
  ultimately show ?thesis
    using assms(2,3) h unfolding makeLDST_def is_ldst_pair_def [symmetric] by simp
qed simp

lemma classify_cong:
  assumes "\<And>i. (\<forall>q \<in> all_positions b. \<not> in_field q i) \<Longrightarrow> bit b' i = bit b i" "\<not> single_ldst b"
  shows "classify b' = classify b"
proof -
  have sub: "all_positions b \<subseteq> reg_positions"
    using classify_positions [of b] by (auto simp: all_positions_def positions_def split: option.splits)
  have out: "bit b' i = bit b i" if "all_positions b \<subseteq> S" "\<forall>q \<in> S. \<not> in_field q i" for S i
    using that by (intro assms(1)) blast
  have 21: "\<forall>i \<ge> 21. bit b' i = bit b i"
    by (intro allI impI out [OF sub]) (simp add: in_field_def)
  let ?o = "\<lambda>b. drop_bit 25 b AND (0xF :: 32 word)"
  have o: "?o b' = ?o b" by (simp add: drop_high_cong [OF 21])
  have 10: "\<forall>i \<ge> 10. bit b' i = bit b i" if "all_positions b \<subseteq> {0, 5}"
    by (intro allI impI out [OF that]) (simp add: in_field_def)
  have 15: "\<forall>i \<ge> 15. bit b' i = bit b i" if "all_positions b \<subseteq> {0, 5, 10}"
    by (intro allI impI out [OF that]) (simp add: in_field_def)
  have same: "b' = b" if "all_positions b = {}"
    using assms(1) that by (intro bit_word_eqI) auto
  consider "?o b AND 0xE = 0x8" | "\<not> ?o b AND 0xE = 0x8" "?o b AND 0xA = 0xA"
    | "\<not> ?o b AND 0xE = 0x8" "\<not> ?o b AND 0xA = 0xA" "?o b AND 0x5 = 0x4"
    | "\<not> ?o b AND 0xE = 0x8" "\<not> ?o b AND 0xA = 0xA" "\<not> ?o b AND 0x5 = 0x4" by blast
  then show ?thesis
  proof cases
    case 1
    then show ?thesis unfolding classify_def Let_def o by (simp add: makeDPImm_cong [OF 21])
  next
    case 2
    then have "all_positions b \<subseteq> {0, 5}"
      by (auto simp: all_positions_def positions_def classify_def Let_def makeBranch_def split: if_splits)
    from makeBranch_cong [OF 10 [OF this]] 2 show ?thesis unfolding classify_def Let_def o by simp
  next
    case 3
    then have l: "positions b = (case makeLDST b of None \<Rightarrow> ([], []) | Some l \<Rightarrow> l)"
      by (simp add: positions_def classify_def Let_def)
    have n: "\<not> is_ldst_imm b" "\<not> is_ldst_reg b" using assms(2) 3(3) by (auto simp: single_ldst_def)
    then have "all_positions b \<subseteq> {0, 5, 10}"
      by (auto simp: all_positions_def l makeLDST_def ldst_pair_def Let_def split: if_splits)
    moreover have "b' = b \<or> b AND 0x3B000000 = 0x18000000 \<or> is_ldst_pair b"
    proof (rule ccontr)
      assume "\<not> ?thesis"
      moreover from this n have "all_positions b = {}"
        by (simp add: all_positions_def l makeLDST_def is_ldst_pair_def)
      ultimately show False using same by simp
    qed
    ultimately have "makeLDST b' = makeLDST b" by (intro makeLDST_cong 15 n)
    with 3 show ?thesis unfolding classify_def Let_def o by simp
  next
    case 4
    have "makeDPIReg b' = makeDPIReg b" if c: "?o b AND 0x7 = 0x5"
    proof (rule makeDPIReg_cong [OF 21])
      have p: "positions b = makeDPIReg b" using 4 c by (simp add: positions_def classify_def Let_def)
      have d: "10 \<notin> set (snd (makeDPIReg b))" by (simp add: makeDPIReg_def)
      have "bit b' 11 = bit b 11" if "10 \<notin> set (fst (makeDPIReg b))"
      proof (rule out)
        show "all_positions b \<subseteq> {0, 5, 16}" using sub that d by (auto simp: all_positions_def p)
      qed (simp add: in_field_def)
      then show "bit b' 11 = bit b 11 \<or> 10 \<in> set (fst (makeDPIReg b))" by blast
    qed
    with 4 show ?thesis unfolding classify_def Let_def o by simp
  qed
qed

text \<open>The cache is either empty or holds the positions of the word.\<close>

definition cache_ok :: "AARCH64RegBits \<Rightarrow> bool" where
  "cache_ok rb \<longleftrightarrow> rb_list rb = (if cached rb then positions (bin rb) else ([], []))"

lemma cache_ok_intros: "cache_ok (newRegBits junk)" "cache_ok (invalidateCache rb)" "cache_ok (regbits_decode bytes rb)"
  by (simp_all add: cache_ok_def newRegBits_def invalidateCache_def regbits_decode_def)

lemma getRegPositionList_positions:
  assumes "cache_ok rb"
  shows "fst (getRegPositionList rb) = positions (bin rb)" "cache_ok (snd (getRegPositionList rb))"
    "bin (snd (getRegPositionList rb)) = bin rb"
proof -
  have n: "fst (classify (bin rb)) = None" if "\<not> snd (classify (bin rb))"
    using that by (auto simp: classify_def Let_def split: if_splits)
  then show "fst (getRegPositionList rb) = positions (bin rb)" "cache_ok (snd (getRegPositionList rb))"
    "bin (snd (getRegPositionList rb)) = bin rb"
    using assms by (auto simp: getRegPositionList_def cache_ok_def positions_def Let_def case_prod_beta split: option.splits)
qed

lemma isReading_iff: "cache_ok rb \<Longrightarrow> fst (isReading reg rb) \<longleftrightarrow> reg \<in> reg_at (bin rb) ` set (fst (positions (bin rb)))"
  using getRegPositionList_positions [of rb] by (auto simp: isReading_def case_prod_beta Let_def image_iff)

lemma isWriting_iff: "cache_ok rb \<Longrightarrow> fst (isWriting reg rb) \<longleftrightarrow> reg \<in> reg_at (bin rb) ` set (snd (positions (bin rb)))"
  using getRegPositionList_positions [of rb] by (auto simp: isWriting_def case_prod_beta Let_def image_iff)

lemma bin_replaceRegister:
  assumes "cache_ok rb"
  shows "bin (replaceRegister old new rb) =
    fold (replace_at old new) (fst (positions (bin rb)) @ snd (positions (bin rb))) (bin rb)"
  using getRegPositionList_positions [OF assms]
  by (simp add: replaceRegister_def invalidateCache_def case_prod_beta Let_def)



text \<open>For a load or store with an immediate offset, the direction that the code finds
  depends only on the number of the transfer register: with numbers 0, 4 and 6 modulo 8 the
  instruction counts as a store, with all others as a load, whatever its opcode is.\<close>

lemma ldst_direction_from_register:
  assumes "drop_bit 28 b AND 0x3 \<noteq> 0" "b AND 0x3B000000 \<noteq> 0x18000000" "is_ldst_imm b"
  shows "makeLDST b = Some (if unat b mod 8 \<in> {0, 4, 6}
    then ([0, 5], if bit b 10 then [5] else []) else ([5], 0 # (if bit b 10 then [5] else [])))"
proof -
  have "ldst_opcode b = b AND mask 3"
  proof -
    have "b AND mask 3 = (b AND 4) OR (b AND 3)"
      by (simp add: mask_eq_exp_minus_1 flip: bit.conj_disj_distrib)
    then show ?thesis by (simp add: ldst_opcode_def)
  qed
  then have "ldst_opcode b = take_bit 3 b" by (simp only: take_bit_eq_mask)
  then have u: "unat (ldst_opcode b) = unat b mod 8" by (simp only: unsigned_take_bit_eq) (simp add: take_bit_eq_mod)
  have "drop_bit 10 b AND 0x1 = of_bool (bit b 10)"
    by (simp add: and_one_eq bit_iff_odd_drop_bit mod_2_eq_odd)
  moreover have "unat b mod 8 < 8" by simp
  ultimately show ?thesis
    using assms u by (auto simp: makeLDST_def ldst_imm_def Let_def word_unat_eq_iff)
qed

lemma ldst_direction_from_register_witness:
  "makeLDST 0xF9400020 = Some ([0, 5], [])"
proof -
  have "is_ldst_imm 0xF9400020" by (simp add: is_ldst_imm_def)
  from ldst_direction_from_register [OF _ _ this] show ?thesis by simp
qed

end
