(* ===== verification/ControlFlow.thy ===== *)
theory ControlFlow
  imports Prelude "HOL-Library.Monad_Syntax"
begin

section \<open>The control flow graph (\<^verbatim>\<open>src/analysis/controlflow.cpp\<close>, \<^verbatim>\<open>src/analysis/graph.h\<close>)\<close>

text \<open>
  \<^verbatim>\<open>ControlFlowGraph(function)\<close> gives the blocks of a function consecutive numbers and reads the last
  instruction of each block to find the blocks that control may reach next. Every link is stored
  twice, as a forward link of the block it leaves and as a backward link of the block it enters.

  A block is modelled by what the construction reads of it: its identity, its address, and its
  last instruction with the class, the mnemonic and the links of its semantic. The architecture,
  which the code selects by \<^verbatim>\<open>#ifdef\<close>, is a parameter. \<open>None\<close> is a failed assertion, a null
  pointer that is followed, an index out of range, or the exception of the AArch64 build.
\<close>

subsection \<open>Vectors indexed by \<^verbatim>\<open>int\<close>\<close>

definition vec_at :: "'a list \<Rightarrow> int \<Rightarrow> 'a option" where
  "vec_at xs i = (if 0 \<le> i \<and> nat i < length xs then Some (xs ! nat i) else None)"

definition vec_set :: "'a list \<Rightarrow> int \<Rightarrow> 'a \<Rightarrow> 'a list option" where
  "vec_set xs i x = (if 0 \<le> i \<and> nat i < length xs then Some (xs[nat i := x]) else None)"

subsection \<open>The instructions that end a block\<close>

datatype cfg_arch = ARCH_X86_64 | ARCH_AARCH64 | ARCH_ARM | ARCH_RISCV

type_synonym block_ref = nat

text \<open>
  The target of a link: a block, an instruction (with the block that is its parent, when its parent
  is a block), or any other chunk.
\<close>

datatype link_target = BlockTarget block_ref | InstructionTarget "block_ref option" | OtherTarget

record CFLink =
  getTarget :: "link_target option"
  getTargetAddress :: address

text \<open>
  The classes of semantic that \<^verbatim>\<open>construct\<close> tells apart. A \<open>ControlFlowInstruction\<close> has a mnemonic
  and whether it returns; an \<open>IndirectJumpInstruction\<close> has a mnemonic and its jump tables, each with
  the link of every entry (\<open>None\<close> when it is not a \<^verbatim>\<open>NormalLink\<close>).
\<close>

datatype CFSemantic =
    ControlFlowInstruction string bool
  | IndirectJumpInstruction string "CFLink option list list"
  | ReturnInstruction
  | BreakInstruction
  | OtherInstruction

record CFInstruction =
  instr_address :: address
  instr_semantic :: CFSemantic
  instr_link :: "CFLink option"

record CFBlock =
  block_id :: block_ref
  block_address :: address
  block_last :: "CFInstruction option"

type_synonym CFFunction = "CFBlock list"

subsection \<open>Links, nodes and graphs\<close>

record ControlFlowLink =
  getTargetID :: int
  getOffset :: int
  getFollowJump :: bool

record ControlFlowNode =
  getID :: int
  getBlock :: block_ref
  links :: "ControlFlowLink list"
  reverseLinks :: "ControlFlowLink list"

definition newNode_cfg :: "int \<Rightarrow> block_ref \<Rightarrow> ControlFlowNode" where
  "newNode_cfg i b = \<lparr>getID = i, getBlock = b, links = [], reverseLinks = []\<rparr>"

definition addLink :: "ControlFlowLink \<Rightarrow> ControlFlowNode \<Rightarrow> ControlFlowNode" where
  "addLink l n = n\<lparr>links := links n @ [l]\<rparr>"

definition addReverseLink :: "ControlFlowLink \<Rightarrow> ControlFlowNode \<Rightarrow> ControlFlowNode" where
  "addReverseLink l n = n\<lparr>reverseLinks := reverseLinks n @ [l]\<rparr>"

definition getLinks :: "int \<Rightarrow> ControlFlowNode \<Rightarrow> ControlFlowLink list" where
  "getLinks direction n = (if direction > 0 then links n else reverseLinks n)"

record ControlFlowGraph =
  graph :: "ControlFlowNode list"
  blockMapping :: "block_ref \<rightharpoonup> int"

definition graph_get :: "ControlFlowGraph \<Rightarrow> int \<Rightarrow> ControlFlowNode option" where
  "graph_get g i = vec_at (graph g) i"

definition graph_getCount :: "ControlFlowGraph \<Rightarrow> nat" where
  "graph_getCount g = length (graph g)"

text \<open>\<^verbatim>\<open>blockMapping[block]\<close> enters 0 for a block that is not there.\<close>

definition getIDFor :: "block_ref \<Rightarrow> ControlFlowGraph \<Rightarrow> int \<times> ControlFlowGraph" where
  "getIDFor b g =
     (case blockMapping g b of
        Some i \<Rightarrow> (i, g)
      | None \<Rightarrow> (0, g\<lparr>blockMapping := (blockMapping g)(b \<mapsto> 0)\<rparr>))"

subsection \<open>Construction\<close>

text \<open>A difference of addresses is stored in an \<^verbatim>\<open>int\<close>.\<close>

definition offset_int :: "address \<Rightarrow> address \<Rightarrow> int" where
  "offset_int a b = sint (ucast (a - b) :: 32 word)"

definition add_edge ::
    "int \<Rightarrow> ControlFlowLink \<Rightarrow> ControlFlowLink \<Rightarrow> ControlFlowGraph \<Rightarrow> ControlFlowGraph option" where
  "add_edge i l rl g =
     do {
       n \<leftarrow> vec_at (graph g) i;
       ns \<leftarrow> vec_set (graph g) i (addLink l n);
       m \<leftarrow> vec_at ns (getTargetID l);
       ns \<leftarrow> vec_set ns (getTargetID l) (addReverseLink rl m);
       Some (g\<lparr>graph := ns\<rparr>)
     }"

fun number_blocks :: "int \<Rightarrow> CFFunction \<Rightarrow> ControlFlowGraph \<Rightarrow> ControlFlowGraph" where
  "number_blocks cnt [] g = g"
| "number_blocks cnt (b # bs) g =
     number_blocks (cnt + 1) bs
       (g\<lparr>blockMapping := (blockMapping g)(block_id b \<mapsto> cnt),
          graph := graph g @ [newNode_cfg cnt (block_id b)]\<rparr>)"

text \<open>The address of a block of the function.\<close>

definition address_of :: "CFFunction \<Rightarrow> block_ref \<Rightarrow> address option" where
  "address_of f b = map_option block_address (find (\<lambda>x. block_id x = b) f)"

text \<open>The mnemonics after which control does not continue in the next block.\<close>

definition cfi_fallThrough :: "cfg_arch \<Rightarrow> string \<Rightarrow> bool \<Rightarrow> bool" where
  "cfi_fallThrough arch mnemonic returns =
     (case arch of
        ARCH_X86_64 \<Rightarrow> if mnemonic = ''callq'' \<and> \<not> returns then False else mnemonic \<noteq> ''jmp''
      | ARCH_AARCH64 \<Rightarrow> if mnemonic = ''bl'' \<and> \<not> returns then False else mnemonic \<noteq> ''b''
      | ARCH_ARM \<Rightarrow> False
      | ARCH_RISCV \<Rightarrow>
          if mnemonic \<in> set [''j'', ''jr'', ''c.j'', ''c.jr''] then False
          else if mnemonic \<in> set [''jal'', ''jalr'', ''c.jal'', ''c.jalr''] then returns
          else True)"

definition follows_link :: "cfg_arch \<Rightarrow> string \<Rightarrow> bool" where
  "follows_link arch mnemonic =
     (case arch of
        ARCH_X86_64 \<Rightarrow> mnemonic \<noteq> ''callq''
      | ARCH_RISCV \<Rightarrow> mnemonic \<noteq> ''jalr'' \<and> mnemonic \<noteq> ''jal''
      | _ \<Rightarrow> mnemonic \<noteq> ''bl'')"

definition indirect_is_call :: "cfg_arch \<Rightarrow> string \<Rightarrow> bool" where
  "indirect_is_call arch mnemonic =
     (case arch of
        ARCH_X86_64 \<Rightarrow> mnemonic = ''callq''
      | ARCH_RISCV \<Rightarrow> mnemonic = ''jalr''
      | _ \<Rightarrow> mnemonic = ''blr'')"

text \<open>A jump to an instruction enters its block at an offset, when the block is of this function.\<close>

definition link_into ::
    "CFFunction \<Rightarrow> int \<Rightarrow> int \<Rightarrow> CFLink \<Rightarrow> block_ref option \<Rightarrow> ControlFlowGraph \<Rightarrow> ControlFlowGraph option" where
  "link_into f i ofs l parent g =
     (case parent of None \<Rightarrow> Some g
      | Some p \<Rightarrow>
          (case blockMapping g p of None \<Rightarrow> Some g
           | Some parentID \<Rightarrow>
               do {
                 a \<leftarrow> address_of f p;
                 add_edge i
                   \<lparr>getTargetID = parentID, getOffset = offset_int (getTargetAddress l) a, getFollowJump = True\<rparr>
                   \<lparr>getTargetID = i, getOffset = ofs, getFollowJump = True\<rparr> g
               }))"

definition construct_jump ::
    "cfg_arch \<Rightarrow> CFFunction \<Rightarrow> int \<Rightarrow> int \<Rightarrow> CFLink \<Rightarrow> ControlFlowGraph \<Rightarrow> ControlFlowGraph option" where
  "construct_jump arch f i ofs l g =
     (case getTarget l of
        Some (BlockTarget v) \<Rightarrow>
          do {
            other \<leftarrow> blockMapping g v;
            g \<leftarrow> add_edge i \<lparr>getTargetID = other, getOffset = 0, getFollowJump = True\<rparr>
                   \<lparr>getTargetID = i, getOffset = ofs, getFollowJump = True\<rparr> g;
            if arch = ARCH_AARCH64 then None else Some g
          }
      | Some (InstructionTarget parent) \<Rightarrow> link_into f i ofs l parent g
      | _ \<Rightarrow> Some g)"

fun construct_table ::
    "CFFunction \<Rightarrow> int \<Rightarrow> int \<Rightarrow> CFLink option list \<Rightarrow> address list \<Rightarrow> ControlFlowGraph \<Rightarrow> ControlFlowGraph option" where
  "construct_table f i ofs [] added g = Some g"
| "construct_table f i ofs (None # es) added g = construct_table f i ofs es added g"
| "construct_table f i ofs (Some l # es) added g =
     (case getTarget l of
        None \<Rightarrow> construct_table f i ofs es added g
      | Some t \<Rightarrow>
          if getTargetAddress l \<in> set added then construct_table f i ofs es added g
          else
            do {
              g \<leftarrow> (case t of InstructionTarget parent \<Rightarrow> link_into f i ofs l parent g | _ \<Rightarrow> Some g);
              construct_table f i ofs es (getTargetAddress l # added) g
            })"

fun construct_tables ::
    "CFFunction \<Rightarrow> int \<Rightarrow> int \<Rightarrow> CFLink option list list \<Rightarrow> ControlFlowGraph \<Rightarrow> ControlFlowGraph option" where
  "construct_tables f i ofs [] g = Some g"
| "construct_tables f i ofs (jt # jts) g =
     do { g \<leftarrow> construct_table f i ofs jt [] g; construct_tables f i ofs jts g }"

text \<open>The block after \<open>b\<close> in the function's list.\<close>

fun next_block :: "block_ref \<Rightarrow> CFFunction \<Rightarrow> block_ref option" where
  "next_block b [] = None"
| "next_block b [x] = None"
| "next_block b (x # y # bs) = (if block_id x = b then Some (block_id y) else next_block b (y # bs))"

definition construct_fallThrough :: "CFFunction \<Rightarrow> CFBlock \<Rightarrow> int \<Rightarrow> int \<Rightarrow> ControlFlowGraph \<Rightarrow> ControlFlowGraph option" where
  "construct_fallThrough f b i ofs g =
     (case next_block (block_id b) f of None \<Rightarrow> Some g
      | Some nb \<Rightarrow>
          do {
            other \<leftarrow> blockMapping g nb;
            add_edge i \<lparr>getTargetID = other, getOffset = 0, getFollowJump = False\<rparr>
              \<lparr>getTargetID = i, getOffset = ofs, getFollowJump = False\<rparr> g
          })"

definition construct_block :: "cfg_arch \<Rightarrow> CFFunction \<Rightarrow> CFBlock \<Rightarrow> ControlFlowGraph \<Rightarrow> ControlFlowGraph option" where
  "construct_block arch f b g =
     do {
       i \<leftarrow> blockMapping g (block_id b);
       x \<leftarrow> block_last b;
       let ofs = offset_int (instr_address x) (block_address b);
       (fallThrough, g) \<leftarrow>
         (case instr_semantic x of
            ControlFlowInstruction mnemonic returns \<Rightarrow>
              do {
                g \<leftarrow> (case instr_link x of
                        Some l \<Rightarrow> if follows_link arch mnemonic then construct_jump arch f i ofs l g else Some g
                      | None \<Rightarrow> Some g);
                Some (cfi_fallThrough arch mnemonic returns, g)
              }
          | IndirectJumpInstruction mnemonic tables \<Rightarrow>
              if indirect_is_call arch mnemonic then Some (True, g)
              else do { g \<leftarrow> construct_tables f i ofs tables g; Some (False, g) }
          | ReturnInstruction \<Rightarrow> Some (False, g)
          | BreakInstruction \<Rightarrow> Some (False, g)
          | OtherInstruction \<Rightarrow> Some (True, g));
       if fallThrough then construct_fallThrough f b i ofs g else Some g
     }"

fun construct_blocks :: "cfg_arch \<Rightarrow> CFFunction \<Rightarrow> CFBlock list \<Rightarrow> ControlFlowGraph \<Rightarrow> ControlFlowGraph option" where
  "construct_blocks arch f [] g = Some g"
| "construct_blocks arch f (b # bs) g = do { g \<leftarrow> construct_block arch f b g; construct_blocks arch f bs g }"

definition newControlFlowGraph :: "cfg_arch \<Rightarrow> CFFunction \<Rightarrow> ControlFlowGraph option" where
  "newControlFlowGraph arch f =
     construct_blocks arch f f (number_blocks 0 f \<lparr>graph = [], blockMapping = Map.empty\<rparr>)"

subsection \<open>Well-formed graphs\<close>

abbreviation fwd :: "ControlFlowGraph \<Rightarrow> nat \<Rightarrow> int list" where
  "fwd g i \<equiv> map getTargetID (links (graph g ! i))"

abbreviation bwd :: "ControlFlowGraph \<Rightarrow> nat \<Rightarrow> int list" where
  "bwd g i \<equiv> map getTargetID (reverseLinks (graph g ! i))"

abbreviation in_graph :: "ControlFlowGraph \<Rightarrow> int \<Rightarrow> bool" where
  "in_graph g v \<equiv> 0 \<le> v \<and> v < int (graph_getCount g)"

text \<open>
  Nodes have their position as number, links stay in the graph, and the backward links of \<open>j\<close> that
  name \<open>i\<close> are as many as the forward links of \<open>i\<close> that name \<open>j\<close>.
\<close>

definition graph_ok :: "ControlFlowGraph \<Rightarrow> bool" where
  "graph_ok g \<longleftrightarrow>
     (\<forall>i < graph_getCount g. getID (graph g ! i) = int i \<and> list_all (in_graph g) (fwd g i) \<and>
        list_all (in_graph g) (bwd g i) \<and>
        (\<forall>j < graph_getCount g. count_list (bwd g j) (int i) = count_list (fwd g i) (int j)))"

text \<open>The successor blocks that the last instruction of a block gives.\<close>

definition block_number :: "CFFunction \<Rightarrow> block_ref \<Rightarrow> int option" where
  "block_number f b = blockMapping (number_blocks 0 f \<lparr>graph = [], blockMapping = Map.empty\<rparr>) b"

definition entered :: "CFFunction \<Rightarrow> link_target option \<Rightarrow> int list" where
  "entered f t =
     (case t of
        Some (BlockTarget v) \<Rightarrow> (case block_number f v of Some j \<Rightarrow> [j] | None \<Rightarrow> [])
      | Some (InstructionTarget (Some p)) \<Rightarrow> (case block_number f p of Some j \<Rightarrow> [j] | None \<Rightarrow> [])
      | _ \<Rightarrow> [])"

fun table_entered :: "CFFunction \<Rightarrow> CFLink option list \<Rightarrow> address set \<Rightarrow> int list" where
  "table_entered f [] A = []"
| "table_entered f (None # es) A = table_entered f es A"
| "table_entered f (Some l # es) A =
     (if getTarget l = None \<or> getTargetAddress l \<in> A then table_entered f es A
      else (case getTarget l of Some (InstructionTarget p) \<Rightarrow> entered f (getTarget l) | _ \<Rightarrow> []) @
        table_entered f es (insert (getTargetAddress l) A))"

definition fallen_into :: "CFFunction \<Rightarrow> CFBlock \<Rightarrow> int list" where
  "fallen_into f b = entered f (map_option BlockTarget (next_block (block_id b) f))"

definition block_successors :: "cfg_arch \<Rightarrow> CFFunction \<Rightarrow> CFBlock \<Rightarrow> int list" where
  "block_successors arch f b =
     (case block_last b of None \<Rightarrow> []
      | Some x \<Rightarrow>
          (case instr_semantic x of
             ControlFlowInstruction m r \<Rightarrow>
               (if follows_link arch m then (case instr_link x of Some l \<Rightarrow> entered f (getTarget l) | None \<Rightarrow> []) else []) @
               (if cfi_fallThrough arch m r then fallen_into f b else [])
           | IndirectJumpInstruction m ts \<Rightarrow>
               if indirect_is_call arch m then fallen_into f b else concat (map (\<lambda>t. table_entered f t {}) ts)
           | OtherInstruction \<Rightarrow> fallen_into f b
           | _ \<Rightarrow> []))"

text \<open>
  What the construction needs: blocks are not empty, and a direct jump to a block (rather than to an
  instruction) is to a block of the function and not in the AArch64 build.
\<close>

definition terminator_ok :: "cfg_arch \<Rightarrow> CFFunction \<Rightarrow> CFBlock \<Rightarrow> bool" where
  "terminator_ok arch f b \<longleftrightarrow>
     (case block_last b of None \<Rightarrow> False
      | Some x \<Rightarrow>
          (case (instr_semantic x, instr_link x) of
             (ControlFlowInstruction m r, Some l) \<Rightarrow>
               follows_link arch m \<longrightarrow>
               (case getTarget l of
                  Some (BlockTarget v) \<Rightarrow> arch \<noteq> ARCH_AARCH64 \<and> v \<in> set (map block_id f)
                | _ \<Rightarrow> True)
           | _ \<Rightarrow> True))"

definition function_ok :: "cfg_arch \<Rightarrow> CFFunction \<Rightarrow> bool" where
  "function_ok arch f \<longleftrightarrow> distinct (map block_id f) \<and> list_all (terminator_ok arch f) f"

subsection \<open>Construction is correct\<close>

lemma vec_at_int [simp]: "vec_at xs (int i) = (if i < length xs then Some (xs ! i) else None)"
  by (simp add: vec_at_def)

lemma vec_set_int [simp]: "vec_set xs (int i) x = (if i < length xs then Some (xs[i := x]) else None)"
  by (simp add: vec_set_def)

text \<open>\<open>extends g g' i ts\<close>: \<open>g'\<close> is \<open>g\<close> with forward links of \<open>i\<close> to \<open>ts\<close> and their backward links added.\<close>

definition extends :: "ControlFlowGraph \<Rightarrow> ControlFlowGraph \<Rightarrow> nat \<Rightarrow> int list \<Rightarrow> bool" where
  "extends g g' i ts \<longleftrightarrow>
     graph_ok g' \<and> graph_getCount g' = graph_getCount g \<and> blockMapping g' = blockMapping g \<and>
     map getBlock (graph g') = map getBlock (graph g) \<and>
     (\<forall>k < graph_getCount g. fwd g' k = (if k = i then fwd g i @ ts else fwd g k))"

lemma extends_refl: "graph_ok g \<Longrightarrow> extends g g i []"
  by (simp add: extends_def)

lemma extends_trans: "extends g g1 i ts \<Longrightarrow> extends g1 g2 i us \<Longrightarrow> extends g g2 i (ts @ us)"
  by (auto simp: extends_def)

lemma extends_ok: "extends g g' i ts \<Longrightarrow> graph_ok g'"
  and extends_count: "extends g g' i ts \<Longrightarrow> graph_getCount g' = graph_getCount g"
  and extends_mapping: "extends g g' i ts \<Longrightarrow> blockMapping g' = blockMapping g"
  by (auto simp: extends_def)

lemma add_edge_eq:
  assumes "i < graph_getCount g" "j < graph_getCount g" "getTargetID l = int j"
  shows "add_edge (int i) l rl g =
    Some (g\<lparr>graph := (graph g)[i := addLink l (graph g ! i),
      j := addReverseLink rl ((graph g)[i := addLink l (graph g ! i)] ! j)]\<rparr>)"
  using assms by (simp add: add_edge_def graph_getCount_def)

lemma add_edge_extends:
  assumes ok: "graph_ok g" and i: "i < graph_getCount g" and j: "j < graph_getCount g"
    and l: "getTargetID l = int j" "getTargetID rl = int i"
  shows "\<exists>g'. add_edge (int i) l rl g = Some g' \<and> extends g g' i [int j]"
proof -
  define g' where "g' = g\<lparr>graph := (graph g)[i := addLink l (graph g ! i),
      j := addReverseLink rl ((graph g)[i := addLink l (graph g ! i)] ! j)]\<rparr>"
  have cnt: "graph_getCount g' = graph_getCount g" and m: "blockMapping g' = blockMapping g"
    by (simp_all add: g'_def graph_getCount_def)
  note upd = g'_def graph_getCount_def nth_list_update addLink_def addReverseLink_def
  have f: "fwd g' k = (if k = i then fwd g i @ [int j] else fwd g k)" if "k < graph_getCount g" for k
    using that i j l by (auto simp: upd)
  have b: "bwd g' k = (if k = j then bwd g j @ [int i] else bwd g k)" if "k < graph_getCount g" for k
    using that i j l by (auto simp: upd)
  have d: "getID (graph g' ! k) = getID (graph g ! k)" if "k < graph_getCount g" for k
    using that i j by (auto simp: upd)
  have "graph_ok g'"
    unfolding graph_ok_def cnt using ok i j by (simp add: f b d graph_ok_def)
  moreover have "map getBlock (graph g') = map getBlock (graph g)"
    using i j by (intro nth_equalityI) (auto simp: upd)
  ultimately have "extends g g' i [int j]"
    using f m unfolding extends_def cnt by simp
  then show ?thesis
    using add_edge_eq [OF i j l(1), of rl] by (auto simp: g'_def)
qed

text \<open>The numbering: block \<open>i\<close> of the function has number \<open>i\<close>, and no other block has one.\<close>

lemma number_blocks_nodes:
  "graph (number_blocks c f g) = graph g @ map (\<lambda>k. newNode_cfg (c + int k) (block_id (f ! k))) [0..<length f]"
proof (induction c f g rule: number_blocks.induct)
  case (2 c b bs g)
  have "[0..<length (b # bs)] = 0 # map Suc [0..<length bs]"
    by (simp add: upt_conv_Cons map_Suc_upt del: upt_Suc)
  then show ?case
    using 2 by (simp add: comp_def add.assoc del: upt_Suc)
qed simp

lemma number_blocks_other:
  "b \<notin> set (map block_id f) \<Longrightarrow> blockMapping (number_blocks c f g) b = blockMapping g b"
  by (induction c f g rule: number_blocks.induct) auto

lemma number_blocks_nth:
  "distinct (map block_id f) \<Longrightarrow> k < length f \<Longrightarrow>
    blockMapping (number_blocks c f g) (block_id (f ! k)) = Some (c + int k)"
proof (induction c f g arbitrary: k rule: number_blocks.induct)
  case (2 c b bs g)
  then show ?case
  proof (cases k)
    case 0
    with 2(2) show ?thesis by (simp add: number_blocks_other)
  next
    case (Suc k')
    with 2(2,3) 2(1) [of k'] show ?thesis by simp
  qed
qed simp

lemma block_number_nth: "distinct (map block_id f) \<Longrightarrow> k < length f \<Longrightarrow> block_number f (block_id (f ! k)) = Some (int k)"
  by (simp add: block_number_def number_blocks_nth)

lemma block_number_None: "b \<notin> set (map block_id f) \<Longrightarrow> block_number f b = None"
  by (simp add: block_number_def number_blocks_other del: set_map)

lemma block_number_cases:
  assumes "distinct (map block_id f)"
  obtains "b \<notin> set (map block_id f)" "block_number f b = None"
  | k where "k < length f" "b = block_id (f ! k)" "block_number f b = Some (int k)"
proof (cases "b \<in> set (map block_id f)")
  case True
  then obtain k where "k < length f" "b = block_id (f ! k)"
    by (metis in_set_conv_nth length_map nth_map)
  with block_number_nth [OF assms] that(2) show ?thesis by simp
next
  case False
  from that(1) [OF False block_number_None [OF False]] show ?thesis .
qed

lemma address_of_member: "b \<in> set (map block_id f) \<Longrightarrow> \<exists>a. address_of f b = Some a"
  by (induction f) (auto simp: address_of_def)

lemma next_block_member: "next_block b f = Some c \<Longrightarrow> c \<in> set (map block_id f)"
  by (induction b f rule: next_block.induct) (auto split: if_splits)

text \<open>During construction the numbering does not change.\<close>

definition stage :: "CFFunction \<Rightarrow> ControlFlowGraph \<Rightarrow> bool" where
  "stage f g \<longleftrightarrow> graph_ok g \<and> graph_getCount g = length f \<and> blockMapping g = block_number f \<and>
     map getBlock (graph g) = map block_id f"

lemma stage_extends: "stage f g \<Longrightarrow> extends g g' i ts \<Longrightarrow> stage f g'"
  by (simp add: stage_def extends_def)

lemma add_edge_stage:
  assumes "stage f g" "i < length f" "j < length f" "getTargetID l = int j" "getTargetID rl = int i"
  shows "\<exists>g'. add_edge (int i) l rl g = Some g' \<and> extends g g' i [int j]"
  using assms add_edge_extends [of g i j l rl] by (simp add: stage_def)

lemma extends_refl_stage: "stage f g \<Longrightarrow> extends g g i []"
  by (simp add: stage_def extends_refl)

lemma link_into_extends:
  assumes d: "distinct (map block_id f)" and s: "stage f g" and i: "i < length f"
  shows "\<exists>g'. link_into f (int i) ofs l p g = Some g' \<and> extends g g' i (entered f (Some (InstructionTarget p)))"
proof (cases p)
  case None
  with s show ?thesis by (simp add: link_into_def entered_def extends_refl_stage)
next
  case (Some b)
  from d show ?thesis
  proof (cases rule: block_number_cases [of f b])
    case 1
    with Some s show ?thesis by (simp add: link_into_def entered_def extends_refl_stage stage_def)
  next
    case (2 k)
    then obtain a where "address_of f b = Some a"
      using address_of_member [of b f] by auto
    with Some s 2 show ?thesis
      using add_edge_stage [OF s i 2(1)] by (simp add: link_into_def entered_def stage_def)
  qed
qed

lemma construct_jump_extends:
  assumes d: "distinct (map block_id f)" and s: "stage f g" and i: "i < length f"
    and t: "\<And>v. getTarget l = Some (BlockTarget v) \<Longrightarrow> arch \<noteq> ARCH_AARCH64 \<and> v \<in> set (map block_id f)"
  shows "\<exists>g'. construct_jump arch f (int i) ofs l g = Some g' \<and> extends g g' i (entered f (getTarget l))"
proof (cases "\<exists>v. getTarget l = Some (BlockTarget v)")
  case True
  then obtain v where v: "getTarget l = Some (BlockTarget v)" by blast
  with t have m: "v \<in> set (map block_id f)" and a: "arch \<noteq> ARCH_AARCH64" by auto
  from d m obtain k where k: "k < length f" "block_number f v = Some (int k)"
    by (cases rule: block_number_cases [of f v]) auto
  with v a s show ?thesis
    using add_edge_stage [OF s i k(1)] by (fastforce simp: construct_jump_def entered_def stage_def)
next
  case False
  then show ?thesis
    using link_into_extends [OF d s i] extends_refl_stage [OF s]
    by (auto simp: construct_jump_def entered_def split: option.split link_target.split)
qed

lemma construct_table_extends:
  assumes d: "distinct (map block_id f)" and s: "stage f g" and i: "i < length f"
  shows "\<exists>g'. construct_table f (int i) ofs es added g = Some g' \<and> extends g g' i (table_entered f es (set added))"
  using s
proof (induction es arbitrary: added g)
  case Nil
  then show ?case by (simp add: extends_refl_stage)
next
  case (Cons e es)
  show ?case
  proof (cases "\<exists>l t. e = Some l \<and> getTarget l = Some t \<and> getTargetAddress l \<notin> set added")
    case False
    with Cons show ?thesis by (cases e) (auto split: option.split)
  next
    case True
    then obtain l t where e: "e = Some l" "getTarget l = Some t" "getTargetAddress l \<notin> set added" by blast
    let ?here = "case t of InstructionTarget parent \<Rightarrow> link_into f (int i) ofs l parent g | _ \<Rightarrow> Some g"
    let ?ts = "case t of InstructionTarget p \<Rightarrow> entered f (Some t) | _ \<Rightarrow> []"
    obtain g1 where g1: "?here = Some g1" "extends g g1 i ?ts"
      using link_into_extends [OF d Cons.prems i, of ofs l] extends_refl_stage [OF Cons.prems] by (cases t) fastforce+
    then obtain g2 where "construct_table f (int i) ofs es (getTargetAddress l # added) g1 = Some g2"
        "extends g1 g2 i (table_entered f es (insert (getTargetAddress l) (set added)))"
      using Cons.IH [of g1 "getTargetAddress l # added"] stage_extends [OF Cons.prems] by auto
    with e g1 extends_trans [OF g1(2)] show ?thesis by (auto split: link_target.splits)
  qed
qed

lemma construct_tables_extends:
  assumes d: "distinct (map block_id f)" and s: "stage f g" and i: "i < length f"
  shows "\<exists>g'. construct_tables f (int i) ofs ts g = Some g' \<and>
    extends g g' i (concat (map (\<lambda>t. table_entered f t {}) ts))"
  using s
proof (induction ts arbitrary: g)
  case Nil
  then show ?case by (simp add: extends_refl_stage)
next
  case (Cons t ts)
  obtain g1 where "construct_table f (int i) ofs t [] g = Some g1" "extends g g1 i (table_entered f t {})"
    using construct_table_extends [OF d Cons.prems i, of ofs t "[]"] by auto
  with Cons.IH [of g1] stage_extends [OF Cons.prems] show ?case
    using extends_trans by (fastforce)
qed

lemma construct_fallThrough_extends:
  assumes d: "distinct (map block_id f)" and s: "stage f g" and i: "i < length f"
  shows "\<exists>g'. construct_fallThrough f b (int i) ofs g = Some g' \<and> extends g g' i (fallen_into f b)"
proof (cases "next_block (block_id b) f")
  case None
  with s show ?thesis by (simp add: construct_fallThrough_def fallen_into_def entered_def extends_refl_stage)
next
  case (Some v)
  from d next_block_member [OF Some] obtain k where k: "k < length f" "block_number f v = Some (int k)"
    by (cases rule: block_number_cases [of f v]) auto
  with Some s show ?thesis
    using add_edge_stage [OF s i k(1)] by (simp add: construct_fallThrough_def fallen_into_def entered_def stage_def)
qed

lemma construct_block_extends:
  assumes d: "distinct (map block_id f)" and s: "stage f g" and i: "i < length f"
    and t: "terminator_ok arch f (f ! i)"
  shows "\<exists>g'. construct_block arch f (f ! i) g = Some g' \<and> extends g g' i (block_successors arch f (f ! i))"
proof -
  let ?b = "f ! i"
  obtain x where x: "block_last ?b = Some x"
    using t by (auto simp: terminator_ok_def split: option.splits)
  let ?ofs = "offset_int (instr_address x) (block_address ?b)"
  have n: "blockMapping g (block_id ?b) = Some (int i)"
    using s block_number_nth [OF d i] by (simp add: stage_def)
  have fall: "\<exists>g'. construct_fallThrough f ?b (int i) ?ofs h = Some g' \<and> extends g g' i (us @ fallen_into f ?b)"
    if "extends g h i us" for h us
    using construct_fallThrough_extends [OF d stage_extends [OF s that] i, of ?b ?ofs] extends_trans [OF that] by blast
  note refl = extends_refl_stage [OF s, of i]
  note start = construct_block_def block_successors_def n x Let_def
  show ?thesis
  proof (cases "instr_semantic x")
    case (ControlFlowInstruction m r)
    let ?jump = "case instr_link x of Some l \<Rightarrow> if follows_link arch m then construct_jump arch f (int i) ?ofs l g else Some g
                   | None \<Rightarrow> Some g"
    let ?us = "if follows_link arch m then (case instr_link x of Some l \<Rightarrow> entered f (getTarget l) | None \<Rightarrow> []) else []"
    have "\<exists>h. ?jump = Some h \<and> extends g h i ?us"
    proof (cases "instr_link x")
      case None
      with refl show ?thesis by simp
    next
      case (Some l)
      with t x ControlFlowInstruction have "follows_link arch m \<Longrightarrow> getTarget l = Some (BlockTarget v) \<Longrightarrow>
          arch \<noteq> ARCH_AARCH64 \<and> v \<in> set (map block_id f)" for v
        by (auto simp: terminator_ok_def)
      with Some refl construct_jump_extends [OF d s i, of l arch ?ofs] show ?thesis by auto
    qed
    then obtain h where h: "?jump = Some h" "extends g h i ?us" by blast
    show ?thesis
      using fall [OF h(2)] h ControlFlowInstruction by (cases "cfi_fallThrough arch m r") (auto simp: start)
  next
    case (IndirectJumpInstruction m ts)
    with fall [OF refl] construct_tables_extends [OF d s i, of ?ofs ts] show ?thesis
      by (auto simp: start)
  qed (use fall [OF refl] refl in \<open>auto simp: start\<close>)
qed

lemma construct_blocks_correct:
  assumes ok: "function_ok arch f" and "f = ds @ bs" "stage f g"
    and "\<And>k. k < length f \<Longrightarrow> fwd g k = (if k < length ds then block_successors arch f (f ! k) else [])"
  shows "\<exists>g'. construct_blocks arch f bs g = Some g' \<and> stage f g' \<and>
    (\<forall>k < length f. fwd g' k = block_successors arch f (f ! k))"
  using assms(2-)
proof (induction bs arbitrary: ds g)
  case Nil
  then show ?case by simp
next
  case (Cons b bs)
  let ?i = "length ds"
  have i: "?i < length f" and b: "f ! ?i = b"
    using Cons.prems(1) by simp_all
  then obtain g1 where g1: "construct_block arch f b g = Some g1" "extends g g1 ?i (block_successors arch f b)"
    using construct_block_extends [OF _ Cons.prems(2) i, of arch] ok by (auto simp: function_ok_def list_all_length)
  moreover have "fwd g1 k = (if k < length (ds @ [b]) then block_successors arch f (f ! k) else [])" if "k < length f" for k
    using that g1(2) Cons.prems(2,3) b by (auto simp: extends_def stage_def less_Suc_eq)
  ultimately show ?case
    using Cons.IH [of "ds @ [b]" g1] Cons.prems(1) stage_extends [OF Cons.prems(2) g1(2)] by simp
qed

lemma initial_stage:
  "stage f (number_blocks 0 f \<lparr>graph = [], blockMapping = Map.empty\<rparr>)"
  by (auto simp: stage_def graph_ok_def graph_getCount_def number_blocks_nodes newNode_cfg_def block_number_def
      intro: nth_equalityI)

lemma graph_stage:
  assumes "function_ok arch f"
  shows "\<exists>g. newControlFlowGraph arch f = Some g \<and> stage f g \<and> (\<forall>k < length f. fwd g k = block_successors arch f (f ! k))"
proof -
  let ?g = "number_blocks 0 f \<lparr>graph = [], blockMapping = Map.empty\<rparr>"
  have "fwd ?g k = []" if "k < length f" for k
    using that by (simp add: number_blocks_nodes newNode_cfg_def)
  then show ?thesis
    using construct_blocks_correct [OF assms, of "[]" f ?g] initial_stage [of f]
    by (auto simp: newControlFlowGraph_def)
qed

lemma graph_construction:
  assumes "function_ok arch f"
  shows "\<exists>g. newControlFlowGraph arch f = Some g \<and> graph_ok g \<and> graph_getCount g = length f \<and>
    (\<forall>k < length f. fwd g k = block_successors arch f (f ! k))"
  using graph_stage [OF assms] by (auto simp: stage_def)


text \<open>A function of four blocks: a conditional jump, a jump table, a straight block and a return.\<close>

definition sample_function :: CFFunction where
  "sample_function =
     [\<lparr>block_id = 10, block_address = 0x100, block_last = Some
         \<lparr>instr_address = 0x104, instr_semantic = ControlFlowInstruction ''je'' True,
          instr_link = Some \<lparr>getTarget = Some (InstructionTarget (Some 12)), getTargetAddress = 0x120\<rparr>\<rparr>\<rparr>,
      \<lparr>block_id = 11, block_address = 0x110, block_last = Some
         \<lparr>instr_address = 0x118, instr_semantic = IndirectJumpInstruction ''jmpq''
            [[Some \<lparr>getTarget = Some (InstructionTarget (Some 13)), getTargetAddress = 0x130\<rparr>, None,
              Some \<lparr>getTarget = Some (InstructionTarget (Some 13)), getTargetAddress = 0x130\<rparr>,
              Some \<lparr>getTarget = Some (InstructionTarget (Some 11)), getTargetAddress = 0x110\<rparr>]],
          instr_link = None\<rparr>\<rparr>,
      \<lparr>block_id = 12, block_address = 0x120, block_last = Some
         \<lparr>instr_address = 0x128, instr_semantic = OtherInstruction, instr_link = None\<rparr>\<rparr>,
      \<lparr>block_id = 13, block_address = 0x130, block_last = Some
         \<lparr>instr_address = 0x130, instr_semantic = ReturnInstruction, instr_link = None\<rparr>\<rparr>]"

lemma sample_function_ok: "function_ok ARCH_X86_64 sample_function"
  by (simp add: function_ok_def sample_function_def terminator_ok_def)


end
