(* ===== verification/Walker.thy ===== *)
theory Walker
  imports ControlFlow
begin

section \<open>Depth-first walks (\<^verbatim>\<open>src/analysis/walker.h\<close>)\<close>

text \<open>
  \<^verbatim>\<open>DFSWalkerBase\<close> walks the graph depth first and calls a collector when it enters a node, when it
  leaves it, and on every link to a node that was visited before. The collector is a parameter, a
  record of its operations; \<^verbatim>\<open>NodeCollection\<close> and \<^verbatim>\<open>SccCollection\<close> are its two instances. \<open>None\<close> is an index
  out of range.

  The lemmas show that a walk on a well-formed graph returns, whatever the collector, and is the
  collector run on a sequence of events that the relation \<open>dfs\<close> describes. The orders, the
  reachability test and the dominator tree are read off that relation.
\<close>

subsection \<open>The walker\<close>

record 's Collector =
  c_reset :: "'s \<Rightarrow> 's"
  c_tick :: "'s \<Rightarrow> 's"
  c_preVisit :: "ControlFlowNode \<Rightarrow> 's \<Rightarrow> 's option"
  c_postVisit :: "ControlFlowNode \<Rightarrow> 's \<Rightarrow> 's option"
  c_lateVisit :: "ControlFlowNode \<Rightarrow> ControlFlowLink \<Rightarrow> 's \<Rightarrow> 's option"
  c_finish :: "'s \<Rightarrow> 's option"

record 's DFSWalker =
  visited :: "bool list"
  collector :: 's

definition walk_enter :: "ControlFlowGraph \<Rightarrow> 's Collector \<Rightarrow> int \<Rightarrow> 's DFSWalker \<Rightarrow> 's DFSWalker option" where
  "walk_enter g C i w =
     do {
       vs \<leftarrow> vec_set (visited w) i True;
       n \<leftarrow> graph_get g i;
       s \<leftarrow> c_preVisit C n (collector w);
       Some \<lparr>visited = vs, collector = s\<rparr>
     }"

definition walk_leave :: "ControlFlowGraph \<Rightarrow> 's Collector \<Rightarrow> int \<Rightarrow> 's DFSWalker \<Rightarrow> 's DFSWalker option" where
  "walk_leave g C i w =
     do {
       n \<leftarrow> graph_get g i;
       s \<leftarrow> c_postVisit C n (collector w);
       Some (w\<lparr>collector := s\<rparr>)
     }"

partial_function (option) walk_links ::
    "ControlFlowGraph \<Rightarrow> 's Collector \<Rightarrow> int \<Rightarrow> int \<Rightarrow> ControlFlowLink list \<Rightarrow> 's DFSWalker \<Rightarrow> 's DFSWalker option" where
  "walk_links g C dir i ls w =
     (case ls of
        [] \<Rightarrow> Some w
      | l # ls' \<Rightarrow>
          do {
            v \<leftarrow> vec_at (visited w) (getTargetID l);
            w \<leftarrow>
              (if \<not> v then
                 do {
                   w \<leftarrow> walk_enter g C (getTargetID l) w;
                   n \<leftarrow> graph_get g (getTargetID l);
                   w \<leftarrow> walk_links g C dir (getTargetID l) (getLinks dir n) w;
                   walk_leave g C (getTargetID l) w
                 }
               else
                 do {
                   n \<leftarrow> graph_get g i;
                   s \<leftarrow> c_lateVisit C n l (collector w);
                   Some (w\<lparr>collector := s\<rparr>)
                 });
            walk_links g C dir i ls' w
          })"

declare walk_links.simps [code]

definition walkHelper :: "ControlFlowGraph \<Rightarrow> 's Collector \<Rightarrow> int \<Rightarrow> int \<Rightarrow> 's DFSWalker \<Rightarrow> 's DFSWalker option" where
  "walkHelper g C i dir w =
     do {
       w \<leftarrow> walk_enter g C i w;
       n \<leftarrow> graph_get g i;
       w \<leftarrow> walk_links g C dir i (getLinks dir n) w;
       walk_leave g C i w
     }"

definition walk :: "ControlFlowGraph \<Rightarrow> 's Collector \<Rightarrow> int \<Rightarrow> int \<Rightarrow> 's \<Rightarrow> 's option" where
  "walk g C i dir s =
     do {
       w \<leftarrow> walkHelper g C i dir
              \<lparr>visited = replicate (graph_getCount g) False, collector = c_reset C s\<rparr>;
       c_finish C (collector w)
     }"

fun walk_rest :: "ControlFlowGraph \<Rightarrow> 's Collector \<Rightarrow> int \<Rightarrow> int list \<Rightarrow> 's DFSWalker \<Rightarrow> 's DFSWalker option" where
  "walk_rest g C dir [] w = Some w"
| "walk_rest g C dir (i # is) w =
     do {
       v \<leftarrow> vec_at (visited w) i;
       w \<leftarrow> (if \<not> v then walkHelper g C i dir (w\<lparr>collector := c_tick C (collector w)\<rparr>) else Some w);
       walk_rest g C dir is w
     }"

definition walkAll :: "ControlFlowGraph \<Rightarrow> 's Collector \<Rightarrow> int \<Rightarrow> int \<Rightarrow> 's \<Rightarrow> 's option" where
  "walkAll g C i dir s =
     do {
       w \<leftarrow> walkHelper g C i dir
              \<lparr>visited = replicate (graph_getCount g) False, collector = c_reset C s\<rparr>;
       w \<leftarrow> walk_rest g C dir (map int [1..<graph_getCount g]) w;
       c_finish C (collector w)
     }"

subsection \<open>Collecting nodes\<close>

datatype VisitType = PreorderVisitor | PostorderVisitor | PrePostorderVisitor

fun visit_pre :: "VisitType \<Rightarrow> int \<Rightarrow> int list \<Rightarrow> int list" where
  "visit_pre PostorderVisitor i order = order"
| "visit_pre _ i order = order @ [i]"

fun visit_post :: "VisitType \<Rightarrow> int \<Rightarrow> int list \<Rightarrow> int list" where
  "visit_post PreorderVisitor i order = order"
| "visit_post _ i order = order @ [i]"

datatype FinishType = EmptyFinisher | ReverseFinisher

fun finish_list :: "FinishType \<Rightarrow> 'a list \<Rightarrow> 'a list" where
  "finish_list EmptyFinisher order = order"
| "finish_list ReverseFinisher order = rev order"

record NodeCollection =
  nc_order :: "int list list"
  nc_lap :: int

definition newNodeCollection :: "ControlFlowGraph \<Rightarrow> NodeCollection" where
  "newNodeCollection g = \<lparr>nc_order = replicate (graph_getCount g) [], nc_lap = 0\<rparr>"

definition nc_update :: "(int list \<Rightarrow> int list) \<Rightarrow> NodeCollection \<Rightarrow> NodeCollection option" where
  "nc_update f s =
     do {
       o1 \<leftarrow> vec_at (nc_order s) (nc_lap s);
       os \<leftarrow> vec_set (nc_order s) (nc_lap s) (f o1);
       Some (s\<lparr>nc_order := os\<rparr>)
     }"

definition node_collector :: "VisitType \<Rightarrow> FinishType \<Rightarrow> NodeCollection Collector" where
  "node_collector vt ft =
     \<lparr>c_reset = (\<lambda>s. \<lparr>nc_order = [[]], nc_lap = 0\<rparr>),
      c_tick = (\<lambda>s. s\<lparr>nc_lap := nc_lap s + 1, nc_order := nc_order s @ [[]]\<rparr>),
      c_preVisit = (\<lambda>n. nc_update (visit_pre vt (getID n))),
      c_postVisit = (\<lambda>n. nc_update (visit_post vt (getID n))),
      c_lateVisit = (\<lambda>n l s. Some s),
      c_finish = (\<lambda>s. Some (s\<lparr>nc_order := map (finish_list ft) (nc_order s)\<rparr>))\<rparr>"

subsection \<open>Collecting strongly connected components\<close>

record SccCollection =
  scc :: int
  disc :: int
  discovery :: "int list"
  lowLink :: "int list"
  onStack :: "bool list"
  stack :: "int list"
  poStack :: "int list"
  sccOrder :: "int list list"

definition newSccCollection :: "ControlFlowGraph \<Rightarrow> SccCollection" where
  "newSccCollection g =
     \<lparr>scc = 0, disc = 0, discovery = replicate (graph_getCount g) 0, lowLink = replicate (graph_getCount g) 0,
      onStack = replicate (graph_getCount g) False, stack = [], poStack = [], sccOrder = []\<rparr>"

definition scc_reset :: "SccCollection \<Rightarrow> SccCollection" where
  "scc_reset s = s\<lparr>scc := 0, disc := 0, sccOrder := [[]]\<rparr>"

definition scc_preVisit :: "ControlFlowNode \<Rightarrow> SccCollection \<Rightarrow> SccCollection option" where
  "scc_preVisit n s =
     do {
       d \<leftarrow> vec_set (discovery s) (getID n) (disc s);
       low \<leftarrow> vec_set (lowLink s) (getID n) (disc s);
       on \<leftarrow> vec_set (onStack s) (getID n) True;
       Some (s\<lparr>discovery := d, lowLink := low, stack := stack s @ [getID n], onStack := on, disc := disc s + 1\<rparr>)
     }"

fun scc_lower :: "int list \<Rightarrow> int \<Rightarrow> ControlFlowLink list \<Rightarrow> int list \<Rightarrow> int list option" where
  "scc_lower d i [] low = Some low"
| "scc_lower d i (l # ls) low =
     do {
       di \<leftarrow> vec_at d i;
       dt \<leftarrow> vec_at d (getTargetID l);
       low \<leftarrow>
         (if di < dt then
            do { a \<leftarrow> vec_at low i; b \<leftarrow> vec_at low (getTargetID l); vec_set low i (min a b) }
          else Some low);
       scc_lower d i ls low
     }"

text \<open>The loop over the end of the stack: how many entries it takes, and the new \<^verbatim>\<open>onStack\<close>.\<close>

fun scc_pop :: "int \<Rightarrow> int list \<Rightarrow> bool list \<Rightarrow> (nat \<times> bool list) option" where
  "scc_pop i [] on = None"
| "scc_pop i (x # xs) on =
     do {
       on \<leftarrow> vec_set on x False;
       if x = i then Some (1, on)
       else do { (k, on) \<leftarrow> scc_pop i xs on; Some (k + 1, on) }
     }"

definition scc_close :: "FinishType \<Rightarrow> int \<Rightarrow> SccCollection \<Rightarrow> SccCollection option" where
  "scc_close ft i s =
     do {
       (k, on) \<leftarrow> scc_pop i (rev (stack s)) (onStack s);
       if k > length (poStack s) then None
       else
         do {
           let rest = length (poStack s) - k;
           o1 \<leftarrow> vec_at (sccOrder s) (scc s);
           os \<leftarrow> vec_set (sccOrder s) (scc s) (finish_list ft (o1 @ drop rest (poStack s)));
           Some (s\<lparr>onStack := on, stack := take (length (stack s) - k) (stack s),
             poStack := take rest (poStack s), scc := scc s + 1, sccOrder := os @ [[]]\<rparr>)
         }
     }"

definition scc_postVisit :: "int \<Rightarrow> FinishType \<Rightarrow> ControlFlowNode \<Rightarrow> SccCollection \<Rightarrow> SccCollection option" where
  "scc_postVisit dir ft n s =
     do {
       low \<leftarrow> scc_lower (discovery s) (getID n) (getLinks dir n) (lowLink s);
       let s = s\<lparr>lowLink := low, poStack := poStack s @ [getID n]\<rparr>;
       d \<leftarrow> vec_at (discovery s) (getID n);
       m \<leftarrow> vec_at low (getID n);
       if d = m then scc_close ft (getID n) s else Some s
     }"

definition scc_lateVisit :: "ControlFlowNode \<Rightarrow> ControlFlowLink \<Rightarrow> SccCollection \<Rightarrow> SccCollection option" where
  "scc_lateVisit n l s =
     do {
       on \<leftarrow> vec_at (onStack s) (getTargetID l);
       if on then
         do {
           a \<leftarrow> vec_at (lowLink s) (getID n);
           d \<leftarrow> vec_at (discovery s) (getTargetID l);
           low \<leftarrow> vec_set (lowLink s) (getID n) (min a d);
           Some (s\<lparr>lowLink := low\<rparr>)
         }
       else Some s
     }"

definition scc_finish :: "FinishType \<Rightarrow> SccCollection \<Rightarrow> SccCollection option" where
  "scc_finish ft s =
     (if sccOrder s = [] then None
      else Some (s\<lparr>sccOrder := finish_list ft (butlast (sccOrder s))\<rparr>))"

definition scc_collector :: "int \<Rightarrow> FinishType \<Rightarrow> SccCollection Collector" where
  "scc_collector dir ft =
     \<lparr>c_reset = scc_reset, c_tick = (\<lambda>s. s), c_preVisit = scc_preVisit, c_postVisit = scc_postVisit dir ft,
      c_lateVisit = scc_lateVisit, c_finish = scc_finish ft\<rparr>"

subsection \<open>The orders\<close>

definition gen_order :: "int \<Rightarrow> VisitType \<Rightarrow> FinishType \<Rightarrow> ControlFlowGraph \<Rightarrow> int \<Rightarrow> int list list option" where
  "gen_order dir vt ft g i = map_option nc_order (walk g (node_collector vt ft) i dir (newNodeCollection g))"

definition genFull_order :: "int \<Rightarrow> VisitType \<Rightarrow> FinishType \<Rightarrow> ControlFlowGraph \<Rightarrow> int \<Rightarrow> int list list option" where
  "genFull_order dir vt ft g i = map_option nc_order (walkAll g (node_collector vt ft) i dir (newNodeCollection g))"

definition gen_scc :: "int \<Rightarrow> FinishType \<Rightarrow> ControlFlowGraph \<Rightarrow> int \<Rightarrow> int list list option" where
  "gen_scc dir ft g i = map_option sccOrder (walk g (scc_collector dir ft) i dir (newSccCollection g))"

definition Preorder :: "ControlFlowGraph \<Rightarrow> int \<Rightarrow> int list list option" where
  "Preorder = gen_order 1 PreorderVisitor EmptyFinisher"

definition Postorder :: "ControlFlowGraph \<Rightarrow> int \<Rightarrow> int list list option" where
  "Postorder = gen_order 1 PostorderVisitor EmptyFinisher"

definition ReversePostorder :: "ControlFlowGraph \<Rightarrow> int \<Rightarrow> int list list option" where
  "ReversePostorder = gen_order 1 PostorderVisitor ReverseFinisher"

definition ReverseReversePostorder :: "ControlFlowGraph \<Rightarrow> int \<Rightarrow> int list list option" where
  "ReverseReversePostorder = gen_order (-1) PostorderVisitor ReverseFinisher"

definition SccOrder :: "ControlFlowGraph \<Rightarrow> int \<Rightarrow> int list list option" where
  "SccOrder = gen_scc 1 ReverseFinisher"

definition ReverseSccOrder :: "ControlFlowGraph \<Rightarrow> int \<Rightarrow> int list list option" where
  "ReverseSccOrder = gen_scc (-1) ReverseFinisher"

definition PrePostOrder :: "ControlFlowGraph \<Rightarrow> int \<Rightarrow> int list list option" where
  "PrePostOrder = gen_order 1 PrePostorderVisitor EmptyFinisher"

subsection \<open>Reachability\<close>

definition isReachable :: "(ControlFlowGraph \<Rightarrow> int \<Rightarrow> int list list option) \<Rightarrow> ControlFlowGraph \<Rightarrow> int \<Rightarrow> int \<Rightarrow> bool option" where
  "isReachable order g src dest =
     do { os \<leftarrow> order g src; o1 \<leftarrow> vec_at os 0; Some (dest \<in> set o1) }"

fun prune_scan :: "(int \<Rightarrow> bool) \<Rightarrow> int \<Rightarrow> int option \<Rightarrow> int list \<Rightarrow> bool" where
  "prune_scan prune dest root [] = False"
| "prune_scan prune dest (Some r) (n # ns) = prune_scan prune dest (if n = r then None else Some r) ns"
| "prune_scan prune dest None (n # ns) =
     (if n = dest then True else prune_scan prune dest (if prune n then Some n else None) ns)"

definition isReachable_pruned :: "(int \<Rightarrow> int \<Rightarrow> int \<Rightarrow> bool) \<Rightarrow> ControlFlowGraph \<Rightarrow> int \<Rightarrow> int \<Rightarrow> bool option" where
  "isReachable_pruned prune g src dest =
     do { os \<leftarrow> PrePostOrder g src; o1 \<leftarrow> vec_at os 0; Some (prune_scan (\<lambda>n. prune n src dest) dest None o1) }"

end
