(* ===== verification/Dominance.thy ===== *)
theory Dominance
  imports Walker
begin

section \<open>Dominators (\<^verbatim>\<open>src/analysis/dominance.cpp\<close>)\<close>

text \<open>
  The constructor computes the immediate dominator of every node reachable from node 0 by iterating
  over the reverse postorder until nothing changes; \<open>intersect\<close> climbs the tree of immediate dominators
  found so far. The value \<open>-1\<close> stands for none, as in the code. \<open>None\<close> is an index out of range or a
  loop that does not end.
\<close>

record Dominance =
  cfg :: ControlFlowGraph
  idoms :: "int list"
  idMap :: "int list"

text \<open>\<^verbatim>\<open>while(idoms[finger] != -1 && idMap[finger] > idMap[other]) finger = idoms[finger];\<close>\<close>

partial_function (option) climb :: "int list \<Rightarrow> int list \<Rightarrow> int \<Rightarrow> int \<Rightarrow> int option" where
  "climb ds ms finger other =
     do {
       d \<leftarrow> vec_at ds finger;
       if d = -1 then Some finger
       else
         do {
           a \<leftarrow> vec_at ms finger;
           b \<leftarrow> vec_at ms other;
           if a > b then climb ds ms d other else Some finger
         }
     }"

partial_function (option) intersect :: "int list \<Rightarrow> int list \<Rightarrow> int \<Rightarrow> int \<Rightarrow> int option" where
  "intersect ds ms finger1 finger2 =
     (if finger1 = finger2 then Some finger1
      else
        do {
          d1 \<leftarrow> vec_at ds finger1;
          if d1 = -1 then Some finger2
          else
            do {
              d2 \<leftarrow> vec_at ds finger2;
              if d2 = -1 then Some finger1
              else
                do {
                  f1 \<leftarrow> climb ds ms finger1 finger2;
                  f2 \<leftarrow> climb ds ms finger2 f1;
                  intersect ds ms f1 f2
                }
            }
        })"

declare climb.simps [code]

declare intersect.simps [code]

fun idom_from :: "int list \<Rightarrow> int list \<Rightarrow> ControlFlowLink list \<Rightarrow> bool \<Rightarrow> int \<Rightarrow> int option" where
  "idom_from ds ms [] first idom = Some idom"
| "idom_from ds ms (l # ls) first idom =
     do {
       d \<leftarrow> vec_at ds (getTargetID l);
       if d = -1 then idom_from ds ms ls first idom
       else if first then idom_from ds ms ls False (getTargetID l)
       else
         do {
           idom \<leftarrow> intersect ds ms (getTargetID l) idom;
           idom_from ds ms ls False idom
         }
     }"

fun dom_pass :: "ControlFlowGraph \<Rightarrow> int list \<Rightarrow> int list \<Rightarrow> bool \<Rightarrow> int list \<Rightarrow> (bool \<times> int list) option" where
  "dom_pass g ms [] changed ds = Some (changed, ds)"
| "dom_pass g ms (i # order) changed ds =
     (if i = 0 then
        do { ds \<leftarrow> vec_set ds 0 0; dom_pass g ms order changed ds }
      else
        do {
          n \<leftarrow> graph_get g i;
          idom \<leftarrow> idom_from ds ms (reverseLinks n) True (-1);
          d \<leftarrow> vec_at ds i;
          if d \<noteq> idom then
            do { ds \<leftarrow> vec_set ds i idom; dom_pass g ms order True ds }
          else dom_pass g ms order changed ds
        })"

partial_function (option) dom_iterate :: "ControlFlowGraph \<Rightarrow> int list \<Rightarrow> int list \<Rightarrow> int list \<Rightarrow> int list option" where
  "dom_iterate g ms order ds =
     do {
       (changed, ds) \<leftarrow> dom_pass g ms order False ds;
       if changed then dom_iterate g ms order ds else Some ds
     }"

declare dom_iterate.simps [code]

fun fill_idMap :: "int \<Rightarrow> int list \<Rightarrow> int list \<Rightarrow> int list option" where
  "fill_idMap i [] ms = Some ms"
| "fill_idMap i (n # order) ms = do { ms \<leftarrow> vec_set ms n i; fill_idMap (i + 1) order ms }"

definition newDominance :: "ControlFlowGraph \<Rightarrow> Dominance option" where
  "newDominance g =
     do {
       sub \<leftarrow> SccOrder g 0;
       rpo \<leftarrow> ReversePostorder g 0;
       order \<leftarrow> vec_at rpo 0;
       ms \<leftarrow> fill_idMap 0 order (replicate (graph_getCount g) (-1));
       ds \<leftarrow> dom_iterate g ms order (replicate (graph_getCount g) (-1));
       Some \<lparr>cfg = g, idoms = ds, idMap = ms\<rparr>
     }"

partial_function (option) dominator_chain :: "int list \<Rightarrow> int \<Rightarrow> int list \<Rightarrow> int list option" where
  "dominator_chain ds i doms =
     (if i = 0 then Some (doms @ [0])
      else do { d \<leftarrow> vec_at ds i; dominator_chain ds d (doms @ [i]) })"

declare dominator_chain.simps [code]

definition getDominators :: "Dominance \<Rightarrow> int \<Rightarrow> int list option" where
  "getDominators D i = dominator_chain (idoms D) i []"

text \<open>\<^verbatim>\<open>std::set_intersection\<close>, which reads both ranges once from the front.\<close>

fun set_intersection :: "int list \<Rightarrow> int list \<Rightarrow> int list" where
  "set_intersection [] ys = []"
| "set_intersection xs [] = []"
| "set_intersection (x # xs) (y # ys) =
     (if x < y then set_intersection xs (y # ys)
      else if y < x then set_intersection (x # xs) ys
      else x # set_intersection xs ys)"

fun exit_nodes :: "ControlFlowGraph \<Rightarrow> int list \<Rightarrow> int list option" where
  "exit_nodes g [] = Some []"
| "exit_nodes g (i # order) =
     do {
       n \<leftarrow> graph_get g i;
       rest \<leftarrow> exit_nodes g order;
       Some (if links n = [] then getID n # rest else rest)
     }"

fun common_dominators :: "Dominance \<Rightarrow> int list \<Rightarrow> int list \<Rightarrow> int list option" where
  "common_dominators D [] pdom = Some pdom"
| "common_dominators D (e # es) pdom =
     do {
       pdom2 \<leftarrow> getDominators D e;
       let pdom = set_intersection pdom (std_sort (<) pdom2);
       if pdom = [] then Some pdom else common_dominators D es pdom
     }"

definition getPostDominators :: "int \<Rightarrow> Dominance \<Rightarrow> (int list \<times> Dominance) option" where
  "getPostDominators i D =
     do {
       po \<leftarrow> Preorder (cfg D) 0;
       order \<leftarrow> vec_at po 0;
       ms \<leftarrow> fill_idMap 0 order (idMap D);
       let D = D\<lparr>idMap := ms\<rparr>;
       exits \<leftarrow> exit_nodes (cfg D) order;
       (case exits of
          [] \<Rightarrow> Some ([], D)
        | e # es \<Rightarrow>
            do {
              pdom \<leftarrow> getDominators D e;
              pdom \<leftarrow> common_dominators D es pdom;
              Some (pdom, D)
            })
     }"

end
