(* ===== verification/DominanceTree.thy ===== *)
theory DominanceTree
  imports Dominance
begin

section \<open>Iterating immediate dominators\<close>

text \<open>
  The argument behind the constructor of \<^verbatim>\<open>Dominance\<close>, on functions instead of vectors. \<open>d v\<close> is the
  immediate dominator of \<open>v\<close> found so far, \<open>-1\<close> for none; \<open>anc d v y\<close> says that \<open>y\<close> is on the chain
  from \<open>v\<close> to the root. One step replaces \<open>d v\<close> by the nearest common ancestor of the predecessors of \<open>v\<close>
  that have a value. The invariant says that the chains contain all dominators, and that a step can only
  shorten them, so that the iteration ends; at the end the chains contain nothing else.
\<close>

subsection \<open>Chains\<close>

inductive anc :: "(int \<Rightarrow> int) \<Rightarrow> int \<Rightarrow> int \<Rightarrow> bool" for d where
  anc_refl [simp, intro]: "anc d v v"
| anc_step: "d v \<noteq> -1 \<Longrightarrow> anc d (d v) y \<Longrightarrow> anc d v y"

lemma anc_trans: "anc d a b \<Longrightarrow> anc d b c \<Longrightarrow> anc d a c"
  by (induction rule: anc.induct) (auto intro: anc_step)

lemma anc_cases: "anc d v y \<longleftrightarrow> y = v \<or> d v \<noteq> -1 \<and> anc d (d v) y"
  by (subst anc.simps) auto

lemma anc_linear: "anc d w a \<Longrightarrow> anc d w b \<Longrightarrow> anc d a b \<or> anc d b a"
proof (induction rule: anc.induct)
  case (anc_step v y)
  from anc_step.prems show ?case
    by (subst (asm) anc_cases) (use anc_step in \<open>auto intro: anc.anc_step\<close>)
qed auto

text \<open>
  A tree of immediate dominators: the root 0 is its own, the others have one with a smaller number.
  Numbers are positions in the order that the iteration follows.
\<close>

definition idom_tree :: "(int \<Rightarrow> nat) \<Rightarrow> (int \<Rightarrow> int) \<Rightarrow> bool" where
  "idom_tree ix d \<longleftrightarrow> d 0 = 0 \<and> d (-1) = -1 \<and>
     (\<forall>v. v \<noteq> 0 \<longrightarrow> d v \<noteq> -1 \<longrightarrow> d (d v) \<noteq> -1 \<and> ix (d v) < ix v)"

lemma idom_treeD:
  assumes "idom_tree ix d"
  shows "d 0 = 0" "d (-1) = -1" "v \<noteq> 0 \<Longrightarrow> d v \<noteq> -1 \<Longrightarrow> d (d v) \<noteq> -1" "v \<noteq> 0 \<Longrightarrow> d v \<noteq> -1 \<Longrightarrow> ix (d v) < ix v"
  using assms by (auto simp: idom_tree_def)

lemma anc_root:
  assumes T: "idom_tree ix d" and "anc d 0 y"
  shows "y = 0"
  using assms(2) by (induction "0 :: int" y rule: anc.induct) (auto simp: idom_treeD(1) [OF T])

lemma anc_less:
  assumes T: "idom_tree ix d"
  shows "anc d v y \<Longrightarrow> y \<noteq> v \<Longrightarrow> ix y < ix v"
proof (induction rule: anc.induct)
  case (anc_step v y)
  then have "v \<noteq> 0" using anc_root [OF T, of y] idom_treeD(1) [OF T] by auto
  with anc_step idom_treeD(4) [OF T] show ?case by (cases "y = d v") fastforce+
qed simp

lemma anc_le: "idom_tree ix d \<Longrightarrow> anc d v y \<Longrightarrow> ix y \<le> ix v"
  using anc_less by (cases "y = v") fastforce+

lemma anc_idom:
  assumes T: "idom_tree ix d"
  shows "anc d v y \<Longrightarrow> d v \<noteq> -1 \<Longrightarrow> d y \<noteq> -1"
proof (induction rule: anc.induct)
  case (anc_step v y)
  then show ?case
    using idom_treeD(1,3) [OF T] by (cases "v = 0") auto
qed simp

text \<open>What replacing \<open>d v\<close> changes: only the chains through \<open>v\<close>, above \<open>v\<close>.\<close>

lemma anc_update_other:
  assumes "\<not> anc d w v"
  shows "anc (d(v := x)) w y \<longleftrightarrow> anc d w y"
proof
  show "anc d w y" if "anc (d(v := x)) w y"
    using that assms
  proof (induction rule: anc.induct)
    case (anc_step w y)
    then have "w \<noteq> v" by auto
    with anc_step show ?case by (auto intro: anc.anc_step)
  qed simp
  show "anc (d(v := x)) w y" if "anc d w y"
    using that assms
  proof (induction rule: anc.induct)
    case (anc_step w y)
    then have "w \<noteq> v" "\<not> anc d (d w) v" by (auto intro: anc.anc_step)
    with anc_step anc.anc_step [of "d(v := x)" w y] show ?case by (simp add: fun_upd_def)
  qed simp
qed

lemma anc_update_self:
  assumes "\<not> anc d x v" "x \<noteq> -1"
  shows "anc (d(v := x)) v y \<longleftrightarrow> y = v \<or> anc d x y"
  using assms by (subst anc_cases) (simp add: anc_update_other)

lemma anc_update_below:
  assumes T: "idom_tree ix d" and "anc d w v"
  shows "anc (d(v := x)) w y \<longleftrightarrow> anc d w y \<and> anc d y v \<or> anc (d(v := x)) v y"
  using assms(2)
proof (induction rule: anc.induct)
  case (anc_refl v)
  have "y = v" if "anc d v y" "anc d y v"
    using anc_less [OF T that(1)] anc_le [OF T that(2)] by fastforce
  then show ?case by auto
next
  case (anc_step w v)
  show ?case
  proof (cases "w = v")
    case True
    have "y = v" if "anc d v y" "anc d y v"
      using anc_less [OF T that(1)] anc_le [OF T that(2)] by fastforce
    with True show ?thesis by auto
  next
    case False
    then have "anc (d(v := x)) w y \<longleftrightarrow> y = w \<or> anc (d(v := x)) (d w) y"
      using anc_step.hyps(1) by (subst anc_cases) simp
    also have "\<dots> \<longleftrightarrow> y = w \<or> anc d (d w) y \<and> anc d y v \<or> anc (d(v := x)) v y"
      using anc_step.IH by (simp add: fun_upd_def)
    finally show ?thesis
      using anc_step.hyps anc_cases [of d w y] anc.anc_step [of d w v] by (auto simp: fun_upd_def)
  qed
qed

text \<open>What a chain loses is above \<open>v\<close> and lost by \<open>v\<close>.\<close>

lemma anc_update_lost:
  assumes T: "idom_tree ix d" and "anc d w y" "\<not> anc (d(v := x)) w y"
  shows "anc d w v" "anc d v y" "y \<noteq> v" "\<not> anc d y v" "\<not> anc (d(v := x)) v y"
proof -
  show w: "anc d w v"
    using assms(2,3) anc_update_other by blast
  show n: "\<not> anc (d(v := x)) v y" and b: "\<not> anc d y v"
    using anc_update_below [OF T w] assms(2,3) by blast+
  then show "y \<noteq> v" "anc d v y"
    using anc_linear [OF w assms(2)] by auto
qed

subsection \<open>Dominators\<close>

text \<open>\<open>P v\<close> is the set of predecessors of \<open>v\<close>; a path starts at node 0.\<close>

definition entry_path :: "(int \<Rightarrow> int set) \<Rightarrow> int list \<Rightarrow> int \<Rightarrow> bool" where
  "entry_path P ps v \<longleftrightarrow> ps \<noteq> [] \<and> hd ps = 0 \<and> last ps = v \<and> successively (\<lambda>a b. a \<in> P b) ps"

definition dominates :: "(int \<Rightarrow> int set) \<Rightarrow> int \<Rightarrow> int \<Rightarrow> bool" where
  "dominates P y v \<longleftrightarrow> (\<forall>ps. entry_path P ps v \<longrightarrow> y \<in> set ps)"

lemma entry_path_root: "entry_path P [0] 0"
  by (simp add: entry_path_def)

lemma entry_path_snoc: "entry_path P ps p \<Longrightarrow> p \<in> P v \<Longrightarrow> entry_path P (ps @ [v]) v"
  by (simp add: entry_path_def successively_append_iff)

lemma entry_path_induct [consumes 1, case_names root step]:
  assumes "entry_path P ps v" "Q [0] 0"
    and "\<And>ps p v. entry_path P ps p \<Longrightarrow> Q ps p \<Longrightarrow> p \<in> P v \<Longrightarrow> Q (ps @ [v]) v"
  shows "Q ps v"
  using assms(1)
proof (induction ps arbitrary: v rule: rev_induct)
  case (snoc x ps)
  show ?case
  proof (cases "ps = []")
    case True
    with snoc.prems assms(2) show ?thesis by (auto simp: entry_path_def)
  next
    case False
    with snoc.prems have "entry_path P ps (last ps)" "last ps \<in> P v" "x = v"
      by (auto simp: entry_path_def successively_append_iff)
    with snoc.IH assms(3) show ?thesis by blast
  qed
qed (simp add: entry_path_def)

lemma dominates_root: "dominates P y 0 \<Longrightarrow> y = 0"
  using entry_path_root [of P] by (auto simp: dominates_def)

lemma dominates_pred:
  assumes "dominates P y v" "y \<noteq> v" "p \<in> P v"
  shows "dominates P y p"
  using assms entry_path_snoc [of P _ p v] by (fastforce simp: dominates_def)

text \<open>
  The order of the iteration: \<open>R\<close> are the reachable nodes, \<open>ix\<close> their positions, and \<open>par\<close> gives every
  node but the root a predecessor that comes earlier.
\<close>

definition visit_order :: "(int \<Rightarrow> int set) \<Rightarrow> int set \<Rightarrow> (int \<Rightarrow> nat) \<Rightarrow> (int \<Rightarrow> int) \<Rightarrow> bool" where
  "visit_order P R ix par \<longleftrightarrow>
     0 \<in> R \<and> -1 \<notin> R \<and> ix 0 = 0 \<and> inj_on ix R \<and> par 0 = 0 \<and> (\<forall>v. \<forall>p \<in> P v. p \<in> R \<longrightarrow> v \<in> R) \<and>
     (\<forall>v \<in> R. v \<noteq> 0 \<longrightarrow> par v \<in> R \<and> par v \<in> P v \<and> ix (par v) < ix v)"

lemma visit_orderD:
  assumes "visit_order P R ix par"
  shows "0 \<in> R" "-1 \<notin> R" "ix 0 = 0" "inj_on ix R" "par 0 = 0" "p \<in> P v \<Longrightarrow> p \<in> R \<Longrightarrow> v \<in> R"
    and "v \<in> R \<Longrightarrow> v \<noteq> 0 \<Longrightarrow> par v \<in> R" "v \<in> R \<Longrightarrow> v \<noteq> 0 \<Longrightarrow> par v \<in> P v"
    and "v \<in> R \<Longrightarrow> v \<noteq> 0 \<Longrightarrow> ix (par v) < ix v"
  using assms unfolding visit_order_def by blast+

lemma entry_path_reachable: "entry_path P ps v \<Longrightarrow> visit_order P R ix par \<Longrightarrow> v \<in> R"
  by (induction rule: entry_path_induct) (auto dest: visit_orderD)

text \<open>A dominator of \<open>w\<close> that comes before a tree ancestor \<open>v\<close> of \<open>w\<close> dominates \<open>v\<close>.\<close>

lemma dominates_tree:
  assumes O: "visit_order P R ix par"
  shows "anc par w v \<Longrightarrow> w \<in> R \<Longrightarrow> dominates P y w \<Longrightarrow> ix y < ix v \<Longrightarrow> dominates P y v"
proof (induction rule: anc.induct)
  case (anc_step w v)
  show ?case
  proof (cases "w = 0")
    case True
    with anc_step visit_orderD(5) [OF O] show ?thesis by simp
  next
    case False
    have le: "ix v \<le> ix (par w)"
      using anc_step.hyps(2) visit_orderD(7) [OF O anc_step.prems(1) False]
    proof (induction rule: anc.induct)
      case (anc_step a b)
      then show ?case
        using visit_orderD(5) [OF O] visit_orderD(7,9) [OF O, of a] by (cases "a = 0") force+
    qed simp
    with visit_orderD(9) [OF O anc_step.prems(1) False] anc_step.prems(3) have "y \<noteq> w" by auto
    with anc_step.IH anc_step.prems False visit_orderD(7,8) [OF O anc_step.prems(1) False] show ?thesis
      by (blast intro: dominates_pred)
  qed
qed simp

subsection \<open>The invariant of the iteration\<close>

text \<open>
  \<open>dom_inv \<dots> k d\<close> holds when the nodes at positions before \<open>k\<close> have been treated in the current pass. Chains
  contain every dominator and stay in the tree of \<open>par\<close>; a node that all treated predecessors of \<open>w\<close> have
  above them is above \<open>w\<close>, so a new value of \<open>w\<close> can only shorten its chain; and what is above \<open>w\<close> is above
  \<open>par w\<close>, except for nodes before \<open>k\<close> when \<open>w\<close> has yet to be treated.
\<close>

definition common :: "(int \<Rightarrow> int set) \<Rightarrow> (int \<Rightarrow> int) \<Rightarrow> int \<Rightarrow> int \<Rightarrow> bool" where
  "common P d v y \<longleftrightarrow> (\<forall>p \<in> P v. d p \<noteq> -1 \<longrightarrow> anc d p y)"

definition dom_inv ::
    "(int \<Rightarrow> int set) \<Rightarrow> int set \<Rightarrow> (int \<Rightarrow> nat) \<Rightarrow> (int \<Rightarrow> int) \<Rightarrow> nat \<Rightarrow> (int \<Rightarrow> int) \<Rightarrow> bool" where
  "dom_inv P R ix par k d \<longleftrightarrow>
     idom_tree ix d \<and> (\<forall>v. d v \<noteq> -1 \<longrightarrow> v \<in> R) \<and> (\<forall>v \<in> R. ix v < k \<longrightarrow> d v \<noteq> -1) \<and>
     (\<forall>v. d v \<noteq> -1 \<longrightarrow> d (par v) \<noteq> -1) \<and>
     (\<forall>v y. d v \<noteq> -1 \<longrightarrow> dominates P y v \<longrightarrow> anc d v y) \<and>
     (\<forall>v y. d v \<noteq> -1 \<longrightarrow> anc d v y \<longrightarrow> anc par v y) \<and>
     (\<forall>w y. d w \<noteq> -1 \<longrightarrow> w \<noteq> 0 \<longrightarrow> common P d w y \<longrightarrow> anc d w y) \<and>
     (\<forall>w y. d w \<noteq> -1 \<longrightarrow> w \<noteq> 0 \<longrightarrow> anc d w y \<longrightarrow> y \<noteq> w \<longrightarrow> ix w < k \<or> k \<le> ix y \<longrightarrow> anc d (par w) y)"

lemma dom_invD:
  assumes "dom_inv P R ix par k d"
  shows "idom_tree ix d" "d v \<noteq> -1 \<Longrightarrow> v \<in> R" "v \<in> R \<Longrightarrow> ix v < k \<Longrightarrow> d v \<noteq> -1"
    and "d v \<noteq> -1 \<Longrightarrow> d (par v) \<noteq> -1"
    and "d v \<noteq> -1 \<Longrightarrow> dominates P y v \<Longrightarrow> anc d v y"
    and "d v \<noteq> -1 \<Longrightarrow> anc d v y \<Longrightarrow> anc par v y"
    and "d w \<noteq> -1 \<Longrightarrow> w \<noteq> 0 \<Longrightarrow> common P d w y \<Longrightarrow> anc d w y"
    and "d w \<noteq> -1 \<Longrightarrow> w \<noteq> 0 \<Longrightarrow> anc d w y \<Longrightarrow> y \<noteq> w \<Longrightarrow> ix w < k \<Longrightarrow> anc d (par w) y"
    and "d w \<noteq> -1 \<Longrightarrow> w \<noteq> 0 \<Longrightarrow> anc d w y \<Longrightarrow> y \<noteq> w \<Longrightarrow> k \<le> ix y \<Longrightarrow> anc d (par w) y"
  using assms by (simp_all add: dom_inv_def)

text \<open>One step of the iteration, at the node \<open>v\<close> of position \<open>k\<close>, which gets the value \<open>x\<close>.\<close>

definition dom_step where
  "dom_step P R ix par k d v x \<longleftrightarrow>
     visit_order P R ix par \<and> dom_inv P R ix par k d \<and> v \<in> R \<and> v \<noteq> 0 \<and> ix v = k \<and> d x \<noteq> -1 \<and>
     (\<forall>y. anc d x y \<longleftrightarrow> common P d v y)"

lemma dom_stepD:
  assumes "dom_step P R ix par k d v x"
  shows "visit_order P R ix par" "dom_inv P R ix par k d" "v \<in> R" "v \<noteq> 0" "ix v = k" "d x \<noteq> -1"
    and "anc d x y \<longleftrightarrow> common P d v y"
  using assms by (auto simp: dom_step_def)

lemma step_par:
  assumes S: "dom_step P R ix par k d v x"
  shows "anc d x y \<Longrightarrow> anc d (par v) y" "d (par v) \<noteq> -1" "ix (par v) < k" "ix x < k" "x \<noteq> -1"
    "\<not> anc d x v" "\<not> anc d (par v) v"
proof -
  note O = dom_stepD(1) [OF S] and I = dom_stepD(2) [OF S] and v = dom_stepD(3-5) [OF S]
  show p: "d (par v) \<noteq> -1" and k: "ix (par v) < k"
    using visit_orderD(7,9) [OF O v(1,2)] v(3) dom_invD(3) [OF I] by auto
  show up: "anc d (par v) y" if "anc d x y" for y
    using that visit_orderD(8) [OF O v(1,2)] p dom_stepD(7) [OF S, of y] by (auto simp: common_def)
  show x: "ix x < k"
    using anc_le [OF dom_invD(1) [OF I] up [OF anc_refl]] k by simp
  show "x \<noteq> -1"
    using dom_stepD(6) [OF S] idom_treeD(2) [OF dom_invD(1) [OF I]] by auto
  show "\<not> anc d x v" "\<not> anc d (par v) v"
    using anc_le [OF dom_invD(1) [OF I], of _ v] x k v(3) by fastforce+
qed

lemma step_self:
  "dom_step P R ix par k d v x \<Longrightarrow> anc (d(v := x)) v y \<longleftrightarrow> y = v \<or> common P d v y"
  using anc_update_self [of d x v] step_par(5,6) [of P R ix par k d v x] dom_stepD(7) [of P R ix par k d v x] by auto

text \<open>Chains only shrink.\<close>

lemma step_shrinks:
  assumes S: "dom_step P R ix par k d v x" and "d w \<noteq> -1" "anc (d(v := x)) w y"
  shows "anc d w y"
proof (cases "anc d w v")
  case True
  note I = dom_stepD(2) [OF S]
  have "d v \<noteq> -1"
    using anc_idom [OF dom_invD(1) [OF I] True assms(2)] .
  with step_self [OF S, of y] have "anc d v y" if "anc (d(v := x)) v y"
    using that dom_invD(7) [OF I _ dom_stepD(4) [OF S]] by auto
  with True anc_update_below [OF dom_invD(1) [OF I] True] assms(3) show ?thesis
    using anc_trans by blast
next
  case False
  with assms(3) show ?thesis by (simp add: anc_update_other)
qed

text \<open>A new value has an earlier position than the one it replaces.\<close>

lemma step_decreases:
  assumes S: "dom_step P R ix par k d v x" and "d v \<noteq> -1" "x \<noteq> d v"
  shows "ix x < ix (d v)"
proof -
  note T = dom_invD(1) [OF dom_stepD(2) [OF S]]
  have "anc d v x"
    using dom_invD(7) [OF dom_stepD(2) [OF S] assms(2) dom_stepD(4) [OF S]] dom_stepD(7) [OF S] anc_refl by blast
  moreover have "x \<noteq> v"
    using step_par(6) [OF S] by auto
  ultimately have "anc d (d v) x"
    by (subst (asm) anc_cases) simp
  then show ?thesis
    using anc_less [OF T _ assms(3)] by simp
qed

lemma step_tree:
  assumes S: "dom_step P R ix par k d v x"
  shows "idom_tree ix (d(v := x))"
proof -
  note I = dom_stepD(2) [OF S]
  note T = dom_invD(1) [OF I]
  have "v \<noteq> -1"
    using dom_stepD(3) [OF S] visit_orderD(2) [OF dom_stepD(1) [OF S]] by auto
  with T show ?thesis
    using step_par(4,5) [OF S] dom_stepD(4-6) [OF S] by (auto simp: idom_tree_def)
qed

text \<open>The parts of the invariant after a step; \<open>d(v := x)\<close> has values where \<open>d\<close> has, and at \<open>v\<close>.\<close>

lemma step_self_dominator:
  assumes S: "dom_step P R ix par k d v x" and "dominates P y v"
  shows "anc (d(v := x)) v y"
proof (cases "y = v")
  case False
  have "anc d p y" if "p \<in> P v" "d p \<noteq> -1" for p
    using dom_invD(5) [OF dom_stepD(2) [OF S] that(2) dominates_pred [OF assms(2) False that(1)]] .
  then show ?thesis
    using step_self [OF S] by (simp add: common_def)
qed simp

lemma step_dominators:
  assumes S: "dom_step P R ix par k d v x" and w: "d w \<noteq> -1" and y: "dominates P y w"
  shows "anc (d(v := x)) w y"
proof (rule ccontr)
  note I = dom_stepD(2) [OF S]
  assume n: "\<not> anc (d(v := x)) w y"
  note lost = anc_update_lost [OF dom_invD(1) [OF I] dom_invD(5) [OF I w y] n]
  have "dominates P y v"
    using dominates_tree [OF dom_stepD(1) [OF S] dom_invD(6) [OF I w lost(1)] dom_invD(2) [OF I w] y]
      anc_less [OF dom_invD(1) [OF I] lost(2,3)] by blast
  with step_self_dominator [OF S] lost(5) show False by blast
qed

lemma step_self_tree:
  assumes S: "dom_step P R ix par k d v x" and "anc (d(v := x)) v y"
  shows "anc par v y"
proof (cases "y = v")
  case False
  have "par v \<noteq> -1"
    using visit_orderD(2,7) [OF dom_stepD(1) [OF S]] dom_stepD(3,4) [OF S] by metis
  moreover have "anc d x y"
    using step_self [OF S] assms(2) False dom_stepD(7) [OF S] by blast
  ultimately show ?thesis
    using dom_invD(6) [OF dom_stepD(2) [OF S] step_par(2) [OF S] step_par(1) [OF S]] by (auto intro: anc_step)
qed simp

lemma step_in_tree:
  assumes S: "dom_step P R ix par k d v x" and w: "d w \<noteq> -1" and y: "anc (d(v := x)) w y"
  shows "anc par w y"
  using dom_invD(6) [OF dom_stepD(2) [OF S] w step_shrinks [OF S w y]] .

lemma step_self_common:
  assumes S: "dom_step P R ix par k d v x" and "common P (d(v := x)) v y"
  shows "anc (d(v := x)) v y"
proof (rule ccontr)
  note T = dom_invD(1) [OF dom_stepD(2) [OF S]]
  assume n: "\<not> anc (d(v := x)) v y"
  have "anc d p y" if "p \<in> P v" "d p \<noteq> -1" for p
  proof (cases "p = v")
    case True
    with n that assms(2) step_par(5) [OF S] show ?thesis by (auto simp: common_def)
  next
    case False
    with that assms(2) have "anc (d(v := x)) p y" by (simp add: common_def)
    with step_shrinks [OF S that(2)] show ?thesis .
  qed
  with n step_self [OF S] show False by (auto simp: common_def)
qed

lemma step_common:
  assumes S: "dom_step P R ix par k d v x" and w: "d w \<noteq> -1" "w \<noteq> 0" "w \<noteq> v" and c: "common P (d(v := x)) w y"
  shows "anc (d(v := x)) w y"
proof (rule ccontr)
  note I = dom_stepD(2) [OF S]
  assume n: "\<not> anc (d(v := x)) w y"
  have xn: "x \<noteq> -1" by (rule step_par(5) [OF S])
  have c': "anc (d(v := x)) p y" if "p \<in> P w" "d p \<noteq> -1" for p
    using that c xn by (auto simp: common_def)
  have "common P d w y"
    using step_shrinks [OF S] c' by (auto simp: common_def)
  note lost = anc_update_lost [OF dom_invD(1) [OF I] dom_invD(7) [OF I w(1,2) this] n]
  have "anc d (par w) v"
    using dom_invD(9) [OF I w(1,2) lost(1)] w(3) dom_stepD(5) [OF S] by simp
  then have "\<not> anc (d(v := x)) (par w) y"
    using anc_update_below [OF dom_invD(1) [OF I]] lost(4,5) by blast
  then show False
    using c' visit_orderD(8) [OF dom_stepD(1) [OF S] dom_invD(2) [OF I w(1)] w(2)] dom_invD(4) [OF I w(1)] by blast
qed

lemma step_self_above:
  assumes S: "dom_step P R ix par k d v x" and "anc (d(v := x)) v y" "y \<noteq> v"
  shows "anc (d(v := x)) (par v) y"
  using step_self [OF S] assms(2,3) dom_stepD(7) [OF S] step_par(1,7) [OF S] anc_update_other by blast

lemma step_above:
  assumes S: "dom_step P R ix par k d v x" and w: "d w \<noteq> -1" "w \<noteq> 0" "w \<noteq> v"
    and y: "anc (d(v := x)) w y" "y \<noteq> w" and k: "ix w < Suc k \<or> Suc k \<le> ix y"
  shows "anc (d(v := x)) (par w) y"
proof (rule ccontr)
  note I = dom_stepD(2) [OF S]
  note T = dom_invD(1) [OF I]
  assume n: "\<not> anc (d(v := x)) (par w) y"
  have "ix w \<noteq> ix v"
    using w(3) dom_invD(2) [OF I w(1)] dom_stepD(3) [OF S] visit_orderD(4) [OF dom_stepD(1) [OF S]]
    by (auto dest: inj_onD)
  then have k': "ix w < k \<or> Suc k \<le> ix y"
    using k dom_stepD(5) [OF S] by auto
  then have p: "anc d (par w) y"
    using dom_invD(8,9) [OF I w(1,2) step_shrinks [OF S w(1) y(1)] y(2)] by auto
  note lost = anc_update_lost [OF T p n]
  have "k \<le> ix (par w)" "ix y < k"
    using anc_le [OF T lost(1)] anc_less [OF T lost(2,3)] dom_stepD(5) [OF S] by auto
  then show False
    using k' visit_orderD(9) [OF dom_stepD(1) [OF S] dom_invD(2) [OF I w(1)] w(2)] by auto
qed

lemma step_inv:
  assumes S: "dom_step P R ix par k d v x"
  shows "dom_inv P R ix par (Suc k) (d(v := x))"
proof -
  note I = dom_stepD(2) [OF S] and O = dom_stepD(1) [OF S] and v = dom_stepD(3-5) [OF S]
  have val: "(d(v := x)) w \<noteq> -1 \<longleftrightarrow> w = v \<or> d w \<noteq> -1" for w
    using step_par(5) [OF S] by auto
  have k: "d w \<noteq> -1 \<or> w = v" if "w \<in> R" "ix w < Suc k" for w
    using that dom_invD(3) [OF I that(1)] v visit_orderD(4) [OF O] by (auto simp: less_Suc_eq dest: inj_onD)
  have p: "par w = v \<or> d (par w) \<noteq> -1" if "w = v \<or> d w \<noteq> -1" for w
    using that step_par(2) [OF S] dom_invD(4) [OF I] by auto
  show ?thesis
    unfolding dom_inv_def val
  proof (intro conjI allI ballI impI)
    fix w y
    show "anc (d(v := x)) w y" if "w = v \<or> d w \<noteq> -1" "dominates P y w"
      using that step_self_dominator [OF S] step_dominators [OF S] by blast
    show "anc par w y" if "w = v \<or> d w \<noteq> -1" "anc (d(v := x)) w y"
      using that step_self_tree [OF S] step_in_tree [OF S] by blast
    show "anc (d(v := x)) w y" if "w = v \<or> d w \<noteq> -1" "w \<noteq> 0" "common P (d(v := x)) w y"
      using that step_self_common [OF S] step_common [OF S] by blast
    show "anc (d(v := x)) (par w) y"
      if "w = v \<or> d w \<noteq> -1" "w \<noteq> 0" "anc (d(v := x)) w y" "y \<noteq> w" "ix w < Suc k \<or> Suc k \<le> ix y"
      using that step_self_above [OF S] step_above [OF S] by blast
  qed (use step_tree [OF S] k p v(1) dom_invD(2) [OF I] in auto)
qed

text \<open>A pass that has treated every node leaves the invariant for the next one.\<close>

lemma inv_restart:
  assumes "dom_inv P R ix par n d" "\<And>v. v \<in> R \<Longrightarrow> ix v < n" "k \<le> n"
  shows "dom_inv P R ix par k d"
  using assms unfolding dom_inv_def by auto

text \<open>The first value, of the root.\<close>

lemma inv_start:
  assumes O: "visit_order P R ix par"
  shows "dom_inv P R ix par 1 ((\<lambda>_. -1)(0 := 0))"
proof -
  let ?d = "(\<lambda>_. -1 :: int)(0 := 0)"
  have T: "idom_tree ix ?d"
    by (simp add: idom_tree_def)
  have "v = 0" if "v \<in> R" "ix v = 0" for v
    using that visit_orderD(1,3) [OF O] inj_onD [OF visit_orderD(4) [OF O], of v 0] by simp
  then show ?thesis
    unfolding dom_inv_def
    using T visit_orderD(1,5) [OF O] anc_root [OF T] by (auto dest: dominates_root)
qed

text \<open>When no step changes anything, the chains contain dominators only.\<close>

lemma stable_sound:
  assumes O: "visit_order P R ix par" and T: "idom_tree ix d"
    and stable: "\<And>v y. v \<in> R \<Longrightarrow> v \<noteq> 0 \<Longrightarrow> anc d (d v) y \<Longrightarrow> common P d v y"
    and all: "\<And>v. v \<in> R \<Longrightarrow> d v \<noteq> -1"
    and "v \<in> R" "anc d v y"
  shows "dominates P y v"
proof -
  have "y \<in> set ps" if "entry_path P ps v" "anc d v y" for ps v
    using that
  proof (induction rule: entry_path_induct)
    case root
    with anc_root [OF T] show ?case by simp
  next
    case (step ps p v)
    show ?case
    proof (cases "y = v")
      case False
      have p: "p \<in> R" "v \<in> R"
        using entry_path_reachable [OF step.hyps(1) O] visit_orderD(6) [OF O step.hyps(2)] by auto
      have "v \<noteq> 0"
        using False step.prems anc_root [OF T] by auto
      moreover have "anc d (d v) y"
        using step.prems False by (subst (asm) anc_cases) simp
      ultimately have "anc d p y"
        using stable [OF p(2)] step.hyps(2) all [OF p(1)] by (auto simp: common_def)
      with step.IH show ?thesis by simp
    qed simp
  qed
  with assms(6) show ?thesis by (simp add: dominates_def)
qed

end
