(* ===== verification/WalkerCorrect.thy ===== *)
theory WalkerCorrect
  imports Walker
begin

section \<open>What a depth-first walk visits\<close>

text \<open>
  The events of a walk as a relation, totality of the walk on well-formed graphs, and from it the
  correctness of the orders, of the reachability test and of the partition into components.
\<close>

subsection \<open>Events\<close>

datatype event = Pre int | Late int ControlFlowLink | Post int

fun pres :: "event list \<Rightarrow> int list" where
  "pres [] = []"
| "pres (Pre n # es) = n # pres es"
| "pres (e # es) = pres es"

fun posts :: "event list \<Rightarrow> int list" where
  "posts [] = []"
| "posts (Post n # es) = n # posts es"
| "posts (e # es) = posts es"

lemma pres_append [simp]: "pres (es @ fs) = pres es @ pres fs"
  by (induction es rule: pres.induct) auto

lemma posts_append [simp]: "posts (es @ fs) = posts es @ posts fs"
  by (induction es rule: posts.induct) auto

abbreviation targets :: "ControlFlowLink list \<Rightarrow> int set" where
  "targets ls \<equiv> getTargetID ` set ls"

text \<open>
  \<open>dfs out V u ls V' es\<close>: walking the links \<open>ls\<close> of \<open>u\<close> when the nodes of \<open>V\<close> are visited gives the
  events \<open>es\<close>, after which \<open>V'\<close> is visited.
\<close>

inductive dfs :: "(int \<Rightarrow> ControlFlowLink list) \<Rightarrow> int set \<Rightarrow> int \<Rightarrow> ControlFlowLink list \<Rightarrow> int set \<Rightarrow> event list \<Rightarrow> bool"
  for out where
  dfs_Nil: "dfs out V u [] V []"
| dfs_Late: "getTargetID l \<in> V \<Longrightarrow> dfs out V u ls V' es \<Longrightarrow> dfs out V u (l # ls) V' (Late u l # es)"
| dfs_Tree: "getTargetID l \<notin> V \<Longrightarrow>
    dfs out (insert (getTargetID l) V) (getTargetID l) (out (getTargetID l)) V1 es1 \<Longrightarrow>
    dfs out V1 u ls V2 es2 \<Longrightarrow>
    dfs out V u (l # ls) V2 (Pre (getTargetID l) # es1 @ Post (getTargetID l) # es2)"

lemma dfs_visited: "dfs out V u ls V' es \<Longrightarrow> V' = V \<union> set (pres es)"
  by (induction rule: dfs.induct) auto

lemma dfs_fresh: "dfs out V u ls V' es \<Longrightarrow> distinct (pres es) \<and> set (pres es) \<inter> V = {}"
  by (induction rule: dfs.induct) (auto dest!: dfs_visited)

lemma dfs_posts: "dfs out V u ls V' es \<Longrightarrow> mset (posts es) = mset (pres es)"
  by (induction rule: dfs.induct) auto

lemma dfs_posts_set: "dfs out V u ls V' es \<Longrightarrow> set (posts es) = set (pres es)"
  using dfs_posts mset_eq_setD by blast

lemma dfs_closed:
  "dfs out V u ls V' es \<Longrightarrow> targets ls \<subseteq> V' \<and> (\<forall>n \<in> set (pres es). targets (out n) \<subseteq> V')"
proof (induction rule: dfs.induct)
  case (dfs_Tree l V V1 es1 u ls V2 es2)
  have m: "V1 \<subseteq> V2" and l: "getTargetID l \<in> V1"
    using dfs_visited [OF dfs_Tree.hyps(2)] dfs_visited [OF dfs_Tree.hyps(3)] by auto
  have "targets (out n) \<subseteq> V2" if "n \<in> {getTargetID l} \<union> set (pres es1)" for n
    using that dfs_Tree.IH(1) m by blast
  with l m dfs_Tree.IH(2) show ?case by simp blast
qed (auto dest: dfs_visited)

definition edges :: "(int \<Rightarrow> ControlFlowLink list) \<Rightarrow> (int \<times> int) set" where
  "edges out = {(a, b). b \<in> targets (out a)}"

lemma dfs_reaches:
  "dfs out V u ls V' es \<Longrightarrow> n \<in> set (pres es) \<Longrightarrow> \<exists>t \<in> targets ls. (t, n) \<in> (edges out)\<^sup>*"
proof (induction arbitrary: n rule: dfs.induct)
  case (dfs_Tree l V V1 es1 u ls V2 es2)
  from dfs_Tree.prems consider "n = getTargetID l" | "n \<in> set (pres es1)" | "n \<in> set (pres es2)" by auto
  then show ?case
  proof cases
    case 2
    then obtain t where "t \<in> targets (out (getTargetID l))" "(t, n) \<in> (edges out)\<^sup>*"
      using dfs_Tree.IH(1) by blast
    then have "(getTargetID l, n) \<in> (edges out)\<^sup>*"
      by (auto simp: edges_def intro: converse_rtrancl_into_rtrancl)
    then show ?thesis by auto
  qed (use dfs_Tree.IH(2) in auto)
qed auto

text \<open>The walk of a well-formed graph ends.\<close>

lemma dfs_exists:
  assumes fin: "finite N" and out: "\<And>v. v \<in> N \<Longrightarrow> targets (out v) \<subseteq> N"
  shows "targets ls \<subseteq> N \<Longrightarrow> V \<subseteq> N \<Longrightarrow> \<exists>V' es. dfs out V u ls V' es \<and> V' \<subseteq> N"
proof (induction "card (N - V)" arbitrary: V u ls rule: less_induct)
  case less
  have smaller: "card (N - W) < card (N - V)" if "V \<subset> W" "W \<subseteq> N" for W
    using that fin by (intro psubset_card_mono) auto
  from less.prems show ?case
  proof (induction ls)
    case Nil
    then show ?case using dfs_Nil by blast
  next
    case (Cons l ls)
    let ?t = "getTargetID l"
    show ?case
    proof (cases "?t \<in> V")
      case True
      with Cons dfs_Late show ?thesis by (metis image_subset_iff list.set_intros(2))
    next
      case False
      with Cons.prems have 1: "V \<subset> insert ?t V" "insert ?t V \<subseteq> N" by auto
      obtain V1 es1 where d1: "dfs out (insert ?t V) ?t (out ?t) V1 es1" "V1 \<subseteq> N"
        using less.hyps [OF smaller [OF 1] out 1(2), of ?t ?t] Cons.prems by auto
      from dfs_visited [OF d1(1)] False have 2: "V \<subset> V1" by auto
      obtain V2 es2 where "dfs out V1 u ls V2 es2" "V2 \<subseteq> N"
        using less.hyps [OF smaller [OF 2 d1(2)], of ls u] Cons.prems d1(2) by auto
      with dfs_Tree [OF False d1(1)] show ?thesis by blast
    qed
  qed
qed

subsection \<open>The walker runs the collector on the events\<close>

fun run_event :: "ControlFlowGraph \<Rightarrow> 's Collector \<Rightarrow> event \<Rightarrow> 's \<Rightarrow> 's option" where
  "run_event g C (Pre n) s = c_preVisit C (graph g ! nat n) s"
| "run_event g C (Late n l) s = c_lateVisit C (graph g ! nat n) l s"
| "run_event g C (Post n) s = c_postVisit C (graph g ! nat n) s"

fun run_events :: "ControlFlowGraph \<Rightarrow> 's Collector \<Rightarrow> event list \<Rightarrow> 's \<Rightarrow> 's option" where
  "run_events g C [] s = Some s"
| "run_events g C (e # es) s = do { s \<leftarrow> run_event g C e s; run_events g C es s }"

lemma run_events_append: "run_events g C (es @ fs) s = do { s \<leftarrow> run_events g C es s; run_events g C fs s }"
  by (induction es arbitrary: s) (auto simp: bind_assoc split: bind_splits)

definition out_links :: "ControlFlowGraph \<Rightarrow> int \<Rightarrow> int \<Rightarrow> ControlFlowLink list" where
  "out_links g dir v = getLinks dir (graph g ! nat v)"

definition visited_set :: "bool list \<Rightarrow> int set" where
  "visited_set vs = {v. vec_at vs v = Some True}"

lemma visited_set_update: "in_graph g v \<Longrightarrow> length vs = graph_getCount g \<Longrightarrow>
    visited_set (vs[nat v := True]) = insert v (visited_set vs)"
  by (auto simp: visited_set_def vec_at_def nth_list_update split: if_splits)

lemma visited_set_at: "in_graph g v \<Longrightarrow> length vs = graph_getCount g \<Longrightarrow>
    vec_at vs v = Some (v \<in> visited_set vs)"
  by (auto simp: visited_set_def vec_at_def)

lemma graph_get_in: "in_graph g v \<Longrightarrow> graph_get g v = Some (graph g ! nat v)"
  by (auto simp: graph_get_def vec_at_def graph_getCount_def)

lemma graph_ok_out: "graph_ok g \<Longrightarrow> in_graph g v \<Longrightarrow> l \<in> set (out_links g dir v) \<Longrightarrow> in_graph g (getTargetID l)"
  by (auto simp: graph_ok_def out_links_def getLinks_def list_all_iff nat_less_iff dest!: spec [of _ "nat v"] split: if_splits)

lemma walk_enter_eq:
  assumes "in_graph g v" "length (visited w) = graph_getCount g"
  shows "walk_enter g C v w =
    map_option (\<lambda>s. \<lparr>visited = (visited w)[nat v := True], collector = s\<rparr>) (run_event g C (Pre v) (collector w))"
  using assms by (auto simp: walk_enter_def graph_get_in vec_set_def nat_less_iff map_conv_bind_option comp_def)

lemma walk_leave_eq:
  "in_graph g v \<Longrightarrow> walk_leave g C v w = map_option (\<lambda>s. w\<lparr>collector := s\<rparr>) (run_event g C (Post v) (collector w))"
  by (auto simp: walk_leave_def graph_get_in map_conv_bind_option comp_def)

lemma walk_links_run:
  assumes "dfs (out_links g dir) V u ls V' es" and ok: "graph_ok g"
    and "in_graph g u" "\<forall>l \<in> set ls. in_graph g (getTargetID l)"
    and "visited_set (visited w) = V" "length (visited w) = graph_getCount g"
    and "run_events g C es (collector w) = Some s"
  shows "\<exists>vs. visited_set vs = V' \<and> length vs = graph_getCount g \<and>
    walk_links g C dir u ls w = Some \<lparr>visited = vs, collector = s\<rparr>"
  using assms(1,3-)
proof (induction arbitrary: w s rule: dfs.induct)
  case (dfs_Nil V u)
  then show ?case by (cases w) (auto simp: walk_links.simps)
next
  case (dfs_Late l V u ls V' es)
  from dfs_Late.prems(5) obtain s1 where s1: "c_lateVisit C (graph g ! nat u) l (collector w) = Some s1"
      "run_events g C es s1 = Some s"
    by (auto split: bind_splits)
  from dfs_Late.prems dfs_Late.hyps have "vec_at (visited w) (getTargetID l) = Some True"
    using visited_set_at [where g = g and v = "getTargetID l" and vs = "visited w"] by simp
  with dfs_Late.IH [of "w\<lparr>collector := s1\<rparr>" s] dfs_Late.prems s1 show ?case
    by (simp add: walk_links.simps [of g C dir u "l # ls"] graph_get_in)
next
  case (dfs_Tree l V V1 es1 u ls V2 es2)
  let ?t = "getTargetID l"
  from dfs_Tree.prems have t: "in_graph g ?t" and len: "length (visited w) = graph_getCount g" by auto
  from dfs_Tree.prems(5) obtain s1 s2 s3 where
      s1: "run_event g C (Pre ?t) (collector w) = Some s1" and
      s2: "run_events g C es1 s1 = Some s2" and s3: "run_event g C (Post ?t) s2 = Some s3" and
      s: "run_events g C es2 s3 = Some s"
    by (auto simp: run_events_append split: bind_splits)
  have no: "vec_at (visited w) ?t = Some False"
    using dfs_Tree.prems(3) dfs_Tree.hyps(1) visited_set_at [OF t len] by simp
  obtain vs1 where vs1: "visited_set vs1 = V1" "length vs1 = graph_getCount g"
      "walk_links g C dir ?t (out_links g dir ?t) \<lparr>visited = (visited w)[nat ?t := True], collector = s1\<rparr> =
        Some \<lparr>visited = vs1, collector = s2\<rparr>"
    using dfs_Tree.IH(1) [of "\<lparr>visited = (visited w)[nat ?t := True], collector = s1\<rparr>" s2] t len s2
      visited_set_update [OF t len] dfs_Tree.prems(3) graph_ok_out [OF ok t] by auto
  then show ?case
    using dfs_Tree.IH(2) [of "\<lparr>visited = vs1, collector = s3\<rparr>" s] dfs_Tree.prems s s1 s3 no
    by (simp add: walk_links.simps [of g C dir u "l # ls"] walk_enter_eq walk_leave_eq t len graph_get_in
        out_links_def [symmetric] del: run_event.simps)
qed

text \<open>A walk from \<open>r\<close>, with its events.\<close>

definition walk_events :: "ControlFlowGraph \<Rightarrow> int \<Rightarrow> int \<Rightarrow> int set \<Rightarrow> event list \<Rightarrow> bool" where
  "walk_events g dir r V es \<longleftrightarrow>
     (\<exists>fs. es = Pre r # fs @ [Post r] \<and> dfs (out_links g dir) {r} r (out_links g dir r) V fs)"

lemma walk_events_exist:
  assumes "graph_ok g" "in_graph g r"
  shows "\<exists>V es. walk_events g dir r V es"
proof -
  let ?N = "{v. in_graph g v}"
  have "finite ?N"
    by (rule finite_subset [of _ "{0..<int (graph_getCount g)}"]) auto
  moreover have "targets (out_links g dir v) \<subseteq> ?N" if "v \<in> ?N" for v
    using graph_ok_out [OF assms(1)] that by auto
  ultimately show ?thesis
    using dfs_exists [of ?N "out_links g dir" "out_links g dir r" "{r}" r] assms(2)
    by (auto simp: walk_events_def)
qed

lemma walkHelper_run:
  assumes "walk_events g dir r V es" "graph_ok g" "in_graph g r"
    and "run_events g C es s = Some s'"
  shows "\<exists>vs. visited_set vs = V \<and> length vs = graph_getCount g \<and>
    walkHelper g C r dir \<lparr>visited = replicate (graph_getCount g) False, collector = s\<rparr> =
      Some \<lparr>visited = vs, collector = s'\<rparr>"
proof -
  let ?vs = "replicate (graph_getCount g) False"
  from assms(1) obtain fs where es: "es = Pre r # fs @ [Post r]"
      and d: "dfs (out_links g dir) {r} r (out_links g dir r) V fs"
    by (auto simp: walk_events_def)
  obtain s1 s2 where s: "run_event g C (Pre r) s = Some s1" "run_events g C fs s1 = Some s2"
      "run_event g C (Post r) s2 = Some s'"
    using assms(4) by (auto simp: es run_events_append split: bind_splits)
  have "visited_set (?vs[nat r := True]) = {r}"
    using assms(3) by (auto simp: visited_set_def vec_at_def nth_list_update split: if_splits)
  then obtain vs where "visited_set vs = V" "length vs = graph_getCount g"
      "walk_links g C dir r (out_links g dir r) \<lparr>visited = ?vs[nat r := True], collector = s1\<rparr> =
        Some \<lparr>visited = vs, collector = s2\<rparr>"
    using walk_links_run [OF d assms(2,3), of "\<lparr>visited = ?vs[nat r := True], collector = s1\<rparr>" C s2]
      s(2) graph_ok_out [OF assms(2,3)] by auto
  with s assms(3) show ?thesis
    by (simp add: walkHelper_def walk_enter_eq walk_leave_eq graph_get_in out_links_def [symmetric]
        del: run_event.simps)
qed

lemma walk_run:
  assumes "walk_events g dir r V es" "graph_ok g" "in_graph g r"
    and "run_events g C es (c_reset C s) = Some s'"
  shows "walk g C r dir s = c_finish C s'"
  using walkHelper_run [OF assms] by (auto simp: walk_def)

subsection \<open>Reachable nodes\<close>

definition reaches :: "ControlFlowGraph \<Rightarrow> int \<Rightarrow> int \<Rightarrow> int \<Rightarrow> bool" where
  "reaches g dir u v \<longleftrightarrow> (u, v) \<in> (edges (out_links g dir))\<^sup>*"

lemma reaches_refl [simp, intro]: "reaches g dir u u"
  by (simp add: reaches_def)

lemma reaches_step: "reaches g dir u v \<Longrightarrow> w \<in> targets (out_links g dir v) \<Longrightarrow> reaches g dir u w"
  by (auto simp: reaches_def edges_def intro: rtrancl_into_rtrancl)

lemma reaches_induct [consumes 1, case_names refl step]:
  assumes "reaches g dir u v" "P u"
    and "\<And>v w. reaches g dir u v \<Longrightarrow> P v \<Longrightarrow> w \<in> targets (out_links g dir v) \<Longrightarrow> P w"
  shows "P v"
  using assms(1) unfolding reaches_def
proof (induction rule: rtrancl_induct)
  case (step v w)
  with assms(3) show ?case by (auto simp: reaches_def edges_def)
qed (rule assms(2))

lemma reaches_in_graph: "reaches g dir u v \<Longrightarrow> graph_ok g \<Longrightarrow> in_graph g u \<Longrightarrow> in_graph g v"
  by (induction rule: reaches_induct) (use graph_ok_out in blast)+

lemma walk_events_nodes:
  assumes "walk_events g dir r V es"
  shows "set (pres es) = {v. reaches g dir r v}" "distinct (pres es)" "mset (posts es) = mset (pres es)"
proof -
  from assms obtain fs where es: "es = Pre r # fs @ [Post r]"
      and d: "dfs (out_links g dir) {r} r (out_links g dir r) V fs"
    by (auto simp: walk_events_def)
  show "distinct (pres es)" "mset (posts es) = mset (pres es)"
    using dfs_fresh [OF d] dfs_posts [OF d] by (auto simp: es)
  have "v \<in> set (pres es)" if "reaches g dir r v" for v
    using that
  proof (induction rule: reaches_induct)
    case (step v w)
    then show ?case
      using dfs_closed [OF d] dfs_visited [OF d] by (auto simp: es) blast+
  qed (simp add: es)
  moreover have "reaches g dir r v" if "v \<in> set (pres fs)" for v
    using dfs_reaches [OF d that] by (auto simp: reaches_def edges_def intro: converse_rtrancl_into_rtrancl)
  ultimately show "set (pres es) = {v. reaches g dir r v}"
    by (auto simp: es)
qed

lemma walk_events_in_graph:
  assumes "walk_events g dir r V es" "graph_ok g" "in_graph g r"
  shows "\<forall>n \<in> set (pres es). in_graph g n" "\<forall>n \<in> set (posts es). in_graph g n"
proof -
  show p: "\<forall>n \<in> set (pres es). in_graph g n"
    unfolding walk_events_nodes(1) [OF assms(1)] using reaches_in_graph [OF _ assms(2,3)] by blast
  then show "\<forall>n \<in> set (posts es). in_graph g n"
    unfolding mset_eq_setD [OF walk_events_nodes(3) [OF assms(1)]] .
qed

subsection \<open>The orders\<close>

fun visits :: "VisitType \<Rightarrow> event list \<Rightarrow> int list" where
  "visits vt [] = []"
| "visits vt (Pre n # es) = visit_pre vt n [] @ visits vt es"
| "visits vt (Late n l # es) = visits vt es"
| "visits vt (Post n # es) = visit_post vt n [] @ visits vt es"

lemma visits_pre: "visits PreorderVisitor es = pres es"
  by (induction es rule: pres.induct) auto

lemma visits_post: "visits PostorderVisitor es = posts es"
  by (induction es rule: posts.induct) auto

lemma visit_append: "visit_pre vt n o1 = o1 @ visit_pre vt n []" "visit_post vt n o1 = o1 @ visit_post vt n []"
  by (cases vt; simp)+

lemma graph_ok_ID: "graph_ok g \<Longrightarrow> in_graph g n \<Longrightarrow> getID (graph g ! nat n) = n"
  by (auto simp: graph_ok_def nat_less_iff)

lemma node_collector_run:
  assumes "graph_ok g"
  shows "\<forall>n \<in> set (pres es) \<union> set (posts es). in_graph g n \<Longrightarrow>
    run_events g (node_collector vt ft) es \<lparr>nc_order = [o1], nc_lap = 0\<rparr> =
      Some \<lparr>nc_order = [o1 @ visits vt es], nc_lap = 0\<rparr>"
proof (induction es arbitrary: o1)
  case (Cons e es)
  then show ?case
    by (cases e) (simp_all add: node_collector_def nc_update_def vec_at_def vec_set_def graph_ok_ID [OF assms]
      visit_append(1) [of vt _ o1] visit_append(2) [of vt _ o1] flip: append_assoc)
qed simp

lemma gen_order_events:
  assumes "walk_events g dir r V es" "graph_ok g" "in_graph g r"
  shows "gen_order dir vt ft g r = Some [finish_list ft (visits vt es)]"
proof -
  have "run_events g (node_collector vt ft) es (c_reset (node_collector vt ft) (newNodeCollection g)) =
      Some \<lparr>nc_order = [visits vt es], nc_lap = 0\<rparr>"
    using node_collector_run [OF assms(2), of es vt ft "[]"] walk_events_in_graph [OF assms]
    by (simp add: node_collector_def ball_Un)
  from walk_run [OF assms this] show ?thesis
    by (simp add: gen_order_def node_collector_def)
qed

text \<open>Every order returns, and lists each node reachable from the start exactly once.\<close>

lemma gen_order_reachable:
  assumes "graph_ok g" "in_graph g r" "vt \<noteq> PrePostorderVisitor"
  shows "\<exists>ord. gen_order dir vt ft g r = Some [ord] \<and> distinct ord \<and> set ord = {v. reaches g dir r v}"
proof -
  obtain V es where es: "walk_events g dir r V es"
    using walk_events_exist [OF assms(1,2)] by blast
  note nodes = walk_events_nodes [OF es]
  have "distinct (posts es)" "set (posts es) = set (pres es)"
    using nodes(2,3) mset_eq_imp_distinct_iff mset_eq_setD by blast+
  with nodes gen_order_events [OF es assms(1,2)] assms(3) show ?thesis
    by (cases vt; cases ft) (auto simp: visits_pre visits_post)
qed

text \<open>In a postorder, every node but the start comes before one of its predecessors.\<close>

definition before :: "'a list \<Rightarrow> 'a \<Rightarrow> 'a \<Rightarrow> bool" where
  "before xs a b \<longleftrightarrow> (\<exists>as bs cs. xs = as @ a # bs @ b # cs)"

lemma before_appendI:
  "before xs a b \<Longrightarrow> before (xs @ ys) a b" "before ys a b \<Longrightarrow> before (xs @ ys) a b"
  "a \<in> set xs \<Longrightarrow> b \<in> set ys \<Longrightarrow> before (xs @ ys) a b"
proof -
  show "before (xs @ ys) a b" if "before xs a b"
    using that unfolding before_def by (metis append.assoc append_Cons)
  show "before (xs @ ys) a b" if "before ys a b"
    using that unfolding before_def by (metis append.assoc)
  show "before (xs @ ys) a b" if "a \<in> set xs" "b \<in> set ys"
    using split_list [OF that(1)] split_list [OF that(2)] unfolding before_def
    by (metis append.assoc append_Cons)
qed

lemma before_rev:
  assumes "before xs a b"
  shows "before (rev xs) b a"
proof -
  obtain as bs cs where "xs = as @ a # bs @ b # cs"
    using assms by (auto simp: before_def)
  then have "rev xs = rev cs @ b # rev bs @ a # rev as" by simp
  then show ?thesis unfolding before_def by blast
qed

lemma dfs_parent:
  "dfs out V u ls V' es \<Longrightarrow> n \<in> set (pres es) \<Longrightarrow>
    n \<in> targets ls \<or> (\<exists>p. n \<in> targets (out p) \<and> before (posts es) n p)"
proof (induction rule: dfs.induct)
  case (dfs_Tree l V V1 es1 u ls V2 es2)
  let ?t = "getTargetID l"
  have split: "posts (Pre ?t # es1 @ Post ?t # es2) = posts es1 @ ?t # posts es2" by simp
  from dfs_Tree.prems consider "n = ?t" | "n \<in> set (pres es1)" | "n \<in> set (pres es2)" by auto
  then show ?case
  proof cases
    case 2
    then have "n \<in> set (posts es1)"
      using dfs_posts_set [OF dfs_Tree.hyps(2)] by simp
    then have "before (posts es1 @ ?t # posts es2) n ?t"
      by (rule before_appendI(3)) simp
    moreover have "before (posts es1 @ ?t # posts es2) n p" if "before (posts es1) n p" for p
      using that by (rule before_appendI(1))
    ultimately show ?thesis
      using dfs_Tree.IH(1) [OF 2] unfolding split by metis
  next
    case 3
    have "before (posts es1 @ ?t # posts es2) n p" if "before (posts es2) n p" for p
      using before_appendI(2) [OF that, of "posts es1 @ [?t]"] by simp
    then show ?thesis
      using dfs_Tree.IH(2) [OF 3] unfolding split list.set(2) by blast
  qed simp
qed auto

lemma reverse_postorder:
  assumes "graph_ok g" "in_graph g r"
  shows "\<exists>ord. gen_order dir PostorderVisitor ReverseFinisher g r = Some [r # ord] \<and> distinct (r # ord) \<and>
    set (r # ord) = {v. reaches g dir r v} \<and>
    (\<forall>v \<in> set ord. \<exists>p. v \<in> targets (out_links g dir p) \<and> before (r # ord) p v)"
proof -
  obtain V es where es: "walk_events g dir r V es"
    using walk_events_exist [OF assms(1,2)] by blast
  then obtain fs where fs: "es = Pre r # fs @ [Post r]"
      and d: "dfs (out_links g dir) {r} r (out_links g dir r) V fs"
    by (auto simp: walk_events_def)
  let ?ord = "rev (posts fs)"
  have "gen_order dir PostorderVisitor ReverseFinisher g r = Some [r # ?ord]"
    using gen_order_events [OF es assms] by (simp add: visits_post fs)
  moreover obtain ord where "gen_order dir PostorderVisitor ReverseFinisher g r = Some [ord]"
      "distinct ord" "set ord = {v. reaches g dir r v}"
    using gen_order_reachable [OF assms, of PostorderVisitor] by blast
  moreover have "\<exists>p. v \<in> targets (out_links g dir p) \<and> before (r # ?ord) p v" if "v \<in> set ?ord" for v
  proof -
    from that have v: "v \<in> set (posts fs)" by simp
    have "before (r # ?ord) r v"
      using before_appendI(3) [of r "[r]" v ?ord] v by simp
    moreover have "before (r # ?ord) p v" if "before (posts fs) v p" for p
      using before_appendI(2) [of ?ord p v "[r]"] that by (simp add: before_rev)
    ultimately show ?thesis
      using dfs_parent [OF d, of v] v dfs_posts_set [OF d] by blast
  qed
  ultimately show ?thesis by (metis list.inject option.inject)
qed

text \<open>The graph of the sample function.\<close>

definition sample_graph :: ControlFlowGraph where
  "sample_graph =
     \<lparr>graph =
        [\<lparr>getID = 0, getBlock = 10, links = [\<lparr>getTargetID = 2, getOffset = 0, getFollowJump = True\<rparr>,
            \<lparr>getTargetID = 1, getOffset = 0, getFollowJump = False\<rparr>], reverseLinks = []\<rparr>,
         \<lparr>getID = 1, getBlock = 11, links = [\<lparr>getTargetID = 3, getOffset = 0, getFollowJump = True\<rparr>,
            \<lparr>getTargetID = 1, getOffset = 0, getFollowJump = True\<rparr>],
          reverseLinks = [\<lparr>getTargetID = 0, getOffset = 4, getFollowJump = False\<rparr>,
            \<lparr>getTargetID = 1, getOffset = 8, getFollowJump = True\<rparr>]\<rparr>,
         \<lparr>getID = 2, getBlock = 12, links = [\<lparr>getTargetID = 3, getOffset = 0, getFollowJump = False\<rparr>],
          reverseLinks = [\<lparr>getTargetID = 0, getOffset = 4, getFollowJump = True\<rparr>]\<rparr>,
         \<lparr>getID = 3, getBlock = 13, links = [],
          reverseLinks = [\<lparr>getTargetID = 1, getOffset = 8, getFollowJump = True\<rparr>,
            \<lparr>getTargetID = 2, getOffset = 8, getFollowJump = False\<rparr>]\<rparr>],
      blockMapping = [10 \<mapsto> 0, 11 \<mapsto> 1, 12 \<mapsto> 2, 13 \<mapsto> 3]\<rparr>"

lemmas construct_eval = newControlFlowGraph_def construct_block_def construct_jump_def link_into_def
  construct_fallThrough_def add_edge_def vec_at_def vec_set_def addLink_def addReverseLink_def newNode_cfg_def
  follows_link_def cfi_fallThrough_def indirect_is_call_def address_of_def offset_int_def

lemma sample_graph_eq: "newControlFlowGraph ARCH_X86_64 sample_function = Some sample_graph"
  by (simp add: construct_eval sample_function_def sample_graph_def nat_numeral)

lemma sample_graph_ok: "graph_ok sample_graph" "in_graph sample_graph 0" "graph_getCount sample_graph = 4"
  by (simp_all add: graph_ok_def graph_getCount_def sample_graph_def All_less_Suc)

text \<open>Claim C21: \<^verbatim>\<open>isReachable\<close> returns on a well-formed graph, with any of the walkers that list nodes once, and
  answers whether there is a path.\<close>

theorem isReachable_iff:
  assumes "graph_ok g" "in_graph g src" "vt \<noteq> PrePostorderVisitor"
  shows "isReachable (gen_order dir vt ft) g src dest = Some (reaches g dir src dest)"
  using gen_order_reachable [OF assms, of dir ft] by (auto simp: isReachable_def vec_at_def)

theorem isReachable_iff_witness:
  "isReachable (gen_order 1 PreorderVisitor EmptyFinisher) sample_graph 0 3 = Some (reaches sample_graph 1 0 3)"
  using isReachable_iff [OF sample_graph_ok(1,2), of PreorderVisitor 1 EmptyFinisher 3] by simp

text \<open>
  The variant with a prune predicate walks the whole graph first and then skips the events between
  entering and leaving a pruned node. A node that the walk met below a pruned node is skipped even when
  another path reaches it: here block 3 is reached through block 1 as well as through the pruned block 2.
\<close>

lemma pruned_search_misses:
  "isReachable_pruned (\<lambda>n src dest. n = 2) sample_graph 0 3 = Some False"
  "1 \<in> targets (links (graph sample_graph ! 0))" "3 \<in> targets (links (graph sample_graph ! 1))"
  by code_simp+

end
