(* ===== verification/SccCorrect.thy ===== *)
theory SccCorrect
  imports WalkerCorrect
begin

section \<open>The partition into components\<close>

text \<open>
  \<^verbatim>\<open>SccCollection\<close> moves every node through two stacks, one in the order of entering and one in the order
  of leaving, and takes the same number of nodes off both when it closes a component. The lemmas show
  that the stacks hold the same nodes above any node that is being left, so that the collector never
  runs off a stack and puts every reachable node into exactly one component.
\<close>

definition scc_ok :: "ControlFlowGraph \<Rightarrow> SccCollection \<Rightarrow> bool" where
  "scc_ok g s \<longleftrightarrow>
     length (discovery s) = graph_getCount g \<and> length (lowLink s) = graph_getCount g \<and>
     length (onStack s) = graph_getCount g \<and> (\<exists>gs. sccOrder s = gs @ [[]] \<and> scc s = int (length gs))"

lemma vec_at_in: "in_graph g v \<Longrightarrow> length xs = graph_getCount g \<Longrightarrow> vec_at xs v = Some (xs ! nat v)"
  by (auto simp: vec_at_def)

lemma vec_set_in: "in_graph g v \<Longrightarrow> length xs = graph_getCount g \<Longrightarrow> vec_set xs v x = Some (xs[nat v := x])"
  by (auto simp: vec_set_def)

lemma scc_lower_total:
  assumes "in_graph g i" "length d = graph_getCount g" "\<forall>l \<in> set ls. in_graph g (getTargetID l)"
  shows "length low = graph_getCount g \<Longrightarrow> \<exists>low'. scc_lower d i ls low = Some low' \<and> length low' = graph_getCount g"
  using assms(3)
proof (induction ls arbitrary: low)
  case (Cons l ls)
  then have l: "in_graph g (getTargetID l)" by simp
  show ?case
    using Cons.IH [of low] Cons.IH [of "low[nat i := min (low ! nat i) (low ! nat (getTargetID l))]"] Cons.prems
    by (simp add: vec_at_in [OF assms(1)] vec_at_in [OF l] vec_set_in [OF assms(1)] assms(2))
qed simp

lemma scc_pop_total:
  assumes "i \<notin> set xs" "\<forall>x \<in> set (xs @ [i]). in_graph g x"
  shows "length on = graph_getCount g \<Longrightarrow>
    \<exists>on'. scc_pop i (xs @ i # ys) on = Some (length xs + 1, on') \<and> length on' = graph_getCount g"
  using assms
proof (induction xs arbitrary: on)
  case Nil
  then have "in_graph g i" by simp
  with Nil show ?case by (simp add: vec_set_in [where g = g])
next
  case (Cons x xs)
  then have x: "in_graph g x" by simp
  obtain on' where "scc_pop i (xs @ i # ys) (on[nat x := False]) = Some (length xs + 1, on')" "length on' = graph_getCount g"
    using Cons.IH [of "on[nat x := False]"] Cons.prems by auto
  with Cons.prems show ?case by (auto simp: vec_set_in [OF x])
qed

text \<open>What a run of events adds to the stacks and to the list of components.\<close>

definition scc_gain :: "SccCollection \<Rightarrow> SccCollection \<Rightarrow> int list \<Rightarrow> int list \<Rightarrow> int list list \<Rightarrow> bool" where
  "scc_gain s s' A B gs \<longleftrightarrow>
     stack s' = stack s @ A \<and> poStack s' = poStack s @ B \<and> sccOrder s' = butlast (sccOrder s) @ gs @ [[]] \<and>
     mset A = mset B \<and> [] \<notin> set gs"

lemma scc_gain_trans:
  "scc_gain s s1 A1 B1 gs1 \<Longrightarrow> scc_gain s1 s2 A2 B2 gs2 \<Longrightarrow> scc_gain s s2 (A1 @ A2) (B1 @ B2) (gs1 @ gs2)"
  by (auto simp: scc_gain_def butlast_append)

lemma scc_late_total:
  assumes "scc_ok g s" "in_graph g (getID n)" "in_graph g (getTargetID l)"
  shows "\<exists>s'. scc_lateVisit n l s = Some s' \<and> scc_ok g s' \<and> scc_gain s s' [] [] []"
proof -
  from assms(1) have "length (discovery s) = graph_getCount g" "length (lowLink s) = graph_getCount g"
      "length (onStack s) = graph_getCount g"
    by (auto simp: scc_ok_def)
  with assms show ?thesis
    by (auto simp: scc_lateVisit_def vec_at_in [OF assms(2)] vec_at_in [OF assms(3)] vec_set_in [OF assms(2)]
        scc_ok_def scc_gain_def)
qed

lemma scc_pre_total:
  assumes "scc_ok g s" "in_graph g (getID n)"
  shows "\<exists>s'. scc_preVisit n s = Some s' \<and> scc_ok g s' \<and> stack s' = stack s @ [getID n] \<and>
    poStack s' = poStack s \<and> sccOrder s' = sccOrder s"
  using assms by (auto simp: scc_preVisit_def scc_ok_def vec_set_in)

lemma scc_close_total:
  assumes ok: "scc_ok g s" and stacks: "stack s = S @ i # A" "poStack s = T @ B" "mset B = mset (i # A)"
    and A: "i \<notin> set A" "\<forall>x \<in> set (i # A). in_graph g x"
  shows "\<exists>s'. scc_close ft i s = Some s' \<and> scc_ok g s' \<and> stack s' = S \<and> poStack s' = T \<and>
    sccOrder s' = butlast (sccOrder s) @ [finish_list ft B] @ [[]]"
proof -
  obtain gs where gs: "sccOrder s = gs @ [[]]" "scc s = int (length gs)"
    using ok by (auto simp: scc_ok_def)
  obtain on where on: "scc_pop i (rev A @ i # rev S) (onStack s) = Some (length A + 1, on)" "length on = graph_getCount g"
    using scc_pop_total [of i "rev A" g "onStack s" "rev S"] A ok by (auto simp: scc_ok_def)
  have len: "length B = length A + 1"
    using mset_eq_length [OF stacks(3)] by simp
  then show ?thesis
    using ok on stacks gs by (auto simp: scc_close_def scc_ok_def Let_def)
qed

lemma scc_post_total:
  assumes ok: "scc_ok g s" and n: "getID n = i" "\<forall>l \<in> set (getLinks dir n). in_graph g (getTargetID l)"
    and stacks: "stack s = S @ i # A" "poStack s = T @ B" "mset B = mset A"
    and A: "i \<notin> set A" "\<forall>x \<in> set (i # A). in_graph g x"
  shows "\<exists>s' A' B' gs. scc_postVisit dir ft n s = Some s' \<and> scc_ok g s' \<and> stack s' = S @ A' \<and> poStack s' = T @ B' \<and>
    sccOrder s' = butlast (sccOrder s) @ gs @ [[]] \<and> mset A' = mset B' \<and> [] \<notin> set gs \<and>
    mset (concat gs) + mset A' = mset (i # A)"
proof -
  have i: "in_graph g i" using A(2) by simp
  have len: "length (discovery s) = graph_getCount g" "length (lowLink s) = graph_getCount g"
    using ok by (auto simp: scc_ok_def)
  obtain low where low: "scc_lower (discovery s) i (getLinks dir n) (lowLink s) = Some low" "length low = graph_getCount g"
    using scc_lower_total [OF i len(1) n(2) len(2)] by blast
  let ?s = "s\<lparr>lowLink := low, poStack := poStack s @ [i]\<rparr>"
  have ok': "scc_ok g ?s"
    using ok low(2) by (auto simp: scc_ok_def)
  have post: "scc_postVisit dir ft n s = (if discovery s ! nat i = low ! nat i then scc_close ft i ?s else Some ?s)"
    using low n(1) len by (simp add: scc_postVisit_def vec_at_in [OF i] Let_def)
  show ?thesis
  proof (cases "discovery s ! nat i = low ! nat i")
    case True
    obtain s' where s': "scc_close ft i ?s = Some s'" "scc_ok g s'" "stack s' = S" "poStack s' = T"
        "sccOrder s' = butlast (sccOrder s) @ [finish_list ft (B @ [i])] @ [[]]"
      using scc_close_total [OF ok', of S i A T "B @ [i]" ft] stacks A by auto
    have "mset (finish_list ft (B @ [i])) = mset (i # A)" "finish_list ft (B @ [i]) \<noteq> []"
      using stacks(3) by (cases ft; simp)+
    with s' True show ?thesis
      unfolding post by (intro exI [of _ s'] exI [of _ "[]"] exI [of _ "[finish_list ft (B @ [i])]"]) simp
  next
    case False
    obtain gs where "sccOrder s = gs @ [[]]"
      using ok by (auto simp: scc_ok_def)
    with False ok' stacks show ?thesis
      unfolding post by (intro exI [of _ ?s] exI [of _ "i # A"] exI [of _ "B @ [i]"] exI [of _ "[]"]) simp
  qed
qed

lemma scc_events:
  assumes "dfs (out_links g dir) V u ls V' es" and ok: "graph_ok g"
    and "in_graph g u" "\<forall>l \<in> set ls. in_graph g (getTargetID l)" "scc_ok g s"
  shows "\<exists>s' A B gs. run_events g (scc_collector dir ft) es s = Some s' \<and> scc_ok g s' \<and> scc_gain s s' A B gs \<and>
    mset (concat gs) + mset A = mset (pres es)"
  using assms(1,3-)
proof (induction arbitrary: s rule: dfs.induct)
  case (dfs_Nil V u)
  then have "scc_gain s s [] [] []"
    by (auto simp: scc_ok_def scc_gain_def)
  with dfs_Nil.prems(3) show ?case by (intro exI [of _ s] exI [of _ "[]"]) simp
next
  case (dfs_Late l V u ls V' es)
  obtain s1 where s1: "scc_lateVisit (graph g ! nat u) l s = Some s1" "scc_ok g s1" "scc_gain s s1 [] [] []"
    using scc_late_total [OF dfs_Late.prems(3), of "graph g ! nat u" l] dfs_Late.prems graph_ok_ID [OF ok] by auto
  obtain s' A B gs where s': "run_events g (scc_collector dir ft) es s1 = Some s'" "scc_ok g s'" "scc_gain s1 s' A B gs"
      "mset (concat gs) + mset A = mset (pres es)"
    using dfs_Late.IH [OF dfs_Late.prems(1) _ s1(2)] dfs_Late.prems(2) by auto
  from scc_gain_trans [OF s1(3) s'(3)] s1(1) s' show ?case
    by (auto simp: scc_collector_def)
next
  case (dfs_Tree l V V1 es1 u ls V2 es2)
  let ?t = "getTargetID l"
  let ?n = "graph g ! nat ?t"
  have t: "in_graph g ?t" and ID: "getID ?n = ?t"
    using dfs_Tree.prems(2) graph_ok_ID [OF ok] by auto
  have lt: "\<forall>k \<in> set (out_links g dir ?t). in_graph g (getTargetID k)"
    using graph_ok_out [OF ok t] by blast
  obtain s1 where s1: "scc_preVisit ?n s = Some s1" "scc_ok g s1" "stack s1 = stack s @ [?t]"
      "poStack s1 = poStack s" "sccOrder s1 = sccOrder s"
    using scc_pre_total [OF dfs_Tree.prems(3), of ?n] t ID by auto
  obtain s2 A B gs where s2: "run_events g (scc_collector dir ft) es1 s1 = Some s2" "scc_ok g s2" "scc_gain s1 s2 A B gs"
      "mset (concat gs) + mset A = mset (pres es1)"
    using dfs_Tree.IH(1) [OF t lt s1(2)] by blast
  have A: "set A \<subseteq> set (pres es1)"
    using arg_cong [OF s2(4), of set_mset] by auto
  have "in_graph g x" if "x \<in> set (pres es1)" for x
    using dfs_reaches [OF dfs_Tree.hyps(2) that] reaches_in_graph [OF _ ok, of dir _ x] lt
    unfolding reaches_def by blast
  with A t have "?t \<notin> set A" "\<forall>x \<in> set (?t # A). in_graph g x"
    using dfs_fresh [OF dfs_Tree.hyps(2)] by auto
  then obtain s3 A' B' gs' where s3: "scc_postVisit dir ft ?n s2 = Some s3" "scc_ok g s3" "stack s3 = stack s @ A'"
      "poStack s3 = poStack s @ B'" "sccOrder s3 = butlast (sccOrder s2) @ gs' @ [[]]" "mset A' = mset B'"
      "[] \<notin> set gs'" "mset (concat gs') + mset A' = mset (?t # A)"
    using scc_post_total [OF s2(2) ID, of dir "stack s" A "poStack s" B ft] lt s1 s2(3)
    by (auto simp: scc_gain_def out_links_def)
  have g3: "scc_gain s s3 A' B' (gs @ gs')"
    using s2(3) s3 s1(5) by (auto simp: scc_gain_def butlast_append)
  obtain s4 A2 B2 gs2 where s4: "run_events g (scc_collector dir ft) es2 s3 = Some s4" "scc_ok g s4" "scc_gain s3 s4 A2 B2 gs2"
      "mset (concat gs2) + mset A2 = mset (pres es2)"
    using dfs_Tree.IH(2) [OF dfs_Tree.prems(1) _ s3(2)] dfs_Tree.prems(2) by auto
  have "run_events g (scc_collector dir ft) (Pre ?t # es1 @ Post ?t # es2) s = Some s4"
    using s1(1) s2(1) s3(1) s4(1) by (simp add: scc_collector_def run_events_append)
  moreover have "mset (concat ((gs @ gs') @ gs2)) + mset (A' @ A2) = mset (pres (Pre ?t # es1 @ Post ?t # es2))"
  proof -
    have "mset (concat ((gs @ gs') @ gs2)) + mset (A' @ A2) =
        mset (concat gs) + (mset (concat gs') + mset A') + (mset (concat gs2) + mset A2)"
      by simp
    also have "\<dots> = mset (concat gs) + mset (?t # A) + mset (pres es2)"
      unfolding s3(8) s4(4) ..
    also have "\<dots> = add_mset ?t (mset (concat gs) + mset A) + mset (pres es2)"
      by simp
    finally show ?thesis
      unfolding s2(4) by simp
  qed
  ultimately show ?case
    using scc_gain_trans [OF g3 s4(3)] s4(2) by blast
qed

text \<open>
  The whole walk. Closing the start empties the stacks, because nothing was discovered before it.
\<close>

lemma scc_walk_events:
  assumes es: "walk_events g dir r V es" and ok: "graph_ok g" "in_graph g r"
  shows "\<exists>s' A B gs. run_events g (scc_collector dir ft) es (scc_reset (newSccCollection g)) = Some s' \<and>
    stack s' = A \<and> poStack s' = B \<and> sccOrder s' = gs @ [[]] \<and> [] \<notin> set gs \<and> mset (concat gs) + mset A = mset (pres es)"
proof -
  define s where "s = scc_reset (newSccCollection g)"
  have s: "scc_ok g s" "stack s = []" "poStack s = []" "sccOrder s = [[]]"
    by (auto simp: s_def scc_ok_def scc_reset_def newSccCollection_def)
  from es obtain fs where fs: "es = Pre r # fs @ [Post r]"
      and d: "dfs (out_links g dir) {r} r (out_links g dir r) V fs"
    by (auto simp: walk_events_def)
  have w: "dfs (out_links g dir) {} r [\<lparr>getTargetID = r, getOffset = 0, getFollowJump = True\<rparr>] V (Pre r # fs @ [Post r])"
    using dfs_Tree [of "\<lparr>getTargetID = r, getOffset = 0, getFollowJump = True\<rparr>" "{}" "out_links g dir" V fs r "[]" V "[]"]
      d dfs_Nil by simp
  obtain s' A B gs where "run_events g (scc_collector dir ft) es s = Some s'" "scc_ok g s'" "scc_gain s s' A B gs"
      "mset (concat gs) + mset A = mset (pres es)"
    using scc_events [OF w ok(1) ok(2) _ s(1), of ft] ok(2) unfolding fs by auto
  with s show ?thesis
    unfolding s_def [symmetric] by (auto simp: scc_gain_def)
qed

lemma gen_scc_total:
  assumes "graph_ok g" "in_graph g r"
  shows "\<exists>gs. gen_scc dir ft g r = Some gs \<and> [] \<notin> set gs \<and> distinct (concat gs) \<and>
    (\<forall>v \<in> set (concat gs). reaches g dir r v)"
proof -
  obtain V es where es: "walk_events g dir r V es"
    using walk_events_exist [OF assms] by blast
  obtain s A B gs where s: "run_events g (scc_collector dir ft) es (scc_reset (newSccCollection g)) = Some s"
      "sccOrder s = gs @ [[]]" "[] \<notin> set gs" "mset (concat gs) + mset A = mset (pres es)"
    using scc_walk_events [OF es assms, of ft] by blast
  have w: "gen_scc dir ft g r = Some (finish_list ft gs)"
    using walk_run [OF es assms, of "scc_collector dir ft" "newSccCollection g" s] s(1,2)
    by (simp add: gen_scc_def scc_collector_def scc_finish_def)
  have m: "mset (concat gs @ A) = mset (pres es)"
    using s(4) by simp
  have "distinct (concat gs)" "set (concat gs) \<subseteq> set (pres es)"
    using mset_eq_imp_distinct_iff [OF m] mset_eq_setD [OF m] walk_events_nodes(2) [OF es] by auto
  moreover have "mset (concat (finish_list ft gs)) = mset (concat gs)"
    by (cases ft) (simp_all add: mset_concat sum_list_rev flip: rev_map)
  ultimately have "distinct (concat (finish_list ft gs))" "set (concat (finish_list ft gs)) \<subseteq> {v. reaches g dir r v}"
    unfolding walk_events_nodes(1) [OF es, symmetric] using mset_eq_imp_distinct_iff mset_eq_setD by metis+
  moreover have "[] \<notin> set (finish_list ft gs)"
    using s(3) by (cases ft) auto
  ultimately show ?thesis
    using w by auto
qed

end
