(* ===== verification/DominanceCorrect.thy ===== *)
theory DominanceCorrect
  imports DominanceTree SccCorrect
begin

section \<open>The dominators that \<^verbatim>\<open>Dominance\<close> computes\<close>

text \<open>
  The loops of the constructor carry out the steps of the abstract iteration, and end; the result
  gives every node reachable from the entry exactly its dominators.
\<close>

subsection \<open>Vectors as functions\<close>

definition vfun :: "int list \<Rightarrow> int \<Rightarrow> int" where
  "vfun ds v = (if 0 \<le> v \<and> nat v < length ds then ds ! nat v else -1)"

lemma vfun_at: "0 \<le> v \<Longrightarrow> nat v < length ds \<Longrightarrow> vec_at ds v = Some (vfun ds v)"
  by (simp add: vfun_def vec_at_def)

lemma vfun_has: "vfun ds v \<noteq> -1 \<Longrightarrow> vec_at ds v = Some (vfun ds v)"
  by (auto simp: vfun_def vec_at_def split: if_splits)

lemma vfun_update: "0 \<le> v \<Longrightarrow> nat v < length ds \<Longrightarrow> vfun (ds[nat v := x]) = (vfun ds)(v := x)"
  by (auto simp: vfun_def nth_list_update fun_eq_iff)

text \<open>What the loops rely on: a tree of values at reachable nodes, and positions in \<^verbatim>\<open>idMap\<close>.\<close>

definition dom_vectors :: "int set \<Rightarrow> (int \<Rightarrow> nat) \<Rightarrow> int list \<Rightarrow> int list \<Rightarrow> bool" where
  "dom_vectors R ix ms ds \<longleftrightarrow> idom_tree ix (vfun ds) \<and> inj_on ix R \<and> ix 0 = 0 \<and>
     (\<forall>v. vfun ds v \<noteq> -1 \<longrightarrow> v \<in> R) \<and> (\<forall>v \<in> R. vec_at ms v = Some (int (ix v)))"

lemma dom_vectorsD:
  assumes "dom_vectors R ix ms ds"
  shows "idom_tree ix (vfun ds)" "inj_on ix R" "ix 0 = 0" "vfun ds v \<noteq> -1 \<Longrightarrow> v \<in> R"
    "vfun ds v \<noteq> -1 \<Longrightarrow> vec_at ms v = Some (int (ix v))"
  using assms by (auto simp: dom_vectors_def)

subsection \<open>Climbing and intersecting\<close>

lemma climb_correct:
  assumes V: "dom_vectors R ix ms ds"
  shows "vfun ds a \<noteq> -1 \<Longrightarrow> vfun ds b \<noteq> -1 \<Longrightarrow>
    \<exists>c. climb ds ms a b = Some c \<and> anc (vfun ds) a c \<and> ix c \<le> ix b \<and>
      (\<forall>y. anc (vfun ds) a y \<longrightarrow> ix y \<le> ix b \<longrightarrow> anc (vfun ds) c y)"
proof (induction "ix a" arbitrary: a rule: less_induct)
  case less
  note T = dom_vectorsD(1) [OF V] and at = dom_vectorsD(5) [OF V]
  show ?case
  proof (cases "ix a > ix b")
    case True
    then have "a \<noteq> 0" using dom_vectorsD(3) [OF V] by auto
    then have d: "vfun ds (vfun ds a) \<noteq> -1" "ix (vfun ds a) < ix a"
      using idom_treeD(3,4) [OF T] less.prems(1) by auto
    have step: "climb ds ms a b = climb ds ms (vfun ds a) b"
      using True less.prems by (subst climb.simps) (simp add: vfun_has at)
    have "anc (vfun ds) a y \<longleftrightarrow> y = a \<or> anc (vfun ds) (vfun ds a) y" for y
      using less.prems(1) by (subst anc_cases) simp
    with less.hyps [OF d(2,1) less.prems(2)] True show ?thesis
      unfolding step by auto
  next
    case False
    then have "climb ds ms a b = Some a"
      using less.prems by (subst climb.simps) (simp add: vfun_has at)
    with False show ?thesis by auto
  qed
qed

lemma intersect_correct:
  assumes V: "dom_vectors R ix ms ds"
  shows "vfun ds a \<noteq> -1 \<Longrightarrow> vfun ds b \<noteq> -1 \<Longrightarrow>
    \<exists>c. intersect ds ms a b = Some c \<and> vfun ds c \<noteq> -1 \<and>
      (\<forall>y. anc (vfun ds) c y \<longleftrightarrow> anc (vfun ds) a y \<and> anc (vfun ds) b y)"
proof (induction "ix a + ix b" arbitrary: a b rule: less_induct)
  case less
  note T = dom_vectorsD(1) [OF V]
  show ?case
  proof (cases "a = b")
    case True
    with less.prems show ?thesis by (subst intersect.simps) auto
  next
    case False
    obtain c where c: "climb ds ms a b = Some c" "anc (vfun ds) a c" "ix c \<le> ix b"
        "\<And>y. anc (vfun ds) a y \<Longrightarrow> ix y \<le> ix b \<Longrightarrow> anc (vfun ds) c y"
      using climb_correct [OF V less.prems] by blast
    have vc: "vfun ds c \<noteq> -1" using anc_idom [OF T c(2) less.prems(1)] .
    obtain e where e: "climb ds ms b c = Some e" "anc (vfun ds) b e" "ix e \<le> ix c"
        "\<And>y. anc (vfun ds) b y \<Longrightarrow> ix y \<le> ix c \<Longrightarrow> anc (vfun ds) e y"
      using climb_correct [OF V less.prems(2) vc] by blast
    have ve: "vfun ds e \<noteq> -1" using anc_idom [OF T e(2) less.prems(2)] .
    have "ix a \<noteq> ix b"
      using False dom_vectorsD(2,4) [OF V] less.prems by (auto dest: inj_onD)
    then have smaller: "ix c + ix e < ix a + ix b"
      using anc_le [OF T c(2)] anc_le [OF T e(2)] c(3) e(3) by linarith
    have same: "anc (vfun ds) c y \<and> anc (vfun ds) e y \<longleftrightarrow> anc (vfun ds) a y \<and> anc (vfun ds) b y" for y
      using c(2,4) e(2,4) anc_trans anc_le [OF T] by meson
    have "intersect ds ms a b = intersect ds ms c e"
      using False c(1) e(1) less.prems by (subst intersect.simps) (simp add: vfun_has)
    with less.hyps [OF smaller vc ve] same show ?thesis by simp
  qed
qed

lemma idom_from_rest:
  assumes V: "dom_vectors R ix ms ds"
  shows "vfun ds a \<noteq> -1 \<Longrightarrow> \<forall>l \<in> set ls. vec_at ds (getTargetID l) = Some (vfun ds (getTargetID l)) \<Longrightarrow>
    \<exists>c. idom_from ds ms ls False a = Some c \<and> vfun ds c \<noteq> -1 \<and>
      (\<forall>y. anc (vfun ds) c y \<longleftrightarrow> anc (vfun ds) a y \<and>
        (\<forall>l \<in> set ls. vfun ds (getTargetID l) \<noteq> -1 \<longrightarrow> anc (vfun ds) (getTargetID l) y))"
proof (induction ls arbitrary: a)
  case (Cons l ls)
  show ?case
  proof (cases "vfun ds (getTargetID l) = -1")
    case True
    with Cons show ?thesis by auto
  next
    case False
    from intersect_correct [OF V False Cons.prems(1)] obtain e where e: "intersect ds ms (getTargetID l) a = Some e"
        "vfun ds e \<noteq> -1" "\<And>y. anc (vfun ds) e y \<longleftrightarrow> anc (vfun ds) (getTargetID l) y \<and> anc (vfun ds) a y"
      by blast
    with Cons.IH [OF e(2)] Cons.prems(2) False show ?thesis by auto
  qed
qed simp

lemma idom_from_correct:
  assumes V: "dom_vectors R ix ms ds"
  shows "\<exists>l \<in> set ls. vfun ds (getTargetID l) \<noteq> -1 \<Longrightarrow>
    \<forall>l \<in> set ls. vec_at ds (getTargetID l) = Some (vfun ds (getTargetID l)) \<Longrightarrow>
    \<exists>c. idom_from ds ms ls True (-1) = Some c \<and> vfun ds c \<noteq> -1 \<and>
      (\<forall>y. anc (vfun ds) c y \<longleftrightarrow>
        (\<forall>l \<in> set ls. vfun ds (getTargetID l) \<noteq> -1 \<longrightarrow> anc (vfun ds) (getTargetID l) y))"
proof (induction ls)
  case (Cons l ls)
  show ?case
  proof (cases "vfun ds (getTargetID l) = -1")
    case True
    with Cons show ?thesis by auto
  next
    case False
    with idom_from_rest [OF V False, of ls] Cons.prems(2) show ?thesis by auto
  qed
qed simp

subsection \<open>One pass\<close>

definition cfg_preds :: "ControlFlowGraph \<Rightarrow> int \<Rightarrow> int set" where
  "cfg_preds g v = {p. in_graph g p \<and> v \<in> targets (links (graph g ! nat p))}"

lemma in_graph_nat: "in_graph g v \<Longrightarrow> nat v < graph_getCount g \<and> int (nat v) = v"
  by auto

lemma reverse_targets:
  assumes "graph_ok g" "in_graph g v"
  shows "targets (reverseLinks (graph g ! nat v)) = cfg_preds g v"
proof -
  have "p \<in> set (bwd g (nat v)) \<longleftrightarrow> v \<in> set (fwd g (nat p))" if "in_graph g p" for p
  proof -
    have "\<forall>i < graph_getCount g. \<forall>j < graph_getCount g. count_list (bwd g j) (int i) = count_list (fwd g i) (int j)"
      using assms(1) by (simp add: graph_ok_def)
    then have "count_list (bwd g (nat v)) (int (nat p)) = count_list (fwd g (nat p)) (int (nat v))"
      using in_graph_nat [OF that] in_graph_nat [OF assms(2)] by blast
    then have "count_list (bwd g (nat v)) p = count_list (fwd g (nat p)) v"
      using that assms(2) by simp
    then show ?thesis by (metis count_list_0_iff)
  qed
  moreover have "in_graph g p" if "p \<in> set (bwd g (nat v))" for p
    using assms in_graph_nat [OF assms(2)] that by (auto simp: graph_ok_def list_all_iff)
  ultimately have "set (bwd g (nat v)) = {p. in_graph g p \<and> v \<in> set (fwd g (nat p))}" by blast
  then show ?thesis
    by (simp only: cfg_preds_def set_map)
qed

definition dom_setup :: "ControlFlowGraph \<Rightarrow> int list \<Rightarrow> (int \<Rightarrow> nat) \<Rightarrow> (int \<Rightarrow> int) \<Rightarrow> int list \<Rightarrow> bool" where
  "dom_setup g order ix par ms \<longleftrightarrow>
     graph_ok g \<and> visit_order (cfg_preds g) (set order) ix par \<and> (\<forall>i < length order. ix (order ! i) = i) \<and>
     (\<forall>v \<in> set order. vec_at ms v = Some (int (ix v)) \<and> in_graph g v)"

lemma dom_setupD:
  assumes "dom_setup g order ix par ms"
  shows "graph_ok g" "visit_order (cfg_preds g) (set order) ix par"
    "i < length order \<Longrightarrow> ix (order ! i) = i" "v \<in> set order \<Longrightarrow> in_graph g v"
    "v \<in> set order \<Longrightarrow> vec_at ms v = Some (int (ix v))"
  using assms by (auto simp: dom_setup_def)

abbreviation pass_inv :: "ControlFlowGraph \<Rightarrow> int list \<Rightarrow> (int \<Rightarrow> nat) \<Rightarrow> (int \<Rightarrow> int) \<Rightarrow> nat \<Rightarrow> int list \<Rightarrow> bool" where
  "pass_inv g order ix par k ds \<equiv>
     length ds = graph_getCount g \<and> dom_inv (cfg_preds g) (set order) ix par k (vfun ds)"

lemma pass_vectors:
  assumes "dom_setup g order ix par ms" "pass_inv g order ix par k ds"
  shows "dom_vectors (set order) ix ms ds"
  using dom_setupD(5) [OF assms(1)] dom_invD(1,2) [of "cfg_preds g" "set order" ix par k "vfun ds"] assms(2)
    visit_orderD(3,4) [OF dom_setupD(2) [OF assms(1)]]
  by (auto simp: dom_vectors_def)

lemma pass_step:
  assumes U: "dom_setup g order ix par ms" and I: "pass_inv g order ix par k ds"
    and v: "v \<in> set order" "v \<noteq> 0" "ix v = k"
  shows "\<exists>x. idom_from ds ms (reverseLinks (graph g ! nat v)) True (-1) = Some x \<and>
    dom_step (cfg_preds g) (set order) ix par k (vfun ds) v x"
proof -
  note O = dom_setupD(2) [OF U] and G = dom_setupD(1) [OF U] and D = conjunct2 [OF I]
  let ?ls = "reverseLinks (graph g ! nat v)"
  have t: "targets ?ls = cfg_preds g v"
    by (rule reverse_targets [OF G dom_setupD(4) [OF U v(1)]])
  have c: "(\<forall>l \<in> set ?ls. vfun ds (getTargetID l) \<noteq> -1 \<longrightarrow> anc (vfun ds) (getTargetID l) y) \<longleftrightarrow>
      common (cfg_preds g) (vfun ds) v y" for y
    unfolding common_def t [symmetric] by auto
  have at: "vec_at ds p = Some (vfun ds p)" if "p \<in> cfg_preds g v" for p
    using that I by (intro vfun_at) (auto simp: cfg_preds_def)
  have "par v \<in> cfg_preds g v" "vfun ds (par v) \<noteq> -1"
    using visit_orderD(7,8,9) [OF O v(1,2)] dom_invD(3) [OF D, of "par v"] v(3) by auto
  then have "\<exists>l \<in> set ?ls. vfun ds (getTargetID l) \<noteq> -1"
    unfolding t [symmetric] by auto
  moreover have "\<forall>l \<in> set ?ls. vec_at ds (getTargetID l) = Some (vfun ds (getTargetID l))"
    using at unfolding t [symmetric] by auto
  ultimately have "\<exists>x. idom_from ds ms ?ls True (-1) = Some x \<and> vfun ds x \<noteq> -1 \<and>
      (\<forall>y. anc (vfun ds) x y \<longleftrightarrow> common (cfg_preds g) (vfun ds) v y)"
    using idom_from_correct [OF pass_vectors [OF U I], of ?ls] unfolding c by metis
  then show ?thesis
    unfolding dom_step_def using O D v by metis
qed

text \<open>The sum of the positions of the values decreases with every change.\<close>

definition weight :: "(int \<Rightarrow> nat) \<Rightarrow> nat \<Rightarrow> int list \<Rightarrow> int list \<Rightarrow> nat" where
  "weight ix n order ds = (\<Sum>v \<in> set order. if vfun ds v = -1 then n else ix (vfun ds v))"

lemma weight_decreases:
  assumes "finite (set order)" "v \<in> set order" "0 \<le> v" "nat v < length ds" "ix x < n" "x \<noteq> -1"
    and "vfun ds v \<noteq> -1 \<Longrightarrow> ix x < ix (vfun ds v)"
  shows "weight ix n order (ds[nat v := x]) < weight ix n order ds"
  unfolding weight_def
  by (rule sum_strict_mono_ex1) (use assms in \<open>auto simp: vfun_update\<close>)

definition stable_at :: "ControlFlowGraph \<Rightarrow> int list \<Rightarrow> int \<Rightarrow> bool" where
  "stable_at g ds v \<longleftrightarrow> (\<forall>y. anc (vfun ds) (vfun ds v) y \<longrightarrow> common (cfg_preds g) (vfun ds) v y)"

lemma dom_pass_correct:
  assumes U: "dom_setup g order ix par ms"
  shows "order = pre @ suf \<Longrightarrow> pass_inv g order ix par (length pre) ds \<Longrightarrow> 0 \<notin> set suf \<Longrightarrow>
    \<exists>c ds'. dom_pass g ms suf changed ds = Some (c, ds') \<and> pass_inv g order ix par (length order) ds' \<and>
      (weight ix (length order) order ds' < weight ix (length order) order ds \<and> c \<or>
       ds' = ds \<and> c = changed \<and> (\<forall>v \<in> set suf. stable_at g ds v))"
proof (induction suf arbitrary: pre ds changed)
  case (Cons v suf)
  let ?k = "length pre"
  have v: "v \<in> set order" "v \<noteq> 0" "ix v = ?k" "?k < length order"
    using Cons.prems(1,3) dom_setupD(3) [OF U, of ?k] by auto
  have n: "0 \<le> v" "nat v < length ds" "graph_get g v = Some (graph g ! nat v)"
    using dom_setupD(4) [OF U v(1)] Cons.prems(2) graph_get_in by auto
  obtain x where x: "idom_from ds ms (reverseLinks (graph g ! nat v)) True (-1) = Some x"
      and S: "dom_step (cfg_preds g) (set order) ix par ?k (vfun ds) v x"
    using pass_step [OF U Cons.prems(2) v(1-3)] by blast
  note inv = step_inv [OF S]
  show ?case
  proof (cases "vfun ds v = x")
    case True
    with inv have "pass_inv g order ix par (length (pre @ [v])) ds"
      using Cons.prems(2) by (simp add: fun_upd_idem)
    moreover have "stable_at g ds v"
      using dom_stepD(7) [OF S] True by (simp add: stable_at_def)
    moreover have "dom_pass g ms (v # suf) changed ds = dom_pass g ms suf changed ds"
      using x n v(2) True vfun_at [OF n(1,2)] by simp
    ultimately show ?thesis
      using Cons.IH [of "pre @ [v]" ds changed] Cons.prems(1,3) by auto
  next
    case False
    let ?ds = "ds[nat v := x]"
    have "pass_inv g order ix par (length (pre @ [v])) ?ds"
      using inv Cons.prems(2) vfun_update [OF n(1,2)] by simp
    then obtain c ds' where r: "dom_pass g ms suf True ?ds = Some (c, ds')" "pass_inv g order ix par (length order) ds'"
        "weight ix (length order) order ds' < weight ix (length order) order ?ds \<and> c \<or> ds' = ?ds \<and> c"
      using Cons.IH [of "pre @ [v]" ?ds True] Cons.prems(1,3) by auto
    have "weight ix (length order) order ?ds < weight ix (length order) order ds"
      using weight_decreases [of order v ds ix x] v n step_par(4,5) [OF S] step_decreases [OF S] False by auto
    moreover have "dom_pass g ms (v # suf) changed ds = dom_pass g ms suf True ?ds"
      using x n v(2) False vfun_at [OF n(1,2)] by (simp add: vec_set_def)
    ultimately show ?thesis
      using r by auto
  qed
qed auto

subsection \<open>The iteration\<close>

lemma position_less: "dom_setup g order ix par ms \<Longrightarrow> v \<in> set order \<Longrightarrow> ix v < length order"
  using dom_setupD(3) by (metis in_set_conv_nth)

lemma dom_iterate_correct:
  assumes U: "dom_setup g order ix par ms" and ord: "order = 0 # rest" "0 \<notin> set rest"
  shows "length ds = graph_getCount g \<Longrightarrow> pass_inv g order ix par 1 (ds[0 := 0]) \<Longrightarrow>
    \<exists>ds'. dom_iterate g ms order ds = Some ds' \<and> pass_inv g order ix par (length order) ds' \<and>
      (\<forall>v \<in> set rest. stable_at g ds' v)"
proof (induction "weight ix (length order) order (ds[0 := 0])" arbitrary: ds rule: less_induct)
  case less
  have set0: "vec_set ds 0 0 = Some (ds[0 := 0])"
    using dom_setupD(4) [OF U, of 0] ord less.prems(1) by (simp add: vec_set_def)
  obtain c ds' where r: "dom_pass g ms rest False (ds[0 := 0]) = Some (c, ds')"
      "pass_inv g order ix par (length order) ds'"
      "weight ix (length order) order ds' < weight ix (length order) order (ds[0 := 0]) \<and> c \<or>
        ds' = ds[0 := 0] \<and> \<not> c \<and> (\<forall>v \<in> set rest. stable_at g (ds[0 := 0]) v)"
    using dom_pass_correct [OF U, of "[0]" rest "ds[0 := 0]" False] ord less.prems by auto
  have pass: "dom_iterate g ms order ds = (if c then dom_iterate g ms order ds' else Some ds')"
    using r(1) set0 ord by (subst dom_iterate.simps) simp
  show ?case
  proof (cases c)
    case True
    have "vfun ds' 0 = 0"
      using dom_invD(1) r(2) idom_treeD(1) by blast
    then have same: "ds'[0 := 0] = ds'"
      by (metis list_update_id nat_zero_as_int vfun_def zero_neq_neg_one)
    have "pass_inv g order ix par 1 ds'"
      using inv_restart [of "cfg_preds g" "set order" ix par "length order" "vfun ds'" 1] r(2) position_less [OF U] ord
      by simp
    then show ?thesis
      using less.hyps [of ds'] r(2,3) True same unfolding pass by simp
  next
    case False
    with r(2,3) show ?thesis unfolding pass by auto
  qed
qed

lemma fill_idMap_correct:
  assumes "distinct order" "\<forall>v \<in> set order. 0 \<le> v \<and> nat v < length ms"
  shows "\<exists>ms'. fill_idMap i order ms = Some ms' \<and> length ms' = length ms \<and>
    (\<forall>k < length order. vec_at ms' (order ! k) = Some (i + int k)) \<and>
    (\<forall>v. v \<notin> set order \<longrightarrow> vec_at ms' v = vec_at ms v)"
  using assms
proof (induction order arbitrary: i ms)
  case (Cons n order)
  from Cons.prems have n: "0 \<le> n" "nat n < length ms" "n \<notin> set order" by auto
  obtain ms' where ms': "fill_idMap (i + 1) order (ms[nat n := i]) = Some ms'" "length ms' = length ms"
      "\<forall>k < length order. vec_at ms' (order ! k) = Some (i + 1 + int k)"
      "\<forall>v. v \<notin> set order \<longrightarrow> vec_at ms' v = vec_at (ms[nat n := i]) v"
    using Cons.IH [of "ms[nat n := i]" "i + 1"] Cons.prems by auto
  have "vec_at ms' ((n # order) ! k) = Some (i + int k)" if "k < length (n # order)" for k
  proof (cases k)
    case 0
    have "vec_at (ms[nat n := i]) n = Some i"
      using n by (simp add: vec_at_def)
    with 0 ms'(4) n(3) show ?thesis by simp
  next
    case (Suc k')
    with ms'(3) that show ?thesis by simp
  qed
  moreover have "vec_at ms' v = vec_at ms v" if "v \<notin> set (n # order)" for v
    using that ms'(4) n by (auto simp: vec_at_def nth_list_update)
  ultimately show ?case
    using ms'(1,2) n by (simp add: vec_set_def)
qed simp

lemma dominator_chain_correct:
  assumes T: "idom_tree ix (vfun ds)"
  shows "vfun ds v \<noteq> -1 \<Longrightarrow> \<exists>ys. dominator_chain ds v acc = Some (acc @ ys) \<and> set ys = {y. anc (vfun ds) v y} \<and>
    sorted_wrt (\<lambda>a b. ix b < ix a) ys \<and> ys \<noteq> [] \<and> hd ys = v"
proof (induction "ix v" arbitrary: v acc rule: less_induct)
  case less
  show ?case
  proof (cases "v = 0")
    case True
    then have "{y. anc (vfun ds) v y} = {0}"
      using anc_root [OF T] by auto
    with True show ?thesis
      by (intro exI [of _ "[0]"]) (simp add: dominator_chain.simps)
  next
    case False
    obtain ys where ys: "dominator_chain ds (vfun ds v) (acc @ [v]) = Some ((acc @ [v]) @ ys)"
        "set ys = {y. anc (vfun ds) (vfun ds v) y}" "sorted_wrt (\<lambda>a b. ix b < ix a) ys"
      using less.hyps [of "vfun ds v" "acc @ [v]"] idom_treeD(3,4) [OF T False less.prems] by blast
    have "dominator_chain ds v acc = Some (acc @ v # ys)"
      using False ys(1) less.prems by (subst dominator_chain.simps) (simp add: vfun_has)
    moreover have "set (v # ys) = {y. anc (vfun ds) v y}"
      using ys(2) less.prems by (auto simp: anc_cases [of "vfun ds" v])
    moreover have "sorted_wrt (\<lambda>a b. ix b < ix a) (v # ys)"
      using ys(2,3) anc_le [OF T, of "vfun ds v"] idom_treeD(4) [OF T False less.prems] by fastforce
    ultimately show ?thesis by (metis list.distinct(1) list.sel(1))
  qed
qed

subsection \<open>The constructor\<close>

lemma before_index:
  assumes "distinct xs" "\<And>i. i < length xs \<Longrightarrow> f (xs ! i) = i" "before xs a b"
  shows "a \<in> set xs" "f a < f b"
proof -
  obtain as bs cs where xs: "xs = as @ a # bs @ b # cs"
    using assms(3) by (auto simp: before_def)
  have "xs ! length as = a" "xs ! (length as + 1 + length bs) = b"
    by (simp_all add: xs nth_append)
  with assms(2) [of "length as"] assms(2) [of "length as + 1 + length bs"] show "a \<in> set xs" "f a < f b"
    by (auto simp: xs)
qed

lemma position_exists: "distinct xs \<Longrightarrow> \<exists>f. \<forall>i < length xs. f (xs ! i) = (i :: nat)"
  by (intro exI [of _ "\<lambda>v. THE i. i < length xs \<and> xs ! i = v"]) (auto intro: the_equality simp: nth_eq_iff_index_eq)

text \<open>The constructor's order of iteration, with positions, tree parents and the vector of positions.\<close>

lemma dom_setup_exists:
  assumes G: "graph_ok g" "in_graph g 0"
  shows "\<exists>rest ix par ms. ReversePostorder g 0 = Some [0 # rest] \<and> 0 \<notin> set rest \<and>
    set (0 # rest) = {v. reaches g 1 0 v} \<and>
    fill_idMap 0 (0 # rest) (replicate (graph_getCount g) (-1)) = Some ms \<and> dom_setup g (0 # rest) ix par ms"
proof -
  obtain rest where R: "ReversePostorder g 0 = Some [0 # rest]" "distinct (0 # rest)"
      "set (0 # rest) = {v. reaches g 1 0 v}"
      "\<forall>v \<in> set rest. \<exists>p. v \<in> targets (out_links g 1 p) \<and> before (0 # rest) p v"
    using reverse_postorder [OF G, of 1] by (auto simp: ReversePostorder_def)
  let ?order = "0 # rest"
  have inG: "in_graph g v" if "v \<in> set ?order" for v
    using that R(3) reaches_in_graph [OF _ G] by blast
  obtain ix where ix: "\<forall>i < length ?order. ix (?order ! i) = i"
    using position_exists [OF R(2)] by blast
  obtain par0 where par0: "\<forall>v \<in> set rest. v \<in> targets (out_links g 1 (par0 v)) \<and> before ?order (par0 v) v"
    using bchoice [OF R(4)] by blast
  define par where "par = par0(0 := 0)"
  have "\<forall>v \<in> set ?order. 0 \<le> v \<and> nat v < length (replicate (graph_getCount g) (-1 :: int))"
    using inG in_graph_nat by (metis length_replicate)
  from fill_idMap_correct [OF R(2) this, of 0]
  obtain ms where ms: "fill_idMap 0 ?order (replicate (graph_getCount g) (-1)) = Some ms"
      "\<forall>k < length ?order. vec_at ms (?order ! k) = Some (int k)"
    by auto
  have at: "vec_at ms v = Some (int (ix v))" if "v \<in> set ?order" for v
    using that ms(2) ix by (metis in_set_conv_nth)
  have pred: "p \<in> cfg_preds g v \<longleftrightarrow> in_graph g p \<and> v \<in> targets (out_links g 1 p)" for p v
    by (simp add: cfg_preds_def out_links_def getLinks_def)
  have par: "par v \<in> set ?order" "par v \<in> cfg_preds g v" "ix (par v) < ix v" if "v \<in> set ?order" "v \<noteq> 0" for v
  proof -
    have v: "v \<in> set rest" "par v = par0 v"
      using that by (auto simp: par_def)
    with par0 before_index [OF R(2), of ix "par0 v" v] ix show "par v \<in> set ?order" "ix (par v) < ix v" by auto
    then show "par v \<in> cfg_preds g v"
      using par0 v inG by (auto simp: pred)
  qed
  have "inj_on ix (set ?order)"
    using ix by (metis in_set_conv_nth inj_onI)
  moreover have "-1 \<notin> set ?order"
    using inG [of "-1"] by auto
  moreover have "v \<in> set ?order" if "p \<in> cfg_preds g v" "p \<in> set ?order" for p v
    using that reaches_step [of g 1 0 p v] unfolding R(3) pred by blast
  moreover have "ix 0 = 0"
    using ix by (metis length_greater_0_conv list.distinct(1) nth_Cons_0)
  ultimately have "visit_order (cfg_preds g) (set ?order) ix par"
    using par unfolding visit_order_def by (auto simp: par_def)
  with ix at inG G(1) have "dom_setup g ?order ix par ms"
    by (simp add: dom_setup_def)
  with R(1-3) ms(1) show ?thesis by auto
qed

text \<open>A node dominates another when every path from the entry to the other passes through it.\<close>

definition cfg_path :: "ControlFlowGraph \<Rightarrow> int list \<Rightarrow> int \<Rightarrow> bool" where
  "cfg_path g ps v \<longleftrightarrow> ps \<noteq> [] \<and> hd ps = 0 \<and> last ps = v \<and>
     (\<forall>i. Suc i < length ps \<longrightarrow> ps ! i \<in> {p. in_graph g p} \<and> ps ! Suc i \<in> targets (links (graph g ! nat (ps ! i))))"

definition cfg_dominates :: "ControlFlowGraph \<Rightarrow> int \<Rightarrow> int \<Rightarrow> bool" where
  "cfg_dominates g y v \<longleftrightarrow> (\<forall>ps. cfg_path g ps v \<longrightarrow> y \<in> set ps)"

lemma cfg_dominates_iff: "cfg_dominates g y v \<longleftrightarrow> dominates (cfg_preds g) y v"
  unfolding cfg_dominates_def dominates_def cfg_path_def entry_path_def
  by (simp add: successively_conv_nth cfg_preds_def)

lemma newDominance_dominators:
  assumes G: "graph_ok g" "in_graph g 0"
  shows "\<exists>D. newDominance g = Some D \<and> (\<forall>v. reaches g 1 0 v \<longrightarrow>
    (\<exists>ys. getDominators D v = Some ys \<and> set ys = {y. cfg_dominates g y v} \<and> distinct ys \<and> hd ys = v))"
proof -
  obtain rest ix par ms where rpo: "ReversePostorder g 0 = Some [0 # rest]" "0 \<notin> set rest"
      "set (0 # rest) = {v. reaches g 1 0 v}"
      "fill_idMap 0 (0 # rest) (replicate (graph_getCount g) (-1)) = Some ms" and U: "dom_setup g (0 # rest) ix par ms"
    using dom_setup_exists [OF G] by blast
  note O = dom_setupD(2) [OF U]
  let ?init = "replicate (graph_getCount g) (-1 :: int)"
  have "vfun ?init = (\<lambda>_. -1)"
    by (auto simp: vfun_def fun_eq_iff)
  then have "vfun (?init[0 := 0]) = (\<lambda>_. -1)(0 := 0)"
    using vfun_update [of 0 ?init 0] G(2) by simp
  with inv_start [OF O] have "pass_inv g (0 # rest) ix par 1 (?init[0 := 0])" by simp
  then obtain ds where ds: "dom_iterate g ms (0 # rest) ?init = Some ds"
      "pass_inv g (0 # rest) ix par (length (0 # rest)) ds" "\<forall>v \<in> set rest. stable_at g ds v"
    using dom_iterate_correct [OF U refl rpo(2), of ?init] by auto
  note I = conjunct2 [OF ds(2)]
  have val: "vfun ds v \<noteq> -1" if "v \<in> set (0 # rest)" for v
    using dom_invD(3) [OF I that position_less [OF U that]] .
  have doms: "{y. anc (vfun ds) v y} = {y. cfg_dominates g y v}" if "v \<in> set (0 # rest)" for v
  proof -
    have "dominates (cfg_preds g) y v" if "anc (vfun ds) v y" for y
      using stable_sound [OF O dom_invD(1) [OF I] _ val \<open>v \<in> set (0 # rest)\<close> that] ds(3) by (auto simp: stable_at_def)
    with dom_invD(5) [OF I val [OF that]] show ?thesis
      by (auto simp: cfg_dominates_iff)
  qed
  obtain sub where "SccOrder g 0 = Some sub"
    using gen_scc_total [OF G, of 1 ReverseFinisher] by (auto simp: SccOrder_def)
  then have new: "newDominance g = Some \<lparr>cfg = g, idoms = ds, idMap = ms\<rparr>"
    using rpo(1,4) ds(1) by (simp add: newDominance_def vec_at_def)
  have "\<exists>ys. getDominators \<lparr>cfg = g, idoms = ds, idMap = ms\<rparr> v = Some ys \<and> set ys = {y. cfg_dominates g y v} \<and>
      distinct ys \<and> hd ys = v" if "reaches g 1 0 v" for v
  proof -
    have v: "v \<in> set (0 # rest)"
      unfolding rpo(3) using that by simp
    have "distinct ys" if "sorted_wrt (\<lambda>a b. ix b < ix a) ys" for ys
      using that by (induction ys) auto
    with dominator_chain_correct [OF dom_invD(1) [OF I] val [OF v], of "[]"] show ?thesis
      unfolding doms [OF v] by (auto simp: getDominators_def)
  qed
  with new show ?thesis by blast
qed

text \<open>Claim C4: for a function with blocks, \<^verbatim>\<open>Dominance(&cfg)\<close> returns, and for every block reachable from the first one
  \<^verbatim>\<open>getDominators\<close> returns each of its dominators once and nothing else, itself first: the blocks that
  lie on every path from the first block to it.\<close>

theorem getDominators_correct:
  assumes "function_ok arch f" "f \<noteq> []" "newControlFlowGraph arch f = Some g"
  shows "\<exists>D. newDominance g = Some D \<and> (\<forall>v. reaches g 1 0 v \<longrightarrow>
    (\<exists>ys. getDominators D v = Some ys \<and> set ys = {y. cfg_dominates g y v} \<and> distinct ys \<and> hd ys = v))"
  using newDominance_dominators [of g] graph_construction [OF assms(1)] assms(2,3) by auto

text \<open>In the sample function block 3 is reached through blocks 1 and 2, so only the first block dominates it.\<close>

theorem getDominators_correct_witness:
  "\<exists>D ys. newDominance sample_graph = Some D \<and> getDominators D 3 = Some ys \<and> set ys = {y. cfg_dominates sample_graph y 3} \<and>
    distinct ys \<and> hd ys = 3"
proof -
  have "reaches sample_graph 1 0 3"
    using reaches_step [OF reaches_step [OF reaches_refl, of 1 sample_graph 1 0], of 3]
    by (simp add: out_links_def getLinks_def sample_graph_def)
  then show ?thesis
    using getDominators_correct [OF sample_function_ok _ sample_graph_eq] by (auto simp: sample_function_def)
qed

subsection \<open>Common dominators of the exits\<close>

text \<open>
  A block that branches to two returns. \<^verbatim>\<open>getPostDominators\<close> hands \<^verbatim>\<open>std::set_intersection\<close> the dominators
  of the first exit in the order of the chain, which is not sorted.
\<close>

definition two_exits :: CFFunction where
  "two_exits =
     [\<lparr>block_id = 0, block_address = 0, block_last = Some
         \<lparr>instr_address = 0, instr_semantic = OtherInstruction, instr_link = None\<rparr>\<rparr>,
      \<lparr>block_id = 1, block_address = 4, block_last = Some
         \<lparr>instr_address = 4, instr_semantic = ControlFlowInstruction ''je'' True,
          instr_link = Some \<lparr>getTarget = Some (InstructionTarget (Some 3)), getTargetAddress = 12\<rparr>\<rparr>\<rparr>,
      \<lparr>block_id = 2, block_address = 8, block_last = Some
         \<lparr>instr_address = 8, instr_semantic = ReturnInstruction, instr_link = None\<rparr>\<rparr>,
      \<lparr>block_id = 3, block_address = 12, block_last = Some
         \<lparr>instr_address = 12, instr_semantic = ReturnInstruction, instr_link = None\<rparr>\<rparr>]"


end
