(* ===== verification/Sandbox.thy ===== *)
theory Sandbox
  imports Prelude
begin

unbundle bit_operations_syntax

section \<open>Sandboxes (\<^verbatim>\<open>src/transform/sandbox.h\<close>, \<^verbatim>\<open>sandbox.cpp\<close>, \<^verbatim>\<open>slot.h\<close>)\<close>

text \<open>
  A sandbox gives out slots of a region of memory to the functions that are placed there. Its
  backing is mapped memory or a buffer that is written out later; its allocator moves a watermark.
  An allocation that does not fit throws \<^verbatim>\<open>std::bad_alloc\<close>. \<^verbatim>\<open>mmap\<close> is a parameter: it returns
  the address that was mapped, or \<open>-1\<close>.
\<close>

record Slot =
  slot_address :: address
  slot_size :: "64 word"

datatype sandbox_error = bad_alloc | Overlapping | Unimplemented

datatype BackingKind = MemoryBacking | MemoryBufferBacking

text \<open>
  \<open>backing_data\<close> is the mapped memory, or the buffer; \<open>backing_exec\<close> tells whether the memory was
  last protected as executable rather than writable.
\<close>

record Backing =
  backing_kind :: BackingKind
  backing_base :: address
  backing_size :: "64 word"
  backing_data :: "byte list"
  backing_exec :: bool

definition newMemoryBacking :: "(address \<Rightarrow> 64 word \<Rightarrow> address) \<Rightarrow> address \<Rightarrow> 64 word \<Rightarrow> sandbox_error + Backing" where
  "newMemoryBacking mmap addr sz =
     (let base = mmap addr sz
      in if base = -1 then Inl bad_alloc
         else if base \<noteq> addr then Inl Overlapping
         else Inr \<lparr>backing_kind = MemoryBacking, backing_base = base, backing_size = sz,
           backing_data = replicate (unat sz) 0, backing_exec = False\<rparr>)"

definition newMemoryBufferBacking :: "address \<Rightarrow> 64 word \<Rightarrow> Backing" where
  "newMemoryBufferBacking addr sz =
     \<lparr>backing_kind = MemoryBufferBacking, backing_base = addr, backing_size = sz, backing_data = [], backing_exec = False\<rparr>"

definition supportsDirectWrites :: "Backing \<Rightarrow> bool" where
  "supportsDirectWrites b = (case backing_kind b of MemoryBacking \<Rightarrow> True | MemoryBufferBacking \<Rightarrow> False)"

definition getBuffer :: "Backing \<Rightarrow> sandbox_error + byte list" where
  "getBuffer b = (case backing_kind b of MemoryBacking \<Rightarrow> Inl Unimplemented | MemoryBufferBacking \<Rightarrow> Inr (backing_data b))"

definition backing_finalize :: "Backing \<Rightarrow> Backing" where
  "backing_finalize b = (case backing_kind b of MemoryBacking \<Rightarrow> b\<lparr>backing_exec := True\<rparr> | MemoryBufferBacking \<Rightarrow> b)"

definition backing_reopen :: "Backing \<Rightarrow> bool \<times> Backing" where
  "backing_reopen b =
     (case backing_kind b of MemoryBacking \<Rightarrow> (True, b\<lparr>backing_exec := False\<rparr>) | MemoryBufferBacking \<Rightarrow> (True, b))"

definition backing_recreate :: "Backing \<Rightarrow> Backing" where
  "backing_recreate b =
     (case backing_kind b of
        MemoryBacking \<Rightarrow> b\<lparr>backing_data := replicate (unat (backing_size b)) 0\<rparr>
      | MemoryBufferBacking \<Rightarrow> b\<lparr>backing_data := []\<rparr>)"

subsection \<open>Allocators\<close>

record WatermarkAllocator =
  wm_base :: address
  watermark :: address

definition newWatermarkAllocator :: "Backing \<Rightarrow> WatermarkAllocator" where
  "newWatermarkAllocator b = \<lparr>wm_base = backing_base b, watermark = backing_base b\<rparr>"

definition wm_allocate :: "Backing \<Rightarrow> 64 word \<Rightarrow> WatermarkAllocator \<Rightarrow> sandbox_error + Slot \<times> WatermarkAllocator" where
  "wm_allocate b request a =
     (let max = backing_base b + backing_size b
      in if watermark a + request > max then Inl bad_alloc
         else Inr (\<lparr>slot_address = watermark a, slot_size = request\<rparr>, a\<lparr>watermark := watermark a + request\<rparr>))"

definition wm_reset :: "WatermarkAllocator \<Rightarrow> WatermarkAllocator" where
  "wm_reset a = a\<lparr>watermark := wm_base a\<rparr>"

record AlignedWatermarkAllocator =
  al_base :: address
  al_watermark :: address
  alignment :: "64 word"

definition newAlignedWatermarkAllocator :: "64 word \<Rightarrow> Backing \<Rightarrow> AlignedWatermarkAllocator" where
  "newAlignedWatermarkAllocator align b =
     \<lparr>al_base = backing_base b, al_watermark = backing_base b, alignment = align\<rparr>"

definition round_request :: "64 word \<Rightarrow> 64 word \<Rightarrow> 64 word" where
  "round_request align request = (request + align - 1) AND NOT (align - 1)"

definition al_allocate ::
    "Backing \<Rightarrow> 64 word \<Rightarrow> AlignedWatermarkAllocator \<Rightarrow> sandbox_error + Slot \<times> AlignedWatermarkAllocator" where
  "al_allocate b req a =
     (let request = round_request (alignment a) req; max = backing_base b + backing_size b
      in if al_watermark a + request > max then Inl bad_alloc
         else Inr (\<lparr>slot_address = al_watermark a, slot_size = request\<rparr>, a\<lparr>al_watermark := al_watermark a + request\<rparr>))"

definition al_reset :: "AlignedWatermarkAllocator \<Rightarrow> AlignedWatermarkAllocator" where
  "al_reset a = a\<lparr>al_watermark := al_base a\<rparr>"

subsection \<open>Sandboxes\<close>

text \<open>The template parameter \<^verbatim>\<open>Allocator\<close> is the type \<open>'a\<close> with its \<open>allocate\<close> and \<open>reset\<close>.\<close>

record 'a SandboxImpl =
  sb_backing :: Backing
  sb_alloc :: 'a

definition newSandboxImpl :: "(Backing \<Rightarrow> 'a) \<Rightarrow> Backing \<Rightarrow> 'a SandboxImpl" where
  "newSandboxImpl newAllocator b = \<lparr>sb_backing = b, sb_alloc = newAllocator b\<rparr>"

definition sb_allocate ::
    "(Backing \<Rightarrow> 64 word \<Rightarrow> 'a \<Rightarrow> sandbox_error + Slot \<times> 'a) \<Rightarrow> 64 word \<Rightarrow> 'a SandboxImpl \<Rightarrow>
     sandbox_error + Slot \<times> 'a SandboxImpl" where
  "sb_allocate alloc request s =
     (case alloc (sb_backing s) request (sb_alloc s) of
        Inl e \<Rightarrow> Inl e
      | Inr (slot, a) \<Rightarrow> Inr (slot, s\<lparr>sb_alloc := a\<rparr>))"

definition sb_finalize :: "'a SandboxImpl \<Rightarrow> 'a SandboxImpl" where
  "sb_finalize s = s\<lparr>sb_backing := backing_finalize (sb_backing s)\<rparr>"

definition sb_reopen :: "'a SandboxImpl \<Rightarrow> bool \<times> 'a SandboxImpl" where
  "sb_reopen s = (let (r, b) = backing_reopen (sb_backing s) in (r, s\<lparr>sb_backing := b\<rparr>))"

definition sb_recreate :: "('a \<Rightarrow> 'a) \<Rightarrow> 'a SandboxImpl \<Rightarrow> 'a SandboxImpl" where
  "sb_recreate reset s = s\<lparr>sb_backing := backing_recreate (sb_backing s), sb_alloc := reset (sb_alloc s)\<rparr>"

text \<open>A dual sandbox sends every call to the sandbox at its index, which \<^verbatim>\<open>flip\<close> changes.\<close>

record 'a DualSandbox =
  sandbox0 :: 'a
  sandbox1 :: 'a
  dual_i :: "64 word"

definition newDualSandbox :: "'a \<Rightarrow> 'a \<Rightarrow> 'a DualSandbox" where
  "newDualSandbox one other = \<lparr>sandbox0 = one, sandbox1 = other, dual_i = 0\<rparr>"

definition flip :: "'a DualSandbox \<Rightarrow> 'a DualSandbox" where
  "flip d = d\<lparr>dual_i := dual_i d XOR 1\<rparr>"

definition dual_get :: "'a DualSandbox \<Rightarrow> 'a" where
  "dual_get d = (if dual_i d = 0 then sandbox0 d else sandbox1 d)"

definition dual_put :: "'a \<Rightarrow> 'a DualSandbox \<Rightarrow> 'a DualSandbox" where
  "dual_put s d = (if dual_i d = 0 then d\<lparr>sandbox0 := s\<rparr> else d\<lparr>sandbox1 := s\<rparr>)"

definition dual_allocate ::
    "(64 word \<Rightarrow> 's \<Rightarrow> sandbox_error + Slot \<times> 's) \<Rightarrow> 64 word \<Rightarrow> 's DualSandbox \<Rightarrow> sandbox_error + Slot \<times> 's DualSandbox" where
  "dual_allocate alloc request d =
     (case alloc request (dual_get d) of
        Inl e \<Rightarrow> Inl e
      | Inr (slot, s) \<Rightarrow> Inr (slot, dual_put s d))"

definition dual_recreate :: "('s \<Rightarrow> 's) \<Rightarrow> 's DualSandbox \<Rightarrow> 's DualSandbox" where
  "dual_recreate rec d = dual_put (rec (dual_get d)) d"

text \<open>
  The clients: a sequence of requests to a sandbox, and a sequence of requests to a dual sandbox
  and flips of it.
\<close>

primrec allocate_all ::
    "(64 word \<Rightarrow> 's \<Rightarrow> sandbox_error + Slot \<times> 's) \<Rightarrow> 64 word list \<Rightarrow> 's \<Rightarrow> sandbox_error + Slot list \<times> 's" where
  "allocate_all alloc [] s = Inr ([], s)"
| "allocate_all alloc (r # rs) s =
     (case alloc r s of
        Inl e \<Rightarrow> Inl e
      | Inr (slot, s') \<Rightarrow>
          (case allocate_all alloc rs s' of Inl e \<Rightarrow> Inl e | Inr (slots, s'') \<Rightarrow> Inr (slot # slots, s'')))"

datatype dual_client = Request "64 word" | Flip

primrec dual_run ::
    "(64 word \<Rightarrow> 's \<Rightarrow> sandbox_error + Slot \<times> 's) \<Rightarrow> dual_client list \<Rightarrow> 's DualSandbox \<Rightarrow>
     sandbox_error + Slot list \<times> 's DualSandbox" where
  "dual_run alloc [] d = Inr ([], d)"
| "dual_run alloc (c # cs) d =
     (case c of
        Flip \<Rightarrow> dual_run alloc cs (flip d)
      | Request r \<Rightarrow>
          (case dual_allocate alloc r d of
             Inl e \<Rightarrow> Inl e
           | Inr (slot, d') \<Rightarrow>
               (case dual_run alloc cs d' of Inl e \<Rightarrow> Inl e | Inr (slots, d'') \<Rightarrow> Inr (slot # slots, d''))))"

subsection \<open>The contract of an allocator\<close>

definition slot_points :: "Slot \<Rightarrow> nat set" where
  "slot_points s = {unat (slot_address s) ..< unat (slot_address s) + unat (slot_size s)}"

definition pairwise_disjoint :: "Slot list \<Rightarrow> bool" where
  "pairwise_disjoint slots \<longleftrightarrow> sorted_wrt (\<lambda>s t. slot_points s \<inter> slot_points t = {}) slots"

lemma pairwise_disjoint_simps [simp]:
  "pairwise_disjoint []"
  "pairwise_disjoint (s # slots) \<longleftrightarrow> (\<forall>t \<in> set slots. slot_points s \<inter> slot_points t = {}) \<and> pairwise_disjoint slots"
  by (simp_all add: pairwise_disjoint_def)

text \<open>
  An allocator owns the points from \<open>low\<close> to \<open>high\<close>: it gives out a prefix of them that is at least
  as large as the request, and fails only where the rounded request does not fit. \<open>request_ok\<close>
  bounds the requests that its arithmetic can handle.
\<close>

locale slot_allocator =
  fixes alloc :: "64 word \<Rightarrow> 's \<Rightarrow> sandbox_error + Slot \<times> 's"
    and fits :: "'s \<Rightarrow> bool" and low :: "'s \<Rightarrow> nat" and high :: "'s \<Rightarrow> nat"
    and rounded :: "'s \<Rightarrow> 64 word \<Rightarrow> nat" and request_ok :: "64 word \<Rightarrow> bool"
  assumes bounds: "fits s \<Longrightarrow> low s \<le> high s"
    and granted: "fits s \<Longrightarrow> request_ok r \<Longrightarrow> alloc r s = Inr (slot, s') \<Longrightarrow>
      fits s' \<and> high s' = high s \<and> rounded s' = rounded s \<and> unat (slot_address slot) = low s \<and>
      unat (slot_size slot) = rounded s r \<and> low s' = low s + rounded s r"
    and refused: "fits s \<Longrightarrow> request_ok r \<Longrightarrow> alloc r s = Inl e \<Longrightarrow> e = bad_alloc \<and> high s < low s + rounded s r"
    and round_up: "fits s \<Longrightarrow> request_ok r \<Longrightarrow> unat r \<le> rounded s r"
begin

lemma granted_points:
  assumes "fits s" "request_ok r" "alloc r s = Inr (slot, s')"
  shows "slot_points slot = {low s ..< low s'}" "low s \<le> low s'" "low s' \<le> high s"
  using granted [OF assms] bounds [of s'] by (auto simp: slot_points_def)

lemma allocate_all_step:
  assumes "fits s" "\<forall>r \<in> set rs. request_ok r" "allocate_all alloc rs s = Inr (slots, s')"
  shows "fits s' \<and> high s' = high s \<and> low s \<le> low s' \<and> pairwise_disjoint slots \<and>
    (\<forall>t \<in> set slots. slot_points t \<subseteq> {low s ..< low s'}) \<and>
    list_all2 (\<lambda>r t. unat r \<le> unat (slot_size t) \<and> unat (slot_size t) = rounded s r) rs slots"
  using assms
proof (induction rs arbitrary: s slots)
  case Nil
  then show ?case by simp
next
  case (Cons r rs)
  from Cons.prems obtain slot s1 slots1 where
    a: "alloc r s = Inr (slot, s1)" "allocate_all alloc rs s1 = Inr (slots1, s')" "slots = slot # slots1"
    by (auto split: sum.splits prod.splits)
  have r: "request_ok r" using Cons.prems by simp
  note g = granted [OF Cons.prems(1) r a(1)] granted_points [OF Cons.prems(1) r a(1)] round_up [OF Cons.prems(1) r]
  have "fits s1" "\<forall>r \<in> set rs. request_ok r" using g(1) Cons.prems(2) by auto
  note ih = Cons.IH [OF this a(2)]
  have "slot_points slot \<inter> slot_points t = {}" if "t \<in> set slots1" for t
    using ih g(2) that by fastforce
  moreover have "slot_points t \<subseteq> {low s ..< low s'}" if "t \<in> set slots1" for t
    using ih g(3) that by fastforce
  ultimately show ?case using ih g a(3) by (auto simp: slot_points_def)
qed

text \<open>Two sandboxes with disjoint regions give out disjoint slots, however the client flips between them.\<close>

definition dual_ok :: "'s DualSandbox \<Rightarrow> bool" where
  "dual_ok d \<longleftrightarrow> fits (sandbox0 d) \<and> fits (sandbox1 d) \<and>
     {low (sandbox0 d) ..< high (sandbox0 d)} \<inter> {low (sandbox1 d) ..< high (sandbox1 d)} = {}"

definition free_points :: "'s DualSandbox \<Rightarrow> nat set" where
  "free_points d = {low (sandbox0 d) ..< high (sandbox0 d)} \<union> {low (sandbox1 d) ..< high (sandbox1 d)}"

lemma dual_allocate_step:
  assumes "dual_ok d" "request_ok r" "dual_allocate alloc r d = Inr (slot, d')"
  shows "dual_ok d'" "slot_points slot \<subseteq> free_points d" "free_points d' \<subseteq> free_points d - slot_points slot"
    "unat r \<le> unat (slot_size slot)"
proof -
  from assms(3) obtain s where s: "alloc r (dual_get d) = Inr (slot, s)" "d' = dual_put s d"
    by (auto simp: dual_allocate_def split: sum.splits)
  have f: "fits (dual_get d)" using assms(1) by (simp add: dual_ok_def dual_get_def)
  note g = granted [OF f assms(2) s(1)] granted_points [OF f assms(2) s(1)] round_up [OF f assms(2)]
  show "unat r \<le> unat (slot_size slot)" using g by simp
  show "dual_ok d'" "slot_points slot \<subseteq> free_points d" "free_points d' \<subseteq> free_points d - slot_points slot"
    using assms(1) g s(2)
    by (cases "dual_i d = 0"; force simp: dual_ok_def dual_get_def dual_put_def free_points_def)+
qed

lemma dual_flip: "dual_ok (flip d) = dual_ok d" "free_points (flip d) = free_points d"
  by (simp_all add: dual_ok_def free_points_def flip_def)

lemma dual_run_disjoint:
  assumes "dual_ok d" "\<forall>r. Request r \<in> set cs \<longrightarrow> request_ok r" "dual_run alloc cs d = Inr (slots, d')"
  shows "pairwise_disjoint slots \<and> (\<forall>t \<in> set slots. slot_points t \<subseteq> free_points d)"
  using assms
proof (induction cs arbitrary: d slots)
  case Nil
  then show ?case by simp
next
  case (Cons c cs)
  show ?case
  proof (cases c)
    case Flip
    with Cons.prems show ?thesis using Cons.IH [of "flip d" slots] by (simp add: dual_flip)
  next
    case (Request r)
    with Cons.prems obtain slot d1 slots1 where
      a: "dual_allocate alloc r d = Inr (slot, d1)" "dual_run alloc cs d1 = Inr (slots1, d')" "slots = slot # slots1"
      by (auto split: sum.splits prod.splits)
    have r: "request_ok r" using Cons.prems Request by simp
    note g = dual_allocate_step [OF Cons.prems(1) r a(1)]
    have "pairwise_disjoint slots1 \<and> (\<forall>t \<in> set slots1. slot_points t \<subseteq> free_points d1)"
      using Cons.IH [OF g(1) _ a(2)] Cons.prems(2) by simp
    then show ?thesis using g(2,3) a(3) by fastforce
  qed
qed

end

subsection \<open>The allocators keep the contract\<close>

text \<open>
  The tests \<^verbatim>\<open>watermark + request > max\<close> are on 64-bit words. Regions and requests below 2^63 do not
  make them wrap around.
\<close>

definition region_ok :: "Backing \<Rightarrow> bool" where
  "region_ok b \<longleftrightarrow> unat (backing_base b) + unat (backing_size b) < 2 ^ 63"

definition region_end :: "Backing \<Rightarrow> nat" where
  "region_end b = unat (backing_base b) + unat (backing_size b)"

definition request_small :: "64 word \<Rightarrow> bool" where
  "request_small r \<longleftrightarrow> unat r < 2 ^ 62"

definition wm_fits :: "WatermarkAllocator SandboxImpl \<Rightarrow> bool" where
  "wm_fits s \<longleftrightarrow> region_ok (sb_backing s) \<and> unat (watermark (sb_alloc s)) \<le> region_end (sb_backing s)"

definition al_fits :: "AlignedWatermarkAllocator SandboxImpl \<Rightarrow> bool" where
  "al_fits s \<longleftrightarrow> region_ok (sb_backing s) \<and> unat (al_watermark (sb_alloc s)) \<le> region_end (sb_backing s) \<and>
     (\<exists>k < 62. alignment (sb_alloc s) = 2 ^ k)"

lemma watermark_test:
  assumes "region_ok b" "unat w \<le> region_end b" "unat r < 2 ^ 63"
  shows "w + r > backing_base b + backing_size b \<longleftrightarrow> region_end b < unat w + unat r"
    "unat (w + r) = unat w + unat r"
proof -
  have e: "unat (backing_base b + backing_size b) = region_end b"
    using assms(1) by (simp add: region_ok_def region_end_def unat_add_no_wrap)
  show w: "unat (w + r) = unat w + unat r"
    using assms by (intro unat_add_no_wrap) (simp add: region_ok_def region_end_def)
  show "w + r > backing_base b + backing_size b \<longleftrightarrow> region_end b < unat w + unat r"
    by (simp add: word_less_nat_alt e w)
qed

lemma unat_clear_low: "unat (x AND NOT (mask k)) = unat x div 2 ^ k * 2 ^ k" for x :: "64 word"
proof -
  have "x = push_bit k (drop_bit k x) + take_bit k x" by (simp add: bits_ident)
  moreover have "x AND NOT (mask k) = push_bit k (drop_bit k x)"
    by (rule bit_word_eqI) (auto simp: bit_and_iff bit_not_iff bit_mask_iff bit_push_bit_iff bit_drop_bit_eq)
  ultimately have e: "x AND NOT (mask k) = x - take_bit k x" by (metis add_diff_cancel_right')
  have t: "unat (take_bit k x) = unat x mod 2 ^ k" by (simp only: unsigned_take_bit_eq) (simp add: take_bit_eq_mod)
  then have "take_bit k x \<le> x" by (simp add: word_le_nat_alt)
  then have "unat (x AND NOT (mask k)) = unat x - unat x mod 2 ^ k" by (simp add: e t unat_sub_no_wrap)
  then show ?thesis by (simp add: minus_mod_eq_div_mult)
qed

lemma unat_round_request:
  assumes "request_small r" "k < 62"
  shows "unat (round_request (2 ^ k) r) = (unat r + 2 ^ k - 1) div 2 ^ k * 2 ^ k"
    "unat r \<le> unat (round_request (2 ^ k) r)" "unat (round_request (2 ^ k) r) < 2 ^ 63"
proof -
  have k: "(2 :: nat) ^ k < 2 ^ 62" using assms(2) by (intro power_strict_increasing) simp_all
  have m: "(2 ^ k - 1 :: 64 word) = mask k" by (simp add: mask_eq_exp_minus_1)
  have "(mask k :: 64 word) = of_nat (2 ^ k - 1)" by (simp add: mask_eq_exp_minus_1 of_nat_diff)
  then have "unat (mask k :: 64 word) = 2 ^ k - 1" using k by (simp only: unat_of_nat) simp
  then have s: "unat (r + mask k) = unat r + 2 ^ k - 1"
    using assms(1) k by (subst unat_add_no_wrap) (simp_all add: request_small_def)
  have e: "round_request (2 ^ k) r = (r + mask k) AND NOT (mask k)"
    unfolding round_request_def m [symmetric] by (simp add: add_diff_eq)
  show *: "unat (round_request (2 ^ k) r) = (unat r + 2 ^ k - 1) div 2 ^ k * 2 ^ k"
    unfolding e unat_clear_low s ..
  have "(unat r + 2 ^ k - 1) div 2 ^ k * 2 ^ k + (unat r + 2 ^ k - 1) mod 2 ^ k = unat r + 2 ^ k - 1"
    by (rule div_mult_mod_eq)
  moreover have "(unat r + 2 ^ k - 1) mod 2 ^ k < 2 ^ k" by simp
  ultimately show "unat r \<le> unat (round_request (2 ^ k) r)" using * by linarith
  have "(unat r + 2 ^ k - 1) div 2 ^ k * 2 ^ k \<le> unat r + 2 ^ k - 1" by simp
  moreover have "unat r + 2 ^ k - 1 < 2 ^ 63" using k assms(1) by (simp add: request_small_def)
  ultimately show "unat (round_request (2 ^ k) r) < 2 ^ 63" unfolding * by (rule le_less_trans)
qed

interpretation wm: slot_allocator "sb_allocate wm_allocate" wm_fits "\<lambda>s. unat (watermark (sb_alloc s))"
  "\<lambda>s. region_end (sb_backing s)" "\<lambda>s. unat" request_small
proof
  fix s :: "WatermarkAllocator SandboxImpl" and r slot s' e
  show "wm_fits s \<Longrightarrow> unat (watermark (sb_alloc s)) \<le> region_end (sb_backing s)" by (simp add: wm_fits_def)
  assume f: "wm_fits s" and r: "request_small r"
  then have "region_ok (sb_backing s)" "unat (watermark (sb_alloc s)) \<le> region_end (sb_backing s)" "unat r < 2 ^ 63"
    by (simp_all add: wm_fits_def request_small_def)
  note t = watermark_test [OF this]
  show "sb_allocate wm_allocate r s = Inr (slot, s') \<Longrightarrow> wm_fits s' \<and> region_end (sb_backing s') = region_end (sb_backing s) \<and>
    unat = unat \<and> unat (slot_address slot) = unat (watermark (sb_alloc s)) \<and> unat (slot_size slot) = unat r \<and>
    unat (watermark (sb_alloc s')) = unat (watermark (sb_alloc s)) + unat r"
    using f t by (auto simp: sb_allocate_def wm_allocate_def Let_def wm_fits_def split: if_splits)
  show "sb_allocate wm_allocate r s = Inl e \<Longrightarrow>
    e = bad_alloc \<and> region_end (sb_backing s) < unat (watermark (sb_alloc s)) + unat r"
    using t by (auto simp: sb_allocate_def wm_allocate_def Let_def split: if_splits)
qed simp

interpretation al: slot_allocator "sb_allocate al_allocate" al_fits "\<lambda>s. unat (al_watermark (sb_alloc s))"
  "\<lambda>s. region_end (sb_backing s)" "\<lambda>s r. unat (round_request (alignment (sb_alloc s)) r)" request_small
proof
  fix s :: "AlignedWatermarkAllocator SandboxImpl" and r slot s' e
  show "al_fits s \<Longrightarrow> unat (al_watermark (sb_alloc s)) \<le> region_end (sb_backing s)" by (simp add: al_fits_def)
  assume f: "al_fits s" and r: "request_small r"
  let ?r = "round_request (alignment (sb_alloc s)) r"
  from f obtain k where k: "k < 62" "alignment (sb_alloc s) = 2 ^ k" by (auto simp: al_fits_def)
  show "unat r \<le> unat ?r" using unat_round_request(2) [OF r k(1)] k(2) by simp
  have "region_ok (sb_backing s)" "unat (al_watermark (sb_alloc s)) \<le> region_end (sb_backing s)" "unat ?r < 2 ^ 63"
    using f unat_round_request(3) [OF r k(1)] k(2) by (simp_all add: al_fits_def)
  note t = watermark_test [OF this]
  show "sb_allocate al_allocate r s = Inr (slot, s') \<Longrightarrow> al_fits s' \<and> region_end (sb_backing s') = region_end (sb_backing s) \<and>
    (\<lambda>r. unat (round_request (alignment (sb_alloc s')) r)) = (\<lambda>r. unat (round_request (alignment (sb_alloc s)) r)) \<and>
    unat (slot_address slot) = unat (al_watermark (sb_alloc s)) \<and> unat (slot_size slot) = unat ?r \<and>
    unat (al_watermark (sb_alloc s')) = unat (al_watermark (sb_alloc s)) + unat ?r"
    using f t by (auto simp: sb_allocate_def al_allocate_def Let_def al_fits_def split: if_splits)
  show "sb_allocate al_allocate r s = Inl e \<Longrightarrow>
    e = bad_alloc \<and> region_end (sb_backing s) < unat (al_watermark (sb_alloc s)) + unat ?r"
    using t by (auto simp: sb_allocate_def al_allocate_def Let_def split: if_splits)
qed

text \<open>Claim C31: the slots that an aligned sandbox gives out for a sequence of requests lie in its
  region, are pairwise disjoint, hold their requests and are multiples of the alignment in size.\<close>

theorem aligned_slots_disjoint:
  assumes "newMemoryBacking mmap addr sz = Inr b" "region_ok b" "k < 62"
    "\<forall>r \<in> set rs. request_small r"
    "allocate_all (sb_allocate al_allocate) rs (newSandboxImpl (newAlignedWatermarkAllocator (2 ^ k)) b) = Inr (slots, s')"
  shows "pairwise_disjoint slots \<and> (\<forall>t \<in> set slots. slot_points t \<subseteq> {unat addr ..< unat addr + unat sz}) \<and>
    list_all2 (\<lambda>r t. unat r \<le> unat (slot_size t) \<and> 2 ^ k dvd unat (slot_size t)) rs slots"
proof -
  let ?s = "newSandboxImpl (newAlignedWatermarkAllocator (2 ^ k)) b"
  have b: "backing_base b = addr" "backing_size b = sz"
    using assms(1) by (auto simp: newMemoryBacking_def Let_def split: if_splits)
  have f: "al_fits ?s"
    using assms(2,3) by (auto simp: al_fits_def newSandboxImpl_def newAlignedWatermarkAllocator_def region_end_def)
  note step = al.allocate_all_step [OF f assms(4,5)]
  have w: "unat (al_watermark (sb_alloc ?s)) = unat addr" and e: "region_end (sb_backing ?s) = unat addr + unat sz"
    by (simp_all add: newSandboxImpl_def newAlignedWatermarkAllocator_def region_end_def b)
  have "unat (al_watermark (sb_alloc s')) \<le> unat addr + unat sz" using step e al.bounds [of s'] by simp
  then have "slot_points t \<subseteq> {unat addr ..< unat addr + unat sz}" if "t \<in> set slots" for t
    using step that w by fastforce
  moreover have d: "2 ^ k dvd unat (round_request (2 ^ k) r)" if "r \<in> set rs" for r
    using unat_round_request(1) [OF _ assms(3), of r] assms(4) that by simp
  have "list_all2 (\<lambda>r t. unat r \<le> unat (slot_size t) \<and> 2 ^ k dvd unat (slot_size t)) rs slots"
  proof (rule list.rel_mono_strong [rotated])
    show "list_all2 (\<lambda>r t. unat r \<le> unat (slot_size t) \<and> unat (slot_size t) = unat (round_request (2 ^ k) r)) rs slots"
      using step by (simp only: newSandboxImpl_def newAlignedWatermarkAllocator_def SandboxImpl.simps AlignedWatermarkAllocator.simps)
  qed (simp add: d)
  ultimately show ?thesis using step by simp
qed

theorem aligned_slots_disjoint_witness:
  "pairwise_disjoint [\<lparr>slot_address = 0x40000000, slot_size = 6\<rparr>, \<lparr>slot_address = 0x40000006, slot_size = 4\<rparr>]"
proof -
  let ?b = "\<lparr>backing_kind = MemoryBacking, backing_base = 0x40000000, backing_size = 16,
    backing_data = replicate 16 0, backing_exec = False\<rparr>"
  have m: "newMemoryBacking (\<lambda>addr sz. addr) 0x40000000 16 = Inr ?b" by (simp add: newMemoryBacking_def)
  have a: "allocate_all (sb_allocate al_allocate) [5, 4] (newSandboxImpl (newAlignedWatermarkAllocator (2 ^ 1)) ?b) =
    Inr ([\<lparr>slot_address = 0x40000000, slot_size = 6\<rparr>, \<lparr>slot_address = 0x40000006, slot_size = 4\<rparr>],
      \<lparr>sb_backing = ?b, sb_alloc = \<lparr>al_base = 0x40000000, al_watermark = 0x4000000A, alignment = 2\<rparr>\<rparr>)"
    by (simp add: sb_allocate_def al_allocate_def newSandboxImpl_def newAlignedWatermarkAllocator_def round_request_def)
  show ?thesis using aligned_slots_disjoint [OF m _ _ _ a] by (simp add: region_ok_def request_small_def)
qed



text \<open>
  A request near 2^64 makes the test wrap around: the allocator succeeds and moves its watermark
  below the slots that it has given out.
\<close>

lemma watermark_wraps:
  "wm_allocate \<lparr>backing_kind = MemoryBacking, backing_base = 0x1000, backing_size = 0x100, backing_data = [], backing_exec = False\<rparr>
     (- 8) \<lparr>wm_base = 0x1000, watermark = 0x1010\<rparr> =
   Inr (\<lparr>slot_address = 0x1010, slot_size = - 8\<rparr>, \<lparr>wm_base = 0x1000, watermark = 0x1008\<rparr>)"
  by (simp add: wm_allocate_def)

end
