(* ===== verification/Chunks.thy ===== *)
theory Chunks
  imports Sandbox "HOL-Library.Monad_Syntax"
begin

section \<open>Chunks and positions (\<^verbatim>\<open>src/chunk\<close>, \<^verbatim>\<open>src/operation/cursor.cpp\<close>)\<close>

text \<open>
  The program is a tree of chunks that point to their parent and siblings and whose positions point
  to other chunks, so the model has a heap of chunk objects, named by \<open>cid\<close>. A chunk has the fields
  of the decorators of its class. \<open>None\<close> is a failed assertion, an exception, a null or dangling
  pointer that is followed, or a recursion that does not end.

  Chunks use \<^verbatim>\<open>POSITION_OLD\<close>, the value the constructor sets; the lists of children are their
  iterable part (the spatial and named maps, which no operation here reads, are left out); the position modes that track
  generations, which only the unit tests select, are left out.
\<close>

type_synonym cid = nat

datatype ChunkKind = Program | Module | FunctionList | Function | Block | Instruction

text \<open>
  What the mutator needs of a semantic: its size, and the instruction it points back to. The number
  stands for the rest of its contents.
\<close>

datatype Semantic =
    IsolatedInstruction nat "64 word"
  | LinkedInstructionBase nat "64 word" cid
  | ControlFlowInstructionBase nat "64 word" cid

primrec semantic_getSize :: "Semantic \<Rightarrow> 64 word" where
  "semantic_getSize (IsolatedInstruction i s) = s"
| "semantic_getSize (LinkedInstructionBase i s c) = s"
| "semantic_getSize (ControlFlowInstructionBase i s c) = s"

primrec setInstruction :: "cid \<Rightarrow> Semantic \<Rightarrow> Semantic" where
  "setInstruction c (IsolatedInstruction i s) = IsolatedInstruction i s"
| "setInstruction c (LinkedInstructionBase i s d) = LinkedInstructionBase i s c"
| "setInstruction c (ControlFlowInstructionBase i s d) = ControlFlowInstructionBase i s d"

primrec setSource :: "cid \<Rightarrow> Semantic \<Rightarrow> Semantic" where
  "setSource c (IsolatedInstruction i s) = IsolatedInstruction i s"
| "setSource c (LinkedInstructionBase i s d) = LinkedInstructionBase i s d"
| "setSource c (ControlFlowInstructionBase i s d) = ControlFlowInstructionBase i s c"

text \<open>The cached positions have their cache as the last argument.\<close>

datatype Position =
    AbsolutePosition address
  | OffsetPosition cid address
  | AbsoluteOffsetPosition cid address
  | SubsequentPosition cid
  | SlotPosition Slot
  | CachedOffsetPosition cid address address
  | CachedSubsequentPosition cid address

text \<open>
  \<open>position\<close> is the position of a class with a single position, and the original position of a
  function; \<open>slotPosition\<close> is the assigned position of a function.
\<close>

record Chunk =
  kind :: ChunkKind
  parent :: "cid option"
  prevSibling :: "cid option"
  nextSibling :: "cid option"
  children :: "cid list"
  position :: "Position option"
  slotPosition :: "Slot option"
  computedSize :: "64 word"
  semantic :: "Semantic option"

type_synonym heap = "cid \<rightharpoonup> Chunk"

definition newBlock :: Chunk where
  "newBlock = \<lparr>kind = Block, parent = None, prevSibling = None, nextSibling = None, children = [],
     position = None, slotPosition = None, computedSize = 0, semantic = None\<rparr>"

definition update_chunk :: "cid \<Rightarrow> (Chunk \<Rightarrow> Chunk) \<Rightarrow> heap \<Rightarrow> heap option" where
  "update_chunk c f h = (case h c of None \<Rightarrow> None | Some x \<Rightarrow> Some (h(c \<mapsto> f x)))"

subsection \<open>Positions and sizes of the classes\<close>

definition getPosition :: "Chunk \<Rightarrow> Position option" where
  "getPosition x =
     (case kind x of
        Program \<Rightarrow> None
      | FunctionList \<Rightarrow> None
      | Function \<Rightarrow> (case slotPosition x of Some s \<Rightarrow> Some (SlotPosition s) | None \<Rightarrow> position x)
      | _ \<Rightarrow> position x)"

definition setPosition :: "Position option \<Rightarrow> Chunk \<Rightarrow> Chunk option" where
  "setPosition p x =
     (case kind x of
        Program \<Rightarrow> None
      | FunctionList \<Rightarrow> None
      | Function \<Rightarrow>
          if position x = None then Some (x\<lparr>position := p\<rparr>)
          else Some (x\<lparr>slotPosition := (case p of Some (SlotPosition s) \<Rightarrow> Some s | _ \<Rightarrow> None)\<rparr>)
      | _ \<Rightarrow> Some (x\<lparr>position := p\<rparr>))"

text \<open>An update in place of the position object that \<^verbatim>\<open>getPosition\<close> returns.\<close>

definition store_position :: "Position \<Rightarrow> Chunk \<Rightarrow> Chunk" where
  "store_position p x =
     (if kind x = Function \<and> slotPosition x \<noteq> None
      then x\<lparr>slotPosition := (case p of SlotPosition s \<Rightarrow> Some s | _ \<Rightarrow> slotPosition x)\<rparr>
      else x\<lparr>position := Some p\<rparr>)"

definition chunk_getSize :: "Chunk \<Rightarrow> 64 word option" where
  "chunk_getSize x =
     (case kind x of
        Instruction \<Rightarrow> map_option semantic_getSize (semantic x)
      | Program \<Rightarrow> Some 0
      | FunctionList \<Rightarrow> Some 0
      | _ \<Rightarrow> Some (computedSize x))"

definition adjustBy :: "64 word \<Rightarrow> 64 word \<Rightarrow> 64 word option" where
  "adjustBy add sz = (if sint (sz + add) \<ge> 0 then Some (sz + add) else None)"

definition addToSize :: "64 word \<Rightarrow> Chunk \<Rightarrow> Chunk option" where
  "addToSize add x =
     (case kind x of
        Program \<Rightarrow> None
      | Instruction \<Rightarrow> None
      | FunctionList \<Rightarrow> Some x
      | Module \<Rightarrow> Some x
      | _ \<Rightarrow> map_option (\<lambda>s. x\<lparr>computedSize := s\<rparr>) (adjustBy add (computedSize x)))"

subsection \<open>Lists of children\<close>

text \<open>The cast to the type of the children.\<close>

fun accepts :: "ChunkKind \<Rightarrow> ChunkKind \<Rightarrow> bool" where
  "accepts Program k = (k = Module)"
| "accepts Module k = True"
| "accepts FunctionList k = (k = Function)"
| "accepts Function k = (k = Block)"
| "accepts Block k = (k = Instruction)"
| "accepts Instruction k = False"

text \<open>An index is \<open>-1\<close> where the element is not found, and an insertion out of range is undefined.\<close>

primrec indexOf :: "'a \<Rightarrow> 'a list \<Rightarrow> int" where
  "indexOf c [] = -1"
| "indexOf c (x # xs) = (if c = x then 0 else let i = indexOf c xs in if i = -1 then -1 else i + 1)"

definition insertAt :: "int \<Rightarrow> 'a \<Rightarrow> 'a list \<Rightarrow> 'a list option" where
  "insertAt i c xs = (if 0 \<le> i \<and> i \<le> int (length xs) then Some (take (nat i) xs @ c # drop (nat i) xs) else None)"

definition remove_at :: "int \<Rightarrow> 'a list \<Rightarrow> 'a list" where
  "remove_at i xs = (if i = -1 then xs else take (nat i) xs @ drop (Suc (nat i)) xs)"

definition list_remove :: "'a \<Rightarrow> 'a list \<Rightarrow> 'a list" where
  "list_remove c xs = remove_at (indexOf c xs) xs"

definition getLast :: "'a list \<Rightarrow> 'a option" where
  "getLast xs = (if xs = [] then None else Some (xs ! (length xs - 1)))"

definition genericAdd :: "cid \<Rightarrow> cid \<Rightarrow> heap \<Rightarrow> heap option" where
  "genericAdd p c h =
     do {
       x \<leftarrow> h p; y \<leftarrow> h c;
       if kind x = Instruction then None
       else if accepts (kind x) (kind y) then Some (h(p \<mapsto> x\<lparr>children := children x @ [c]\<rparr>))
       else Some h
     }"

definition genericInsertAt :: "cid \<Rightarrow> int \<Rightarrow> cid \<Rightarrow> heap \<Rightarrow> heap option" where
  "genericInsertAt p i c h =
     do {
       x \<leftarrow> h p; y \<leftarrow> h c;
       if kind x = Instruction then None
       else if accepts (kind x) (kind y) then do { cs \<leftarrow> insertAt i c (children x); Some (h(p \<mapsto> x\<lparr>children := cs\<rparr>)) }
       else Some h
     }"

definition genericRemove :: "cid \<Rightarrow> cid \<Rightarrow> heap \<Rightarrow> heap option" where
  "genericRemove p c h =
     do {
       x \<leftarrow> h p; y \<leftarrow> h c;
       if kind x = Instruction then None
       else if accepts (kind x) (kind y) then Some (h(p \<mapsto> x\<lparr>children := list_remove c (children x)\<rparr>))
       else Some h
     }"

definition genericRemoveLast :: "cid \<Rightarrow> heap \<Rightarrow> heap option" where
  "genericRemoveLast p h =
     do {
       x \<leftarrow> h p;
       if kind x = Instruction then None else Some (h(p \<mapsto> x\<lparr>children := butlast (children x)\<rparr>))
     }"

definition children_of :: "heap \<Rightarrow> cid \<Rightarrow> cid list option" where
  "children_of h p = do { x \<leftarrow> h p; if kind x = Instruction then None else Some (children x) }"

subsection \<open>Cursors\<close>

record ChunkCursor =
  cursor_list :: cid
  cursor_index :: nat

definition newChunkCursor :: "heap \<Rightarrow> cid \<Rightarrow> cid \<Rightarrow> ChunkCursor option" where
  "newChunkCursor h p c =
     do {
       cs \<leftarrow> children_of h p;
       let i = indexOf c cs;
       if i = -1 then None else Some \<lparr>cursor_list = p, cursor_index = nat i\<rparr>
     }"

definition makeBegin :: "cid \<Rightarrow> ChunkCursor" where
  "makeBegin p = \<lparr>cursor_list = p, cursor_index = 0\<rparr>"

definition makeEnd :: "heap \<Rightarrow> cid \<Rightarrow> ChunkCursor option" where
  "makeEnd h p = do { cs \<leftarrow> children_of h p; Some \<lparr>cursor_list = p, cursor_index = length cs\<rparr> }"

definition cursor_get :: "heap \<Rightarrow> ChunkCursor \<Rightarrow> cid option option" where
  "cursor_get h cur =
     do {
       cs \<leftarrow> children_of h (cursor_list cur);
       Some (if cursor_index cur < length cs then Some (cs ! cursor_index cur) else None)
     }"

definition cursor_prev :: "ChunkCursor \<Rightarrow> bool \<times> ChunkCursor" where
  "cursor_prev cur =
     (if cursor_index cur > 0 then (True, cur\<lparr>cursor_index := cursor_index cur - 1\<rparr>) else (False, cur))"

definition cursor_isEnd :: "heap \<Rightarrow> ChunkCursor \<Rightarrow> bool option" where
  "cursor_isEnd h cur = do { cs \<leftarrow> children_of h (cursor_list cur); Some (cursor_index cur \<ge> length cs) }"

definition cursor_next :: "heap \<Rightarrow> ChunkCursor \<Rightarrow> (bool \<times> ChunkCursor) option" where
  "cursor_next h cur =
     do {
       e \<leftarrow> cursor_isEnd h cur;
       Some (if \<not> e then (True, cur\<lparr>cursor_index := cursor_index cur + 1\<rparr>) else (False, cur))
     }"

subsection \<open>Addresses\<close>

partial_function (option) getAddress :: "heap \<Rightarrow> cid \<Rightarrow> address option" where
  "getAddress h c =
     do {
       x \<leftarrow> h c;
       p \<leftarrow> getPosition x;
       case p of
         AbsolutePosition a \<Rightarrow> Some a
       | OffsetPosition d off \<Rightarrow>
           do { y \<leftarrow> h d; case parent y of None \<Rightarrow> Some 0 | Some q \<Rightarrow> do { a \<leftarrow> getAddress h q; Some (a + off) } }
       | AbsoluteOffsetPosition d off \<Rightarrow>
           do { y \<leftarrow> h d; case parent y of None \<Rightarrow> Some 0 | Some q \<Rightarrow> do { a \<leftarrow> getAddress h q; Some (a + off) } }
       | SubsequentPosition d \<Rightarrow> do { a \<leftarrow> getAddress h d; y \<leftarrow> h d; s \<leftarrow> chunk_getSize y; Some (a + s) }
       | SlotPosition s \<Rightarrow> Some (slot_address s)
       | CachedOffsetPosition d off cache \<Rightarrow> Some cache
       | CachedSubsequentPosition d cache \<Rightarrow> Some cache
     }"

definition OffsetPosition_get :: "heap \<Rightarrow> cid \<Rightarrow> address \<Rightarrow> address option" where
  "OffsetPosition_get h d off =
     do { y \<leftarrow> h d; case parent y of None \<Rightarrow> Some 0 | Some q \<Rightarrow> do { a \<leftarrow> getAddress h q; Some (a + off) } }"

definition SubsequentPosition_get :: "heap \<Rightarrow> cid \<Rightarrow> address option" where
  "SubsequentPosition_get h d = do { a \<leftarrow> getAddress h d; y \<leftarrow> h d; s \<leftarrow> chunk_getSize y; Some (a + s) }"

definition OffsetPosition_recalculate :: "heap \<Rightarrow> cid \<Rightarrow> address option" where
  "OffsetPosition_recalculate h d =
     do {
       y \<leftarrow> h d;
       case parent y of
         None \<Rightarrow> Some 0
       | Some q \<Rightarrow>
           (case prevSibling y of
              None \<Rightarrow> Some 0
            | Some pr \<Rightarrow>
                do { a \<leftarrow> getAddress h pr; b \<leftarrow> getAddress h q; z \<leftarrow> h pr; s \<leftarrow> chunk_getSize z; Some ((a - b) + s) })
     }"

fun recalculate :: "heap \<Rightarrow> Position \<Rightarrow> Position option" where
  "recalculate h (OffsetPosition d off) = do { off' \<leftarrow> OffsetPosition_recalculate h d; Some (OffsetPosition d off') }"
| "recalculate h (CachedOffsetPosition d off cache) =
     do {
       off' \<leftarrow> OffsetPosition_recalculate h d;
       a \<leftarrow> OffsetPosition_get h d off';
       Some (CachedOffsetPosition d off' a)
     }"
| "recalculate h (CachedSubsequentPosition d cache) =
     do { a \<leftarrow> SubsequentPosition_get h d; Some (CachedSubsequentPosition d a) }"
| "recalculate h p = Some p"

definition OffsetPosition_set :: "heap \<Rightarrow> cid \<Rightarrow> address \<Rightarrow> address option" where
  "OffsetPosition_set h d v =
     do { y \<leftarrow> h d; q \<leftarrow> parent y; a \<leftarrow> getAddress h q; Some (v - a) }"

fun position_set :: "heap \<Rightarrow> address \<Rightarrow> Position \<Rightarrow> Position option" where
  "position_set h v (AbsolutePosition a) = Some (AbsolutePosition v)"
| "position_set h v (OffsetPosition d off) = do { off' \<leftarrow> OffsetPosition_set h d v; Some (OffsetPosition d off') }"
| "position_set h v (AbsoluteOffsetPosition d off) =
     do { off' \<leftarrow> OffsetPosition_set h d v; Some (AbsoluteOffsetPosition d off') }"
| "position_set h v (SubsequentPosition d) = None"
| "position_set h v (SlotPosition s) = Some (SlotPosition (s\<lparr>slot_address := v\<rparr>))"
| "position_set h v (CachedOffsetPosition d off cache) =
     do { off' \<leftarrow> OffsetPosition_set h d v; Some (CachedOffsetPosition d off' cache) }"
| "position_set h v (CachedSubsequentPosition d cache) = None"

definition setAddress :: "cid \<Rightarrow> address \<Rightarrow> heap \<Rightarrow> heap option" where
  "setAddress c v h =
     do {
       x \<leftarrow> h c; p \<leftarrow> getPosition x; p' \<leftarrow> position_set h v p;
       Some (h(c \<mapsto> store_position p' x))
     }"

fun setAfterThis :: "cid \<Rightarrow> Position \<Rightarrow> Position" where
  "setAfterThis c (SubsequentPosition d) = SubsequentPosition c"
| "setAfterThis c (CachedSubsequentPosition d cache) = CachedSubsequentPosition c cache"
| "setAfterThis c p = p"

fun is_absolute :: "Position option \<Rightarrow> bool" where
  "is_absolute (Some (AbsolutePosition a)) = True"
| "is_absolute p = False"

subsection \<open>The position factory\<close>

datatype PositionMode = MODE_CACHED_OFFSET | MODE_CACHED_SUBSEQUENT | MODE_OFFSET | MODE_SUBSEQUENT

definition defaultMode :: PositionMode where
  "defaultMode = MODE_OFFSET"

fun needsUpdatePasses :: "PositionMode \<Rightarrow> bool" where
  "needsUpdatePasses MODE_CACHED_OFFSET = True"
| "needsUpdatePasses MODE_CACHED_SUBSEQUENT = True"
| "needsUpdatePasses MODE_OFFSET = True"
| "needsUpdatePasses MODE_SUBSEQUENT = False"

fun needsSpecialCaseFirst :: "PositionMode \<Rightarrow> bool" where
  "needsSpecialCaseFirst MODE_SUBSEQUENT = True"
| "needsSpecialCaseFirst MODE_CACHED_SUBSEQUENT = True"
| "needsSpecialCaseFirst MODE_CACHED_OFFSET = False"
| "needsSpecialCaseFirst MODE_OFFSET = False"

definition newCachedOffsetPosition :: "heap \<Rightarrow> cid \<Rightarrow> Position option" where
  "newCachedOffsetPosition h c = recalculate h (CachedOffsetPosition c 0 0)"

definition position_setOffset :: "address \<Rightarrow> Position \<Rightarrow> Position" where
  "position_setOffset off p =
     (case p of
        OffsetPosition d o' \<Rightarrow> OffsetPosition d off
      | CachedOffsetPosition d o' cache \<Rightarrow> CachedOffsetPosition d off cache
      | _ \<Rightarrow> p)"

definition makePosition :: "PositionMode \<Rightarrow> heap \<Rightarrow> cid option \<Rightarrow> cid \<Rightarrow> address \<Rightarrow> Position option" where
  "makePosition m h previous c off =
     (case previous of
        None \<Rightarrow> Some (OffsetPosition c off)
      | Some pr \<Rightarrow>
          (case m of
             MODE_CACHED_OFFSET \<Rightarrow> do { p \<leftarrow> newCachedOffsetPosition h c; recalculate h (position_setOffset off p) }
           | MODE_CACHED_SUBSEQUENT \<Rightarrow> recalculate h (CachedSubsequentPosition pr 0)
           | MODE_OFFSET \<Rightarrow> Some (OffsetPosition c off)
           | MODE_SUBSEQUENT \<Rightarrow> Some (SubsequentPosition pr)))"

end
