(* ===== verification/Generator.thy ===== *)
theory Generator
  imports Chunks
begin

section \<open>Generating code into a sandbox (\<^verbatim>\<open>src/transform/generator.cpp\<close>)\<close>

text \<open>
  The generator asks the sandbox for a slot for every function and PLT trampoline of the program, and
  then writes their code: into mapped memory at the assigned addresses, or at the end of the buffer that
  becomes a section of the output. PLT trampolines have the decorators of functions (two positions and a
  computed size), and the model gives them the same kind of chunk.

  The allocator of the sandbox is a parameter, as is what the semantics write: \<open>write_instr\<close> gives the bytes of
  an instruction, \<open>write_plt\<close> those of a trampoline, both of which may depend on the addresses of all chunks,
  and \<open>caches\<close> the code of a chunk that has a cache. \<open>None\<close> is a null pointer that is followed, a write
  outside the mapped memory, or an exception of the sandbox.
\<close>

record CodeWriters =
  write_instr :: "heap \<Rightarrow> cid \<Rightarrow> byte list"
  write_plt :: "heap \<Rightarrow> cid \<Rightarrow> byte list"
  caches :: "cid \<Rightarrow> (address \<Rightarrow> byte list) option"
  pad_byte :: byte

record GenModule =
  mod_functions :: "cid list"
  mod_plts :: "cid list option"

type_synonym 's allocate = "64 word \<Rightarrow> 's \<Rightarrow> sandbox_error + Slot \<times> 's"

subsection \<open>Assigning addresses\<close>

definition assignAddress :: "cid \<Rightarrow> Slot \<Rightarrow> heap \<Rightarrow> heap option" where
  "assignAddress c slot h = update_chunk c (\<lambda>x. x\<lparr>slotPosition := Some slot\<rparr>) h"

definition assignAddressForFunction :: "'s allocate \<Rightarrow> cid \<Rightarrow> heap \<times> 's \<Rightarrow> (heap \<times> 's) option" where
  "assignAddressForFunction alloc c st =
     do {
       x \<leftarrow> fst st c;
       n \<leftarrow> chunk_getSize x;
       case alloc n (snd st) of
         Inl e \<Rightarrow> None
       | Inr (slot, s) \<Rightarrow> do { h \<leftarrow> assignAddress c slot (fst st); Some (h, s) }
     }"

fun assign_each :: "'s allocate \<Rightarrow> cid list \<Rightarrow> heap \<times> 's \<Rightarrow> (heap \<times> 's) option" where
  "assign_each alloc [] st = Some st"
| "assign_each alloc (c # cs) st = do { st \<leftarrow> assignAddressForFunction alloc c st; assign_each alloc cs st }"

text \<open>In the kernel build the function \<^verbatim>\<open>startup_64\<close> comes first; otherwise \<open>startup\<close> is \<open>None\<close>.\<close>

definition function_before :: "cid option \<Rightarrow> address \<times> cid \<Rightarrow> address \<times> cid \<Rightarrow> bool" where
  "function_before startup a b =
     (if startup = Some (snd a) then True
      else if startup = Some (snd b) then False
      else fst a < fst b)"

definition pickFunctionOrder :: "cid option \<Rightarrow> GenModule \<Rightarrow> heap \<Rightarrow> cid list option" where
  "pickFunctionOrder startup m h =
     do {
       as \<leftarrow> those (map (getAddress h) (mod_functions m));
       Some (map snd (std_sort (function_before startup) (zip as (mod_functions m))))
     }"

definition assignAddresses_ordered :: "'s allocate \<Rightarrow> cid list \<Rightarrow> GenModule \<Rightarrow> heap \<times> 's \<Rightarrow> (heap \<times> 's) option" where
  "assignAddresses_ordered alloc order m st =
     do {
       st \<leftarrow> assign_each alloc order st;
       case mod_plts m of None \<Rightarrow> Some st | Some plts \<Rightarrow> assign_each alloc plts st
     }"

definition assignAddresses_module :: "'s allocate \<Rightarrow> cid option \<Rightarrow> GenModule \<Rightarrow> heap \<times> 's \<Rightarrow> (heap \<times> 's) option" where
  "assignAddresses_module alloc startup m st =
     do {
       order \<leftarrow> pickFunctionOrder startup m (fst st);
       assignAddresses_ordered alloc order m st
     }"

fun assignAddresses :: "'s allocate \<Rightarrow> (GenModule \<Rightarrow> cid option) \<Rightarrow> GenModule list \<Rightarrow> heap \<times> 's \<Rightarrow> (heap \<times> 's) option" where
  "assignAddresses alloc startup [] st = Some st"
| "assignAddresses alloc startup (m # ms) st =
     do { st \<leftarrow> assignAddresses_module alloc (startup m) m st; assignAddresses alloc startup ms st }"

fun assignAddresses_program_ordered :: "'s allocate \<Rightarrow> cid list \<Rightarrow> GenModule list \<Rightarrow> heap \<times> 's \<Rightarrow> (heap \<times> 's) option" where
  "assignAddresses_program_ordered alloc order [] st = Some st"
| "assignAddresses_program_ordered alloc order (m # ms) st =
     do { st \<leftarrow> assignAddresses_ordered alloc order m st; assignAddresses_program_ordered alloc order ms st }"

subsection \<open>Writing code\<close>

text \<open>A write of bytes to mapped memory.\<close>

definition poke :: "address \<Rightarrow> byte list \<Rightarrow> Backing \<Rightarrow> Backing option" where
  "poke a bs b =
     (let i = unat a - unat (backing_base b)
      in if unat (backing_base b) \<le> unat a \<and> i + length bs \<le> length (backing_data b)
         then Some (b\<lparr>backing_data := take i (backing_data b) @ bs @ drop (i + length bs) (backing_data b)\<rparr>)
         else None)"

definition buffer_append :: "byte list \<Rightarrow> Backing \<Rightarrow> Backing" where
  "buffer_append bs b = b\<lparr>backing_data := backing_data b @ bs\<rparr>"

text \<open>The instructions of a function, in the order of the loops.\<close>

fun block_instrs :: "heap \<Rightarrow> cid list \<Rightarrow> cid list option" where
  "block_instrs h [] = Some []"
| "block_instrs h (b # bs) = do { is \<leftarrow> children_of h b; rest \<leftarrow> block_instrs h bs; Some (is @ rest) }"

definition function_instrs :: "heap \<Rightarrow> cid \<Rightarrow> cid list option" where
  "function_instrs h c = do { bs \<leftarrow> children_of h c; block_instrs h bs }"

fun write_instrs :: "CodeWriters \<Rightarrow> heap \<Rightarrow> cid list \<Rightarrow> address \<Rightarrow> Backing \<Rightarrow> Backing option" where
  "write_instrs W h [] output b = Some b"
| "write_instrs W h (i # is) output b =
     do {
       b \<leftarrow> poke output (write_instr W h i) b;
       x \<leftarrow> h i;
       n \<leftarrow> map_option semantic_getSize (semantic x);
       write_instrs W h is (output + n) b
     }"

definition addPaddingBytes :: "CodeWriters \<Rightarrow> heap \<Rightarrow> cid \<Rightarrow> Backing \<Rightarrow> Backing option" where
  "addPaddingBytes W h c b =
     do {
       x \<leftarrow> h c;
       slot \<leftarrow> slotPosition x;
       n \<leftarrow> chunk_getSize x;
       if slot_size slot > n then
         let padding = replicate (unat (slot_size slot - n)) (pad_byte W)
         in if supportsDirectWrites b then do { a \<leftarrow> getAddress h c; poke (a + n) padding b }
            else Some (buffer_append padding b)
       else Some b
     }"

definition copyFunction :: "CodeWriters \<Rightarrow> heap \<Rightarrow> cid \<Rightarrow> Backing \<Rightarrow> Backing option" where
  "copyFunction W h c b =
     (if supportsDirectWrites b then
        do {
          a \<leftarrow> getAddress h c;
          case caches W c of
            Some copyAndFix \<Rightarrow> poke a (copyAndFix a) b
          | None \<Rightarrow>
              do { is \<leftarrow> function_instrs h c; b \<leftarrow> write_instrs W h is a b; addPaddingBytes W h c b }
        }
      else
        do {
          is \<leftarrow> function_instrs h c;
          addPaddingBytes W h c (buffer_append (concat (map (write_instr W h) is)) b)
        })"

definition copyTrampoline :: "CodeWriters \<Rightarrow> heap \<Rightarrow> cid \<Rightarrow> Backing \<Rightarrow> Backing option" where
  "copyTrampoline W h c b =
     (if supportsDirectWrites b then
        do {
          a \<leftarrow> getAddress h c;
          case caches W c of
            Some copyAndFix \<Rightarrow> poke a (copyAndFix a) b
          | None \<Rightarrow> do { b \<leftarrow> poke a (write_plt W h c) b; addPaddingBytes W h c b }
        }
      else
        do {
          x \<leftarrow> h c;
          n \<leftarrow> chunk_getSize x;
          let expectedSize = length (backing_data b) + unat n;
          let b = buffer_append (write_plt W h c) b;
          let actualSize = length (backing_data b);
          addPaddingBytes W h c
            (if actualSize > expectedSize then b else buffer_append (replicate (expectedSize - actualSize) 0xf4) b)
        })"

fun copy_each :: "(cid \<Rightarrow> Backing \<Rightarrow> Backing option) \<Rightarrow> cid list \<Rightarrow> Backing \<Rightarrow> Backing option" where
  "copy_each copy [] b = Some b"
| "copy_each copy (c # cs) b = do { b \<leftarrow> copy c b; copy_each copy cs b }"

definition generateCode_ordered :: "CodeWriters \<Rightarrow> cid list \<Rightarrow> GenModule \<Rightarrow> heap \<Rightarrow> Backing \<Rightarrow> Backing option" where
  "generateCode_ordered W order m h b =
     do {
       b \<leftarrow> copy_each (copyFunction W h) order b;
       case mod_plts m of None \<Rightarrow> Some b | Some plts \<Rightarrow> copy_each (copyTrampoline W h) plts b
     }"

definition generateCode_module :: "CodeWriters \<Rightarrow> cid option \<Rightarrow> GenModule \<Rightarrow> heap \<Rightarrow> Backing \<Rightarrow> Backing option" where
  "generateCode_module W startup m h b =
     do { order \<leftarrow> pickFunctionOrder startup m h; generateCode_ordered W order m h b }"

fun generateCode :: "CodeWriters \<Rightarrow> (GenModule \<Rightarrow> cid option) \<Rightarrow> GenModule list \<Rightarrow> heap \<Rightarrow> Backing \<Rightarrow> Backing option" where
  "generateCode W startup [] h b = Some b"
| "generateCode W startup (m # ms) h b =
     do { b \<leftarrow> generateCode_module W (startup m) m h b; generateCode W startup ms h b }"

fun generateCode_program_ordered :: "CodeWriters \<Rightarrow> cid list \<Rightarrow> GenModule list \<Rightarrow> heap \<Rightarrow> Backing \<Rightarrow> Backing option" where
  "generateCode_program_ordered W order [] h b = Some b"
| "generateCode_program_ordered W order (m # ms) h b =
     do { b \<leftarrow> generateCode_ordered W order m h b; generateCode_program_ordered W order ms h b }"

definition generateCodeForFunction :: "CodeWriters \<Rightarrow> cid \<Rightarrow> heap \<Rightarrow> Backing \<Rightarrow> Backing option" where
  "generateCodeForFunction W c h b = copyFunction W h c b"

subsection \<open>Functions placed one at a time\<close>

definition pickAddressInSandbox :: "'s allocate \<Rightarrow> cid \<Rightarrow> heap \<times> 's \<Rightarrow> (heap \<times> 's) option" where
  "pickAddressInSandbox alloc c st =
     do {
       x \<leftarrow> fst st c;
       n \<leftarrow> chunk_getSize x;
       case alloc n (snd st) of
         Inl e \<Rightarrow> None
       | Inr (slot, s) \<Rightarrow> do { h \<leftarrow> setAddress c (slot_address slot) (fst st); Some (h, s) }
     }"

definition assignAndGenerate ::
    "(CodeWriters \<Rightarrow> heap \<Rightarrow> cid \<Rightarrow> Backing \<Rightarrow> Backing option) \<Rightarrow> CodeWriters \<Rightarrow> 'a SandboxImpl allocate \<Rightarrow> cid \<Rightarrow>
     heap \<times> 'a SandboxImpl \<Rightarrow> (heap \<times> 'a SandboxImpl) option" where
  "assignAndGenerate copy W alloc c st =
     do {
       (h, s) \<leftarrow> pickAddressInSandbox alloc c st;
       b \<leftarrow> copy W h c (sb_backing s);
       Some (h, s\<lparr>sb_backing := b\<rparr>)
     }"

end
