(* ===== verification/GeneratorCorrect.thy ===== *)
theory GeneratorCorrect
  imports Generator
begin

section \<open>Generated code is where it was assigned\<close>

text \<open>
  Assigning addresses asks the allocator for one slot after another, and writing to a buffer appends the
  code in the same order, filled up to the size of the slot. The order in which the functions are written
  is computed again from their addresses, which by then are the assigned ones.
\<close>

subsection \<open>Slots are consecutive\<close>

context slot_allocator
begin

lemma consecutive_slots:
  assumes "fits s" "\<forall>r \<in> set rs. request_ok r" "allocate_all alloc rs s = Inr (slots, s')" "k < length slots"
  shows "unat (slot_address (slots ! k)) = low s + sum_list (map (\<lambda>t. unat (slot_size t)) (take k slots))"
  using assms
proof (induction rs arbitrary: s slots k)
  case (Cons r rs)
  from Cons.prems obtain slot s1 slots1 where
    a: "alloc r s = Inr (slot, s1)" "allocate_all alloc rs s1 = Inr (slots1, s')" "slots = slot # slots1"
    by (auto split: sum.splits prod.splits)
  have r: "request_ok r" using Cons.prems by simp
  note g = granted [OF Cons.prems(1) r a(1)]
  show ?case
  proof (cases k)
    case 0
    with g a(3) show ?thesis by simp
  next
    case (Suc k')
    with Cons.IH [OF _ _ a(2), of k'] Cons.prems(2,4) g a(3) show ?thesis by simp
  qed
qed simp

lemma consecutive_sorted:
  assumes "fits s" "\<forall>r \<in> set rs. request_ok r" "allocate_all alloc rs s = Inr (slots, s')"
    and "\<forall>t \<in> set slots. 0 < unat (slot_size t)"
  shows "sorted_wrt (\<lambda>s t. slot_address s < slot_address t) slots"
  unfolding sorted_wrt_iff_nth_less
proof (intro allI impI)
  fix i j assume ij: "i < j" "j < length slots"
  let ?size = "\<lambda>t. unat (slot_size t)"
  have "sum_list (map ?size (take j slots)) = sum_list (map ?size (take i slots)) + sum_list (map ?size (take (j - i) (drop i slots)))"
    using ij(1) by (simp flip: sum_list_append map_append take_add)
  moreover have "take (j - i) (drop i slots) = slots ! i # take (j - Suc i) (drop (Suc i) slots)"
    using ij by (simp add: Cons_nth_drop_Suc [symmetric] take_Cons' Suc_diff_Suc)
  moreover have "0 < ?size (slots ! i)"
    using assms(4) ij by simp
  ultimately show "slot_address (slots ! i) < slot_address (slots ! j)"
    using consecutive_slots [OF assms(1-3), of i] consecutive_slots [OF assms(1-3), of j] ij
    by (simp add: word_less_nat_alt)
qed

end

lemma allocate_all_append:
  "allocate_all alloc (rs @ qs) s =
    (case allocate_all alloc rs s of Inl e \<Rightarrow> Inl e
     | Inr (slots, s') \<Rightarrow> (case allocate_all alloc qs s' of Inl e \<Rightarrow> Inl e | Inr (slots', s'') \<Rightarrow> Inr (slots @ slots', s'')))"
  by (induction rs arbitrary: s) (auto split: sum.splits)

lemma allocate_all_length: "allocate_all alloc rs s = Inr (slots, s') \<Longrightarrow> length slots = length rs"
  by (induction rs arbitrary: s slots) (auto split: sum.splits prod.splits)

subsection \<open>Assigning\<close>

text \<open>The sizes of chunks, and a heap with slots assigned.\<close>

definition size_at :: "heap \<Rightarrow> cid \<Rightarrow> 64 word" where
  "size_at h c = (case h c of Some x \<Rightarrow> (case chunk_getSize x of Some n \<Rightarrow> n | None \<Rightarrow> 0) | None \<Rightarrow> 0)"

definition assigned :: "cid list \<Rightarrow> Slot list \<Rightarrow> heap \<Rightarrow> heap \<Rightarrow> bool" where
  "assigned cs slots h h' \<longleftrightarrow> length slots = length cs \<and> (\<forall>c. c \<notin> set cs \<longrightarrow> h' c = h c) \<and>
     (\<forall>k < length cs. \<exists>x. h (cs ! k) = Some x \<and> h' (cs ! k) = Some (x\<lparr>slotPosition := Some (slots ! k)\<rparr>))"

lemma size_slot: "chunk_getSize (x\<lparr>slotPosition := p\<rparr>) = chunk_getSize x"
  by (cases "kind x") (simp_all add: chunk_getSize_def)

lemma assign_each_slots:
  assumes "assign_each alloc cs (h, s) = Some (h', s')" "distinct cs"
  shows "\<exists>slots. allocate_all alloc (map (size_at h) cs) s = Inr (slots, s') \<and> assigned cs slots h h'"
  using assms
proof (induction cs arbitrary: h s)
  case Nil
  then show ?case by (simp add: assigned_def)
next
  case (Cons c cs)
  from Cons.prems(1) obtain x n slot s1 where c: "h c = Some x" "chunk_getSize x = Some n" "alloc n s = Inr (slot, s1)"
      "assign_each alloc cs (h(c \<mapsto> x\<lparr>slotPosition := Some slot\<rparr>), s1) = Some (h', s')"
    by (auto simp: assignAddressForFunction_def assignAddress_def update_chunk_def split: bind_splits sum.splits option.splits)
  let ?h = "h(c \<mapsto> x\<lparr>slotPosition := Some slot\<rparr>)"
  obtain slots where IH: "allocate_all alloc (map (size_at ?h) cs) s1 = Inr (slots, s')" "assigned cs slots ?h h'"
    using Cons.IH [OF c(4)] Cons.prems(2) unfolding distinct.simps(2) by blast
  have "map (size_at ?h) cs = map (size_at h) cs"
    using Cons.prems(2) by (auto simp: size_at_def)
  with IH(1) c have "allocate_all alloc (map (size_at h) (c # cs)) s = Inr (slot # slots, s')"
    by (simp add: size_at_def)
  moreover have "assigned (c # cs) (slot # slots) h h'"
    unfolding assigned_def
  proof (intro conjI allI impI)
    have ne: "cs ! n \<noteq> c" if "n < length cs" for n
      using Cons.prems(2) nth_mem [OF that] by auto
    have rest: "\<exists>x. h (cs ! n) = Some x \<and> h' (cs ! n) = Some (x\<lparr>slotPosition := Some (slots ! n)\<rparr>)" if "n < length cs" for n
      using IH(2) that ne [OF that] unfolding assigned_def by auto
    have first: "h' c = Some (x\<lparr>slotPosition := Some slot\<rparr>)"
      using IH(2) Cons.prems(2) unfolding assigned_def by auto
    fix k assume "k < length (c # cs)"
    then show "\<exists>x. h ((c # cs) ! k) = Some x \<and> h' ((c # cs) ! k) = Some (x\<lparr>slotPosition := Some ((slot # slots) ! k)\<rparr>)"
      using first rest c(1) by (cases k) auto
  qed (use IH(2) Cons.prems(2) in \<open>auto simp: assigned_def\<close>)
  ultimately show ?case by blast
qed

lemma assign_each_append:
  "assign_each alloc (cs @ ds) st = do { st \<leftarrow> assign_each alloc cs st; assign_each alloc ds st }"
  by (induction cs arbitrary: st) (auto simp: bind_assoc split: bind_splits)

definition plts_of :: "GenModule \<Rightarrow> cid list" where
  "plts_of m = (case mod_plts m of None \<Rightarrow> [] | Some plts \<Rightarrow> plts)"

lemma assignAddresses_ordered_each:
  "assignAddresses_ordered alloc order m st = assign_each alloc (order @ plts_of m) st"
  by (auto simp: assignAddresses_ordered_def assign_each_append plts_of_def split: option.split bind_splits)

text \<open>The chunks of a program in the order of assignment, given the order of each module's functions.\<close>

fun placed :: "cid list list \<Rightarrow> GenModule list \<Rightarrow> cid list" where
  "placed (order # orders) (m # ms) = order @ plts_of m @ placed orders ms"
| "placed _ _ = []"

lemma those_eq_Some: "those xs = Some ys \<longleftrightarrow> xs = map Some ys"
  by (induction xs arbitrary: ys) (auto split: option.splits)

lemma pick_order_perm:
  assumes "pickFunctionOrder startup m h = Some order"
  shows "mset order = mset (mod_functions m)"
proof -
  obtain as where as: "those (map (getAddress h) (mod_functions m)) = Some as"
      "order = map snd (std_sort (function_before startup) (zip as (mod_functions m)))"
    using assms by (auto simp: pickFunctionOrder_def split: bind_splits)
  then have "length as = length (mod_functions m)"
    unfolding those_eq_Some by (metis length_map)
  then have "map snd (zip as (mod_functions m)) = mod_functions m" by simp
  then show ?thesis
    unfolding as(2) mset_map by (metis mset_map mset_std_sort)
qed

lemma assignAddresses_placed:
  assumes "assignAddresses alloc startup ms st = Some st'"
  shows "\<exists>orders. list_all2 (\<lambda>order m. mset order = mset (mod_functions m)) orders ms \<and>
    assign_each alloc (placed orders ms) st = Some st'"
  using assms
proof (induction ms arbitrary: st)
  case Nil
  then show ?case by simp
next
  case (Cons m ms)
  from Cons.prems obtain order st1 where o1: "pickFunctionOrder (startup m) m (fst st) = Some order"
      "assign_each alloc (order @ plts_of m) st = Some st1" "assignAddresses alloc startup ms st1 = Some st'"
    by (auto simp: assignAddresses_module_def assignAddresses_ordered_each split: bind_splits)
  obtain orders where "list_all2 (\<lambda>order m. mset order = mset (mod_functions m)) orders ms"
      "assign_each alloc (placed orders ms) st1 = Some st'"
    using Cons.IH [OF o1(3)] by blast
  moreover have "assign_each alloc ((order @ plts_of m) @ placed orders ms) st = Some st'"
    using o1(2) calculation(2) by (simp only: assign_each_append) simp
  ultimately show ?case
    using pick_order_perm [OF o1(1)] by (intro exI [of _ "order # orders"]) simp
qed

subsection \<open>The order is found again\<close>

lemma sorted_wrt_unique:
  assumes "sorted_wrt P xs" "sorted_wrt P ys" "mset xs = mset ys"
    and "\<And>a b. a \<in> set xs \<Longrightarrow> b \<in> set xs \<Longrightarrow> P a b \<Longrightarrow> P b a \<Longrightarrow> a = b"
  shows "xs = ys"
  using assms
proof (induction xs arbitrary: ys)
  case (Cons x xs)
  from Cons.prems(3) obtain y ys' where ys: "ys = y # ys'"
    by (cases ys) auto
  have sets: "set (x # xs) = set ys"
    using Cons.prems(3) by (rule mset_eq_setD)
  have "x = y"
  proof (rule ccontr)
    assume "x \<noteq> y"
    with sets ys have "x \<in> set ys'" "y \<in> set xs" by auto
    with Cons.prems(1,2) ys have "P x y" "P y x" by auto
    with Cons.prems(4) \<open>y \<in> set xs\<close> \<open>x \<noteq> y\<close> show False by auto
  qed
  with Cons.IH [of ys'] Cons.prems ys show ?case by auto
qed simp

lemma pick_order_again:
  assumes "mset order = mset (mod_functions m)" "\<And>c. c \<in> set order \<Longrightarrow> getAddress h c = Some (addr c)"
    and "sorted_wrt (\<lambda>a b. addr a < addr b) order"
  shows "pickFunctionOrder None m h = Some order"
proof -
  let ?fs = "mod_functions m" and ?lt = "function_before None"
  have "getAddress h c = Some (addr c)" if "c \<in> set ?fs" for c
    using assms(2) that mset_eq_setD [OF assms(1)] by simp
  then have "those (map (getAddress h) ?fs) = Some (map addr ?fs)"
    by (simp add: those_eq_Some)
  moreover have "std_sort ?lt (zip (map addr ?fs) ?fs) = map (\<lambda>c. (addr c, c)) order"
  proof (rule sorted_wrt_unique [of "\<lambda>x y. \<not> ?lt y x"])
    show "sorted_wrt (\<lambda>x y. \<not> ?lt y x) (std_sort ?lt (zip (map addr ?fs) ?fs))"
      by (rule sorted_wrt_std_sort) (auto simp: function_before_def)
    show "sorted_wrt (\<lambda>x y. \<not> ?lt y x) (map (\<lambda>c. (addr c, c)) order)"
      using assms(3) by (auto simp: sorted_wrt_map function_before_def elim!: sorted_wrt_mono_rel [rotated])
    have zip: "zip (map addr ?fs) ?fs = map (\<lambda>c. (addr c, c)) ?fs"
      by (simp add: zip_map1 zip_same_conv_map)
    then show m: "mset (std_sort ?lt (zip (map addr ?fs) ?fs)) = mset (map (\<lambda>c. (addr c, c)) order)"
      using assms(1) by simp
    have inj: "inj_on addr (set order)"
      using assms(3) by (intro inj_onI) (metis linorder_neq_iff sorted_wrt_iff_nth_less in_set_conv_nth)
    show "x = y" if "x \<in> set (std_sort ?lt (zip (map addr ?fs) ?fs))" "y \<in> set (std_sort ?lt (zip (map addr ?fs) ?fs))"
      "\<not> ?lt y x" "\<not> ?lt x y" for x y
      using that inj mset_eq_setD [OF m] by (auto simp: function_before_def dest: inj_onD)
  qed
  ultimately show ?thesis
    by (simp add: pickFunctionOrder_def comp_def)
qed

subsection \<open>Writing to a buffer\<close>

definition function_code :: "CodeWriters \<Rightarrow> heap \<Rightarrow> cid \<Rightarrow> byte list option" where
  "function_code W h c = do { is \<leftarrow> function_instrs h c; Some (concat (map (write_instr W h) is)) }"

text \<open>What is appended for a chunk with a slot: its code, filled up to the size of the slot.\<close>

definition filled :: "CodeWriters \<Rightarrow> Slot \<Rightarrow> byte list \<Rightarrow> byte list" where
  "filled W slot code = code @ replicate (unat (slot_size slot) - length code) (pad_byte W)"

lemma padding_buffer:
  assumes "h c = Some x" "slotPosition x = Some slot" "chunk_getSize x = Some n" "n \<le> slot_size slot"
    and "\<not> supportsDirectWrites b" "length code = unat n"
  shows "addPaddingBytes W h c (buffer_append code b) = Some (buffer_append (filled W slot code) b)"
proof -
  have "\<not> supportsDirectWrites (buffer_append code b)"
    using assms(5) by (simp add: supportsDirectWrites_def buffer_append_def)
  moreover have "unat (slot_size slot - n) = unat (slot_size slot) - unat n"
    using assms(4) by (rule unat_sub_no_wrap)
  ultimately show ?thesis
    using assms by (auto simp: addPaddingBytes_def Let_def buffer_append_def filled_def word_less_nat_alt word_le_nat_alt)
qed

lemma copyFunction_buffer:
  assumes "h c = Some x" "slotPosition x = Some slot" "chunk_getSize x = Some n" "n \<le> slot_size slot"
    and "\<not> supportsDirectWrites b" "function_code W h c = Some code" "length code = unat n"
  shows "copyFunction W h c b = Some (buffer_append (filled W slot code) b)"
  using assms padding_buffer [of h c, OF assms(1-5,7)]
  by (auto simp: copyFunction_def function_code_def split: bind_splits)

definition trampoline_code :: "CodeWriters \<Rightarrow> heap \<Rightarrow> cid \<Rightarrow> byte list" where
  "trampoline_code W h c = write_plt W h c @ replicate (unat (size_at h c) - length (write_plt W h c)) 0xf4"

lemma copyTrampoline_buffer:
  assumes "h c = Some x" "slotPosition x = Some slot" "chunk_getSize x = Some n" "n \<le> slot_size slot"
    and "\<not> supportsDirectWrites b" "length (write_plt W h c) \<le> unat n"
  shows "copyTrampoline W h c b = Some (buffer_append (filled W slot (trampoline_code W h c)) b)"
proof -
  have "length (trampoline_code W h c) = unat n"
    using assms(1,3,6) by (simp add: trampoline_code_def size_at_def)
  from padding_buffer [of h c, OF assms(1-5) this, of W] assms show ?thesis
    by (simp add: copyTrampoline_def Let_def trampoline_code_def size_at_def buffer_append_def)
qed

lemma copy_each_buffer:
  assumes "\<And>c b. c \<in> set cs \<Longrightarrow> \<not> supportsDirectWrites b \<Longrightarrow> copy c b = Some (buffer_append (bytes c) b)"
    and "\<not> supportsDirectWrites b"
  shows "copy_each copy cs b = Some (buffer_append (concat (map bytes cs)) b)"
  using assms
proof (induction cs arbitrary: b)
  case Nil
  then show ?case by (simp add: buffer_append_def)
next
  case (Cons c cs)
  have "\<not> supportsDirectWrites (buffer_append (bytes c) b)"
    using Cons.prems(2) by (simp add: supportsDirectWrites_def buffer_append_def)
  with Cons.IH [of "buffer_append (bytes c) b"] Cons.prems show ?case
    by (simp add: buffer_append_def)
qed

subsection \<open>The whole program\<close>

definition all_functions :: "GenModule list \<Rightarrow> cid list" where
  "all_functions ms = concat (map mod_functions ms)"

definition all_plts :: "GenModule list \<Rightarrow> cid list" where
  "all_plts ms = concat (map plts_of ms)"

lemma placed_mset:
  "list_all2 (\<lambda>order m. mset order = mset (mod_functions m)) orders ms \<Longrightarrow>
    mset (placed orders ms) = mset (all_functions ms) + mset (all_plts ms)"
  by (induction rule: list_all2_induct) (simp_all add: all_functions_def all_plts_def ac_simps)

text \<open>What a heap with slots needs for its code to be written: chunks with code that fits their size.\<close>

definition writable_chunk :: "heap \<Rightarrow> cid \<Rightarrow> Slot \<Rightarrow> bool" where
  "writable_chunk h c slot \<longleftrightarrow> (\<exists>x. h c = Some x \<and> kind x = Function \<and> slotPosition x = Some slot \<and> computedSize x \<le> slot_size slot)"

definition slot_of :: "heap \<Rightarrow> cid \<Rightarrow> Slot" where
  "slot_of h c = (case h c of Some x \<Rightarrow> (case slotPosition x of Some t \<Rightarrow> t | None \<Rightarrow> \<lparr>slot_address = 0, slot_size = 0\<rparr>)
     | None \<Rightarrow> \<lparr>slot_address = 0, slot_size = 0\<rparr>)"

definition code_bytes :: "CodeWriters \<Rightarrow> heap \<Rightarrow> cid set \<Rightarrow> cid \<Rightarrow> byte list" where
  "code_bytes W h F c = filled W (slot_of h c)
     (if c \<in> F then (case function_code W h c of Some code \<Rightarrow> code | None \<Rightarrow> []) else trampoline_code W h c)"

definition code_ok :: "CodeWriters \<Rightarrow> heap \<Rightarrow> GenModule list \<Rightarrow> bool" where
  "code_ok W h ms \<longleftrightarrow>
     (\<forall>c \<in> set (all_functions ms). \<exists>code. function_code W h c = Some code \<and> length code = unat (size_at h c)) \<and>
     (\<forall>c \<in> set (all_plts ms). length (write_plt W h c) \<le> unat (size_at h c))"

lemma writable_getAddress: "writable_chunk h c slot \<Longrightarrow> getAddress h c = Some (slot_address slot)"
  by (auto simp: writable_chunk_def getAddress.simps [of h c] getPosition_def)

lemma writable_slot: "writable_chunk h c slot \<Longrightarrow> slot_of h c = slot"
  by (auto simp: writable_chunk_def slot_of_def)

lemma generateCode_placed:
  assumes "list_all2 (\<lambda>order m. mset order = mset (mod_functions m)) orders ms"
    and "\<And>c. c \<in> set (placed orders ms) \<Longrightarrow> writable_chunk h c (slot_of h c)"
    and "sorted_wrt (\<lambda>a b. slot_address (slot_of h a) < slot_address (slot_of h b)) (placed orders ms)"
    and "code_ok W h ms" "set (all_functions ms) \<subseteq> F" "set (all_plts ms) \<inter> F = {}" "\<not> supportsDirectWrites b"
  shows "generateCode W (\<lambda>_. None) ms h b = Some (buffer_append (concat (map (code_bytes W h F) (placed orders ms))) b)"
  using assms
proof (induction orders ms arbitrary: b rule: list_all2_induct)
  case Nil
  then show ?case by (simp add: buffer_append_def)
next
  case (Cons order orders m ms)
  let ?b1 = "buffer_append (concat (map (code_bytes W h F) order)) b"
  let ?b2 = "buffer_append (concat (map (code_bytes W h F) (plts_of m))) ?b1"
  have nd: "\<not> supportsDirectWrites ?b1" "\<not> supportsDirectWrites ?b2"
    using Cons.prems(6) by (simp_all add: supportsDirectWrites_def buffer_append_def)
  have sz: "chunk_getSize x = Some (computedSize x)" if "kind x = Function" for x
    using that by (simp add: chunk_getSize_def)
  have order: "pickFunctionOrder None m h = Some order"
  proof (rule pick_order_again [OF Cons.hyps(1)])
    show "getAddress h c = Some (slot_address (slot_of h c))" if "c \<in> set order" for c
      using Cons.prems(1) [of c] that writable_getAddress by simp
    show "sorted_wrt (\<lambda>a b. slot_address (slot_of h a) < slot_address (slot_of h b)) order"
      using Cons.prems(2) by (simp add: sorted_wrt_append)
  qed
  have "copyFunction W h c b' = Some (buffer_append (code_bytes W h F c) b')"
    if in_order: "c \<in> set order" and nb: "\<not> supportsDirectWrites b'" for c b'
  proof -
    have c: "c \<in> set (mod_functions m)"
      using in_order mset_eq_setD [OF Cons.hyps(1)] by simp
    obtain x where x: "h c = Some x" "kind x = Function" "slotPosition x = Some (slot_of h c)"
        "computedSize x \<le> slot_size (slot_of h c)"
      using Cons.prems(1) [of c] in_order by (auto simp: writable_chunk_def)
    have size: "size_at h c = computedSize x"
      using x(1,2) sz by (simp add: size_at_def)
    obtain code where "function_code W h c = Some code" "length code = unat (computedSize x)"
      using Cons.prems(3) c unfolding code_ok_def all_functions_def size [symmetric] by auto
    then show ?thesis
      using copyFunction_buffer [of h c, OF x(1,3) sz [OF x(2)] x(4) nb] c Cons.prems(4)
      by (auto simp: code_bytes_def all_functions_def)
  qed
  then have 1: "copy_each (copyFunction W h) order b = Some ?b1"
    using copy_each_buffer [of order "copyFunction W h"] Cons.prems(6) by blast
  have "copyTrampoline W h c b' = Some (buffer_append (code_bytes W h F c) b')"
    if in_plts: "c \<in> set (plts_of m)" and nb: "\<not> supportsDirectWrites b'" for c b'
  proof -
    obtain x where x: "h c = Some x" "kind x = Function" "slotPosition x = Some (slot_of h c)"
        "computedSize x \<le> slot_size (slot_of h c)"
      using Cons.prems(1) [of c] in_plts by (auto simp: writable_chunk_def)
    have size: "size_at h c = computedSize x"
      using x(1,2) sz by (simp add: size_at_def)
    have "length (write_plt W h c) \<le> unat (computedSize x)"
      using Cons.prems(3) in_plts unfolding code_ok_def all_plts_def size [symmetric] by auto
    then show ?thesis
      using copyTrampoline_buffer [of h c, OF x(1,3) sz [OF x(2)] x(4) nb] in_plts Cons.prems(5)
      by (auto simp: code_bytes_def all_plts_def)
  qed
  then have 2: "copy_each (copyTrampoline W h) (plts_of m) ?b1 = Some ?b2"
    using copy_each_buffer [of "plts_of m" "copyTrampoline W h"] nd(1) by blast
  have "generateCode_module W None m h b = Some ?b2"
    using order 1 2 by (auto simp: generateCode_module_def generateCode_ordered_def plts_of_def buffer_append_def split: option.splits)
  moreover have "generateCode W (\<lambda>_. None) ms h ?b2 =
      Some (buffer_append (concat (map (code_bytes W h F) (placed orders ms))) ?b2)"
  proof (rule Cons.IH [OF _ _ _ _ _ nd(2)])
    show "code_ok W h ms" "set (all_functions ms) \<subseteq> F" "set (all_plts ms) \<inter> F = {}"
      using Cons.prems(3-5) by (auto simp: code_ok_def all_functions_def all_plts_def)
  qed (use Cons.prems(1,2) in \<open>auto simp: sorted_wrt_append\<close>)
  ultimately show ?case
    by (simp add: buffer_append_def)
qed

lemma concat_slice:
  assumes "k < length cs"
  shows "take (length (f (cs ! k))) (drop (sum_list (map (\<lambda>c. length (f c)) (take k cs))) (concat (map f cs))) = f (cs ! k)"
proof -
  have "concat (map f cs) = concat (map f (take k cs)) @ f (cs ! k) @ concat (map f (drop (Suc k) cs))"
    by (subst id_take_nth_drop [OF assms]) simp
  moreover have "length (concat (map f (take k cs))) = sum_list (map (\<lambda>c. length (f c)) (take k cs))"
    by (simp add: length_concat comp_def)
  ultimately show ?thesis by (simp flip: \<open>length (concat _) = _\<close>)
qed

lemma assigned_slot:
  assumes "assigned cs slots h h'" "k < length cs" "h (cs ! k) = Some x" "kind x = Function"
    and "computedSize x \<le> slot_size (slots ! k)"
  shows "writable_chunk h' (cs ! k) (slots ! k)" "size_at h' (cs ! k) = computedSize x"
proof -
  have "h' (cs ! k) = Some (x\<lparr>slotPosition := Some (slots ! k)\<rparr>)"
    using assms(1-3) unfolding assigned_def by auto
  with assms(4,5) show "writable_chunk h' (cs ! k) (slots ! k)" "size_at h' (cs ! k) = computedSize x"
    by (auto simp: writable_chunk_def size_at_def chunk_getSize_def)
qed

lemma length_filled: "length code \<le> unat (slot_size slot) \<Longrightarrow> length (filled W slot code) = unat (slot_size slot)"
  by (simp add: filled_def)

lemma length_code_bytes:
  assumes "code_ok W h ms" "c \<in> set (all_functions ms) \<union> set (all_plts ms)"
    and "unat (size_at h c) \<le> unat (slot_size (slot_of h c))"
  shows "length (code_bytes W h (set (all_functions ms)) c) = unat (slot_size (slot_of h c))"
  unfolding code_bytes_def
  by (rule length_filled) (use assms in \<open>auto simp: code_ok_def trampoline_code_def\<close>)

lemma sb_allocate_backing: "sb_allocate alloc r s = Inr (slot, s') \<Longrightarrow> sb_backing s' = sb_backing s"
  by (auto simp: sb_allocate_def split: sum.splits)

lemma allocate_all_backing: "allocate_all (sb_allocate alloc) rs s = Inr (slots, s') \<Longrightarrow> sb_backing s' = sb_backing s"
proof (induction rs arbitrary: s slots)
  case (Cons r rs)
  from Cons.prems obtain slot s1 slots1 where
    "sb_allocate alloc r s = Inr (slot, s1)" "allocate_all (sb_allocate alloc) rs s1 = Inr (slots1, s')"
    by (auto split: sum.splits prod.splits)
  with Cons.IH [of s1] sb_allocate_backing show ?case by metis
qed simp

lemma buffer_slots:
  assumes "assigned cs slots h h'" "\<And>k. k < length cs \<Longrightarrow> slot_of h' (cs ! k) = slots ! k"
    and "\<And>k. k < length cs \<Longrightarrow> length (f (cs ! k)) = unat (slot_size (slots ! k))" "k < length cs"
  shows "take (length (f (cs ! k))) (drop (sum_list (map (\<lambda>t. unat (slot_size t)) (take k slots))) (concat (map f cs))) = f (cs ! k)"
proof -
  have "map (\<lambda>c. length (f c)) (take k cs) = map (\<lambda>t. unat (slot_size t)) (take k slots)"
    using assms(1,3,4) by (intro nth_equalityI) (simp_all add: assigned_def)
  with concat_slice [OF assms(4), of f] show ?thesis by simp
qed

lemma take_code_bytes:
  assumes "c \<in> set (all_functions ms)" "function_code W h c = Some code"
    and "take (length (code_bytes W h (set (all_functions ms)) c)) xs = code_bytes W h (set (all_functions ms)) c"
  shows "take (length code) xs = code"
proof -
  have "code_bytes W h (set (all_functions ms)) c = code @ replicate (unat (slot_size (slot_of h c)) - length code) (pad_byte W)"
    using assms(1,2) by (simp add: code_bytes_def filled_def)
  with assms(3) have "take (length code) (take (length (code_bytes W h (set (all_functions ms)) c)) xs) = code" by simp
  then show ?thesis
    using \<open>code_bytes W h (set (all_functions ms)) c = _\<close> by (simp add: min_absorb1)
qed

lemma take_trampoline_bytes:
  assumes "c \<notin> F" "take (length (code_bytes W h F c)) xs = code_bytes W h F c"
  shows "take (length (write_plt W h c)) xs = write_plt W h c"
proof -
  obtain rest where r: "code_bytes W h F c = write_plt W h c @ rest"
    using assms(1) by (simp add: code_bytes_def filled_def trampoline_code_def)
  with assms(2) have "take (length (write_plt W h c)) (take (length (code_bytes W h F c)) xs) = write_plt W h c" by simp
  then show ?thesis
    using r by (simp add: min_absorb1)
qed

text \<open>A sandbox of the static generators: an aligned allocator over a buffer that is written out later.\<close>

definition buffer_sandbox :: "nat \<Rightarrow> address \<Rightarrow> 64 word \<Rightarrow> AlignedWatermarkAllocator SandboxImpl" where
  "buffer_sandbox k base sz = newSandboxImpl (newAlignedWatermarkAllocator (2 ^ k)) (newMemoryBufferBacking base sz)"

definition chunks_small :: "heap \<Rightarrow> cid list \<Rightarrow> bool" where
  "chunks_small h cs \<longleftrightarrow> (\<forall>c \<in> set cs. \<exists>x. h c = Some x \<and> kind x = Function \<and> 0 < computedSize x \<and> request_small (computedSize x))"

lemma buffer_sandbox_fits:
  assumes "unat base + unat sz < 2 ^ 63" "k < 62"
  shows "al_fits (buffer_sandbox k base sz)"
  using assms by (auto simp: buffer_sandbox_def al_fits_def newSandboxImpl_def newAlignedWatermarkAllocator_def
    newMemoryBufferBacking_def region_end_def region_ok_def)

lemma assigned_buffer:
  assumes f: "al_fits s0" and small: "chunks_small h cs" and slots: "assigned cs slots h h'"
    and alloc: "allocate_all (sb_allocate al_allocate) (map (size_at h) cs) s0 = Inr (slots, s)"
  shows "\<And>i. i < length cs \<Longrightarrow> writable_chunk h' (cs ! i) (slots ! i) \<and> unat (size_at h' (cs ! i)) \<le> unat (slot_size (slots ! i))"
    "sorted_wrt (\<lambda>s t. slot_address s < slot_address t) slots"
    "\<And>i. i < length cs \<Longrightarrow> unat (slot_address (slots ! i)) =
      unat (al_watermark (sb_alloc s0)) + sum_list (map (\<lambda>t. unat (slot_size t)) (take i slots))"
    "\<And>i. i < length cs \<Longrightarrow> unat (slot_address (slots ! i)) + unat (slot_size (slots ! i)) \<le> region_end (sb_backing s0)"
proof -
  have len: "length slots = length cs" using slots by (simp add: assigned_def)
  have size: "size_at h c = computedSize x" if "h c = Some x" "kind x = Function" for c x
    using that by (simp add: size_at_def chunk_getSize_def)
  have r: "\<forall>r \<in> set (map (size_at h) cs). request_small r"
    using small size by (fastforce simp: chunks_small_def)
  note step = al.allocate_all_step [OF f r alloc]
  have w: "writable_chunk h' (cs ! i) (slots ! i) \<and> unat (size_at h' (cs ! i)) \<le> unat (slot_size (slots ! i)) \<and>
    0 < unat (slot_size (slots ! i))" if i: "i < length cs" for i
  proof -
    obtain x where x: "h (cs ! i) = Some x" "kind x = Function" "0 < computedSize x"
      using small nth_mem [OF i] unfolding chunks_small_def by blast
    have "unat (map (size_at h) cs ! i) \<le> unat (slot_size (slots ! i))"
      using step i len by (auto simp: list_all2_conv_all_nth)
    then have "computedSize x \<le> slot_size (slots ! i)"
      using size [OF x(1,2)] i by (simp add: word_le_nat_alt)
    with assigned_slot [OF slots i x(1,2)] x(3) show ?thesis
      by (simp add: word_le_nat_alt word_less_nat_alt)
  qed
  then show "\<And>i. i < length cs \<Longrightarrow> writable_chunk h' (cs ! i) (slots ! i) \<and> unat (size_at h' (cs ! i)) \<le> unat (slot_size (slots ! i))"
    by blast
  have "\<forall>t \<in> set slots. 0 < unat (slot_size t)"
    using w len by (metis in_set_conv_nth)
  then show "sorted_wrt (\<lambda>s t. slot_address s < slot_address t) slots"
    by (rule al.consecutive_sorted [OF f r alloc])
  show "\<And>i. i < length cs \<Longrightarrow> unat (slot_address (slots ! i)) =
      unat (al_watermark (sb_alloc s0)) + sum_list (map (\<lambda>t. unat (slot_size t)) (take i slots))"
    using al.consecutive_slots [OF f r alloc] len by simp
  show "unat (slot_address (slots ! i)) + unat (slot_size (slots ! i)) \<le> region_end (sb_backing s0)" if i: "i < length cs" for i
  proof -
    have "slot_points (slots ! i) \<subseteq> {..<region_end (sb_backing s0)}"
      using step al.bounds [of s] i len by fastforce
    then show ?thesis using w [OF i] by (auto simp: slot_points_def lessThan_atLeast0)
  qed
qed

lemma generated_code:
  assumes "unat base + unat sz < 2 ^ 63" "k < 62" "distinct (all_functions ms @ all_plts ms)"
    and small: "chunks_small h (all_functions ms @ all_plts ms)"
    and a: "assignAddresses (sb_allocate al_allocate) (\<lambda>_. None) ms (h, buffer_sandbox k base sz) = Some (h', s)"
    and code: "code_ok W h' ms"
  shows "\<exists>b. generateCode W (\<lambda>_. None) ms h' (sb_backing s) = Some b \<and>
    (\<forall>c \<in> set (all_functions ms @ all_plts ms). \<exists>a. getAddress h' c = Some a \<and> unat base \<le> unat a \<and>
       (let bytes = code_bytes W h' (set (all_functions ms)) c
        in unat a + length bytes \<le> unat base + unat sz \<and> take (length bytes) (drop (unat a - unat base) (backing_data b)) = bytes))"
proof -
  let ?F = "set (all_functions ms)"
  obtain orders where orders: "list_all2 (\<lambda>order m. mset order = mset (mod_functions m)) orders ms"
      "assign_each (sb_allocate al_allocate) (placed orders ms) (h, buffer_sandbox k base sz) = Some (h', s)"
    using assignAddresses_placed [OF a] by blast
  let ?cs = "placed orders ms"
  have m: "mset ?cs = mset (all_functions ms @ all_plts ms)"
    using placed_mset [OF orders(1)] by simp
  then have sets: "set ?cs = set (all_functions ms @ all_plts ms)" by (rule mset_eq_setD)
  have d: "distinct ?cs" using m assms(3) mset_eq_imp_distinct_iff by blast
  obtain slots where slots: "allocate_all (sb_allocate al_allocate) (map (size_at h) ?cs) (buffer_sandbox k base sz) = Inr (slots, s)"
      "assigned ?cs slots h h'"
    using assign_each_slots [OF orders(2) d] by blast
  then have len: "length slots = length ?cs" by (simp add: assigned_def)
  have "chunks_small h ?cs" using small sets by (simp add: chunks_small_def)
  note w = assigned_buffer [OF buffer_sandbox_fits [OF assms(1,2)] this slots(2,1)]
  have slot: "slot_of h' (?cs ! i) = slots ! i" if "i < length ?cs" for i
    using w(1) [OF that] writable_slot by blast
  have bytes: "length (code_bytes W h' ?F (?cs ! i)) = unat (slot_size (slots ! i))" if "i < length ?cs" for i
    using length_code_bytes [OF code, of "?cs ! i"] w(1) [OF that] slot [OF that] sets nth_mem [OF that] by simp
  have b: "sb_backing s = newMemoryBufferBacking base sz"
    using allocate_all_backing [OF slots(1)] by (simp add: buffer_sandbox_def newSandboxImpl_def)
  have "generateCode W (\<lambda>_. None) ms h' (sb_backing s) =
      Some (buffer_append (concat (map (code_bytes W h' ?F) ?cs)) (sb_backing s))"
  proof (rule generateCode_placed [OF orders(1) _ _ code])
    show "writable_chunk h' c (slot_of h' c)" if "c \<in> set ?cs" for c
      using that w(1) slot by (metis in_set_conv_nth)
    show "sorted_wrt (\<lambda>a b. slot_address (slot_of h' a) < slot_address (slot_of h' b)) ?cs"
      using w(2) slot len by (simp add: sorted_wrt_iff_nth_less)
  qed (use assms(3) b in \<open>auto simp: supportsDirectWrites_def newMemoryBufferBacking_def\<close>)
  moreover have "\<exists>a. getAddress h' c = Some a \<and> unat base \<le> unat a \<and>
       (let bytes = code_bytes W h' ?F c
        in unat a + length bytes \<le> unat base + unat sz \<and> take (length bytes) (drop (unat a - unat base) (concat (map (code_bytes W h' ?F) ?cs))) = bytes)"
    if c: "c \<in> set (all_functions ms @ all_plts ms)" for c
  proof -
    obtain i where i: "i < length ?cs" "c = ?cs ! i"
      using c sets by (metis in_set_conv_nth)
    have "unat (slot_address (slots ! i)) = unat base + sum_list (map (\<lambda>t. unat (slot_size t)) (take i slots))"
      using w(3) [OF i(1)]
      by (simp add: buffer_sandbox_def newSandboxImpl_def newAlignedWatermarkAllocator_def newMemoryBufferBacking_def)
    moreover have "unat (slot_address (slots ! i)) + length (code_bytes W h' ?F c) \<le> unat base + unat sz"
      using w(4) [OF i(1)] bytes [OF i(1)] i(2)
      by (simp add: buffer_sandbox_def newSandboxImpl_def newMemoryBufferBacking_def region_end_def)
    ultimately show ?thesis using buffer_slots [where f = "code_bytes W h' ?F", OF slots(2) slot bytes i(1)] i w(1) [OF i(1)] writable_getAddress
      by (auto simp: Let_def)
  qed
  ultimately show ?thesis
    using b by (simp add: buffer_append_def newMemoryBufferBacking_def)
qed

text \<open>Claim C6: when the addresses of a program have been assigned in an aligned sandbox over a buffer, generating its
  code returns, and the buffer has the code of every function and of every PLT trampoline at the address that was
  assigned to it.\<close>

theorem generated_code_in_place:
  assumes "unat base + unat sz < 2 ^ 63" "k < 62" "distinct (all_functions ms @ all_plts ms)"
    and "chunks_small h (all_functions ms @ all_plts ms)"
    and "assignAddresses (sb_allocate al_allocate) (\<lambda>_. None) ms (h, buffer_sandbox k base sz) = Some (h', s)"
    and "code_ok W h' ms"
  shows "\<exists>b. generateCode W (\<lambda>_. None) ms h' (sb_backing s) = Some b \<and>
    (\<forall>c \<in> set (all_functions ms). \<exists>a code. getAddress h' c = Some a \<and> unat base \<le> unat a \<and> function_code W h' c = Some code \<and>
       take (length code) (drop (unat a - unat base) (backing_data b)) = code) \<and>
    (\<forall>c \<in> set (all_plts ms). \<exists>a. getAddress h' c = Some a \<and> unat base \<le> unat a \<and>
       take (length (write_plt W h' c)) (drop (unat a - unat base) (backing_data b)) = write_plt W h' c)"
proof -
  obtain b where b: "generateCode W (\<lambda>_. None) ms h' (sb_backing s) = Some b"
      "\<And>c. c \<in> set (all_functions ms @ all_plts ms) \<Longrightarrow> \<exists>a. getAddress h' c = Some a \<and> unat base \<le> unat a \<and>
       (let bytes = code_bytes W h' (set (all_functions ms)) c
        in unat a + length bytes \<le> unat base + unat sz \<and> take (length bytes) (drop (unat a - unat base) (backing_data b)) = bytes)"
    using generated_code [OF assms] by blast
  have "\<exists>a code. getAddress h' c = Some a \<and> unat base \<le> unat a \<and> function_code W h' c = Some code \<and>
      take (length code) (drop (unat a - unat base) (backing_data b)) = code" if c: "c \<in> set (all_functions ms)" for c
  proof -
    obtain code where "function_code W h' c = Some code"
      using assms(6) c unfolding code_ok_def by blast
    with b(2) [of c] c take_code_bytes [OF c] show ?thesis by (fastforce simp: Let_def)
  qed
  moreover have "\<exists>a. getAddress h' c = Some a \<and> unat base \<le> unat a \<and>
      take (length (write_plt W h' c)) (drop (unat a - unat base) (backing_data b)) = write_plt W h' c"
    if c: "c \<in> set (all_plts ms)" for c
    using b(2) [of c] c assms(3) take_trampoline_bytes [of c "set (all_functions ms)"] by (fastforce simp: Let_def)
  ultimately show ?thesis using b(1) by blast
qed

text \<open>A module of two functions, the first at the higher address, and a trampoline.\<close>

definition gen_chunk :: "ChunkKind \<Rightarrow> cid list \<Rightarrow> address \<Rightarrow> 64 word \<Rightarrow> Semantic option \<Rightarrow> Chunk" where
  "gen_chunk knd cs a n sem = \<lparr>kind = knd, parent = None, prevSibling = None, nextSibling = None, children = cs,
     position = Some (AbsolutePosition a), slotPosition = None, computedSize = n, semantic = sem\<rparr>"

definition gen_heap :: heap where
  "gen_heap = [0 \<mapsto> gen_chunk Function [1] 0x2000 1 None, 1 \<mapsto> gen_chunk Block [2] 0x2000 1 None,
     2 \<mapsto> gen_chunk Instruction [] 0x2000 1 (Some (IsolatedInstruction 0 1)),
     3 \<mapsto> gen_chunk Function [4] 0x1000 2 None, 4 \<mapsto> gen_chunk Block [5] 0x1000 2 None,
     5 \<mapsto> gen_chunk Instruction [] 0x1000 2 (Some (IsolatedInstruction 1 2)),
     6 \<mapsto> gen_chunk Function [] 0x3000 5 None]"

definition gen_module :: GenModule where
  "gen_module = \<lparr>mod_functions = [0, 3], mod_plts = Some [6]\<rparr>"

definition gen_writers :: CodeWriters where
  "gen_writers = \<lparr>write_instr = \<lambda>h i. if i = 2 then [0xC3] else [0xEB, 0xFE], write_plt = \<lambda>h c. [0xFF, 0x25],
     caches = \<lambda>c. None, pad_byte = 0x90\<rparr>"

definition gen_assigned :: heap where
  "gen_assigned = gen_heap(3 \<mapsto> (gen_chunk Function [4] 0x1000 2 None)\<lparr>slotPosition := Some \<lparr>slot_address = 0x400000, slot_size = 4\<rparr>\<rparr>,
     0 \<mapsto> (gen_chunk Function [1] 0x2000 1 None)\<lparr>slotPosition := Some \<lparr>slot_address = 0x400004, slot_size = 4\<rparr>\<rparr>,
     6 \<mapsto> (gen_chunk Function [] 0x3000 5 None)\<lparr>slotPosition := Some \<lparr>slot_address = 0x400008, slot_size = 8\<rparr>\<rparr>)"

lemma gen_getAddress: "getAddress gen_heap 0 = Some 0x2000" "getAddress gen_heap 3 = Some 0x1000"
  by (subst getAddress.simps, simp add: gen_heap_def gen_chunk_def getPosition_def)+

lemma gen_order: "pickFunctionOrder None gen_module gen_heap = Some [3, 0]"
  by (simp add: pickFunctionOrder_def gen_module_def gen_getAddress function_before_def std_sort_def)

lemma gen_lookup:
  "gen_heap 0 = Some (gen_chunk Function [1] 0x2000 1 None)" "gen_heap 3 = Some (gen_chunk Function [4] 0x1000 2 None)"
  "gen_heap 6 = Some (gen_chunk Function [] 0x3000 5 None)"
  by (simp_all add: gen_heap_def)

lemma gen_assigns: "\<exists>s. assignAddresses (sb_allocate al_allocate) (\<lambda>_. None) [gen_module] (gen_heap, buffer_sandbox 2 0x400000 0x1000) =
  Some (gen_assigned, s)"
  by (simp add: assignAddresses_module_def gen_order assignAddresses_ordered_def, simp add: gen_module_def assignAddressForFunction_def
    gen_lookup gen_chunk_def chunk_getSize_def assignAddress_def update_chunk_def gen_assigned_def sb_allocate_def al_allocate_def
    buffer_sandbox_def newSandboxImpl_def newAlignedWatermarkAllocator_def newMemoryBufferBacking_def round_request_def)

lemma gen_ok: "chunks_small gen_heap (all_functions [gen_module] @ all_plts [gen_module])" "code_ok gen_writers gen_assigned [gen_module]"
  by (simp_all add: chunks_small_def code_ok_def all_functions_def all_plts_def plts_of_def gen_module_def gen_lookup gen_chunk_def
    request_small_def function_code_def function_instrs_def children_of_def gen_assigned_def gen_writers_def size_at_def
    chunk_getSize_def gen_heap_def)

theorem generated_code_in_place_witness:
  "\<exists>s b a code. assignAddresses (sb_allocate al_allocate) (\<lambda>_. None) [gen_module] (gen_heap, buffer_sandbox 2 0x400000 0x1000) =
      Some (gen_assigned, s) \<and> generateCode gen_writers (\<lambda>_. None) [gen_module] gen_assigned (sb_backing s) = Some b \<and>
    getAddress gen_assigned 0 = Some a \<and> function_code gen_writers gen_assigned 0 = Some code \<and>
    take (length code) (drop (unat a - 0x400000) (backing_data b)) = code"
proof -
  obtain s where s: "assignAddresses (sb_allocate al_allocate) (\<lambda>_. None) [gen_module] (gen_heap, buffer_sandbox 2 0x400000 0x1000) =
      Some (gen_assigned, s)"
    using gen_assigns by blast
  have d: "distinct (all_functions [gen_module] @ all_plts [gen_module])" "0 \<in> set (all_functions [gen_module])"
    by (simp_all add: all_functions_def all_plts_def plts_of_def gen_module_def)
  show ?thesis
    using generated_code_in_place [OF _ _ d(1) gen_ok(1) s gen_ok(2)] d(2) s by force
qed

end
