(* ===== verification/Links.thy ===== *)
theory Links
  imports Prelude "HOL-Library.Monad_Syntax"
begin

unbundle bit_operations_syntax

section \<open>Links (\<^verbatim>\<open>src/chunk/link.h\<close>, \<^verbatim>\<open>link.cpp\<close>)\<close>

text \<open>
  A link is what an instruction or a data variable refers to. There is one constructor per class. A chunk
  pointer is \<open>None\<close> when it is null; \<open>'c\<close> is the type of chunks. External symbols, markers and entries of the
  GS table are numbers. What a link asks of these objects is collected in an environment: \<open>env_address\<close> is
  \<^verbatim>\<open>Chunk::getAddress\<close>, \<open>env_size\<close> is \<^verbatim>\<open>Chunk::getSize\<close>, \<open>env_bridge\<close> the table of the loader, and so on. \<open>None\<close>
  is an exception or a null pointer that is followed.
\<close>

type_synonym LinkScope = "32 word"

definition SCOPE_UNKNOWN :: LinkScope where "SCOPE_UNKNOWN = 0"

definition SCOPE_WITHIN_FUNCTION :: LinkScope where "SCOPE_WITHIN_FUNCTION = push_bit 0 1"

definition SCOPE_WITHIN_SECTION :: LinkScope where "SCOPE_WITHIN_SECTION = push_bit 1 1"

definition SCOPE_WITHIN_MODULE :: LinkScope where "SCOPE_WITHIN_MODULE = push_bit 2 1"

definition SCOPE_INTERNAL_JUMP :: LinkScope where
  "SCOPE_INTERNAL_JUMP = SCOPE_WITHIN_FUNCTION OR SCOPE_WITHIN_SECTION OR SCOPE_WITHIN_MODULE"

definition SCOPE_EXTERNAL_JUMP :: LinkScope where
  "SCOPE_EXTERNAL_JUMP = SCOPE_WITHIN_SECTION OR SCOPE_WITHIN_MODULE"

definition SCOPE_INTERNAL_DATA :: LinkScope where "SCOPE_INTERNAL_DATA = SCOPE_WITHIN_MODULE"

definition SCOPE_EXTERNAL_DATA :: LinkScope where "SCOPE_EXTERNAL_DATA = 0"

definition SCOPE_EXTERNAL_CODE :: LinkScope where "SCOPE_EXTERNAL_CODE = 0"

lemmas scope_defs = SCOPE_UNKNOWN_def SCOPE_WITHIN_FUNCTION_def SCOPE_WITHIN_SECTION_def SCOPE_WITHIN_MODULE_def
  SCOPE_INTERNAL_JUMP_def SCOPE_EXTERNAL_JUMP_def SCOPE_INTERNAL_DATA_def SCOPE_EXTERNAL_DATA_def SCOPE_EXTERNAL_CODE_def

text \<open>What the links read of a symbol.\<close>

record Symbol =
  sym_address :: address
  sym_size :: "64 word"
  sym_name :: "byte list"
  sym_weak :: bool

datatype 'c Link =
    NormalLink "'c option" LinkScope
  | AbsoluteNormalLink "'c option" LinkScope
  | OffsetLink "'c option" "64 word" LinkScope
  | PLTLink address "'c option"
  | ExternalSymbolLink nat address
  | CopyRelocLink nat
  | JumpTableLink "'c option"
  | SymbolOnlyLink Symbol address
  | EgalitoLoaderLink "byte list"
  | LDSOLoaderLink "byte list"
  | StackLink address
  | MarkerLink nat
  | AbsoluteMarkerLink nat
  | GSTableLink nat
  | DistanceLink "'c option" "'c option"
  | DataOffsetLink "'c option" address "64 word" LinkScope
  | AbsoluteDataLink "'c option" address "64 word" LinkScope
  | InternalAndExternalDataLink nat "'c option" address "64 word" LinkScope
  | TLSDataOffsetLink "'c option" "Symbol option" address
  | UnresolvedLink address
  | UnresolvedRelativeLink address
  | ImmAndDispLink "'c Link" "'c Link option"

record 'c LinkEnv =
  env_address :: "'c \<Rightarrow> address option"
  env_size :: "'c \<Rightarrow> 64 word option"
  env_resolved :: "nat \<Rightarrow> 'c option"
  env_bridge :: "byte list \<Rightarrow> address"
  env_marker :: "nat \<Rightarrow> address option"
  env_gs_target :: "nat \<Rightarrow> 'c option"
  env_gs_offset :: "nat \<Rightarrow> address"
  env_tls_offset :: "'c \<Rightarrow> address"

definition address_of_ref :: "'c LinkEnv \<Rightarrow> 'c option \<Rightarrow> address option" where
  "address_of_ref E r = do { c \<leftarrow> r; env_address E c }"

fun link_getTarget :: "'c LinkEnv \<Rightarrow> 'c Link \<Rightarrow> 'c option option" where
  "link_getTarget E (NormalLink t s) = Some t"
| "link_getTarget E (AbsoluteNormalLink t s) = Some t"
| "link_getTarget E (OffsetLink t off s) = Some t"
| "link_getTarget E (PLTLink a t) = Some t"
| "link_getTarget E (ExternalSymbolLink x off) = Some (env_resolved E x)"
| "link_getTarget E (CopyRelocLink x) = Some (env_resolved E x)"
| "link_getTarget E (JumpTableLink t) = Some t"
| "link_getTarget E (SymbolOnlyLink sy a) = Some None"
| "link_getTarget E (EgalitoLoaderLink name) = Some None"
| "link_getTarget E (LDSOLoaderLink name) = Some None"
| "link_getTarget E (StackLink a) = Some None"
| "link_getTarget E (MarkerLink m) = Some None"
| "link_getTarget E (AbsoluteMarkerLink m) = Some None"
| "link_getTarget E (GSTableLink g) = Some (env_gs_target E g)"
| "link_getTarget E (DistanceLink b t) = Some t"
| "link_getTarget E (DataOffsetLink sec a add s) = Some sec"
| "link_getTarget E (AbsoluteDataLink sec a add s) = Some sec"
| "link_getTarget E (InternalAndExternalDataLink x sec a add s) = Some sec"
| "link_getTarget E (TLSDataOffsetLink tls sy a) = Some tls"
| "link_getTarget E (UnresolvedLink a) = Some None"
| "link_getTarget E (UnresolvedRelativeLink a) = Some None"
| "link_getTarget E (ImmAndDispLink imm disp) = None"

definition data_target :: "'c LinkEnv \<Rightarrow> 'c option \<Rightarrow> address \<Rightarrow> 64 word \<Rightarrow> address option" where
  "data_target E sec a add = do { base \<leftarrow> address_of_ref E sec; Some (base + a + add) }"

fun getTargetAddress :: "'c LinkEnv \<Rightarrow> 'c Link \<Rightarrow> address option" where
  "getTargetAddress E (NormalLink t s) = address_of_ref E t"
| "getTargetAddress E (AbsoluteNormalLink t s) = address_of_ref E t"
| "getTargetAddress E (OffsetLink t off s) = do { a \<leftarrow> address_of_ref E t; Some (a + off) }"
| "getTargetAddress E (PLTLink orig t) = address_of_ref E t"
| "getTargetAddress E (ExternalSymbolLink x off) =
     (case env_resolved E x of None \<Rightarrow> Some 0 | Some c \<Rightarrow> do { a \<leftarrow> env_address E c; Some (a + off) })"
| "getTargetAddress E (CopyRelocLink x) = (case env_resolved E x of None \<Rightarrow> Some 0 | Some c \<Rightarrow> env_address E c)"
| "getTargetAddress E (JumpTableLink t) = address_of_ref E t"
| "getTargetAddress E (SymbolOnlyLink sy a) = Some a"
| "getTargetAddress E (EgalitoLoaderLink name) = Some (env_bridge E name)"
| "getTargetAddress E (LDSOLoaderLink name) = Some 0"
| "getTargetAddress E (StackLink a) = Some a"
| "getTargetAddress E (MarkerLink m) = env_marker E m"
| "getTargetAddress E (AbsoluteMarkerLink m) = env_marker E m"
| "getTargetAddress E (GSTableLink g) = Some (env_gs_offset E g)"
| "getTargetAddress E (DistanceLink b t) =
     do { c \<leftarrow> t; a \<leftarrow> env_address E c; n \<leftarrow> env_size E c; base \<leftarrow> address_of_ref E b; Some (a + n - base) }"
| "getTargetAddress E (DataOffsetLink sec a add s) = data_target E sec a add"
| "getTargetAddress E (AbsoluteDataLink sec a add s) = data_target E sec a add"
| "getTargetAddress E (InternalAndExternalDataLink x sec a add s) = data_target E sec a add"
| "getTargetAddress E (TLSDataOffsetLink tls sy a) =
     Some (case tls of None \<Rightarrow> 0 | Some c \<Rightarrow> env_tls_offset E c + a)"
| "getTargetAddress E (UnresolvedLink a) = Some a"
| "getTargetAddress E (UnresolvedRelativeLink a) = Some a"
| "getTargetAddress E (ImmAndDispLink imm disp) = None"

fun isAbsolute_link :: "'c Link \<Rightarrow> bool" where
  "isAbsolute_link (AbsoluteNormalLink t s) = True"
| "isAbsolute_link (AbsoluteMarkerLink m) = True"
| "isAbsolute_link (AbsoluteDataLink sec a add s) = True"
| "isAbsolute_link (InternalAndExternalDataLink x sec a add s) = True"
| "isAbsolute_link l = False"

fun isRIPRelative :: "'c Link \<Rightarrow> bool" where
  "isRIPRelative (NormalLink t s) = True"
| "isRIPRelative (OffsetLink t off s) = True"
| "isRIPRelative (PLTLink a t) = True"
| "isRIPRelative (JumpTableLink t) = True"
| "isRIPRelative (SymbolOnlyLink sy a) = True"
| "isRIPRelative (EgalitoLoaderLink name) = True"
| "isRIPRelative (LDSOLoaderLink name) = True"
| "isRIPRelative (MarkerLink m) = True"
| "isRIPRelative (DataOffsetLink sec a add s) = True"
| "isRIPRelative (UnresolvedRelativeLink a) = True"
| "isRIPRelative l = False"

fun getScope :: "'c Link \<Rightarrow> LinkScope option" where
  "getScope (NormalLink t s) = Some s"
| "getScope (AbsoluteNormalLink t s) = Some s"
| "getScope (OffsetLink t off s) = Some s"
| "getScope (DataOffsetLink sec a add s) = Some s"
| "getScope (AbsoluteDataLink sec a add s) = Some s"
| "getScope (InternalAndExternalDataLink x sec a add s) = Some s"
| "getScope (PLTLink a t) = Some SCOPE_WITHIN_MODULE"
| "getScope (JumpTableLink t) = Some SCOPE_WITHIN_MODULE"
| "getScope (SymbolOnlyLink sy a) = Some SCOPE_WITHIN_MODULE"
| "getScope (TLSDataOffsetLink tls sy a) = Some SCOPE_WITHIN_MODULE"
| "getScope (ExternalSymbolLink x off) = Some SCOPE_EXTERNAL_DATA"
| "getScope (CopyRelocLink x) = Some SCOPE_EXTERNAL_DATA"
| "getScope (EgalitoLoaderLink name) = Some SCOPE_EXTERNAL_CODE"
| "getScope (LDSOLoaderLink name) = Some SCOPE_EXTERNAL_CODE"
| "getScope (ImmAndDispLink imm disp) = None"
| "getScope l = Some SCOPE_UNKNOWN"

definition scope_matches :: "LinkScope \<Rightarrow> LinkScope \<Rightarrow> bool" where
  "scope_matches scope s \<longleftrightarrow> scope AND s = s"

definition isExternalJump :: "'c Link \<Rightarrow> bool option" where
  "isExternalJump l = do { scope \<leftarrow> getScope l; Some (\<not> scope_matches scope SCOPE_WITHIN_FUNCTION) }"

definition isWithinModule :: "'c Link \<Rightarrow> bool option" where
  "isWithinModule l = do { scope \<leftarrow> getScope l; Some (scope_matches scope SCOPE_WITHIN_MODULE) }"

text \<open>\<^verbatim>\<open>NormalLinkBase\<close>, the class of the immediate of an \<^verbatim>\<open>ImmAndDispLink\<close>.\<close>

fun isNormalLinkBase :: "'c Link \<Rightarrow> bool" where
  "isNormalLinkBase (NormalLink t s) = True"
| "isNormalLinkBase (AbsoluteNormalLink t s) = True"
| "isNormalLinkBase l = False"

definition makeNormalLink :: "'c option \<Rightarrow> bool \<Rightarrow> bool \<Rightarrow> 'c Link" where
  "makeNormalLink target isRelative isExternal =
     (if isRelative then NormalLink target (if isExternal then SCOPE_EXTERNAL_JUMP else SCOPE_INTERNAL_JUMP)
      else AbsoluteNormalLink target (if isExternal then SCOPE_EXTERNAL_JUMP else SCOPE_INTERNAL_JUMP))"

text \<open>A link is never both absolute and relative to the program counter, and one that is inside a function is
  inside its module, for the scopes that the code uses.\<close>

lemma absolute_not_relative: "\<not> (isAbsolute_link l \<and> isRIPRelative l)"
  by (cases l) simp_all

lemma makeNormalLink_scope:
  "isExternalJump (makeNormalLink t r x) = Some x" "isWithinModule (makeNormalLink t r x) = Some True"
  by (simp_all add: makeNormalLink_def isExternalJump_def isWithinModule_def scope_matches_def scope_defs)

end
