(* ===== verification/X86Instr.thy ===== *)
theory X86Instr
  imports Links Streams
begin

unbundle bit_operations_syntax

section \<open>x86-64 instructions (\<^verbatim>\<open>src/instr/linked-x86_64.cpp\<close>, \<^verbatim>\<open>concrete.h\<close>, \<^verbatim>\<open>storage.cpp\<close>, \<^verbatim>\<open>writer.cpp\<close>)\<close>

text \<open>
  The semantics of instructions and the visitors that write their bytes. What the disassembler library reports
  about a byte string, and where the displacement of an operand is, are parameters, collected in a record
  \<open>Disassembler\<close>, with the constants of the library that the code compares with. Filling the cache of the assembly in \<^verbatim>\<open>getAssembly\<close> is left out, since building it again gives the
  same assembly. Sizes are natural numbers. \<open>None\<close> is an exception, a failed assertion or an access out of bounds.
\<close>

record Assembly =
  asm_bytes :: "byte list"
  asm_id :: nat
  asm_rsp_disp :: "64 word option"

record Disassembler =
  allocateAssembly :: "byte list \<Rightarrow> Assembly"
  determineDisplacementSize :: "Assembly \<Rightarrow> int \<Rightarrow> nat"
  asm_getDispOffset :: "Assembly \<Rightarrow> int \<Rightarrow> nat"
  X86_INS_CALL :: nat
  X86_INS_MOV :: nat
  X86_INS_LEA :: nat
  X86_REG_INVALID :: "32 word"

subsection \<open>Storage\<close>

record InstructionStorage =
  rawData :: "byte list"
  cached :: "Assembly option"

definition emptyStorage :: InstructionStorage where
  "emptyStorage = \<lparr>rawData = [], cached = None\<rparr>"

definition getAssembly :: "Disassembler \<Rightarrow> InstructionStorage \<Rightarrow> Assembly" where
  "getAssembly D st = (case cached st of Some a \<Rightarrow> a | None \<Rightarrow> allocateAssembly D (rawData st))"

definition setData :: "byte list \<Rightarrow> InstructionStorage \<Rightarrow> InstructionStorage" where
  "setData d st = st\<lparr>rawData := d\<rparr>"

definition setAssembly :: "Assembly \<Rightarrow> InstructionStorage \<Rightarrow> InstructionStorage" where
  "setAssembly a st =
     (let st' = st\<lparr>cached := Some a\<rparr>
      in if rawData st' = [] then st'\<lparr>rawData := asm_bytes a\<rparr> else st')"

definition clearAssembly :: "InstructionStorage \<Rightarrow> InstructionStorage" where
  "clearAssembly st = st\<lparr>cached := None\<rparr>"

subsection \<open>The classes\<close>

record 'c LinkedInstr =
  li_storage :: InstructionStorage
  li_link :: "'c Link option"
  li_instruction :: 'c
  opIndex :: int
  li_displacementSize :: nat
  li_displacementOffset :: nat

record 'c ControlFlowInstr =
  cf_id :: "32 word"
  cf_source :: "'c option"
  cf_opcode :: "byte list"
  cf_mnemonic :: "byte list"
  cf_displacementSize :: nat
  cf_nonreturn :: bool
  cf_link :: "'c Link option"

record StackFrameInstr =
  sf_data :: "byte list"
  sf_id :: nat
  sf_opCodeSize :: nat
  sf_displacementSize :: nat
  sf_displacement :: "64 word"

record IndirectOperand =
  ind_reg :: "32 word"
  ind_memory :: bool
  ind_index :: "32 word"
  ind_scale :: "64 word"
  ind_displacement :: "64 word"

datatype 'c InstructionSemantic =
    Isolated InstructionStorage
  | ReturnInstr InstructionStorage
  | BreakInstr InstructionStorage
  | IndirectJump IndirectOperand "byte list" "'c option list" InstructionStorage
  | IndirectCall IndirectOperand InstructionStorage
  | Literal InstructionStorage
  | LinkedLiteral InstructionStorage
  | Linked "'c LinkedInstr"
  | ControlFlow "'c ControlFlowInstr"
  | DataLinkedControlFlow "'c LinkedInstr" bool
  | StackFrame StackFrameInstr

definition newIndirectOperand :: "Disassembler \<Rightarrow> 32 word \<Rightarrow> IndirectOperand" where
  "newIndirectOperand D reg = \<lparr>ind_reg = reg, ind_memory = False, ind_index = X86_REG_INVALID D, ind_scale = 1, ind_displacement = 0\<rparr>"

primrec semantic_size :: "'c InstructionSemantic \<Rightarrow> nat" where
  "semantic_size (Isolated st) = length (rawData st)"
| "semantic_size (ReturnInstr st) = length (rawData st)"
| "semantic_size (BreakInstr st) = length (rawData st)"
| "semantic_size (IndirectJump ind mn ts st) = length (rawData st)"
| "semantic_size (IndirectCall ind st) = length (rawData st)"
| "semantic_size (Literal st) = length (rawData st)"
| "semantic_size (LinkedLiteral st) = length (rawData st)"
| "semantic_size (Linked li) = length (rawData (li_storage li))"
| "semantic_size (ControlFlow cf) = length (cf_opcode cf) + cf_displacementSize cf"
| "semantic_size (DataLinkedControlFlow li r) = length (rawData (li_storage li))"
| "semantic_size (StackFrame sf) = sf_opCodeSize sf + sf_displacementSize sf"

subsection \<open>Linked instructions\<close>

definition newLinkedInstruction :: "'c \<Rightarrow> 'c LinkedInstr" where
  "newLinkedInstruction i =
     \<lparr>li_storage = emptyStorage, li_link = None, li_instruction = i, opIndex = - 1,
      li_displacementSize = 0, li_displacementOffset = 0\<rparr>"

definition makeDisplacementInfo :: "Disassembler \<Rightarrow> 'c LinkedInstr \<Rightarrow> 'c LinkedInstr option" where
  "makeDisplacementInfo D li =
     (if opIndex li = - 1 then None
      else let a = getAssembly D (li_storage li)
        in Some (li\<lparr>li_displacementSize := determineDisplacementSize D a (opIndex li),
             li_displacementOffset := asm_getDispOffset D a (opIndex li)\<rparr>))"

definition setIndex :: "Disassembler \<Rightarrow> int \<Rightarrow> 'c LinkedInstr \<Rightarrow> 'c LinkedInstr option" where
  "setIndex D i li = makeDisplacementInfo D (li\<lparr>opIndex := i\<rparr>)"

definition linked_displacement :: "'c LinkEnv \<Rightarrow> 'c LinkedInstr \<Rightarrow> 64 word option" where
  "linked_displacement E li =
     (case li_link li of
        None \<Rightarrow> Some 0
      | Some l \<Rightarrow>
          do {
            t \<leftarrow> getTargetAddress E l;
            if isRIPRelative l then
              do { a \<leftarrow> env_address E (li_instruction li); Some (t - (a + of_nat (length (rawData (li_storage li))))) }
            else Some t
          })"

text \<open>The pieces that \<^verbatim>\<open>writeTo\<close> copies: opcode, displacement, and what follows it.\<close>

definition linked_pieces :: "Disassembler \<Rightarrow> 'c LinkEnv \<Rightarrow> bool \<Rightarrow> 'c LinkedInstr \<Rightarrow> (byte list \<times> byte list \<times> byte list) option" where
  "linked_pieces D E useDisp li =
     do {
       let bytes = asm_bytes (getAssembly D (li_storage li));
       newDisp \<leftarrow> (if useDisp then linked_displacement E li else Some 0);
       let off = li_displacementOffset li;
       let n = li_displacementSize li;
       if off + n \<le> length bytes \<and> n \<le> 8
       then Some (take off bytes, le_bytes n newDisp, drop (off + n) bytes) else None
     }"

definition linked_writeTo :: "Disassembler \<Rightarrow> 'c LinkEnv \<Rightarrow> bool \<Rightarrow> 'c LinkedInstr \<Rightarrow> byte list \<Rightarrow> byte list option" where
  "linked_writeTo D E useDisp li target =
     do { (opcode, disp, rest) \<leftarrow> linked_pieces D E useDisp li; Some (target @ opcode @ disp @ rest) }"

text \<open>\<^verbatim>\<open>memcpy(target + i, bs)\<close>, where \<open>buf\<close> is the memory at \<^verbatim>\<open>target\<close>.\<close>

definition memcpy :: "nat \<Rightarrow> byte list \<Rightarrow> byte list \<Rightarrow> byte list option" where
  "memcpy i bs buf =
     (if i + length bs \<le> length buf then Some (take i buf @ bs @ drop (i + length bs) buf) else None)"

definition linked_writeTo_c :: "Disassembler \<Rightarrow> 'c LinkEnv \<Rightarrow> bool \<Rightarrow> 'c LinkedInstr \<Rightarrow> byte list \<Rightarrow> byte list option" where
  "linked_writeTo_c D E useDisp li buf =
     do {
       (opcode, disp, rest) \<leftarrow> linked_pieces D E useDisp li;
       buf \<leftarrow> memcpy 0 opcode buf;
       buf \<leftarrow> memcpy (length opcode) disp buf;
       memcpy (length opcode + length disp) rest buf
     }"

definition regenerateAssembly :: "Disassembler \<Rightarrow> 'c LinkEnv \<Rightarrow> 'c LinkedInstr \<Rightarrow> 'c LinkedInstr option" where
  "regenerateAssembly D E li =
     do {
       bytes \<leftarrow> linked_writeTo D E True li [];
       let st = clearAssembly (setData bytes (li_storage li));
       Some (li\<lparr>li_storage := setAssembly (allocateAssembly D (rawData st)) st\<rparr>)
     }"

subsection \<open>Control flow\<close>

definition newControlFlowInstruction :: "32 word \<Rightarrow> 'c option \<Rightarrow> byte list \<Rightarrow> byte list \<Rightarrow> nat \<Rightarrow> 'c ControlFlowInstr" where
  "newControlFlowInstruction i src opcode mnemonic n =
     \<lparr>cf_id = i, cf_source = src, cf_opcode = opcode, cf_mnemonic = mnemonic, cf_displacementSize = n,
      cf_nonreturn = False, cf_link = None\<rparr>"

definition cf_setSize :: "nat \<Rightarrow> 'c ControlFlowInstr \<Rightarrow> 'c ControlFlowInstr option" where
  "cf_setSize v cf =
     (let disp = int v - int (length (cf_opcode cf))
      in if disp = 1 \<or> disp = 2 \<or> disp = 4 then Some (cf\<lparr>cf_displacementSize := nat disp\<rparr>) else None)"

definition cf_displacement :: "'c LinkEnv \<Rightarrow> 'c ControlFlowInstr \<Rightarrow> 64 word option" where
  "cf_displacement E cf =
     do {
       l \<leftarrow> cf_link cf;
       t \<leftarrow> getTargetAddress E l;
       if isRIPRelative l then
         do { src \<leftarrow> cf_source cf; a \<leftarrow> env_address E src; Some (t - (a + of_nat (length (cf_opcode cf) + cf_displacementSize cf))) }
       else Some t
     }"

definition cf_disp_bytes :: "'c LinkEnv \<Rightarrow> bool \<Rightarrow> 'c ControlFlowInstr \<Rightarrow> byte list option" where
  "cf_disp_bytes E useDisp cf =
     do {
       disp \<leftarrow> (if useDisp then cf_displacement E cf else Some 0);
       if cf_displacementSize cf \<le> 8 then Some (le_bytes (cf_displacementSize cf) disp) else None
     }"

definition cf_writeTo :: "'c LinkEnv \<Rightarrow> bool \<Rightarrow> 'c ControlFlowInstr \<Rightarrow> byte list \<Rightarrow> byte list option" where
  "cf_writeTo E useDisp cf target =
     do { d \<leftarrow> cf_disp_bytes E useDisp cf; Some ((target @ cf_opcode cf) @ d) }"

definition cf_writeTo_c :: "'c LinkEnv \<Rightarrow> bool \<Rightarrow> 'c ControlFlowInstr \<Rightarrow> byte list \<Rightarrow> byte list option" where
  "cf_writeTo_c E useDisp cf buf =
     do {
       buf \<leftarrow> memcpy 0 (cf_opcode cf) buf;
       d \<leftarrow> cf_disp_bytes E useDisp cf;
       memcpy (length (cf_opcode cf)) d buf
     }"

text \<open>\<^verbatim>\<open>DataLinkedControlFlowInstruction\<close>: a constructor, and \<^verbatim>\<open>setLink\<close>, which sets \<^verbatim>\<open>isRelative\<close>.\<close>

definition newDataLinkedControlFlow :: "'c \<Rightarrow> byte list \<Rightarrow> nat \<Rightarrow> 'c InstructionSemantic" where
  "newDataLinkedControlFlow src opcode n =
     DataLinkedControlFlow ((newLinkedInstruction src)\<lparr>li_storage := setData (opcode @ replicate n 0) emptyStorage\<rparr>) True"

definition datalinked_setLink :: "'c Link \<Rightarrow> 'c LinkedInstr \<Rightarrow> 'c InstructionSemantic" where
  "datalinked_setLink l li = DataLinkedControlFlow (li\<lparr>li_link := Some l\<rparr>) (isRIPRelative l)"

definition datalinked_isCall :: "Disassembler \<Rightarrow> 'c LinkedInstr \<Rightarrow> bool" where
  "datalinked_isCall D li = (asm_id (getAssembly D (li_storage li)) = X86_INS_CALL D)"

subsection \<open>Stack frame instructions\<close>

definition stackframe_dispSize :: "Disassembler \<Rightarrow> Assembly \<Rightarrow> nat option" where
  "stackframe_dispSize D a =
     (if (asm_id a = X86_INS_MOV D \<or> asm_id a = X86_INS_LEA D) \<and> length (asm_bytes a) = 5 then Some 1 else None)"

text \<open>\<open>following\<close> is the memory after the bytes of the assembly, which \<^verbatim>\<open>std::string(const char *)\<close> reads up to a NUL.\<close>

definition newStackFrameInstruction :: "Disassembler \<Rightarrow> byte list \<Rightarrow> Assembly \<Rightarrow> StackFrameInstr option" where
  "newStackFrameInstruction D following a =
     do {
       n \<leftarrow> stackframe_dispSize D a;
       disp \<leftarrow> asm_rsp_disp a;
       if 0 \<in> set (asm_bytes a @ following)
       then Some \<lparr>sf_data = takeWhile (\<lambda>b. b \<noteq> 0) (asm_bytes a @ following), sf_id = asm_id a,
         sf_opCodeSize = length (asm_bytes a) - n, sf_displacementSize = n, sf_displacement = disp\<rparr>
       else None
     }"

definition sf_writeTo :: "StackFrameInstr \<Rightarrow> byte list \<Rightarrow> byte list option" where
  "sf_writeTo sf target =
     (if sf_displacementSize sf \<le> 8
      then Some ((target @ take (sf_opCodeSize sf) (sf_data sf)) @ le_bytes (sf_displacementSize sf) (sf_displacement sf))
      else None)"

definition sf_writeTo_c :: "StackFrameInstr \<Rightarrow> byte list \<Rightarrow> byte list option" where
  "sf_writeTo_c sf buf =
     (if sf_opCodeSize sf \<le> length (sf_data sf @ [0]) \<and> sf_displacementSize sf \<le> 8 then
        do {
          buf \<leftarrow> memcpy 0 (take (sf_opCodeSize sf) (sf_data sf @ [0])) buf;
          memcpy (sf_opCodeSize sf) (le_bytes (sf_displacementSize sf) (sf_displacement sf)) buf
        }
      else None)"

definition addToDisplacementValue :: "64 word \<Rightarrow> StackFrameInstr \<Rightarrow> StackFrameInstr" where
  "addToDisplacementValue add sf = sf\<lparr>sf_displacement := sf_displacement sf + add\<rparr>"

subsection \<open>Writers\<close>

text \<open>\<open>useDisplacements\<close> is the virtual method: true except for \<^verbatim>\<open>InstrWriterWithoutDisplacements\<close>.\<close>

definition cf_useDisp :: "bool \<Rightarrow> 'c ControlFlowInstr \<Rightarrow> bool" where
  "cf_useDisp useDisplacements cf =
     (case cf_link cf of
        Some (PLTLink a t) \<Rightarrow> useDisplacements
      | Some (SymbolOnlyLink sy a) \<Rightarrow> useDisplacements
      | _ \<Rightarrow> True)"

fun InstrWriterCppString :: "Disassembler \<Rightarrow> 'c LinkEnv \<Rightarrow> bool \<Rightarrow> 'c InstructionSemantic \<Rightarrow> byte list \<Rightarrow> byte list option" where
  "InstrWriterCppString D E u (Isolated st) target = Some (target @ asm_bytes (getAssembly D st))"
| "InstrWriterCppString D E u (ReturnInstr st) target = Some (target @ asm_bytes (getAssembly D st))"
| "InstrWriterCppString D E u (BreakInstr st) target = Some (target @ asm_bytes (getAssembly D st))"
| "InstrWriterCppString D E u (IndirectJump ind mn ts st) target = Some (target @ asm_bytes (getAssembly D st))"
| "InstrWriterCppString D E u (IndirectCall ind st) target = Some (target @ asm_bytes (getAssembly D st))"
| "InstrWriterCppString D E u (Literal st) target = Some (target @ rawData st)"
| "InstrWriterCppString D E u (LinkedLiteral st) target = Some target"
| "InstrWriterCppString D E u (Linked li) target = linked_writeTo D E u li target"
| "InstrWriterCppString D E u (ControlFlow cf) target = cf_writeTo E (cf_useDisp u cf) cf target"
| "InstrWriterCppString D E u (DataLinkedControlFlow li r) target = linked_writeTo D E True li target"
| "InstrWriterCppString D E u (StackFrame sf) target = sf_writeTo sf target"

fun InstrWriterCString :: "Disassembler \<Rightarrow> 'c LinkEnv \<Rightarrow> bool \<Rightarrow> 'c InstructionSemantic \<Rightarrow> byte list \<Rightarrow> byte list option" where
  "InstrWriterCString D E u (Isolated st) buf = memcpy 0 (asm_bytes (getAssembly D st)) buf"
| "InstrWriterCString D E u (ReturnInstr st) buf = memcpy 0 (asm_bytes (getAssembly D st)) buf"
| "InstrWriterCString D E u (BreakInstr st) buf = memcpy 0 (asm_bytes (getAssembly D st)) buf"
| "InstrWriterCString D E u (IndirectJump ind mn ts st) buf = memcpy 0 (asm_bytes (getAssembly D st)) buf"
| "InstrWriterCString D E u (IndirectCall ind st) buf = memcpy 0 (asm_bytes (getAssembly D st)) buf"
| "InstrWriterCString D E u (Literal st) buf = memcpy 0 (rawData st) buf"
| "InstrWriterCString D E u (LinkedLiteral st) buf = Some buf"
| "InstrWriterCString D E u (Linked li) buf = linked_writeTo_c D E u li buf"
| "InstrWriterCString D E u (ControlFlow cf) buf = cf_writeTo_c E (cf_useDisp u cf) cf buf"
| "InstrWriterCString D E u (DataLinkedControlFlow li r) buf = linked_writeTo_c D E True li buf"
| "InstrWriterCString D E u (StackFrame sf) buf = sf_writeTo_c sf buf"

fun InstrWriterGetData :: "Disassembler \<Rightarrow> 'c LinkEnv \<Rightarrow> 'c InstructionSemantic \<Rightarrow> byte list \<Rightarrow> byte list option" where
  "InstrWriterGetData D E (Isolated st) data = Some (asm_bytes (getAssembly D st))"
| "InstrWriterGetData D E (ReturnInstr st) data = Some (asm_bytes (getAssembly D st))"
| "InstrWriterGetData D E (BreakInstr st) data = Some (asm_bytes (getAssembly D st))"
| "InstrWriterGetData D E (IndirectJump ind mn ts st) data = Some (asm_bytes (getAssembly D st))"
| "InstrWriterGetData D E (IndirectCall ind st) data = Some (asm_bytes (getAssembly D st))"
| "InstrWriterGetData D E (Literal st) data = Some (rawData st)"
| "InstrWriterGetData D E (LinkedLiteral st) data = Some data"
| "InstrWriterGetData D E (Linked li) data = linked_writeTo D E True li data"
| "InstrWriterGetData D E (ControlFlow cf) data = cf_writeTo E (cf_useDisp True cf) cf data"
| "InstrWriterGetData D E (DataLinkedControlFlow li r) data = linked_writeTo D E True li data"
| "InstrWriterGetData D E (StackFrame sf) data = sf_writeTo sf data"

fun InstrWriterMakeReloc :: "'c InstructionSemantic \<Rightarrow> bool" where
  "InstrWriterMakeReloc (Linked li) \<longleftrightarrow> li_link li \<noteq> None"
| "InstrWriterMakeReloc (ControlFlow cf) \<longleftrightarrow> cf_link cf \<noteq> None"
| "InstrWriterMakeReloc s \<longleftrightarrow> False"

end
