(* ===== verification/X86Correct.thy ===== *)
theory X86Correct
  imports X86Instr
begin

unbundle bit_operations_syntax

section \<open>Written instructions reach their targets\<close>

text \<open>
  The processor adds the sign-extended displacement to the address after the instruction. If the distance fits
  the displacement, the bytes that the writers produce lead it to the target of the link. The two ways of writing,
  to memory and to a string, agree, and both write as many bytes as the size of the instruction.
\<close>

subsection \<open>Displacements\<close>

text \<open>What the processor takes a little-endian displacement for.\<close>

definition decode_disp :: "byte list \<Rightarrow> 64 word" where
  "decode_disp bs = signed_take_bit (8 * length bs - 1) (le_word bs)"

definition disp_fits :: "nat \<Rightarrow> 64 word \<Rightarrow> bool" where
  "disp_fits n d \<longleftrightarrow> 0 < n \<and> n \<le> 8 \<and> - (2 ^ (8 * n - 1)) \<le> sint d \<and> sint d < 2 ^ (8 * n - 1)"

lemma le_word_bytes_take: "n \<le> 8 \<Longrightarrow> le_word (le_bytes n w) = take_bit (8 * n) w" for w :: "64 word"
proof (rule bit_word_eqI)
  fix i assume "n \<le> 8" "i < LENGTH(64)"
  then show "bit (le_word (le_bytes n w) :: 64 word) i \<longleftrightarrow> bit (take_bit (8 * n) w) i"
    by (auto simp: bit_le_word le_bytes_def bit_take_bit_iff bit_unsigned_iff bit_drop_bit_eq less_mult_imp_div_less mult.commute)
qed

lemma signed_take_bit_self:
  fixes w :: "64 word"
  assumes "- (2 ^ m) \<le> sint w" "sint w < 2 ^ m"
  shows "signed_take_bit m w = w"
proof -
  have "signed_take_bit m (sint w) = sint w"
    using assms by (rule signed_take_bit_int_eq_self)
  then have "bit (signed_take_bit m (sint w)) i = bit (sint w) i" for i by simp
  then have eq: "bit (sint w) (min m i) = bit (sint w) i" for i by (simp add: bit_signed_take_bit_iff)
  have sint: "bit (sint w) j = bit w j" if "j < 64" for j
    using that by (simp add: bit_sint_iff)
  have "bit w (min m i) = bit w i" if "i < 64" for i
    using eq [of i] sint [of i] sint [of "min m i"] that by simp
  then show ?thesis
    by (intro bit_word_eqI) (simp add: bit_signed_take_bit_iff)
qed

lemma decode_le_bytes:
  assumes "disp_fits n d"
  shows "decode_disp (le_bytes n d) = d"
proof -
  have "\<not> 8 * n \<le> 8 * n - 1" using assms by (auto simp: disp_fits_def)
  with assms signed_take_bit_self [of "8 * n - 1" d] show ?thesis
    by (simp add: decode_disp_def disp_fits_def le_word_bytes_take signed_take_bit_take_bit)
qed

subsection \<open>The writers agree\<close>

lemma memcpy_memcpy:
  assumes "memcpy 0 xs buf = Some buf'"
  shows "memcpy (length xs) ys buf' = memcpy 0 (xs @ ys) buf"
  using assms by (auto simp: memcpy_def add.commute split: if_splits)

lemma memcpy_short: "memcpy 0 xs buf = None \<Longrightarrow> memcpy 0 (xs @ ys) buf = None"
  by (auto simp: memcpy_def split: if_splits)

lemma memcpy_twice:
  "do { b \<leftarrow> memcpy 0 xs buf; memcpy (length xs) ys b } = memcpy 0 (xs @ ys) buf"
  by (cases "memcpy 0 xs buf") (simp_all add: memcpy_short memcpy_memcpy)

lemma memcpy_thrice:
  "do { b \<leftarrow> memcpy 0 xs buf; b \<leftarrow> memcpy (length xs) ys b; memcpy (length xs + length ys) zs b } =
    memcpy 0 (xs @ ys @ zs) buf"
  using memcpy_twice [of "xs @ ys" buf zs] by (simp add: memcpy_twice [symmetric] bind_assoc)

lemma linked_writers_agree:
  "linked_writeTo_c D E u li buf = do { bs \<leftarrow> linked_writeTo D E u li []; memcpy 0 bs buf }"
  by (cases "linked_pieces D E u li") (auto simp: linked_writeTo_c_def linked_writeTo_def memcpy_thrice)

lemma cf_writers_agree:
  "cf_writeTo_c E u cf buf = do { bs \<leftarrow> cf_writeTo E u cf []; memcpy 0 bs buf }"
  using memcpy_twice [of "cf_opcode cf" buf]
  by (cases "cf_disp_bytes E u cf"; cases "memcpy 0 (cf_opcode cf) buf") (auto simp: cf_writeTo_c_def cf_writeTo_def)

text \<open>The bytes a stack frame instruction stores hold its opcode: the constructor reads them up to a NUL.\<close>

definition stackframe_ok :: "'c InstructionSemantic \<Rightarrow> bool" where
  "stackframe_ok s = (case s of StackFrame sf \<Rightarrow> sf_opCodeSize sf \<le> length (sf_data sf) | _ \<Rightarrow> True)"

lemma sf_writers_agree:
  assumes "sf_opCodeSize sf \<le> length (sf_data sf)"
  shows "sf_writeTo_c sf buf = do { bs \<leftarrow> sf_writeTo sf []; memcpy 0 bs buf }"
  using assms memcpy_twice [of "take (sf_opCodeSize sf) (sf_data sf)" buf]
  by (auto simp: sf_writeTo_c_def sf_writeTo_def)


text \<open>A disassembler that knows no operands, and a call to the chunk 7 from the chunk 3.\<close>

definition plain_disassembler :: Disassembler where
  "plain_disassembler = \<lparr>allocateAssembly = \<lambda>d. \<lparr>asm_bytes = d, asm_id = 0, asm_rsp_disp = None\<rparr>,
     determineDisplacementSize = \<lambda>a i. 4, asm_getDispOffset = \<lambda>a i. 3, X86_INS_CALL = 1, X86_INS_MOV = 2, X86_INS_LEA = 3,
     X86_REG_INVALID = 0\<rparr>"

definition plain_env :: "nat LinkEnv" where
  "plain_env = \<lparr>env_address = [3 \<mapsto> 0x400010, 7 \<mapsto> 0x400000], env_size = [3 \<mapsto> 5, 7 \<mapsto> 16], env_resolved = \<lambda>x. None,
     env_bridge = \<lambda>n. 0, env_marker = \<lambda>m. None, env_gs_target = \<lambda>g. None, env_gs_offset = \<lambda>g. 0, env_tls_offset = \<lambda>c. 0\<rparr>"

definition sample_call :: "nat ControlFlowInstr" where
  "sample_call = (newControlFlowInstruction 1 (Some 3) [0xE8] [99, 97, 108, 108] 4)\<lparr>cf_link := Some (NormalLink (Some 7) SCOPE_EXTERNAL_JUMP)\<rparr>"


subsection \<open>Sizes\<close>

text \<open>The disassembler library keeps the number of bytes.\<close>

definition storage_ok :: "Disassembler \<Rightarrow> 'c InstructionSemantic \<Rightarrow> bool" where
  "storage_ok D s = (let ok = \<lambda>st. length (asm_bytes (getAssembly D st)) = length (rawData st) in
     case s of Isolated st \<Rightarrow> ok st | ReturnInstr st \<Rightarrow> ok st | BreakInstr st \<Rightarrow> ok st | IndirectJump ind mn ts st \<Rightarrow> ok st
     | IndirectCall ind st \<Rightarrow> ok st | Literal st \<Rightarrow> True | LinkedLiteral st \<Rightarrow> rawData st = [] | Linked li \<Rightarrow> ok (li_storage li)
     | ControlFlow cf \<Rightarrow> True | DataLinkedControlFlow li r \<Rightarrow> ok (li_storage li) | StackFrame sf \<Rightarrow> sf_opCodeSize sf \<le> length (sf_data sf))"

lemma linked_written_size:
  assumes "linked_writeTo D E u li [] = Some bs" "length (asm_bytes (getAssembly D (li_storage li))) = length (rawData (li_storage li))"
  shows "length bs = length (rawData (li_storage li))"
  using assms by (auto simp: linked_writeTo_def linked_pieces_def Let_def split: bind_splits if_splits)

lemma written_size:
  assumes "InstrWriterCppString D E u s [] = Some bs" "storage_ok D s"
  shows "length bs = semantic_size s"
  using assms
  by (cases s) (auto simp: storage_ok_def linked_written_size cf_writeTo_def cf_disp_bytes_def sf_writeTo_def split: bind_splits if_splits)

subsection \<open>Targets\<close>

text \<open>Where the displacement of an instruction is, its link, its own chunk, and its bytes around the displacement.\<close>

fun disp_field :: "'c InstructionSemantic \<Rightarrow> (nat \<times> nat) option" where
  "disp_field (ControlFlow cf) = Some (length (cf_opcode cf), cf_displacementSize cf)"
| "disp_field (Linked li) = Some (li_displacementOffset li, li_displacementSize li)"
| "disp_field (DataLinkedControlFlow li r) = Some (li_displacementOffset li, li_displacementSize li)"
| "disp_field s = None"

fun instr_link :: "'c InstructionSemantic \<Rightarrow> 'c Link option" where
  "instr_link (ControlFlow cf) = cf_link cf"
| "instr_link (Linked li) = li_link li"
| "instr_link (DataLinkedControlFlow li r) = li_link li"
| "instr_link s = None"

fun instr_chunk :: "'c InstructionSemantic \<Rightarrow> 'c option" where
  "instr_chunk (ControlFlow cf) = cf_source cf"
| "instr_chunk (Linked li) = Some (li_instruction li)"
| "instr_chunk (DataLinkedControlFlow li r) = Some (li_instruction li)"
| "instr_chunk s = None"

fun template :: "Disassembler \<Rightarrow> 'c InstructionSemantic \<Rightarrow> byte list" where
  "template D (ControlFlow cf) = cf_opcode cf @ replicate (cf_displacementSize cf) 0"
| "template D (Linked li) = asm_bytes (getAssembly D (li_storage li))"
| "template D (DataLinkedControlFlow li r) = asm_bytes (getAssembly D (li_storage li))"
| "template D s = []"

text \<open>The value that the displacement of an instruction at \<open>a\<close> needs to refer to the target.\<close>

definition needed_disp :: "'c Link \<Rightarrow> address \<Rightarrow> nat \<Rightarrow> address \<Rightarrow> 64 word" where
  "needed_disp l a n t = (if isRIPRelative l then t - (a + of_nat n) else t)"

lemma linked_pieces_target:
  assumes "li_link li = Some l" "getTargetAddress E l = Some t" "env_address E (li_instruction li) = Some a"
    and "length (asm_bytes (getAssembly D (li_storage li))) = length (rawData (li_storage li))"
    and "li_displacementOffset li + li_displacementSize li \<le> length (rawData (li_storage li))" "li_displacementSize li \<le> 8"
  shows "linked_writeTo D E True li [] =
    Some (take (li_displacementOffset li) (asm_bytes (getAssembly D (li_storage li))) @
      le_bytes (li_displacementSize li) (needed_disp l a (length (rawData (li_storage li))) t) @
      drop (li_displacementOffset li + li_displacementSize li) (asm_bytes (getAssembly D (li_storage li))))"
  using assms by (simp add: linked_writeTo_def linked_pieces_def linked_displacement_def needed_disp_def Let_def)

lemma cf_target:
  assumes "cf_link cf = Some l" "getTargetAddress E l = Some t" "cf_source cf = Some i" "env_address E i = Some a"
    and "cf_displacementSize cf \<le> 8"
  shows "cf_writeTo E True cf [] = Some (cf_opcode cf @
    le_bytes (cf_displacementSize cf) (needed_disp l a (length (cf_opcode cf) + cf_displacementSize cf) t))"
  using assms by (simp add: cf_writeTo_def cf_disp_bytes_def cf_displacement_def needed_disp_def)

lemma x86_written_form:
  assumes "disp_field s = Some (off, n)" "instr_link s = Some l" "getTargetAddress E l = Some t"
    and "instr_chunk s = Some i" "env_address E i = Some a"
    and "storage_ok D s" "off + n \<le> semantic_size s" "n \<le> 8"
  shows "InstrWriterCppString D E True s [] =
    Some (take off (template D s) @ le_bytes n (needed_disp l a (semantic_size s) t) @ drop (off + n) (template D s))"
proof (cases s)
  case (ControlFlow cf)
  moreover have "cf_useDisp True cf" by (simp add: cf_useDisp_def split: option.split Link.split)
  ultimately show ?thesis using cf_target [of cf l E t i a] assms by simp
next
  case (Linked li)
  then show ?thesis using linked_pieces_target [of li l E t a D] assms by (simp add: storage_ok_def)
next
  case (DataLinkedControlFlow li r)
  then show ?thesis using linked_pieces_target [of li l E t a D] assms by (simp add: storage_ok_def)
qed (use assms in simp_all)



end
