(* ===== verification/Mutator.thy ===== *)
theory Mutator
  imports Chunks
begin

section \<open>The chunk mutator (\<^verbatim>\<open>src/operation/mutator.cpp\<close>)\<close>

text \<open>
  A \<^verbatim>\<open>ChunkMutator\<close> edits the children of one chunk. Its operations relink siblings, keep the
  sizes of the ancestors and create positions; its destructor, \<open>updatePositions\<close>, recalculates the
  positions below every ancestor that has an absolute one. \<open>m\<close> is the mode of the position factory.
  In the modes modelled, \<^verbatim>\<open>updateGenerationCounts\<close> returns at once.
\<close>

definition set_previous :: "cid \<Rightarrow> cid option \<Rightarrow> heap \<Rightarrow> heap option" where
  "set_previous c p = update_chunk c (\<lambda>x. x\<lparr>prevSibling := p\<rparr>)"

definition set_next :: "cid \<Rightarrow> cid option \<Rightarrow> heap \<Rightarrow> heap option" where
  "set_next c n = update_chunk c (\<lambda>x. x\<lparr>nextSibling := n\<rparr>)"

definition set_parent :: "cid \<Rightarrow> cid option \<Rightarrow> heap \<Rightarrow> heap option" where
  "set_parent c p = update_chunk c (\<lambda>x. x\<lparr>parent := p\<rparr>)"

definition follow :: "cid \<Rightarrow> cid \<Rightarrow> heap \<Rightarrow> heap option" where
  "follow c p = update_chunk c (\<lambda>x. case getPosition x of None \<Rightarrow> x | Some q \<Rightarrow> store_position (setAfterThis p q) x)"

definition setPreviousSibling :: "cid \<Rightarrow> cid option \<Rightarrow> heap \<Rightarrow> heap option" where
  "setPreviousSibling c p h =
     do { h \<leftarrow> set_previous c p h; case p of None \<Rightarrow> Some h | Some p \<Rightarrow> follow c p h }"

definition setNextSibling :: "cid \<Rightarrow> cid option \<Rightarrow> heap \<Rightarrow> heap option" where
  "setNextSibling c n h =
     do { h \<leftarrow> set_next c n h; case n of None \<Rightarrow> Some h | Some n \<Rightarrow> follow n c h }"

text \<open>
  The position is replaced; for a function, whose old position object would be deleted and still
  be in use, this is undefined.
\<close>

definition makePositionFor :: "PositionMode \<Rightarrow> cid \<Rightarrow> cid \<Rightarrow> heap \<Rightarrow> heap option" where
  "makePositionFor m p c h =
     do {
       cur \<leftarrow> newChunkCursor h p c;
       let (moved, prev) = cursor_prev cur;
       pos \<leftarrow>
         (if moved then
            do {
              r \<leftarrow> cursor_get h prev; pr \<leftarrow> r;
              a \<leftarrow> getAddress h pr; b \<leftarrow> getAddress h p;
              makePosition m h (Some pr) c (a - b)
            }
          else makePosition m h None c 0);
       x \<leftarrow> h c;
       if kind x = Function \<and> getPosition x \<noteq> None then None
       else do { x' \<leftarrow> setPosition (Some pos) x; Some (h(c \<mapsto> x')) }
     }"

subsection \<open>Sizes of the ancestors\<close>

text \<open>The loops \<^verbatim>\<open>for(Chunk *c = chunk; c && !dynamic_cast<Module *>(c); c = c->getParent())\<close>.\<close>

partial_function (option) for_ancestors :: "(heap \<Rightarrow> Chunk \<Rightarrow> Chunk option) \<Rightarrow> cid option \<Rightarrow> heap \<Rightarrow> heap option" where
  "for_ancestors f c h =
     (case c of
        None \<Rightarrow> Some h
      | Some c \<Rightarrow>
          do {
            x \<leftarrow> h c;
            if kind x = Module then Some h
            else do { x' \<leftarrow> f h x; for_ancestors f (parent x') (h(c \<mapsto> x')) }
          })"

definition size_of :: "heap \<Rightarrow> cid \<Rightarrow> 64 word option" where
  "size_of h c = do { x \<leftarrow> h c; chunk_getSize x }"

definition updateSizesAndAuthorities :: "cid \<Rightarrow> cid \<Rightarrow> heap \<Rightarrow> heap option" where
  "updateSizesAndAuthorities p c = for_ancestors (\<lambda>h x. do { s \<leftarrow> size_of h c; addToSize s x }) (Some p)"

definition shrink_ancestors :: "(heap \<Rightarrow> 64 word option) \<Rightarrow> cid \<Rightarrow> heap \<Rightarrow> heap option" where
  "shrink_ancestors amount p =
     for_ancestors (\<lambda>h x. do { t \<leftarrow> chunk_getSize x; if t \<noteq> 0 then do { s \<leftarrow> amount h; addToSize (- s) x } else Some x }) (Some p)"

definition modifiedChildSize :: "cid \<Rightarrow> 32 word \<Rightarrow> heap \<Rightarrow> heap option" where
  "modifiedChildSize p added = for_ancestors (\<lambda>h x. addToSize (scast added) x) (Some p)"

subsection \<open>Insertion\<close>

definition ensure_position :: "PositionMode \<Rightarrow> cid \<Rightarrow> cid \<Rightarrow> heap \<Rightarrow> heap option" where
  "ensure_position m p c h = do { x \<leftarrow> h c; if getPosition x = None then makePositionFor m p c h else Some h }"

definition append_child :: "PositionMode \<Rightarrow> cid \<Rightarrow> cid \<Rightarrow> heap \<Rightarrow> heap option" where
  "append_child m p c h =
     do {
       cs \<leftarrow> children_of h p;
       h \<leftarrow>
         (case getLast cs of
            Some pr \<Rightarrow> do { h \<leftarrow> setPreviousSibling c (Some pr) h; setNextSibling pr (Some c) h }
          | None \<Rightarrow> do { h \<leftarrow> set_previous c None h; set_next c None h });
       h \<leftarrow> set_parent c (Some p) h;
       h \<leftarrow> genericAdd p c h;
       h \<leftarrow> ensure_position m p c h;
       updateSizesAndAuthorities p c h
     }"

text \<open>The end of \<^verbatim>\<open>insertAfter\<close>: the first child of the next sibling gets a new position.\<close>

definition reset_first_child :: "PositionMode \<Rightarrow> cid \<Rightarrow> heap \<Rightarrow> heap option" where
  "reset_first_child m c h =
     do {
       x \<leftarrow> h c;
       case nextSibling x of
         None \<Rightarrow> Some h
       | Some n \<Rightarrow>
           do {
             y \<leftarrow> h n;
             if kind y \<noteq> Instruction \<and> children y \<noteq> [] then
               do {
                 let d = children y ! 0;
                 z \<leftarrow> h d;
                 z' \<leftarrow> setPosition None z;
                 makePositionFor m n d (h(d \<mapsto> z'))
               }
             else Some h
           }
     }"

definition insertAfter :: "PositionMode \<Rightarrow> cid \<Rightarrow> cid option \<Rightarrow> cid \<Rightarrow> heap \<Rightarrow> heap option" where
  "insertAfter m p insertPoint c h =
     do {
       h \<leftarrow> setPreviousSibling c insertPoint h;
       h \<leftarrow>
         (case insertPoint of
            Some ip \<Rightarrow>
              do {
                x \<leftarrow> h ip;
                h \<leftarrow> (case nextSibling x of None \<Rightarrow> Some h | Some n \<Rightarrow> setPreviousSibling n (Some c) h);
                h \<leftarrow> setNextSibling c (nextSibling x) h;
                setNextSibling ip (Some c) h
              }
          | None \<Rightarrow> set_next c None h);
       cs \<leftarrow> children_of h p;
       let index = (case insertPoint of Some ip \<Rightarrow> indexOf ip cs + 1 | None \<Rightarrow> 0);
       h \<leftarrow> genericInsertAt p index c h;
       h \<leftarrow> set_parent c (Some p) h;
       h \<leftarrow> ensure_position m p c h;
       h \<leftarrow> updateSizesAndAuthorities p c h;
       reset_first_child m c h
     }"

definition replace_first :: "PositionMode \<Rightarrow> cid \<Rightarrow> cid \<Rightarrow> heap \<Rightarrow> heap option" where
  "replace_first m ip c h =
     do {
       x \<leftarrow> h c;
       if needsSpecialCaseFirst m \<and> prevSibling x = None then
         do {
           s \<leftarrow> chunk_getSize x;
           pos \<leftarrow> makePosition m h (Some c) ip s;
           y \<leftarrow> h ip;
           if kind y = Function \<and> getPosition y \<noteq> None then None
           else do { y' \<leftarrow> setPosition (Some pos) y; Some (h(ip \<mapsto> y')) }
         }
       else Some h
     }"

definition insertBefore :: "PositionMode \<Rightarrow> cid \<Rightarrow> cid option \<Rightarrow> cid \<Rightarrow> heap \<Rightarrow> heap option" where
  "insertBefore m p insertPoint c h =
     (case insertPoint of
        None \<Rightarrow> append_child m p c h
      | Some ip \<Rightarrow>
          do {
            x \<leftarrow> h ip;
            h \<leftarrow> (case prevSibling x of None \<Rightarrow> Some h | Some pr \<Rightarrow> setNextSibling pr (Some c) h);
            h \<leftarrow> setNextSibling c (Some ip) h;
            h \<leftarrow> setPreviousSibling c (prevSibling x) h;
            h \<leftarrow> setPreviousSibling ip (Some c) h;
            cs \<leftarrow> children_of h p;
            h \<leftarrow> genericInsertAt p (indexOf ip cs) c h;
            h \<leftarrow> set_parent c (Some p) h;
            h \<leftarrow> ensure_position m p c h;
            h \<leftarrow> replace_first m ip c h;
            updateSizesAndAuthorities p c h
          })"

definition prepend_child :: "PositionMode \<Rightarrow> cid \<Rightarrow> cid \<Rightarrow> heap \<Rightarrow> heap option" where
  "prepend_child m p c h =
     do {
       cs \<leftarrow> children_of h p;
       if length cs = 0 then append_child m p c h else insertBefore m p (Some (cs ! 0)) c h
     }"

definition insertBeforeJumpTo :: "PositionMode \<Rightarrow> cid \<Rightarrow> cid option \<Rightarrow> cid \<Rightarrow> heap \<Rightarrow> heap option" where
  "insertBeforeJumpTo m p insertPoint c h =
     (case insertPoint of
        None \<Rightarrow> insertBefore m p None c h
      | Some ip \<Rightarrow>
          do {
            h \<leftarrow> insertAfter m p (Some ip) c h;
            x \<leftarrow> h ip; y \<leftarrow> h c;
            let sem1 = map_option (setSource c \<circ> setInstruction c) (semantic x);
            let sem2 = map_option (setSource ip \<circ> setInstruction ip) (semantic y);
            Some (h(ip \<mapsto> x\<lparr>semantic := sem2\<rparr>, c \<mapsto> y\<lparr>semantic := sem1\<rparr>))
          })"

primrec insertAfter_all :: "PositionMode \<Rightarrow> cid \<Rightarrow> cid option \<Rightarrow> cid list \<Rightarrow> heap \<Rightarrow> heap option" where
  "insertAfter_all m p newPoint [] h = Some h"
| "insertAfter_all m p newPoint (c # cs) h =
     do { h \<leftarrow> insertAfter m p newPoint c h; insertAfter_all m p (Some c) cs h }"

primrec insertEach :: "(cid \<Rightarrow> heap \<Rightarrow> heap option) \<Rightarrow> cid list \<Rightarrow> heap \<Rightarrow> heap option" where
  "insertEach ins [] h = Some h"
| "insertEach ins (c # cs) h = do { h \<leftarrow> ins c h; insertEach ins cs h }"

definition insertBefore_all :: "PositionMode \<Rightarrow> cid \<Rightarrow> cid option \<Rightarrow> cid list \<Rightarrow> bool \<Rightarrow> heap \<Rightarrow> heap option" where
  "insertBefore_all m p insertPoint cs beforeJumpTo =
     (if beforeJumpTo then insertEach (insertBeforeJumpTo m p insertPoint) (rev cs)
      else insertEach (insertBefore m p insertPoint) cs)"

subsection \<open>Removal\<close>

definition remove_child :: "cid \<Rightarrow> cid \<Rightarrow> heap \<Rightarrow> heap option" where
  "remove_child p c h =
     do {
       x \<leftarrow> h c;
       let prev = prevSibling x; let next = nextSibling x;
       h \<leftarrow> (case prev of None \<Rightarrow> Some h | Some q \<Rightarrow> setNextSibling q next h);
       h \<leftarrow> (case next of None \<Rightarrow> Some h | Some n \<Rightarrow> setPreviousSibling n prev h);
       h \<leftarrow> genericRemove p c h;
       shrink_ancestors (\<lambda>h. size_of h c) p h
     }"

primrec removeLast_loop :: "nat \<Rightarrow> cid \<Rightarrow> 64 word \<Rightarrow> heap \<Rightarrow> (64 word \<times> heap) option" where
  "removeLast_loop 0 p removed h = Some (removed, h)"
| "removeLast_loop (Suc n) p removed h =
     do {
       cs \<leftarrow> children_of h p;
       last \<leftarrow> getLast cs;
       x \<leftarrow> h last;
       h \<leftarrow> (case prevSibling x of None \<Rightarrow> Some h | Some pr \<Rightarrow> set_next pr None h);
       s \<leftarrow> size_of h last;
       h \<leftarrow> genericRemoveLast p h;
       removeLast_loop n p (removed + s) h
     }"

definition removeLast :: "nat \<Rightarrow> cid \<Rightarrow> heap \<Rightarrow> heap option" where
  "removeLast n p h =
     do { (removed, h) \<leftarrow> removeLast_loop n p 0 h; shrink_ancestors (\<lambda>_. Some removed) p h }"

subsection \<open>Splitting a block\<close>

definition detach :: "cid \<Rightarrow> heap \<Rightarrow> heap option" where
  "detach c h =
     do {
       x \<leftarrow> h c;
       x' \<leftarrow> setPosition None (x\<lparr>prevSibling := None, nextSibling := None, parent := None\<rparr>);
       Some (h(c \<mapsto> x'))
     }"

definition append_moved :: "PositionMode \<Rightarrow> cid \<Rightarrow> cid \<Rightarrow> heap \<Rightarrow> heap option" where
  "append_moved m b c h = do { h \<leftarrow> append_child m b c h; makePositionFor m b c h }"

text \<open>\<open>nb\<close> is the address of the new block.\<close>

definition splitBlockBefore :: "PositionMode \<Rightarrow> cid \<Rightarrow> cid \<Rightarrow> cid \<Rightarrow> heap \<Rightarrow> heap option" where
  "splitBlockBefore m p point nb h =
     do {
       x \<leftarrow> h point; b \<leftarrow> parent x; y \<leftarrow> h b;
       if kind y \<noteq> Block then None
       else if children y = [] then Some h
       else
         do {
           let h = h(nb \<mapsto> newBlock);
           a \<leftarrow> getAddress h point; base \<leftarrow> getAddress h p;
           pos \<leftarrow> makePosition m h (Some b) nb (a - base);
           let h = h(nb \<mapsto> newBlock\<lparr>position := Some pos\<rparr>);
           let leaveBehind = indexOf point (children y);
           if leaveBehind = -1 then None
           else
             do {
               let moveInstr = drop (nat leaveBehind) (children y);
               h \<leftarrow> removeLast (length (children y) - nat leaveBehind) b h;
               h \<leftarrow> insertEach detach moveInstr h;
               h \<leftarrow> insertEach (append_moved m nb) moveInstr h;
               insertAfter m p (Some b) nb h
             }
         }
     }"

subsection \<open>The destructor\<close>

definition recalculate_at :: "cid \<Rightarrow> heap \<Rightarrow> (bool \<times> heap) option" where
  "recalculate_at c h =
     do {
       x \<leftarrow> h c;
       case getPosition x of
         None \<Rightarrow> Some (False, h)
       | Some p \<Rightarrow> do { p' \<leftarrow> recalculate h p; Some (True, h(c \<mapsto> store_position p' x)) }
     }"

text \<open>The recursion of \<^verbatim>\<open>updatePositionHelper\<close> over the chunks that are still to be visited.\<close>

partial_function (option) updatePositionHelper :: "cid list \<Rightarrow> heap \<Rightarrow> heap option" where
  "updatePositionHelper cs h =
     (case cs of
        [] \<Rightarrow> Some h
      | c # cs \<Rightarrow>
          do {
            (visited, h) \<leftarrow> recalculate_at c h;
            x \<leftarrow> h c;
            h \<leftarrow> (if visited then updatePositionHelper (children x) h else Some h);
            updatePositionHelper cs h
          })"

partial_function (option) update_ancestors :: "cid option \<Rightarrow> heap \<Rightarrow> heap option" where
  "update_ancestors c h =
     (case c of
        None \<Rightarrow> Some h
      | Some c \<Rightarrow>
          do {
            x \<leftarrow> h c;
            h \<leftarrow> (if is_absolute (getPosition x) then updatePositionHelper [c] h else Some h);
            update_ancestors (parent x) h
          })"

definition updatePositions :: "PositionMode \<Rightarrow> bool \<Rightarrow> cid \<Rightarrow> heap \<Rightarrow> heap option" where
  "updatePositions m allowUpdates p h =
     (if \<not> allowUpdates then Some h
      else if \<not> needsUpdatePasses m then Some h
      else update_ancestors (Some p) h)"

text \<open>A mutator that lives for one operation.\<close>

definition with_mutator :: "PositionMode \<Rightarrow> cid \<Rightarrow> (heap \<Rightarrow> heap option) \<Rightarrow> heap \<Rightarrow> heap option" where
  "with_mutator m p f h = do { h \<leftarrow> f h; updatePositions m True p h }"

end
