(* ===== verification/ChunkTree.thy ===== *)
theory ChunkTree
  imports Mutator
begin

section \<open>Well-formed chunk trees and their layout\<close>

text \<open>
  The invariant of the heap: children know their parent and their place in its list, sizes are sums,
  and code chunks have offset positions below a function with an absolute one. On such a heap, in
  the default mode, the destructor of a mutator gives every chunk of the function the address
  after its previous sibling, whatever the offsets were.
\<close>

fun rank :: "ChunkKind \<Rightarrow> nat" where
  "rank Instruction = 0"
| "rank Block = 1"
| "rank Function = 2"
| "rank FunctionList = 3"
| "rank Module = 4"
| "rank Program = 5"

definition first_of :: "cid list \<Rightarrow> cid option \<Rightarrow> cid option" where
  "first_of cs z = (case cs of [] \<Rightarrow> z | d # _ \<Rightarrow> Some d)"

definition last_of :: "cid option \<Rightarrow> cid list \<Rightarrow> cid option" where
  "last_of a cs = (if cs = [] then a else Some (last cs))"

text \<open>A segment of a doubly linked list of siblings, between \<open>a\<close> and \<open>z\<close>.\<close>

primrec siblings :: "heap \<Rightarrow> cid option \<Rightarrow> cid list \<Rightarrow> cid option \<Rightarrow> bool" where
  "siblings h a [] z = True"
| "siblings h a (c # cs) z =
     ((case h c of None \<Rightarrow> False | Some x \<Rightarrow> prevSibling x = a \<and> nextSibling x = first_of cs z) \<and> siblings h (Some c) cs z)"

definition code_kind :: "ChunkKind \<Rightarrow> bool" where
  "code_kind k \<longleftrightarrow> k = Function \<or> k = Block"

definition the_size :: "heap \<Rightarrow> cid \<Rightarrow> 64 word" where
  "the_size h c = (case size_of h c of None \<Rightarrow> 0 | Some s \<Rightarrow> s)"

definition total_size :: "heap \<Rightarrow> cid list \<Rightarrow> nat" where
  "total_size h cs = sum_list (map (\<lambda>d. unat (the_size h d)) cs)"

definition child_ok :: "heap \<Rightarrow> cid \<Rightarrow> Chunk \<Rightarrow> cid \<Rightarrow> bool" where
  "child_ok h c x d = (case h d of None \<Rightarrow> False
     | Some y \<Rightarrow> parent y = Some c \<and> accepts (kind x) (kind y) \<and> rank (kind x) = Suc (rank (kind y)))"

text \<open>A chunk that was removed still points to its old parent.\<close>

definition parent_ok :: "heap \<Rightarrow> Chunk \<Rightarrow> bool" where
  "parent_ok h x = (case parent x of None \<Rightarrow> True
     | Some p \<Rightarrow> (case h p of None \<Rightarrow> False
         | Some y \<Rightarrow> accepts (kind y) (kind x) \<and> rank (kind y) = Suc (rank (kind x))))"

definition position_ok :: "cid \<Rightarrow> Chunk \<Rightarrow> bool" where
  "position_ok c x =
     (case kind x of
        Function \<Rightarrow> (case position x of Some (AbsolutePosition a) \<Rightarrow> True | _ \<Rightarrow> False)
      | Module \<Rightarrow> position x = None
      | Program \<Rightarrow> True
      | FunctionList \<Rightarrow> True
      | _ \<Rightarrow> (case position x of None \<Rightarrow> parent x = None | Some (OffsetPosition d off) \<Rightarrow> d = c | _ \<Rightarrow> False))"

definition size_ok :: "heap \<Rightarrow> Chunk \<Rightarrow> bool" where
  "size_ok h x \<longleftrightarrow>
     (code_kind (kind x) \<longrightarrow> unat (computedSize x) = total_size h (children x) \<and> unat (computedSize x) < 2 ^ 63) \<and>
     (kind x = Instruction \<longrightarrow> semantic x \<noteq> None)"

text \<open>What does not depend on positions.\<close>

definition struct_ok :: "heap \<Rightarrow> cid \<Rightarrow> Chunk \<Rightarrow> bool" where
  "struct_ok h c x \<longleftrightarrow>
     distinct (children x) \<and> (\<forall>d \<in> set (children x). child_ok h c x d) \<and>
     (code_kind (kind x) \<longrightarrow> siblings h None (children x) None) \<and>
     parent_ok h x \<and> size_ok h x"

definition chunk_ok :: "heap \<Rightarrow> cid \<Rightarrow> Chunk \<Rightarrow> bool" where
  "chunk_ok h c x \<longleftrightarrow> struct_ok h c x \<and> position_ok c x"

definition wf_heap :: "heap \<Rightarrow> bool" where
  "wf_heap h \<longleftrightarrow> (\<forall>c x. h c = Some x \<longrightarrow> chunk_ok h c x)"

subsection \<open>Siblings\<close>

lemma first_of_simps [simp]: "first_of [] z = z" "first_of (d # ds) z = Some d"
  by (simp_all add: first_of_def)

lemma last_of_simps [simp]: "last_of a [] = a" "last_of a (cs @ [d]) = Some d" "last_of (Some c) cs = Some (last (c # cs))"
  by (simp_all add: last_of_def)

lemma last_of_Cons [simp]: "last_of a (c # cs) = Some (last (c # cs))"
  by (simp add: last_of_def)

lemma first_of_append: "first_of (us @ vs) z = first_of us (first_of vs z)"
  by (cases us) simp_all

lemma siblings_append:
  "siblings h a (us @ vs) z \<longleftrightarrow> siblings h a us (first_of vs z) \<and> siblings h (last_of a us) vs z"
  by (induction us arbitrary: a) (auto simp: first_of_append last_of_def split: option.splits)

lemma siblings_cong:
  assumes "\<And>c. c \<in> set cs \<Longrightarrow>
    map_option (\<lambda>x. (prevSibling x, nextSibling x)) (h' c) = map_option (\<lambda>x. (prevSibling x, nextSibling x)) (h c)"
  shows "siblings h' a cs z = siblings h a cs z"
  using assms by (induction cs arbitrary: a) (force split: option.splits)+

lemma siblings_nth:
  assumes "siblings h a (us @ c # vs) z" "h c = Some x"
  shows "prevSibling x = last_of a us" "nextSibling x = first_of vs z"
  using assms by (simp_all add: siblings_append)

subsection \<open>Facts of a well-formed heap\<close>

lemma wf_chunk: "wf_heap h \<Longrightarrow> h c = Some x \<Longrightarrow> chunk_ok h c x"
  by (simp add: wf_heap_def)

lemma wf_child:
  assumes "wf_heap h" "h p = Some x" "c \<in> set (children x)"
  obtains y where "h c = Some y" "parent y = Some p" "accepts (kind x) (kind y)" "rank (kind x) = Suc (rank (kind y))"
  using wf_chunk [OF assms(1,2)] assms(3) by (auto simp: chunk_ok_def struct_ok_def child_ok_def split: option.splits)

lemma wf_parent:
  assumes "wf_heap h" "h c = Some x" "parent x = Some p"
  obtains y where "h p = Some y" "accepts (kind y) (kind x)" "rank (kind y) = Suc (rank (kind x))"
  using wf_chunk [OF assms(1,2)] assms(3) that by (auto simp: chunk_ok_def struct_ok_def parent_ok_def split: option.splits)

lemma rank_inject [simp]: "rank k = rank k' \<longleftrightarrow> k = k'"
  by (cases k; cases k'; simp)

lemma rank_Suc:
  "rank k = Suc (rank Instruction) \<longleftrightarrow> k = Block" "rank k = Suc (rank Block) \<longleftrightarrow> k = Function"
  "rank k = Suc (rank Function) \<longleftrightarrow> k = FunctionList" "rank k = Suc (rank FunctionList) \<longleftrightarrow> k = Module"
  "rank k = Suc (rank Module) \<longleftrightarrow> k = Program" "rank k \<noteq> Suc (rank Program)" "rank Instruction \<noteq> Suc n"
  by (cases k; simp)+

lemma getPosition_simps:
  "kind x = Instruction \<Longrightarrow> getPosition x = position x" "kind x = Block \<Longrightarrow> getPosition x = position x"
  "kind x = Module \<Longrightarrow> getPosition x = position x" "kind x = Program \<Longrightarrow> getPosition x = None"
  "kind x = FunctionList \<Longrightarrow> getPosition x = None"
  by (simp_all add: getPosition_def)

text \<open>The position of a block or an instruction is an offset of its own.\<close>

lemma wf_offset:
  assumes "wf_heap h" "h c = Some x" "kind x = Block \<or> kind x = Instruction" "position x = Some p"
  obtains off where "p = OffsetPosition c off"
  using wf_chunk [OF assms(1,2)] assms(3,4) that by (auto simp: chunk_ok_def struct_ok_def position_ok_def split: Position.splits)

lemma wf_positioned:
  assumes "wf_heap h" "h c = Some x" "kind x = Block \<or> kind x = Instruction" "parent x \<noteq> None"
  obtains off where "position x = Some (OffsetPosition c off)"
  using wf_chunk [OF assms(1,2)] assms(3,4) that
  by (auto simp: chunk_ok_def struct_ok_def position_ok_def split: Position.splits option.splits)

lemma getAddress_offset:
  assumes "h c = Some x" "kind x = Block \<or> kind x = Instruction" "position x = Some (OffsetPosition c off)" "parent x = Some q"
  shows "getAddress h c = (case getAddress h q of None \<Rightarrow> None | Some a \<Rightarrow> Some (a + off))"
  using assms by (subst getAddress.simps) (auto simp: getPosition_simps split: option.splits)

subsection \<open>Canonical offsets\<close>

text \<open>
  The offset of a child is the sum of the sizes before it in the list of its parent; \<open>canonical D h\<close>
  gives the chunks in \<open>D\<close> this offset.
\<close>

definition offset_in :: "heap \<Rightarrow> cid list \<Rightarrow> cid \<Rightarrow> 64 word" where
  "offset_in h cs c = sum_list (map (the_size h) (takeWhile (\<lambda>d. d \<noteq> c) cs))"

definition canonical_offset :: "heap \<Rightarrow> cid \<Rightarrow> Chunk \<Rightarrow> 64 word" where
  "canonical_offset h c x = (case parent x of None \<Rightarrow> 0
     | Some p \<Rightarrow> (case h p of None \<Rightarrow> 0 | Some y \<Rightarrow> offset_in h (children y) c))"

definition canonical :: "cid set \<Rightarrow> heap \<Rightarrow> heap" where
  "canonical D h c = map_option (\<lambda>x. if c \<in> D then x\<lparr>position := Some (OffsetPosition c (canonical_offset h c x))\<rparr> else x) (h c)"

lemma canonical_empty [simp]: "canonical {} h = h"
  by (rule ext) (simp add: canonical_def option.map_ident)

lemma canonical_Some:
  "h c = Some x \<Longrightarrow> canonical D h c = Some (if c \<in> D then x\<lparr>position := Some (OffsetPosition c (canonical_offset h c x))\<rparr> else x)"
  by (simp add: canonical_def)

text \<open>Heaps with the same chunks up to positions.\<close>

definition frame :: "Chunk \<Rightarrow> Chunk" where
  "frame x = x\<lparr>position := None\<rparr>"

definition same_frame :: "heap \<Rightarrow> heap \<Rightarrow> bool" where
  "same_frame h h' \<longleftrightarrow> (\<forall>c. map_option frame (h c) = map_option frame (h' c))"

lemma frame_eqD:
  assumes "frame x = frame y"
  shows "kind x = kind y" "parent x = parent y" "prevSibling x = prevSibling y" "nextSibling x = nextSibling y"
    "children x = children y" "slotPosition x = slotPosition y" "computedSize x = computedSize y" "semantic x = semantic y"
  using assms by (cases x; cases y; simp add: frame_def)+

lemma same_frame_Some:
  assumes "same_frame h h'" "h c = Some x"
  obtains x' where "h' c = Some x'" "frame x' = frame x"
  using assms(1) [unfolded same_frame_def, rule_format, of c] assms(2) that by (cases "h' c") auto

lemma same_frame_sym: "same_frame h h' \<Longrightarrow> same_frame h' h"
  by (simp add: same_frame_def)

lemma same_frame_canonical: "same_frame h (canonical D h)"
  unfolding same_frame_def
proof
  fix c
  show "map_option frame (h c) = map_option frame (canonical D h c)"
    by (cases "h c") (simp_all add: canonical_def frame_def)
qed

lemma chunk_getSize_frame:
  assumes "frame x = frame y"
  shows "chunk_getSize x = chunk_getSize y"
  using frame_eqD [OF assms] by (cases "kind y") (simp_all add: chunk_getSize_def)

lemma the_size_frame:
  assumes "same_frame h h'"
  shows "the_size h' = the_size h"
proof
  fix c
  show "the_size h' c = the_size h c"
    using assms [unfolded same_frame_def, rule_format, of c]
    by (cases "h c"; cases "h' c") (auto simp: the_size_def size_of_def dest: chunk_getSize_frame)
qed

lemma canonical_offset_frame:
  assumes "same_frame h h'" "frame x = frame x'"
  shows "canonical_offset h' c x' = canonical_offset h c x"
proof (cases "parent x")
  case None
  then show ?thesis using frame_eqD(2) [OF assms(2)] by (simp add: canonical_offset_def)
next
  case (Some p)
  with assms(1) [unfolded same_frame_def, rule_format, of p] show ?thesis
    using frame_eqD(2) [OF assms(2)] the_size_frame [OF assms(1)]
    by (cases "h p"; cases "h' p") (auto simp: canonical_offset_def offset_in_def dest: frame_eqD)
qed

lemma canonical_canonical [simp]: "canonical E (canonical D h) = canonical (D \<union> E) h"
proof
  fix c
  show "canonical E (canonical D h) c = canonical (D \<union> E) h c"
  proof (cases "h c")
    case (Some x)
    let ?x = "if c \<in> D then x\<lparr>position := Some (OffsetPosition c (canonical_offset h c x))\<rparr> else x"
    have "frame x = frame ?x" by (simp add: frame_def)
    from canonical_offset_frame [OF same_frame_canonical this, of D h c] Some show ?thesis
      by (cases "c \<in> D") (simp_all add: canonical_def)
  qed (simp add: canonical_def)
qed

subsection \<open>Recalculation\<close>

definition movable :: "heap \<Rightarrow> cid set \<Rightarrow> bool" where
  "movable h D \<longleftrightarrow> (\<forall>c \<in> D. \<exists>x. h c = Some x \<and> (kind x = Block \<or> kind x = Instruction) \<and> parent x \<noteq> None)"

lemma movable_simps [simp]:
  "movable h {}" "movable h (D \<union> E) \<longleftrightarrow> movable h D \<and> movable h E"
  by (auto simp: movable_def)

text \<open>A chunk that has an address keeps one when other chunks get their canonical offsets.\<close>

definition located :: "heap \<Rightarrow> cid \<Rightarrow> bool" where
  "located h c \<longleftrightarrow> getAddress h c \<noteq> None"

lemma located_child:
  assumes "wf_heap h" "h c = Some x" "kind x = Block \<or> kind x = Instruction" "parent x = Some q"
  shows "located h c \<longleftrightarrow> located h q"
proof -
  from assms(4) obtain off where "position x = Some (OffsetPosition c off)"
    using wf_positioned [OF assms(1-3)] by auto
  with getAddress_offset [of h c x off q] assms show ?thesis by (simp add: located_def split: option.splits)
qed

lemma canonical_address:
  assumes "h c = Some x" "kind x = Block \<or> kind x = Instruction" "parent x = Some q" "c \<in> D"
  shows "getAddress (canonical D h) c =
    (case getAddress (canonical D h) q of None \<Rightarrow> None | Some a \<Rightarrow> Some (a + canonical_offset h c x))"
  using assms getAddress_offset [of "canonical D h" c "x\<lparr>position := Some (OffsetPosition c (canonical_offset h c x))\<rparr>"]
  by (simp add: canonical_Some)

lemma located_canonical:
  assumes "wf_heap h" "movable h D" "h c = Some x" "located h c"
  shows "located (canonical D h) c"
  using assms(3,4)
proof (induction "6 - rank (kind x)" arbitrary: c x rule: less_induct)
  case less
  show ?case
  proof (cases "kind x = Block \<or> kind x = Instruction")
    case False
    then have "c \<notin> D" using assms(2) less.prems(1) by (auto simp: movable_def)
    then have x: "canonical D h c = Some x" using less.prems(1) by (simp add: canonical_Some)
    from less.prems(2) less.prems(1) obtain p where p: "getPosition x = Some p"
      unfolding located_def by (subst (asm) getAddress.simps) (auto split: option.splits Option.bind_splits)
    have "kind x = Function" using False p wf_chunk [OF assms(1) less.prems(1)]
      by (cases "kind x") (simp_all add: getPosition_simps chunk_ok_def struct_ok_def position_ok_def)
    then have "(\<exists>a. p = AbsolutePosition a) \<or> (\<exists>s. p = SlotPosition s)"
      using p wf_chunk [OF assms(1) less.prems(1)]
      by (auto simp: getPosition_def chunk_ok_def struct_ok_def position_ok_def split: option.splits Position.splits)
    then show ?thesis unfolding located_def using x p by (subst getAddress.simps) auto
  next
    case True
    show ?thesis
    proof (cases "parent x")
      case None
      then have "c \<notin> D" using assms(2) less.prems(1) by (auto simp: movable_def)
      then have x: "canonical D h c = Some x" using less.prems(1) by (simp add: canonical_Some)
      from less.prems(2) less.prems(1) obtain p where p: "getPosition x = Some p"
        unfolding located_def by (subst (asm) getAddress.simps) (auto split: option.splits Option.bind_splits)
      then have "position x = Some p" using True by (auto simp: getPosition_simps)
      from wf_offset [OF assms(1) less.prems(1) True this] obtain off where "p = OffsetPosition c off" .
      then show ?thesis unfolding located_def using x p None by (subst getAddress.simps) simp
    next
      case (Some q)
      from wf_parent [OF assms(1) less.prems(1) Some] obtain y where y: "h q = Some y" "rank (kind y) = Suc (rank (kind x))"
        by blast
      have "rank (kind y) < 6" by (cases "kind y") simp_all
      then have *: "located (canonical D h) q"
        using less.hyps [of y q] y located_child [OF assms(1) less.prems(1) True Some] less.prems(2) by simp
      from Some obtain off where off: "position x = Some (OffsetPosition c off)"
        using wf_positioned [OF assms(1) less.prems(1) True] by auto
      then obtain x' off' where "canonical D h c = Some x'" "kind x' = kind x" "parent x' = parent x"
          "position x' = Some (OffsetPosition c off')"
        using less.prems(1) by (cases "c \<in> D") (auto simp: canonical_Some)
      with getAddress_offset [of "canonical D h" c x' off' q] True Some * show ?thesis
        by (auto simp: located_def split: option.splits)
    qed
  qed
qed

lemma wf_size:
  assumes "wf_heap h" "h c = Some x"
  shows "chunk_getSize x = Some (the_size h c)" "size_of h c = Some (the_size h c)"
proof -
  have "chunk_getSize x \<noteq> None"
    using wf_chunk [OF assms] by (cases "kind x") (auto simp: chunk_getSize_def chunk_ok_def struct_ok_def size_ok_def)
  then show "chunk_getSize x = Some (the_size h c)" "size_of h c = Some (the_size h c)"
    using assms(2) by (auto simp: the_size_def size_of_def)
qed

lemma takeWhile_distinct: "c \<notin> set us \<Longrightarrow> takeWhile (\<lambda>d. d \<noteq> c) (us @ c # vs) = us"
  by (induction us) auto

lemma child_of_code:
  assumes "wf_heap h" "h q = Some y" "code_kind (kind y)" "c \<in> set (children y)"
  obtains x where "h c = Some x" "parent x = Some q" "kind x = Block \<or> kind x = Instruction"
proof -
  from wf_child [OF assms(1,2,4)] obtain x where x: "h c = Some x" "parent x = Some q" "accepts (kind y) (kind x)" .
  with assms(3) that show thesis by (auto simp: code_kind_def)
qed

lemma canonical_offset_child:
  assumes "wf_heap h" "h q = Some y" "children y = us @ c # vs" "h c = Some x" "parent x = Some q"
  shows "canonical_offset h c x = sum_list (map (the_size h) us)"
proof -
  have "c \<notin> set us" using wf_chunk [OF assms(1,2)] assms(3) by (simp add: chunk_ok_def struct_ok_def)
  then show ?thesis using assms(2,3,5) by (simp add: canonical_offset_def offset_in_def takeWhile_distinct)
qed

lemma recalculate_offset:
  assumes "wf_heap h" "h q = Some y" "code_kind (kind y)" "located h q" "movable h D"
    and "children y = us @ c # vs" "set us \<subseteq> D" "h c = Some x" "parent x = Some q"
  shows "OffsetPosition_recalculate (canonical D h) c = Some (canonical_offset h c x)"
proof -
  let ?h = "canonical D h"
  from canonical_Some [of h, OF assms(8)] obtain x1 where x1: "?h c = Some x1" "parent x1 = Some q" "prevSibling x1 = prevSibling x"
    using assms(9) by auto
  have "prevSibling x = last_of None us"
    using wf_chunk [OF assms(1,2)] assms(3,6,8) siblings_nth(1) [of h None us c vs None x] by (simp add: chunk_ok_def struct_ok_def)
  show ?thesis
  proof (cases us rule: rev_cases)
    case Nil
    then show ?thesis using x1 \<open>prevSibling x = last_of None us\<close> canonical_offset_child [OF assms(1,2,6,8,9)]
      by (simp add: OffsetPosition_recalculate_def)
  next
    case (snoc us' pr)
    have pr: "pr \<in> set (children y)" "children y = us' @ pr # c # vs" using assms(6) snoc by simp_all
    from child_of_code [OF assms(1,2,3) pr(1)] obtain z where
      z: "h pr = Some z" "parent z = Some q" "kind z = Block \<or> kind z = Instruction" .
    from located_canonical [OF assms(1,5,2,4)] obtain a where a: "getAddress ?h q = Some a" by (auto simp: located_def)
    have "getAddress ?h pr = Some (a + canonical_offset h pr z)"
      using canonical_address [of h, OF z(1,3,2)] assms(7) snoc a by simp
    moreover obtain z1 where "?h pr = Some z1" "chunk_getSize z1 = Some (the_size h pr)"
      using same_frame_Some [OF same_frame_canonical [of h D], of pr z] z(1) wf_size(1) [OF assms(1) z(1)] chunk_getSize_frame by metis
    moreover have "canonical_offset h pr z + the_size h pr = canonical_offset h c x"
      using canonical_offset_child [OF assms(1,2) pr(2) z(1,2)] canonical_offset_child [OF assms(1,2,6,8,9)] snoc by simp
    ultimately show ?thesis using x1 snoc a \<open>prevSibling x = last_of None us\<close>
      by (simp add: OffsetPosition_recalculate_def)
  qed
qed

lemma recalculate_child:
  assumes "wf_heap h" "h q = Some y" "code_kind (kind y)" "located h q" "movable h D"
    and "children y = us @ c # vs" "set us \<subseteq> D"
  shows "recalculate_at c (canonical D h) = Some (True, canonical (insert c D) h)"
proof -
  have c: "c \<in> set (children y)" using assms(6) by simp
  from child_of_code [OF assms(1,2,3) c] obtain x where
    x: "h c = Some x" "parent x = Some q" "kind x = Block \<or> kind x = Instruction" .
  let ?x = "if c \<in> D then x\<lparr>position := Some (OffsetPosition c (canonical_offset h c x))\<rparr> else x"
  have h: "canonical D h c = Some ?x" by (rule canonical_Some) (rule x(1))
  obtain off where "position x = Some (OffsetPosition c off)"
    using wf_positioned [OF assms(1) x(1,3)] x(2) by auto
  then obtain off1 where "getPosition ?x = Some (OffsetPosition c off1)"
    using x(3) by (cases "c \<in> D") (auto simp: getPosition_def)
  then have "recalculate_at c (canonical D h) =
      Some (True, (canonical D h)(c \<mapsto> store_position (OffsetPosition c (canonical_offset h c x)) ?x))"
    using recalculate_offset [OF assms x(1,2)] h by (simp add: recalculate_at_def del: if_split)
  moreover have "(canonical D h)(c \<mapsto> store_position (OffsetPosition c (canonical_offset h c x)) ?x) = canonical (insert c D) h"
    using x by (auto simp: canonical_def store_position_def)
  ultimately show ?thesis by simp
qed

subsection \<open>The descendants of a chunk\<close>

definition child_rel :: "heap \<Rightarrow> (cid \<times> cid) set" where
  "child_rel h = {(c, d). \<exists>x. h c = Some x \<and> d \<in> set (children x)}"

definition below :: "heap \<Rightarrow> cid list \<Rightarrow> cid set" where
  "below h cs = (child_rel h)\<^sup>* `` set cs"

lemma below_Nil [simp]: "below h [] = {}"
  by (simp add: below_def)

lemma below_Cons:
  assumes "h c = Some x"
  shows "below h (c # cs) = insert c (below h (children x) \<union> below h cs)"
proof -
  have "(child_rel h)\<^sup>* `` {c} = insert c (below h (children x))"
  proof (intro equalityI subsetI)
    fix d assume "d \<in> (child_rel h)\<^sup>* `` {c}"
    then have "(c, d) \<in> (child_rel h)\<^sup>*" by simp
    then show "d \<in> insert c (below h (children x))"
      by (cases rule: converse_rtranclE) (use assms in \<open>auto simp: below_def child_rel_def\<close>)
  next
    fix d assume "d \<in> insert c (below h (children x))"
    moreover have "(c, e) \<in> child_rel h" if "e \<in> set (children x)" for e using assms that by (simp add: child_rel_def)
    ultimately show "d \<in> (child_rel h)\<^sup>* `` {c}" by (auto simp: below_def intro: converse_rtrancl_into_rtrancl)
  qed
  then show ?thesis by (auto simp: below_def)
qed

lemma instruction_leaf:
  assumes "wf_heap h" "h c = Some x" "kind x = Instruction"
  shows "children x = []"
proof (cases "children x")
  case (Cons d ds)
  then have "d \<in> set (children x)" by simp
  from wf_child [OF assms(1,2) this] assms(3) show ?thesis by simp
qed

lemma movable_below:
  assumes "wf_heap h" "h q = Some y" "code_kind (kind y)" "set cs \<subseteq> set (children y)"
  shows "movable h (below h cs)"
  unfolding movable_def
proof
  fix d assume "d \<in> below h cs"
  then obtain c where c: "c \<in> set cs" "(c, d) \<in> (child_rel h)\<^sup>*" by (auto simp: below_def)
  have "\<exists>x. h c = Some x \<and> (kind x = Block \<or> kind x = Instruction) \<and> parent x \<noteq> None"
    using child_of_code [OF assms(1-3), of c] c(1) assms(4) by (metis option.distinct(1) subsetD)
  with c(2) show "\<exists>x. h d = Some x \<and> (kind x = Block \<or> kind x = Instruction) \<and> parent x \<noteq> None"
  proof (induction rule: rtrancl_induct)
    case base
    then show ?case by simp
  next
    case (step e d)
    then obtain x where x: "h e = Some x" "kind x = Block \<or> kind x = Instruction" "d \<in> set (children x)"
      by (auto simp: child_rel_def)
    from wf_child [OF assms(1) x(1,3)] obtain z where
      "h d = Some z" "parent z = Some e" "rank (kind x) = Suc (rank (kind z))" "accepts (kind x) (kind z)" .
    with x(2) show ?case by auto
  qed
qed

lemma update_children:
  assumes "wf_heap h" "h q = Some y" "code_kind (kind y)" "located h q" "movable h D"
    and "children y = us @ cs" "set us \<subseteq> D"
  shows "updatePositionHelper cs (canonical D h) = Some (canonical (D \<union> below h cs) h)"
  using assms(2-)
proof (induction "rank (kind y)" arbitrary: q y us cs D rule: less_induct)
  case less
  have "updatePositionHelper cs (canonical D h) = Some (canonical (D \<union> below h cs) h)"
    if "children y = us @ cs" "set us \<subseteq> D" "movable h D" for us cs D
    using that
  proof (induction cs arbitrary: us D)
    case Nil
    show ?case by (subst updatePositionHelper.simps) simp
  next
    case (Cons c cs)
    have c: "c \<in> set (children y)" using Cons.prems(1) by simp
    from wf_child [OF assms(1) less.prems(1) c] child_of_code [OF assms(1) less.prems(1,2) c] obtain x where
      x: "h c = Some x" "parent x = Some q" "kind x = Block \<or> kind x = Instruction" "rank (kind y) = Suc (rank (kind x))"
      by (metis option.inject)
    have m: "movable h (insert c D)" using Cons.prems(3) x by (auto simp: movable_def)
    have lc: "located h c" using located_child [OF assms(1) x(1,3,2)] less.prems(3) by simp
    have sub: "updatePositionHelper (children x) (canonical (insert c D) h) =
        Some (canonical (insert c D \<union> below h (children x)) h)"
    proof (cases "kind x = Block")
      case True
      then show ?thesis using less.hyps [of x c "insert c D" "[]" "children x"] x lc m by (simp add: code_kind_def)
    next
      case False
      then have "children x = []" using instruction_leaf [OF assms(1) x(1)] x(3) by simp
      then show ?thesis by (subst updatePositionHelper.simps) simp
    qed
    have D: "movable h (insert c D \<union> below h (children x))"
    proof (cases "kind x = Block")
      case True
      then show ?thesis using m movable_below [OF assms(1) x(1), of "children x"]
        by (simp add: code_kind_def del: Un_insert_left)
    next
      case False
      then have "children x = []" using instruction_leaf [OF assms(1) x(1)] x(3) by simp
      then show ?thesis using m by simp
    qed
    have "children y = (us @ [c]) @ cs" "set (us @ [c]) \<subseteq> insert c D \<union> below h (children x)"
      using Cons.prems(1,2) by auto
    note IH = Cons.IH [OF this D]
    obtain x' where x': "canonical (insert c D) h c = Some x'" "children x' = children x"
      using x(1) by (simp add: canonical_Some)
    have "insert c (D \<union> (below h (children x) \<union> below h cs)) = D \<union> below h (c # cs)"
      using below_Cons [of h, OF x(1)] by simp
    then show ?case
      using recalculate_child [OF assms(1) less.prems(1-3) Cons.prems(3,1,2)] x' sub IH
      by (subst updatePositionHelper.simps) (simp add: Un_assoc)
  qed
  from this [OF less.prems(5,6,4)] show ?case .
qed

subsection \<open>The destructor lays out the function\<close>

text \<open>
  \<open>contiguous h q\<close>: every child of \<open>q\<close> starts where the children before it end. A function is laid
  out if this holds for it and for its blocks.
\<close>

definition contiguous :: "heap \<Rightarrow> cid \<Rightarrow> bool" where
  "contiguous h q =
     (case children_of h q of
        None \<Rightarrow> False
      | Some cs \<Rightarrow>
          (case getAddress h q of
             None \<Rightarrow> False
           | Some a \<Rightarrow> (\<forall>i \<in> {..<length cs}. getAddress h (cs ! i) = Some (a + sum_list (map (the_size h) (take i cs))))))"

definition laid_out :: "heap \<Rightarrow> cid \<Rightarrow> bool" where
  "laid_out h f \<longleftrightarrow> contiguous h f \<and> (case children_of h f of None \<Rightarrow> False | Some bs \<Rightarrow> \<forall>b \<in> set bs. contiguous h b)"

lemma children_of_code: "h q = Some y \<Longrightarrow> code_kind (kind y) \<Longrightarrow> children_of h q = Some (children y)"
  by (auto simp: children_of_def code_kind_def)

lemma contiguous_canonical:
  assumes "wf_heap h" "movable h D" "h q = Some y" "code_kind (kind y)" "located h q" "set (children y) \<subseteq> D"
  shows "contiguous (canonical D h) q"
proof -
  let ?h = "canonical D h"
  obtain y' where y': "?h q = Some y'" "kind y' = kind y" "children y' = children y"
    using assms(3) by (simp add: canonical_Some)
  from located_canonical [OF assms(1,2,3,5)] obtain a where a: "getAddress ?h q = Some a" by (auto simp: located_def)
  have "getAddress ?h (children y ! i) = Some (a + sum_list (map (the_size h) (take i (children y))))"
    if "i < length (children y)" for i
  proof -
    have s: "children y = take i (children y) @ children y ! i # drop (Suc i) (children y)"
      using that by (rule id_take_nth_drop)
    have c: "children y ! i \<in> set (children y)" using that by simp
    from child_of_code [OF assms(1,3,4) c] obtain x where
      x: "h (children y ! i) = Some x" "parent x = Some q" "kind x = Block \<or> kind x = Instruction" .
    show ?thesis
      using canonical_address [of h, OF x(1,3,2)] assms(6) c a canonical_offset_child [OF assms(1,3) s x(1,2)] by auto
  qed
  then show ?thesis
    using children_of_code [of ?h, OF y'(1)] y'(2,3) assms(4) a the_size_frame [OF same_frame_canonical, of D h]
    by (simp add: contiguous_def)
qed

text \<open>The function above a chunk of code, if its position is absolute.\<close>

definition absolute_function :: "heap \<Rightarrow> cid \<Rightarrow> bool" where
  "absolute_function h f =
     (case h f of None \<Rightarrow> False | Some x \<Rightarrow> kind x = Function \<and> slotPosition x = None)"

definition in_function :: "heap \<Rightarrow> cid \<Rightarrow> cid \<Rightarrow> bool" where
  "in_function h f p \<longleftrightarrow> p = f \<or> (case h p of None \<Rightarrow> False | Some x \<Rightarrow> kind x = Block \<and> parent x = Some f)"

lemma absolute_functionE:
  assumes "wf_heap h" "absolute_function h f"
  obtains x a where "h f = Some x" "kind x = Function" "getPosition x = Some (AbsolutePosition a)" "position x = Some (AbsolutePosition a)"
    "slotPosition x = None" "located h f"
proof -
  from assms(2) obtain x where x: "h f = Some x" "kind x = Function" "slotPosition x = None"
    by (auto simp: absolute_function_def split: option.splits)
  with wf_chunk [OF assms(1) x(1)] obtain a where a: "position x = Some (AbsolutePosition a)"
    by (auto simp: chunk_ok_def struct_ok_def position_ok_def split: option.splits Position.splits)
  have g: "getPosition x = Some (AbsolutePosition a)" using x a by (simp add: getPosition_def)
  have "located h f" unfolding located_def using x g by (subst getAddress.simps) simp
  with x g a that show thesis by blast
qed

lemma update_function:
  assumes "wf_heap h" "absolute_function h f" "h f = Some x"
  shows "updatePositionHelper [f] h = Some (canonical (below h (children x)) h)"
proof -
  from absolute_functionE [OF assms(1,2)] assms(3) obtain a where
    f: "kind x = Function" "getPosition x = Some (AbsolutePosition a)" "position x = Some (AbsolutePosition a)"
      "slotPosition x = None" "located h f" by (metis option.inject)
  have "store_position (AbsolutePosition a) x = x" using f by (simp add: store_position_def)
  then have "recalculate_at f h = Some (True, h)" using assms(3) f by (simp add: recalculate_at_def fun_upd_idem)
  moreover have "updatePositionHelper (children x) h = Some (canonical (below h (children x)) h)"
    using update_children [OF assms(1,3) _ f(5), of "{}" "[]" "children x"] f(1) by (simp add: code_kind_def)
  moreover have "updatePositionHelper [] h' = Some h'" for h' by (subst updatePositionHelper.simps) simp
  ultimately show ?thesis using assms(3) by (subst updatePositionHelper.simps) simp
qed

text \<open>Nothing above the function has a position, so the loop over the ancestors changes nothing there.\<close>

lemma update_above:
  assumes "h c = Some x" "\<forall>d y. h d = Some y \<longrightarrow> rank (kind y) \<ge> 3 \<longrightarrow> getPosition y = None \<and>
      (\<forall>p. parent y = Some p \<longrightarrow> (\<exists>z. h p = Some z \<and> rank (kind z) = Suc (rank (kind y))))" "rank (kind x) \<ge> 3"
  shows "update_ancestors (Some c) h = Some h"
  using assms(1,3)
proof (induction "6 - rank (kind x)" arbitrary: c x rule: less_induct)
  case less
  have n: "update_ancestors None h = Some h" by (subst update_ancestors.simps) simp
  have p: "getPosition x = None" using assms(2) less.prems by blast
  show ?case
  proof (cases "parent x")
    case None
    then show ?thesis using less.prems(1) p n by (subst update_ancestors.simps) simp
  next
    case (Some q)
    then obtain z where z: "h q = Some z" "rank (kind z) = Suc (rank (kind x))" using assms(2) less.prems by blast
    have "rank (kind z) < 6" by (cases "kind z") simp_all
    then have "update_ancestors (Some q) h = Some h" using less.hyps [of z q] z less.prems(2) by simp
    then show ?thesis using less.prems(1) p Some by (subst update_ancestors.simps) simp
  qed
qed

lemma struct_ok_frame:
  assumes "same_frame h h'" "frame x = frame x'" "struct_ok h c x"
  shows "struct_ok h' c x'"
proof -
  note f = frame_eqD [OF assms(2)]
  have sz: "total_size h' = total_size h" by (rule ext) (simp add: total_size_def the_size_frame [OF assms(1)])
  have h: "map_option frame (h' d) = map_option frame (h d)" for d using assms(1) by (simp add: same_frame_def)
  have v: "map_option g (h' d) = map_option g (h d)" if "\<And>x y. frame x = frame y \<Longrightarrow> g x = g y" for g :: "Chunk \<Rightarrow> 'b" and d
  proof -
    from h [of d] show ?thesis
    proof (cases "h d")
      case (Some w)
      with h [of d] obtain w' where "h' d = Some w'" "frame w' = frame w" by (cases "h' d") auto
      then show ?thesis using Some that [of w' w] by simp
    qed simp
  qed
  have "child_ok h' c x' d" if "child_ok h c x d" for d
    using that h [of d] f(1) by (cases "h d"; cases "h' d") (auto simp: child_ok_def dest: frame_eqD)
  moreover have "siblings h' a cs z = siblings h a cs z" for a cs z
    by (intro siblings_cong v) (auto dest: frame_eqD)
  moreover have "parent_ok h' x' = parent_ok h x"
  proof (cases "parent x")
    case (Some p)
    then show ?thesis using h [of p] f(1,2) by (cases "h p"; cases "h' p") (auto simp: parent_ok_def dest: frame_eqD(1))
  qed (use f(2) in \<open>simp add: parent_ok_def\<close>)
  ultimately show ?thesis using assms(3) f sz by (auto simp: struct_ok_def size_ok_def)
qed

lemma wf_canonical:
  assumes "wf_heap h" "movable h D"
  shows "wf_heap (canonical D h)"
  unfolding wf_heap_def
proof (intro allI impI)
  fix c x' assume x': "canonical D h c = Some x'"
  then obtain x where x: "h c = Some x" "frame x = frame x'"
    "x' = (if c \<in> D then x\<lparr>position := Some (OffsetPosition c (canonical_offset h c x))\<rparr> else x)"
    by (auto simp: canonical_def frame_def)
  have "position_ok c x'"
  proof (cases "c \<in> D")
    case True
    then have "kind x = Block \<or> kind x = Instruction" using assms(2) x(1) by (auto simp: movable_def)
    then show ?thesis using x(3) True by (auto simp: position_ok_def)
  next
    case False
    then show ?thesis using x(1,3) wf_chunk [OF assms(1) x(1)] by (simp add: chunk_ok_def struct_ok_def)
  qed
  then show "chunk_ok (canonical D h) c x'"
    using struct_ok_frame [OF same_frame_canonical x(2)] wf_chunk [OF assms(1) x(1)] by (simp add: chunk_ok_def)
qed

lemma wf_above:
  assumes "wf_heap h" "h d = Some y" "rank (kind y) \<ge> 3"
  shows "getPosition y = None \<and> (\<forall>p. parent y = Some p \<longrightarrow> (\<exists>z. h p = Some z \<and> rank (kind z) = Suc (rank (kind y))))"
proof (intro conjI allI impI)
  show "getPosition y = None" using assms(3) wf_chunk [OF assms(1,2)]
    by (cases "kind y") (simp_all add: getPosition_simps chunk_ok_def struct_ok_def position_ok_def)
  fix p assume "parent y = Some p"
  from wf_parent [OF assms(1,2) this] show "\<exists>z. h p = Some z \<and> rank (kind z) = Suc (rank (kind y))" by blast
qed

lemma updatePositions_function:
  assumes "wf_heap h" "absolute_function h f" "h f = Some x" "in_function h f p"
  shows "updatePositions MODE_OFFSET True p h = Some (canonical (below h (children x)) h)"
proof -
  let ?D = "below h (children x)"
  have k: "kind x = Function" using assms(2,3) by (simp add: absolute_function_def)
  have m: "movable h ?D" using movable_below [OF assms(1,3), of "children x"] k by (simp add: code_kind_def)
  have "parent x = None \<or> update_ancestors (parent x) (canonical ?D h) = Some (canonical ?D h)"
  proof (cases "parent x")
    case (Some g)
    from wf_parent [OF assms(1,3) Some] obtain y where y: "h g = Some y" "rank (kind y) = Suc (rank (kind x))" .
    obtain y' where y': "canonical ?D h g = Some y'" "kind y' = kind y" using y(1) by (auto simp: canonical_Some)
    have "update_ancestors (Some g) (canonical ?D h) = Some (canonical ?D h)"
      by (rule update_above [of "canonical ?D h", OF y'(1)]) (use y(2) y'(2) k wf_above [OF wf_canonical [OF assms(1) m]] in auto)
    then show ?thesis using Some by simp
  qed simp
  moreover have "update_ancestors None h' = Some h'" for h' by (subst update_ancestors.simps) simp
  moreover obtain a where "getPosition x = Some (AbsolutePosition a)"
    using absolute_functionE [OF assms(1,2)] assms(3) by (metis option.inject)
  ultimately have f: "update_ancestors (Some f) h = Some (canonical ?D h)"
    using assms(3) update_function [OF assms(1-3)] by (subst update_ancestors.simps) auto
  show ?thesis
  proof (cases "p = f")
    case False
    with assms(4) obtain b where b: "h p = Some b" "kind b = Block" "parent b = Some f"
      by (auto simp: in_function_def split: option.splits)
    from wf_positioned [OF assms(1) b(1)] b(2,3) obtain off where "position b = Some (OffsetPosition p off)" by auto
    then have "\<not> is_absolute (getPosition b)" using b(2) by (simp add: getPosition_simps)
    then have "update_ancestors (Some p) h = Some (canonical ?D h)" using f b by (subst update_ancestors.simps) simp
    then show ?thesis by (simp add: updatePositions_def)
  qed (use f in \<open>simp add: updatePositions_def\<close>)
qed

lemma laid_out_canonical:
  assumes "wf_heap h" "absolute_function h f" "h f = Some x"
  shows "laid_out (canonical (below h (children x)) h) f"
proof -
  let ?D = "below h (children x)"
  have k: "code_kind (kind x)" using assms(2,3) by (simp add: absolute_function_def code_kind_def)
  have m: "movable h ?D" using movable_below [OF assms(1,3) k] by simp
  have sub: "set (children x) \<subseteq> ?D" by (auto simp: below_def)
  have l: "located h f" using absolute_functionE [OF assms(1,2)] by blast
  have "contiguous (canonical ?D h) b" if "b \<in> set (children x)" for b
  proof -
    from wf_child [OF assms(1,3) that] obtain y where y: "h b = Some y" "parent y = Some f" "accepts (kind x) (kind y)" .
    have yk: "kind y = Block" using y(3) assms(2,3) by (simp add: absolute_function_def)
    have "(b, d) \<in> (child_rel h)\<^sup>*" if "d \<in> set (children y)" for d
      using that y(1) by (intro r_into_rtrancl) (auto simp: child_rel_def)
    then have "set (children y) \<subseteq> ?D" using that unfolding below_def by blast
    then show ?thesis using contiguous_canonical [OF assms(1) m y(1)] yk located_child [OF assms(1) y(1) _ y(2)] l
      by (simp add: code_kind_def)
  qed
  moreover have "children_of (canonical ?D h) f = Some (children x)"
    using assms(3) k children_of_code [of "canonical ?D h" f] by (simp add: canonical_Some)
  ultimately show ?thesis using contiguous_canonical [OF assms(1) m assms(3) k l sub] by (simp add: laid_out_def)
qed

text \<open>What running the destructor on a well-formed heap gives.\<close>

lemma updatePositions_lays_out:
  assumes "wf_heap h" "absolute_function h f" "in_function h f p"
  obtains h' where "updatePositions MODE_OFFSET True p h = Some h'" "wf_heap h'" "laid_out h' f" "same_frame h h'"
proof -
  from assms(2) obtain x where x: "h f = Some x" "kind x = Function"
    by (auto simp: absolute_function_def split: option.splits)
  have m: "movable h (below h (children x))" using movable_below [OF assms(1) x(1)] x(2) by (simp add: code_kind_def)
  show thesis
    by (rule that [OF updatePositions_function [OF assms(1,2) x(1) assms(3)] wf_canonical [OF assms(1) m]
      laid_out_canonical [OF assms(1,2) x(1)] same_frame_canonical])
qed

end
