(* ===== verification/X86Generate.thy ===== *)
theory X86Generate
  imports GeneratorCorrect X86Correct ChunkTree
begin

unbundle bit_operations_syntax

section \<open>Generated x86-64 code reaches its targets\<close>

text \<open>
  The pieces together: positions of chunks, the sandbox, the generator and the writers of x86-64 instructions. Assigning
  slots moves whole functions; instructions keep their place in the function, so the bytes of an instruction are
  found in the generated buffer at the address of the instruction, and its displacement, computed from the
  assigned addresses, leads to the assigned address of its target.
\<close>

subsection \<open>Slots do not change the layout of functions\<close>

lemma assigned_heap:
  assumes "assigned cs slots h h'"
  obtains g where "\<And>c. h' c = map_option (\<lambda>x. x\<lparr>slotPosition := g c x\<rparr>) (h c)"
proof -
  have "\<exists>p. \<forall>x. h c = Some x \<longrightarrow> h' c = Some (x\<lparr>slotPosition := p x\<rparr>)" for c
  proof (cases "c \<in> set cs")
    case True
    then obtain k where "k < length cs" "c = cs ! k" by (metis in_set_conv_nth)
    with assms show ?thesis by (intro exI [of _ "\<lambda>_. Some (slots ! k)"]) (auto simp: assigned_def)
  next
    case False
    with assms show ?thesis by (intro exI [of _ slotPosition]) (simp add: assigned_def)
  qed
  then obtain g where g: "\<And>c x. h c = Some x \<Longrightarrow> h' c = Some (x\<lparr>slotPosition := g c x\<rparr>)" by metis
  have "h' c = None" if "h c = None" for c
    using assms that by (metis assigned_def in_set_conv_nth option.distinct(1))
  with g show thesis by (intro that [of g]) (auto split: option.split simp: map_option_case)
qed

definition slots_changed :: "heap \<Rightarrow> heap \<Rightarrow> bool" where
  "slots_changed h h' \<longleftrightarrow> (\<exists>g. \<forall>c. h' c = map_option (\<lambda>x. x\<lparr>slotPosition := g c x\<rparr>) (h c))"

lemma slots_changedD:
  assumes "slots_changed h h'" "h c = Some x"
  obtains p where "h' c = Some (x\<lparr>slotPosition := p\<rparr>)"
  using assms by (auto simp: slots_changed_def)

lemma slots_changed_size: "slots_changed h h' \<Longrightarrow> the_size h' c = the_size h c"
  by (cases "h c") (auto simp: slots_changed_def the_size_def size_of_def size_slot)

lemma slots_changed_children: "slots_changed h h' \<Longrightarrow> children_of h' c = children_of h c"
  by (cases "h c") (auto simp: slots_changed_def children_of_def)

lemma slots_changed_wf:
  assumes "slots_changed h h'" "wf_heap h"
  shows "wf_heap h'"
  unfolding wf_heap_def
proof (intro allI impI)
  obtain g where g: "\<And>c. h' c = map_option (\<lambda>x. x\<lparr>slotPosition := g c x\<rparr>) (h c)"
    using assms(1) by (auto simp: slots_changed_def)
  fix c x' assume "h' c = Some x'"
  then obtain x where x: "h c = Some x" "x' = x\<lparr>slotPosition := g c x\<rparr>" using g by auto
  have sib: "siblings h' None (children x) None = siblings h None (children x) None"
    by (rule siblings_cong) (simp add: g option.map_comp comp_def)
  have size: "total_size h' cs = total_size h cs" for cs
    using slots_changed_size [OF assms(1)] by (simp add: total_size_def)
  have "child_ok h' c x' d = child_ok h c x d" for d
    using x g by (cases "h d") (simp_all add: child_ok_def)
  moreover have "parent_ok h' x' = parent_ok h x"
    using x g by (auto simp: parent_ok_def split: option.splits)
  moreover have "size_ok h' x' = size_ok h x"
    using x size by (simp add: size_ok_def)
  moreover have "position_ok c x' = position_ok c x"
    using x by (cases "kind x"; cases "position x") (simp_all add: position_ok_def)
  ultimately show "chunk_ok h' c x'"
    using wf_chunk [OF assms(2) x(1)] sib x(2) by (simp add: chunk_ok_def struct_ok_def)
qed

text \<open>A child keeps its distance from its parent.\<close>

lemma slots_changed_offset:
  assumes "slots_changed h h'" "wf_heap h" "h c = Some x" "kind x = Block \<or> kind x = Instruction" "parent x = Some q"
    and "getAddress h q = Some a" "getAddress h c = Some (a + d)" "getAddress h' q = Some a'"
  shows "getAddress h' c = Some (a' + d)"
proof -
  obtain off where off: "position x = Some (OffsetPosition c off)"
    using wf_positioned [OF assms(2-4)] assms(5) by auto
  then have "off = d"
    using getAddress_offset [of h c x off q] assms by simp
  moreover obtain p where "h' c = Some (x\<lparr>slotPosition := p\<rparr>)"
    by (rule slots_changedD [OF assms(1,3)])
  ultimately show ?thesis
    using getAddress_offset [of h' c "x\<lparr>slotPosition := p\<rparr>" off q] off assms(4,5,8) by simp
qed

lemma slots_changed_contiguous:
  assumes "slots_changed h h'" "wf_heap h" "h q = Some y" "code_kind (kind y)" "contiguous h q" "getAddress h' q = Some a'"
  shows "contiguous h' q"
proof -
  have cs: "children_of h q = Some (children y)" using children_of_code [of h q y] assms(3,4) by simp
  obtain a where a: "getAddress h q = Some a"
    "\<And>i. i < length (children y) \<Longrightarrow> getAddress h (children y ! i) = Some (a + sum_list (map (the_size h) (take i (children y))))"
    using assms(5) cs by (auto simp: contiguous_def split: option.splits)
  have "getAddress h' (children y ! i) = Some (a' + sum_list (map (the_size h) (take i (children y))))"
    if i: "i < length (children y)" for i
  proof -
    from wf_child [OF assms(2,3) nth_mem [OF i]] obtain z where z: "h (children y ! i) = Some z" "parent z = Some q"
      "rank (kind y) = Suc (rank (kind z))" .
    have "kind z = Block \<or> kind z = Instruction"
      using z(3) assms(4) by (cases "kind z") (auto simp: code_kind_def)
    then show ?thesis
      by (rule slots_changed_offset [OF assms(1,2) z(1) _ z(2) a(1) a(2) [OF i] assms(6)])
  qed
  moreover have "the_size h' = the_size h" using slots_changed_size [OF assms(1)] by blast
  ultimately show ?thesis
    using assms(6) cs slots_changed_children [OF assms(1)] by (simp add: contiguous_def)
qed

lemma slots_changed_laid_out:
  assumes "slots_changed h h'" "wf_heap h" "h f = Some x" "kind x = Function" "laid_out h f" "getAddress h' f = Some a'"
  shows "laid_out h' f"
proof -
  have cs: "children_of h f = Some (children x)" using children_of_code [of h f x] assms(3,4) by (simp add: code_kind_def)
  have f: "contiguous h' f"
    using slots_changed_contiguous [OF assms(1-3) _ _ assms(6)] assms(4,5) by (simp add: laid_out_def code_kind_def)
  have "contiguous h' b" if b: "b \<in> set (children x)" for b
  proof -
    from wf_child [OF assms(2,3) b] obtain y where y: "h b = Some y" "rank (kind x) = Suc (rank (kind y))" .
    have "code_kind (kind y)" using y(2) assms(4) by (cases "kind y") (auto simp: code_kind_def)
    moreover have "contiguous h b" using assms(5) cs b by (simp add: laid_out_def)
    moreover obtain a where "getAddress h' b = Some a"
      using f b cs slots_changed_children [OF assms(1)] by (auto simp: contiguous_def in_set_conv_nth split: option.splits)
    ultimately show ?thesis using slots_changed_contiguous [OF assms(1,2) y(1)] by blast
  qed
  then show ?thesis using f cs slots_changed_children [OF assms(1)] by (simp add: laid_out_def)
qed

subsection \<open>Where the instructions of a function are\<close>

lemma of_nat_total_size: "of_nat (total_size h cs) = sum_list (map (the_size h) cs)"
  by (induction cs) (simp_all add: total_size_def)

lemma total_size_simps [simp]: "total_size h [] = 0" "total_size h (c # cs) = unat (the_size h c) + total_size h cs"
  "total_size h (cs @ ds) = total_size h cs + total_size h ds"
  by (simp_all add: total_size_def)

lemma block_size:
  assumes "wf_heap h" "h b = Some y" "kind y = Block"
  shows "the_size h b = of_nat (total_size h (children y))"
proof -
  have "unat (computedSize y) = total_size h (children y)"
    using wf_chunk [OF assms(1,2)] assms(3) by (simp add: chunk_ok_def struct_ok_def size_ok_def code_kind_def)
  moreover have "computedSize y = of_nat (unat (computedSize y))" by simp
  ultimately have "computedSize y = of_nat (total_size h (children y))" by simp
  with assms(2,3) show ?thesis by (simp add: the_size_def size_of_def chunk_getSize_def)
qed

lemma block_instrs_address:
  assumes "wf_heap h" "\<forall>b \<in> set bs. contiguous h b \<and> (\<exists>y. h b = Some y \<and> kind y = Block)"
    and "\<And>i. i < length bs \<Longrightarrow> getAddress h (bs ! i) = Some (a + sum_list (map (the_size h) (take i bs)))"
    and "block_instrs h bs = Some is" "j < length is"
  shows "getAddress h (is ! j) = Some (a + of_nat (total_size h (take j is)))"
  using assms(2-)
proof (induction bs arbitrary: a "is" j)
  case (Cons b bs)
  from Cons.prems(1) obtain y where y: "h b = Some y" "kind y = Block" by auto
  have cs: "children_of h b = Some (children y)" using y by (simp add: children_of_def)
  from Cons.prems(3) cs obtain rest where rest: "block_instrs h bs = Some rest" "is = children y @ rest"
    by (auto split: bind_splits)
  have b: "getAddress h b = Some a" using Cons.prems(2) [of 0] by simp
  show ?case
  proof (cases "j < length (children y)")
    case True
    have "contiguous h b" using Cons.prems(1) by simp
    with True b cs have "getAddress h (children y ! j) = Some (a + sum_list (map (the_size h) (take j (children y))))"
      by (simp add: contiguous_def)
    with True rest(2) show ?thesis by (simp add: nth_append of_nat_total_size)
  next
    case False
    have *: "getAddress h (bs ! i) = Some ((a + the_size h b) + sum_list (map (the_size h) (take i bs)))" if "i < length bs" for i
      using Cons.prems(2) [of "Suc i"] that by (simp add: add.assoc)
    have "getAddress h (rest ! (j - length (children y))) =
        Some ((a + the_size h b) + of_nat (total_size h (take (j - length (children y)) rest)))"
      using Cons.IH [OF _ * rest(1), of "j - length (children y)"] Cons.prems(1,4) False rest(2) by simp
    with False rest(2) block_size [OF assms(1) y] show ?thesis by (simp add: nth_append add.assoc)
  qed
qed simp

lemma function_instrs_address:
  assumes "wf_heap h" "h f = Some x" "kind x = Function" "laid_out h f" "getAddress h f = Some a"
    and "function_instrs h f = Some is" "j < length is"
  shows "getAddress h (is ! j) = Some (a + of_nat (total_size h (take j is)))"
proof -
  have cs: "children_of h f = Some (children x)" using assms(2,3) by (simp add: children_of_def)
  have blocks: "\<exists>y. h b = Some y \<and> kind y = Block" if b: "b \<in> set (children x)" for b
  proof -
    from wf_child [OF assms(1,2) b] obtain y where y: "h b = Some y" "rank (kind x) = Suc (rank (kind y))" .
    then show ?thesis using assms(3) by (cases "kind y") auto
  qed
  show ?thesis
  proof (rule block_instrs_address [OF assms(1) _ _ _ assms(7)])
    show "block_instrs h (children x) = Some is" using assms(6) cs by (simp add: function_instrs_def)
    show "\<forall>b \<in> set (children x). contiguous h b \<and> (\<exists>y. h b = Some y \<and> kind y = Block)"
      using assms(4) cs blocks by (simp add: laid_out_def)
    show "\<And>i. i < length (children x) \<Longrightarrow> getAddress h (children x ! i) = Some (a + sum_list (map (the_size h) (take i (children x))))"
      using assms(4,5) cs by (simp add: laid_out_def contiguous_def)
  qed
qed

subsection \<open>The writers of a program\<close>

text \<open>
  \<open>sem\<close> gives the contents of the semantic of an instruction, of which the heap has only the size. The addresses that the
  writers use are those of the heap at the time of writing.
\<close>

definition heap_env :: "cid LinkEnv \<Rightarrow> heap \<Rightarrow> cid LinkEnv" where
  "heap_env E h = E\<lparr>env_address := getAddress h, env_size := size_of h\<rparr>"

definition x86_writers ::
    "Disassembler \<Rightarrow> cid LinkEnv \<Rightarrow> (cid \<Rightarrow> cid InstructionSemantic) \<Rightarrow> (heap \<Rightarrow> cid \<Rightarrow> byte list) \<Rightarrow> CodeWriters" where
  "x86_writers D E sem plt =
     \<lparr>write_instr = \<lambda>h i. (case InstrWriterCppString D (heap_env E h) True (sem i) [] of Some bs \<Rightarrow> bs | None \<Rightarrow> []),
      write_plt = plt, caches = \<lambda>c. None, pad_byte = 0x90\<rparr>"

text \<open>The instructions of a function can be written, as many bytes as the heap says.\<close>

definition instrs_writable :: "Disassembler \<Rightarrow> cid LinkEnv \<Rightarrow> (cid \<Rightarrow> cid InstructionSemantic) \<Rightarrow> heap \<Rightarrow> cid list \<Rightarrow> bool" where
  "instrs_writable D E sem h is \<longleftrightarrow> (\<forall>i \<in> set is. storage_ok D (sem i) \<and> unat (the_size h i) = semantic_size (sem i) \<and>
     InstrWriterCppString D (heap_env E h) True (sem i) [] \<noteq> None)"

lemma written_length:
  assumes "instrs_writable D E sem h is" "i \<in> set is"
  shows "length (write_instr (x86_writers D E sem plt) h i) = unat (the_size h i)"
proof -
  obtain bs where bs: "InstrWriterCppString D (heap_env E h) True (sem i) [] = Some bs"
    using assms by (auto simp: instrs_writable_def)
  with written_size [OF bs] assms show ?thesis by (simp add: x86_writers_def instrs_writable_def)
qed

lemma written_total:
  "instrs_writable D E sem h is \<Longrightarrow> set js \<subseteq> set is \<Longrightarrow>
    length (concat (map (write_instr (x86_writers D E sem plt) h) js)) = total_size h js"
  by (induction js) (simp_all add: written_length)

text \<open>The bytes of the \<open>j\<close>-th instruction in the code of its function.\<close>

lemma function_code_slice:
  assumes "function_instrs h f = Some is" "function_code (x86_writers D E sem plt) h f = Some code"
    and "instrs_writable D E sem h is" "j < length is"
  shows "take (semantic_size (sem (is ! j))) (drop (total_size h (take j is)) code) = write_instr (x86_writers D E sem plt) h (is ! j)"
    "total_size h (take j is) + semantic_size (sem (is ! j)) \<le> length code"
proof -
  let ?w = "write_instr (x86_writers D E sem plt) h"
  have c: "code = concat (map ?w is)" using assms(1,2) by (simp add: function_code_def)
  have len: "length (?w (is ! j)) = semantic_size (sem (is ! j))"
    using written_length [OF assms(3), of "is ! j"] assms(3,4) by (simp add: instrs_writable_def)
  have pre: "sum_list (map (\<lambda>c. length (?w c)) (take j is)) = total_size h (take j is)"
    using written_total [OF assms(3) set_take_subset, of plt j] by (simp add: length_concat comp_def)
  show "take (semantic_size (sem (is ! j))) (drop (total_size h (take j is)) code) = ?w (is ! j)"
    using concat_slice [OF assms(4), of ?w] by (simp add: c len pre)
  then have "length (take (semantic_size (sem (is ! j))) (drop (total_size h (take j is)) code)) = semantic_size (sem (is ! j))"
    using len by simp
  moreover have "total_size h (take j is) \<le> length code"
    using written_total [OF assms(3), of "take j is" plt] written_total [OF assms(3), of "is" plt]
    by (simp add: c set_take_subset) (metis append_take_drop_id le_add1 total_size_simps(3))
  ultimately show "total_size h (take j is) + semantic_size (sem (is ! j)) \<le> length code" by auto
qed

subsection \<open>The whole program\<close>

lemma block_instrs_total:
  assumes "wf_heap h" "\<forall>b \<in> set bs. \<exists>y. h b = Some y \<and> kind y = Block"
  shows "\<exists>is. block_instrs h bs = Some is \<and> total_size h is = total_size h bs"
  using assms(2)
proof (induction bs)
  case (Cons b bs)
  from Cons obtain "is" y where "is": "block_instrs h bs = Some is" "total_size h is = total_size h bs" "h b = Some y" "kind y = Block"
    by auto
  have "unat (the_size h b) = total_size h (children y)"
    using wf_chunk [OF assms(1) "is"(3)] "is"(3,4)
    by (simp add: chunk_ok_def struct_ok_def size_ok_def code_kind_def the_size_def size_of_def chunk_getSize_def)
  moreover have "children_of h b = Some (children y)" using "is"(3,4) by (simp add: children_of_def)
  ultimately show ?case using "is"(1,2) by simp
qed simp

lemma function_instrs_total:
  assumes "wf_heap h" "h f = Some x" "kind x = Function"
  shows "\<exists>is. function_instrs h f = Some is \<and> total_size h is = unat (size_at h f)"
proof -
  have blocks: "\<exists>y. h b = Some y \<and> kind y = Block" if b: "b \<in> set (children x)" for b
  proof -
    from wf_child [OF assms(1,2) b] obtain y where y: "h b = Some y" "rank (kind x) = Suc (rank (kind y))" .
    then show ?thesis using assms(3) by (cases "kind y") auto
  qed
  have "unat (computedSize x) = total_size h (children x)"
    using wf_chunk [OF assms(1,2)] assms(3) by (simp add: chunk_ok_def struct_ok_def size_ok_def code_kind_def)
  with block_instrs_total [OF assms(1), of "children x"] blocks assms(2,3) show ?thesis
    by (auto simp: function_instrs_def children_of_def size_at_def chunk_getSize_def)
qed

lemma assignAddresses_slots_changed:
  assumes "assignAddresses alloc startup ms (h, s) = Some (h', s')" "distinct (all_functions ms @ all_plts ms)"
  shows "slots_changed h h'"
proof -
  obtain orders where orders: "list_all2 (\<lambda>order m. mset order = mset (mod_functions m)) orders ms"
      "assign_each alloc (placed orders ms) (h, s) = Some (h', s')"
    using assignAddresses_placed [OF assms(1)] by blast
  have "mset (placed orders ms) = mset (all_functions ms @ all_plts ms)"
    using placed_mset [OF orders(1)] by simp
  with assms(2) have "distinct (placed orders ms)" using mset_eq_imp_distinct_iff by blast
  with assign_each_slots [OF orders(2)] obtain slots where "assigned (placed orders ms) slots h h'" by blast
  then show ?thesis by (metis assigned_heap slots_changed_def)
qed

definition program_writable ::
    "Disassembler \<Rightarrow> cid LinkEnv \<Rightarrow> (cid \<Rightarrow> cid InstructionSemantic) \<Rightarrow> (heap \<Rightarrow> cid \<Rightarrow> byte list) \<Rightarrow> heap \<Rightarrow> GenModule list \<Rightarrow> bool" where
  "program_writable D E sem plt h ms \<longleftrightarrow>
     (\<forall>f \<in> set (all_functions ms). case function_instrs h f of None \<Rightarrow> False | Some is \<Rightarrow> instrs_writable D E sem h is) \<and>
     (\<forall>c \<in> set (all_plts ms). length (plt h c) \<le> unat (size_at h c))"

lemma program_code_ok:
  assumes "wf_heap h" "\<forall>f \<in> set (all_functions ms). \<exists>x. h f = Some x \<and> kind x = Function" "program_writable D E sem plt h ms"
  shows "code_ok (x86_writers D E sem plt) h ms"
  unfolding code_ok_def
proof (intro conjI ballI)
  fix f assume f: "f \<in> set (all_functions ms)"
  then obtain x where "h f = Some x" "kind x = Function" using assms(2) by blast
  from function_instrs_total [OF assms(1) this] obtain "is" where "is": "function_instrs h f = Some is" "total_size h is = unat (size_at h f)"
    by blast
  with assms(3) f have "instrs_writable D E sem h is" by (auto simp: program_writable_def)
  from written_total [OF this order_refl, of plt] "is" show "\<exists>code. function_code (x86_writers D E sem plt) h f = Some code \<and> length code = unat (size_at h f)"
    by (simp add: function_code_def)
qed (use assms(3) in \<open>simp add: program_writable_def x86_writers_def\<close>)

lemma slice_of_prefix: "m + n \<le> l \<Longrightarrow> take n (drop m (take l xs)) = take n (drop m xs)"
  by (simp add: drop_take min_absorb1)

text \<open>The bytes of an instruction in the generated buffer.\<close>

lemma instruction_in_place:
  assumes "unat base + unat sz < 2 ^ 63" "k < 62" "distinct (all_functions ms @ all_plts ms)"
    and "chunks_small h (all_functions ms @ all_plts ms)" "wf_heap h" "\<forall>f \<in> set (all_functions ms). laid_out h f"
    and a: "assignAddresses (sb_allocate al_allocate) (\<lambda>_. None) ms (h, buffer_sandbox k base sz) = Some (h', s)"
    and w: "program_writable D E sem plt h' ms"
    and f: "f \<in> set (all_functions ms)" "function_instrs h' f = Some is" "i \<in> set is"
  shows "\<exists>b a. generateCode (x86_writers D E sem plt) (\<lambda>_. None) ms h' (sb_backing s) = Some b \<and> getAddress h' i = Some a \<and>
    take (semantic_size (sem i)) (drop (unat a - unat base) (backing_data b)) = write_instr (x86_writers D E sem plt) h' i"
proof -
  let ?W = "x86_writers D E sem plt" and ?F = "set (all_functions ms)"
  have sc: "slots_changed h h'" by (rule assignAddresses_slots_changed [OF a assms(3)])
  then have wf: "wf_heap h'" using assms(5) by (rule slots_changed_wf)
  have fn: "\<exists>x y. h c = Some x \<and> h' c = Some y \<and> kind x = Function \<and> kind y = Function" if c: "c \<in> ?F" for c
  proof -
    obtain x where x: "h c = Some x" "kind x = Function" using assms(4) c by (auto simp: chunks_small_def)
    obtain p where "h' c = Some (x\<lparr>slotPosition := p\<rparr>)" by (rule slots_changedD [OF sc x(1)])
    with x show ?thesis by simp
  qed
  have ok: "code_ok ?W h' ms" using program_code_ok [OF wf _ w] fn by blast
  obtain b a0 where b: "generateCode ?W (\<lambda>_. None) ms h' (sb_backing s) = Some b" "getAddress h' f = Some a0" "unat base \<le> unat a0"
      "unat a0 + length (code_bytes ?W h' ?F f) \<le> unat base + unat sz"
      "take (length (code_bytes ?W h' ?F f)) (drop (unat a0 - unat base) (backing_data b)) = code_bytes ?W h' ?F f"
  proof -
    have "f \<in> set (all_functions ms @ all_plts ms)" using f(1) by simp
    with generated_code [OF assms(1-4) a ok] show thesis unfolding Let_def by (metis that)
  qed
  obtain x y where xy: "h f = Some x" "kind x = Function" "h' f = Some y" "kind y = Function" using fn [OF f(1)] by blast
  have "laid_out h' f"
    using slots_changed_laid_out [OF sc assms(5) xy(1,2) _ b(2)] assms(6) f(1) by blast
  moreover obtain j where j: "j < length is" "i = is ! j" using f(3) by (metis in_set_conv_nth)
  ultimately have ai: "getAddress h' i = Some (a0 + of_nat (total_size h' (take j is)))"
    using function_instrs_address [OF wf xy(3,4) _ b(2) f(2)] by simp
  obtain code where code: "function_code ?W h' f = Some code" using ok f(1) by (auto simp: code_ok_def)
  have iw: "instrs_writable D E sem h' is" using w f(1,2) by (auto simp: program_writable_def)
  note slice = function_code_slice [OF f(2) code iw j(1)]
  have whole: "take (length code) (drop (unat a0 - unat base) (backing_data b)) = code"
    by (rule take_code_bytes [OF f(1) code b(5)])
  have "length code \<le> length (code_bytes ?W h' ?F f)"
    using f(1) code by (simp add: code_bytes_def filled_def)
  then have n: "total_size h' (take j is) + semantic_size (sem i) \<le> length code" "unat a0 + length code < 2 ^ 63"
    using slice(2) b(4) assms(1) j(2) by auto
  have "unat (of_nat (total_size h' (take j is)) :: 64 word) = total_size h' (take j is)"
    using n by (simp add: unat_of_nat)
  then have "unat (a0 + of_nat (total_size h' (take j is))) = unat a0 + total_size h' (take j is)"
    using n by (subst unat_add_no_wrap) auto
  moreover have "take (semantic_size (sem i)) (drop (total_size h' (take j is)) (drop (unat a0 - unat base) (backing_data b))) =
      write_instr ?W h' i"
    using slice(1) j(2) whole slice_of_prefix [OF n(1), of "drop (unat a0 - unat base) (backing_data b)"] by simp
  ultimately show ?thesis using b(1,3) ai by (simp add: add.commute)
qed

text \<open>The processor follows a branch or a reference of the generated code to the target of its link.\<close>

lemma program_reaches_targets:
  assumes "unat base + unat sz < 2 ^ 63" "k < 62" "distinct (all_functions ms @ all_plts ms)"
    and "chunks_small h (all_functions ms @ all_plts ms)" "wf_heap h" "\<forall>f \<in> set (all_functions ms). laid_out h f"
    and "assignAddresses (sb_allocate al_allocate) (\<lambda>_. None) ms (h, buffer_sandbox k base sz) = Some (h', s)"
    and "program_writable D E sem plt h' ms"
    and f: "f \<in> set (all_functions ms)" "function_instrs h' f = Some is" "i \<in> set is"
    and l: "disp_field (sem i) = Some (off, n)" "instr_link (sem i) = Some l" "getTargetAddress (heap_env E h') l = Some t"
      "instr_chunk (sem i) = Some i" "getAddress h' i = Some a" "off + n \<le> semantic_size (sem i)"
      "disp_fits n (needed_disp l a (semantic_size (sem i)) t)"
  shows "\<exists>b. generateCode (x86_writers D E sem plt) (\<lambda>_. None) ms h' (sb_backing s) = Some b \<and>
    (let code = take (semantic_size (sem i)) (drop (unat a - unat base) (backing_data b)); d = take n (drop off code)
     in take off code = take off (template D (sem i)) \<and> drop (off + n) code = drop (off + n) (template D (sem i)) \<and>
        (if isRIPRelative l then a + of_nat (semantic_size (sem i)) + decode_disp d else decode_disp d) = t)"
proof -
  obtain b where b: "generateCode (x86_writers D E sem plt) (\<lambda>_. None) ms h' (sb_backing s) = Some b"
    "take (semantic_size (sem i)) (drop (unat a - unat base) (backing_data b)) = write_instr (x86_writers D E sem plt) h' i"
    using instruction_in_place [OF assms(1-11)] l(5) by auto
  have ok: "storage_ok D (sem i)" using assms(8) f by (fastforce simp: program_writable_def instrs_writable_def)
  let ?d = "le_bytes n (needed_disp l a (semantic_size (sem i)) t)"
  have "InstrWriterCppString D (heap_env E h') True (sem i) [] = Some (take off (template D (sem i)) @ ?d @ drop (off + n) (template D (sem i)))"
    by (rule x86_written_form [OF l(1-4) _ ok l(6)]) (use l(5,7) in \<open>simp_all add: heap_env_def disp_fits_def\<close>)
  moreover have "off \<le> length (template D (sem i))"
    using l(1,6) ok by (cases "sem i") (auto simp: storage_ok_def)
  moreover define X where "X = take (semantic_size (sem i)) (drop (unat a - unat base) (backing_data b))"
  ultimately have "X = take off (template D (sem i)) @ ?d @ drop (off + n) (template D (sem i))" "length (take off (template D (sem i))) = off"
    using b(2) by (simp_all add: x86_writers_def)
  then have X: "take off X = take off (template D (sem i))" "take n (drop off X) = ?d" "drop (off + n) X = drop (off + n) (template D (sem i))"
    by simp_all
  have "(if isRIPRelative l then a + of_nat (semantic_size (sem i)) + decode_disp ?d else decode_disp ?d) = t"
    unfolding decode_le_bytes [OF l(7)] by (simp add: needed_disp_def)
  with b(1) show ?thesis
    by (intro exI [of _ b]) (simp only: Let_def X_def [symmetric] X simp_thms)
qed

subsection \<open>A program of two functions\<close>

text \<open>The function 20 calls the function 30, which returns.\<close>

definition call_chunk :: "ChunkKind \<Rightarrow> cid option \<Rightarrow> cid list \<Rightarrow> Position \<Rightarrow> Slot option \<Rightarrow> 64 word \<Rightarrow> Semantic option \<Rightarrow> Chunk" where
  "call_chunk knd par cs pos slot n sm = \<lparr>kind = knd, parent = par, prevSibling = None, nextSibling = None, children = cs,
     position = Some pos, slotPosition = slot, computedSize = n, semantic = sm\<rparr>"

lemma call_chunk_simps [simp]:
  "kind (call_chunk knd par cs pos slot n sm) = knd" "parent (call_chunk knd par cs pos slot n sm) = par"
  "children (call_chunk knd par cs pos slot n sm) = cs" "position (call_chunk knd par cs pos slot n sm) = Some pos"
  "slotPosition (call_chunk knd par cs pos slot n sm) = slot" "computedSize (call_chunk knd par cs pos slot n sm) = n"
  "semantic (call_chunk knd par cs pos slot n sm) = sm" "prevSibling (call_chunk knd par cs pos slot n sm) = None"
  "nextSibling (call_chunk knd par cs pos slot n sm) = None"
  "(call_chunk knd par cs pos slot n sm)\<lparr>slotPosition := slot'\<rparr> = call_chunk knd par cs pos slot' n sm"
  by (simp_all add: call_chunk_def)

definition call_heap :: "Slot option \<Rightarrow> Slot option \<Rightarrow> heap" where
  "call_heap s t = [20 \<mapsto> call_chunk Function None [21] (AbsolutePosition 0x2000) s 5 None,
     21 \<mapsto> call_chunk Block (Some 20) [22] (OffsetPosition 21 0) None 5 None,
     22 \<mapsto> call_chunk Instruction (Some 21) [] (OffsetPosition 22 0) None 0 (Some (ControlFlowInstructionBase 0 5 22)),
     30 \<mapsto> call_chunk Function None [31] (AbsolutePosition 0x1000) t 1 None,
     31 \<mapsto> call_chunk Block (Some 30) [32] (OffsetPosition 31 0) None 1 None,
     32 \<mapsto> call_chunk Instruction (Some 31) [] (OffsetPosition 32 0) None 0 (Some (IsolatedInstruction 0 1))]"

definition call_placed :: heap where
  "call_placed = call_heap (Some \<lparr>slot_address = 0x400004, slot_size = 8\<rparr>) (Some \<lparr>slot_address = 0x400000, slot_size = 4\<rparr>)"

definition call_sem :: "cid \<Rightarrow> cid InstructionSemantic" where
  "call_sem i = (if i = 22 then ControlFlow ((newControlFlowInstruction 1 (Some 22) [0xE8] [] 4)\<lparr>cf_link := Some (NormalLink (Some 30) SCOPE_EXTERNAL_JUMP)\<rparr>)
     else Isolated (setData [0xC3] emptyStorage))"

definition call_module :: GenModule where
  "call_module = \<lparr>mod_functions = [20, 30], mod_plts = None\<rparr>"

lemma call_lookup [simp]:
  "call_heap s t 20 = Some (call_chunk Function None [21] (AbsolutePosition 0x2000) s 5 None)"
  "call_heap s t 21 = Some (call_chunk Block (Some 20) [22] (OffsetPosition 21 0) None 5 None)"
  "call_heap s t 22 = Some (call_chunk Instruction (Some 21) [] (OffsetPosition 22 0) None 0 (Some (ControlFlowInstructionBase 0 5 22)))"
  "call_heap s t 30 = Some (call_chunk Function None [31] (AbsolutePosition 0x1000) t 1 None)"
  "call_heap s t 31 = Some (call_chunk Block (Some 30) [32] (OffsetPosition 31 0) None 1 None)"
  "call_heap s t 32 = Some (call_chunk Instruction (Some 31) [] (OffsetPosition 32 0) None 0 (Some (IsolatedInstruction 0 1)))"
  by (simp_all add: call_heap_def)

lemma call_address:
  "getAddress (call_heap s t) 20 = Some (case s of None \<Rightarrow> 0x2000 | Some p \<Rightarrow> slot_address p)"
  "getAddress (call_heap s t) 30 = Some (case t of None \<Rightarrow> 0x1000 | Some p \<Rightarrow> slot_address p)"
  by (subst getAddress.simps, simp add: getPosition_def split: option.split)+

lemma call_block_address:
  "getAddress (call_heap s t) 21 = getAddress (call_heap s t) 20" "getAddress (call_heap s t) 31 = getAddress (call_heap s t) 30"
  "getAddress (call_heap s t) 22 = getAddress (call_heap s t) 20" "getAddress (call_heap s t) 32 = getAddress (call_heap s t) 30"
  using getAddress_offset [of "call_heap s t" 21] getAddress_offset [of "call_heap s t" 31]
    getAddress_offset [of "call_heap s t" 22] getAddress_offset [of "call_heap s t" 32]
  by (simp_all add: call_address)

lemma call_sizes [simp]:
  "the_size (call_heap s t) 20 = 5" "the_size (call_heap s t) 21 = 5" "the_size (call_heap s t) 22 = 5"
  "the_size (call_heap s t) 30 = 1" "the_size (call_heap s t) 31 = 1" "the_size (call_heap s t) 32 = 1"
  by (simp_all add: the_size_def size_of_def chunk_getSize_def)

lemma call_wf: "wf_heap (call_heap s t)"
proof -
  have "chunk_ok (call_heap s t) c x" if "call_heap s t c = Some x" for c x
  proof -
    have "c \<in> {20, 21, 22, 30, 31, 32}" using that by (auto simp: call_heap_def split: if_splits)
    with that show ?thesis
      by (auto simp: chunk_ok_def struct_ok_def child_ok_def parent_ok_def position_ok_def size_ok_def code_kind_def)
  qed
  then show ?thesis by (simp add: wf_heap_def)
qed

lemma call_laid_out: "laid_out (call_heap s t) 20" "laid_out (call_heap s t) 30"
  using call_address [of s t] call_block_address [of s t]
  by (simp_all add: laid_out_def contiguous_def children_of_def)

lemma call_order: "pickFunctionOrder None call_module (call_heap None None) = Some [30, 20]"
  by (simp add: pickFunctionOrder_def call_module_def call_address function_before_def)

lemma call_assigns: "\<exists>s. assignAddresses (sb_allocate al_allocate) (\<lambda>_. None) [call_module] (call_heap None None, buffer_sandbox 2 0x400000 0x1000) =
  Some (call_placed, s)"
proof -
  have "(call_heap None None)(30 \<mapsto> call_chunk Function None [31] (AbsolutePosition 0x1000) t 1 None,
      20 \<mapsto> call_chunk Function None [21] (AbsolutePosition 0x2000) s 5 None) = call_heap s t" for s t
    by (auto simp: call_heap_def)
  then show ?thesis
    by (simp add: assignAddresses_module_def call_order assignAddresses_ordered_def)
      (simp add: call_module_def assignAddressForFunction_def chunk_getSize_def assignAddress_def update_chunk_def call_placed_def
        sb_allocate_def al_allocate_def buffer_sandbox_def newSandboxImpl_def newAlignedWatermarkAllocator_def newMemoryBufferBacking_def
        round_request_def)
qed

lemma call_ok: "chunks_small (call_heap None None) (all_functions [call_module] @ all_plts [call_module])"
  "program_writable plain_disassembler plain_env call_sem (\<lambda>h c. []) call_placed [call_module]"
  by (simp_all add: chunks_small_def all_functions_def all_plts_def plts_of_def call_module_def request_small_def program_writable_def
    call_placed_def function_instrs_def children_of_def instrs_writable_def call_sem_def storage_ok_def setData_def emptyStorage_def
    getAssembly_def plain_disassembler_def newControlFlowInstruction_def cf_writeTo_def cf_disp_bytes_def cf_displacement_def heap_env_def
    address_of_ref_def call_address call_block_address cf_useDisp_def)

end
