(* ===== verification/ChunkEdit.thy ===== *)
theory ChunkEdit
  imports ChunkTree
begin

section \<open>The edits of a mutator keep the tree well-formed\<close>

text \<open>
  What an insertion or a removal does to the heap up to positions: \<open>linked\<close> and \<open>unlinked\<close> change
  the pointers, \<open>grow\<close> the sizes of the ancestors. Both keep the structure; the operations of the
  mutator compute them.
\<close>

definition free_chunk :: "heap \<Rightarrow> cid \<Rightarrow> bool" where
  "free_chunk h c \<longleftrightarrow> (\<forall>d y. h d = Some y \<longrightarrow> c \<notin> set (children y))"

definition attached :: "heap \<Rightarrow> cid \<Rightarrow> Chunk \<Rightarrow> bool" where
  "attached h p x \<longleftrightarrow> (\<forall>f y. kind x = Block \<longrightarrow> parent x = Some f \<longrightarrow> h f = Some y \<longrightarrow> p \<in> set (children y))"

definition sized_ancestors :: "cid \<Rightarrow> Chunk \<Rightarrow> cid set" where
  "sized_ancestors p x = insert p (if kind x = Block then set_option (parent x) else {})"

definition grow :: "cid set \<Rightarrow> 64 word \<Rightarrow> heap \<Rightarrow> heap" where
  "grow A s h d = map_option (\<lambda>x. if d \<in> A then x\<lparr>computedSize := computedSize x + s\<rparr> else x) (h d)"

definition relink :: "cid \<Rightarrow> cid list \<Rightarrow> cid \<Rightarrow> cid list \<Rightarrow> cid \<Rightarrow> Chunk \<Rightarrow> Chunk" where
  "relink p us c vs d x = x\<lparr>
     parent := (if d = c then Some p else parent x),
     prevSibling := (if d = c then last_of None us else if first_of vs None = Some d then Some c else prevSibling x),
     nextSibling := (if d = c then first_of vs None else if last_of None us = Some d then Some c else nextSibling x),
     children := (if d = p then us @ c # vs else children x)\<rparr>"

definition linked :: "cid \<Rightarrow> cid list \<Rightarrow> cid \<Rightarrow> cid list \<Rightarrow> heap \<Rightarrow> heap" where
  "linked p us c vs h d = map_option (relink p us c vs d) (h d)"

definition unlink :: "cid \<Rightarrow> cid list \<Rightarrow> cid \<Rightarrow> cid list \<Rightarrow> cid \<Rightarrow> Chunk \<Rightarrow> Chunk" where
  "unlink p us c vs d x = x\<lparr>
     prevSibling := (if first_of vs None = Some d then last_of None us else prevSibling x),
     nextSibling := (if last_of None us = Some d then first_of vs None else nextSibling x),
     children := (if d = p then us @ vs else children x)\<rparr>"

definition unlinked :: "cid \<Rightarrow> cid list \<Rightarrow> cid \<Rightarrow> cid list \<Rightarrow> heap \<Rightarrow> heap" where
  "unlinked p us c vs h d = map_option (unlink p us c vs d) (h d)"

subsection \<open>Sizes along the ancestors\<close>

lemma grow_empty [simp]: "grow {} s h = h"
  by (rule ext) (simp add: grow_def option.map_ident)

lemma grow_insert: "h d = Some x \<Longrightarrow> d \<notin> A \<Longrightarrow> (grow A s h)(d \<mapsto> x\<lparr>computedSize := computedSize x + s\<rparr>) = grow (insert d A) s h"
  by (rule ext) (auto simp: grow_def)

lemma for_ancestors_None: "for_ancestors B None h = Some h"
  by (subst for_ancestors.simps) simp

lemma for_ancestors_above:
  assumes "\<And>x. kind x = FunctionList \<Longrightarrow> B h x = Some x" "h g = Some x" "kind x = FunctionList" "parent_ok h x"
  shows "for_ancestors B (Some g) h = Some h"
proof (cases "parent x")
  case None
  then show ?thesis using assms by (subst for_ancestors.simps) (simp add: for_ancestors_None fun_upd_idem)
next
  case (Some q)
  then obtain y where y: "h q = Some y" "kind y = Module"
    using assms(3,4) by (auto simp: parent_ok_def rank_Suc split: option.splits elim: rank.elims)
  then have "for_ancestors B (Some q) h = Some h" by (subst for_ancestors.simps) simp
  then show ?thesis using assms Some by (subst for_ancestors.simps) (simp add: fun_upd_idem)
qed

lemma for_ancestors_function:
  assumes fl: "\<And>E x. kind x = FunctionList \<Longrightarrow> B (grow E s h) x = Some x"
    and par: "\<And>d x. h d = Some x \<Longrightarrow> parent_ok h x"
    and f: "h f = Some F" "kind F = Function" "B (grow A s h) F = Some (F\<lparr>computedSize := computedSize F + s\<rparr>)" "f \<notin> A"
    and A: "\<And>d x. d \<in> A \<Longrightarrow> h d = Some x \<Longrightarrow> kind x = Block"
  shows "for_ancestors B (Some f) (grow A s h) = Some (grow (insert f A) s h)"
proof -
  have g: "grow A s h f = Some F" using f(1,4) by (simp add: grow_def)
  have "for_ancestors B (parent F) (grow (insert f A) s h) = Some (grow (insert f A) s h)"
  proof (cases "parent F")
    case (Some q)
    then obtain y where y: "h q = Some y" "rank (kind y) = Suc (rank Function)"
      using par [OF f(1)] f(2) by (auto simp: parent_ok_def split: option.splits)
    then have k: "kind y = FunctionList" by (simp only: rank_Suc)
    then have q: "q \<notin> insert f A" using y(1) f(1,2) A [of q y] by auto
    then have gq: "grow (insert f A) s h q = Some y" using y(1) by (simp add: grow_def)
    have "parent_ok (grow (insert f A) s h) y"
    proof (cases "parent y")
      case (Some r)
      with par [OF y(1)] obtain z where "h r = Some z" "accepts (kind z) (kind y)" "rank (kind z) = Suc (rank (kind y))"
        by (auto simp: parent_ok_def split: option.splits)
      then show ?thesis using Some by (simp add: parent_ok_def grow_def)
    qed (simp add: parent_ok_def)
    with for_ancestors_above [of B "grow (insert f A) s h" q y] fl gq k Some show ?thesis by simp
  qed (simp add: for_ancestors_None)
  then show ?thesis using g f grow_insert [of h f F A s] by (subst for_ancestors.simps) simp
qed

lemma for_ancestors_grow:
  assumes fl: "\<And>E x. kind x = FunctionList \<Longrightarrow> B (grow E s h) x = Some x"
    and par: "\<And>d x. h d = Some x \<Longrightarrow> parent_ok h x"
    and p: "h p = Some P" "code_kind (kind P)"
    and B: "\<And>E d x. E \<subseteq> sized_ancestors p P \<Longrightarrow> d \<in> sized_ancestors p P \<Longrightarrow> h d = Some x \<Longrightarrow> code_kind (kind x) \<Longrightarrow>
      B (grow E s h) x = Some (x\<lparr>computedSize := computedSize x + s\<rparr>)"
  shows "for_ancestors B (Some p) h = Some (grow (sized_ancestors p P) s h)"
proof (cases "kind P = Function")
  case True
  then show ?thesis
    using for_ancestors_function [of B s h p P "{}"] fl par p B [of "{}" p P] by (simp add: sized_ancestors_def)
next
  case False
  then have k: "kind P = Block" using p(2) by (simp add: code_kind_def)
  have Bp: "B h P = Some (P\<lparr>computedSize := computedSize P + s\<rparr>)"
    using B [of "{}" p P] p by (simp add: sized_ancestors_def)
  have h1: "h(p \<mapsto> P\<lparr>computedSize := computedSize P + s\<rparr>) = grow {p} s h" using grow_insert [of h p P "{}" s] p(1) by simp
  show ?thesis
  proof (cases "parent P")
    case None
    then show ?thesis using p(1) k Bp h1 by (subst for_ancestors.simps) (simp add: for_ancestors_None sized_ancestors_def)
  next
    case (Some f)
    then obtain F where F: "h f = Some F" "rank (kind F) = Suc (rank Block)"
      using par [OF p(1)] k by (auto simp: parent_ok_def split: option.splits)
    then have Fk: "kind F = Function" by (simp only: rank_Suc)
    have ne: "f \<noteq> p" using F(1) p(1) k Fk by auto
    have A: "sized_ancestors p P = {f, p}" using k Some by (auto simp: sized_ancestors_def)
    have "for_ancestors B (Some f) (grow {p} s h) = Some (grow {f, p} s h)"
      by (rule for_ancestors_function [of B s h f F "{p}", OF fl par F(1) Fk])
        (use B [of "{p}" f F] A F(1) Fk ne p(1) k in \<open>auto simp: code_kind_def\<close>)
    then show ?thesis using p(1) k Bp h1 Some A by (subst for_ancestors.simps) simp
  qed
qed

lemma grow_sizes:
  assumes "\<And>d x. d \<in> A \<Longrightarrow> h d = Some x \<Longrightarrow> code_kind (kind x)"
  shows "the_size (grow A s h) d = the_size h d + (if d \<in> A \<and> h d \<noteq> None then s else 0)"
proof (cases "h d")
  case (Some x)
  then show ?thesis using assms [OF _ Some]
    by (auto simp: grow_def the_size_def size_of_def chunk_getSize_def code_kind_def split: option.splits ChunkKind.splits)
qed (simp add: grow_def the_size_def size_of_def)

subsection \<open>Inserting a chunk\<close>

definition insertion :: "heap \<Rightarrow> cid \<Rightarrow> Chunk \<Rightarrow> cid list \<Rightarrow> cid \<Rightarrow> Chunk \<Rightarrow> cid list \<Rightarrow> bool" where
  "insertion h p P us c X vs \<longleftrightarrow>
     wf_heap h \<and> h p = Some P \<and> code_kind (kind P) \<and> attached h p P \<and> children P = us @ vs \<and>
     h c = Some X \<and> free_chunk h c \<and> accepts (kind P) (kind X) \<and>
     (\<forall>d y. h d = Some y \<longrightarrow> unat (computedSize y) + unat (the_size h c) < 2 ^ 63)"

lemma insertionD:
  assumes "insertion h p P us c X vs"
  shows "wf_heap h" "h p = Some P" "code_kind (kind P)" "attached h p P" "children P = us @ vs"
    "h c = Some X" "free_chunk h c" "accepts (kind P) (kind X)"
    "h d = Some y \<Longrightarrow> unat (computedSize y) + unat (the_size h c) < 2 ^ 63"
  using assms by (auto simp: insertion_def)

lemma insertion_distinct:
  assumes "insertion h p P us c X vs"
  shows "distinct (us @ c # vs)" "c \<noteq> p" "p \<notin> set us" "p \<notin> set vs" "rank (kind P) = Suc (rank (kind X))"
proof -
  note i = insertionD [OF assms]
  have "c \<notin> set (us @ vs)" using i(2,5,7) unfolding free_chunk_def by (metis (no_types))
  moreover have "distinct (us @ vs)" using wf_chunk [OF i(1,2)] i(5) by (simp add: chunk_ok_def struct_ok_def)
  ultimately show "distinct (us @ c # vs)" by auto
  show r: "rank (kind P) = Suc (rank (kind X))" using i(3,8) by (auto simp: code_kind_def)
  then show "c \<noteq> p" using i(2,6) by auto
  have "p \<notin> set (children P)"
  proof
    assume "p \<in> set (children P)"
    from wf_child [OF i(1,2) this] i(2) show False by auto
  qed
  then show "p \<notin> set us" "p \<notin> set vs" using i(5) by auto
qed

lemma siblings_new_last:
  assumes "siblings h a us z" "\<And>d. d \<in> set us \<Longrightarrow> map_option prevSibling (h' d) = map_option prevSibling (h d)"
    "\<And>d. d \<in> set us \<Longrightarrow> map_option nextSibling (h' d) = (if d = last us then Some z' else map_option nextSibling (h d))"
    "distinct us"
  shows "siblings h' a us z'"
proof (cases us rule: rev_cases)
  case (snoc us' l)
  have "siblings h' a us' (Some l) = siblings h a us' (Some l)"
  proof (rule siblings_cong)
    fix d assume "d \<in> set us'"
    then have "d \<in> set us" "d \<noteq> last us" using assms(4) snoc by auto
    with assms(2,3) [of d] show "map_option (\<lambda>x. (prevSibling x, nextSibling x)) (h' d) = map_option (\<lambda>x. (prevSibling x, nextSibling x)) (h d)"
      by (cases "h d"; cases "h' d") auto
  qed
  moreover have "(case h' l of None \<Rightarrow> False | Some x \<Rightarrow> prevSibling x = last_of a us' \<and> nextSibling x = z')"
    using assms(1) assms(2,3) [of l] snoc by (cases "h l"; cases "h' l") (auto simp: siblings_append)
  ultimately show ?thesis using assms(1) snoc by (simp add: siblings_append split: option.splits)
qed simp

lemma siblings_new_first:
  assumes "siblings h a vs z" "\<And>d. d \<in> set vs \<Longrightarrow> map_option nextSibling (h' d) = map_option nextSibling (h d)"
    "\<And>d. d \<in> set vs \<Longrightarrow> map_option prevSibling (h' d) = (if d = hd vs then Some a' else map_option prevSibling (h d))"
    "distinct vs"
  shows "siblings h' a' vs z"
proof (cases vs)
  case (Cons v vs')
  have "siblings h' (Some v) vs' z = siblings h (Some v) vs' z"
  proof (rule siblings_cong)
    fix d assume "d \<in> set vs'"
    then have "d \<in> set vs" "d \<noteq> hd vs" using assms(4) Cons by auto
    with assms(2,3) [of d] show "map_option (\<lambda>x. (prevSibling x, nextSibling x)) (h' d) = map_option (\<lambda>x. (prevSibling x, nextSibling x)) (h d)"
      by (cases "h d"; cases "h' d") auto
  qed
  then show ?thesis using assms(1) assms(2,3) [of v] Cons by (cases "h v"; cases "h' v") auto
qed simp

lemma first_of_eq: "first_of vs None = Some d \<longleftrightarrow> vs \<noteq> [] \<and> d = hd vs"
  by (cases vs) auto

lemma last_of_eq: "last_of None us = Some d \<longleftrightarrow> us \<noteq> [] \<and> d = last us"
  by (auto simp: last_of_def)

lemma linked_siblings:
  assumes "insertion h p P us c X vs"
  shows "siblings (linked p us c vs h) None (us @ c # vs) None"
proof -
  note i = insertionD [OF assms]
  note d = insertion_distinct [OF assms]
  let ?h = "linked p us c vs h"
  have "siblings h None (us @ vs) None" using wf_chunk [OF i(1,2)] i(3,5) by (simp add: chunk_ok_def struct_ok_def)
  then have s: "siblings h None us (first_of vs None)" "siblings h (last_of None us) vs None"
    by (simp_all add: siblings_append)
  have e: "\<exists>x. h d = Some x" if "d \<in> set us \<or> d \<in> set vs" for d
    using that i(5) wf_child [OF i(1,2), of d] by (metis Un_iff set_append)
  have n: "first_of vs None \<noteq> Some d" if "d \<in> set us" for d using d(1) that by (auto simp: first_of_eq)
  have l: "last_of None us \<noteq> Some d" if "d \<in> set vs" for d
  proof
    assume "last_of None us = Some d"
    then have "d \<in> set us" by (simp add: last_of_eq)
    with d(1) that show False by auto
  qed
  have "siblings ?h None us (Some c)"
  proof (rule siblings_new_last [OF s(1)])
    fix d assume u: "d \<in> set us"
    then have "d \<noteq> c" "us \<noteq> []" using d(1) by auto
    moreover obtain x where "h d = Some x" using e [of d] u by blast
    ultimately show "map_option prevSibling (?h d) = map_option prevSibling (h d)"
      "map_option nextSibling (?h d) = (if d = last us then Some (Some c) else map_option nextSibling (h d))"
      using n [OF u] by (simp_all add: linked_def relink_def last_of_eq)
  qed (use d(1) in simp)
  moreover have "siblings ?h (Some c) vs None"
  proof (rule siblings_new_first [OF s(2)])
    fix d assume v: "d \<in> set vs"
    then have "d \<noteq> c" "vs \<noteq> []" using d(1) by auto
    moreover obtain x where "h d = Some x" using e [of d] v by blast
    ultimately show "map_option nextSibling (?h d) = map_option nextSibling (h d)"
      "map_option prevSibling (?h d) = (if d = hd vs then Some (Some c) else map_option prevSibling (h d))"
      using l [OF v] by (simp_all add: linked_def relink_def first_of_eq)
  qed (use d(1) in simp)
  ultimately show ?thesis using i(6) by (simp add: siblings_append linked_def relink_def)
qed

lemma insertion_ancestors:
  assumes "insertion h p P us c X vs"
  shows "d \<in> sized_ancestors p P \<Longrightarrow> h d = Some y \<Longrightarrow> code_kind (kind y)" "c \<notin> sized_ancestors p P"
    "d \<in> set (us @ vs) \<Longrightarrow> d \<notin> sized_ancestors p P"
proof -
  note i = insertionD [OF assms]
  note dist = insertion_distinct [OF assms]
  have f: "kind y = Function" if "kind P = Block" "parent P = Some f" "h f = Some y" for f y
  proof -
    from wf_parent [OF i(1,2) that(2)] that(3) have "rank (kind y) = Suc (rank Block)" unfolding that(1) [symmetric] by auto
    then show ?thesis by (simp only: rank_Suc)
  qed
  show "d \<in> sized_ancestors p P \<Longrightarrow> h d = Some y \<Longrightarrow> code_kind (kind y)"
    using i(2,3) f [of d y] by (cases "d = p") (simp_all add: sized_ancestors_def code_kind_def split: if_splits)
  have k: "rank (kind y) \<ge> rank (kind P)" if "d \<in> sized_ancestors p P" "h d = Some y" for d y
    using that i(2) f [of d y] by (cases "d = p") (simp_all add: sized_ancestors_def split: if_splits)
  show "c \<notin> sized_ancestors p P" using k [of c X] i(6) dist(5) by auto
  show "d \<notin> sized_ancestors p P" if "d \<in> set (us @ vs)"
  proof
    assume a: "d \<in> sized_ancestors p P"
    from wf_child [OF i(1,2), of d] that i(5) obtain y where "h d = Some y" "rank (kind P) = Suc (rank (kind y))" by metis
    with k [OF a] show False by auto
  qed
qed

lemma relink_view [simp]:
  "kind (relink p us c vs d x) = kind x" "semantic (relink p us c vs d x) = semantic x"
  "computedSize (relink p us c vs d x) = computedSize x" "position (relink p us c vs d x) = position x"
  "slotPosition (relink p us c vs d x) = slotPosition x"
  by (simp_all add: relink_def)

lemma chunk_getSize_view:
  "kind x = kind y \<Longrightarrow> semantic x = semantic y \<Longrightarrow> computedSize x = computedSize y \<Longrightarrow> chunk_getSize x = chunk_getSize y"
  by (cases "kind y") (simp_all add: chunk_getSize_def)

lemma linked_size: "the_size (linked p us c vs h) d = the_size h d"
  using chunk_getSize_view [of "relink p us c vs d (the (h d))" "the (h d)"]
  by (cases "h d") (simp_all add: linked_def the_size_def size_of_def)

text \<open>The sums of sizes after a change \<open>s\<close> of the size of \<open>p\<close> and its function.\<close>

lemma total_size_grow:
  assumes "\<And>d. d \<in> set cs \<Longrightarrow> d \<noteq> p \<Longrightarrow> the_size k d = the_size h d" "distinct cs"
  shows "total_size k cs + (if p \<in> set cs then unat (the_size h p) else 0) =
    total_size h cs + (if p \<in> set cs then unat (the_size k p) else 0)"
  using assms
proof (induction cs)
  case (Cons a cs)
  then show ?case by (cases "a = p") (auto simp: total_size_def)
qed (simp add: total_size_def)

lemma child_ok_kind: "kind x = kind y \<Longrightarrow> child_ok h c x e \<longleftrightarrow> child_ok h c y e"
  by (simp add: child_ok_def split: option.split)

lemma parent_ok_view: "kind x = kind y \<Longrightarrow> parent x = parent y \<Longrightarrow> parent_ok h x \<longleftrightarrow> parent_ok h y"
  by (simp add: parent_ok_def split: option.split)

lemma struct_views:
  assumes "\<And>d. map_option kind (k d) = map_option kind (h d)" "\<And>d. map_option parent (k d) = map_option parent (h d)"
  shows "child_ok k c x e \<longleftrightarrow> child_ok h c x e" "parent_ok k x \<longleftrightarrow> parent_ok h x"
proof -
  show "child_ok k c x e \<longleftrightarrow> child_ok h c x e"
    using assms [of e] by (cases "h e"; cases "k e") (auto simp: child_ok_def)
  show "parent_ok k x \<longleftrightarrow> parent_ok h x"
  proof (cases "parent x")
    case (Some p)
    then show ?thesis using assms(1) [of p] by (cases "h p"; cases "k p") (auto simp: parent_ok_def)
  qed (simp add: parent_ok_def)
qed

text \<open>
  Changing the sizes of a block and its function by the amount by which the children of the block
  changed keeps the sums right, for any heap whose other sums are right.
\<close>

definition sums_except :: "heap \<Rightarrow> cid \<Rightarrow> bool" where
  "sums_except k p \<longleftrightarrow> (\<forall>d y. k d = Some y \<longrightarrow> d \<noteq> p \<longrightarrow> code_kind (kind y) \<longrightarrow>
     unat (computedSize y) = total_size k (children y) \<and> unat (computedSize y) < 2 ^ 63)"

lemma sums_grow:
  assumes k: "k p = Some P" "code_kind (kind P)" "sums_except k p"
    and child: "\<And>d y e. k d = Some y \<Longrightarrow> e \<in> set (children y) \<Longrightarrow> child_ok k d y e" "\<And>d y. k d = Some y \<Longrightarrow> distinct (children y)"
    and att: "attached k p P" and pp: "parent_ok k P"
    and new: "unat (computedSize P + s) = total_size k (children P)" "unat (computedSize P + s) < 2 ^ 63"
    and top: "\<And>f F. kind P = Block \<Longrightarrow> parent P = Some f \<Longrightarrow> k f = Some F \<Longrightarrow>
      unat (computedSize F + s) + unat (computedSize P) = unat (computedSize F) + unat (computedSize P + s) \<and>
      unat (computedSize F + s) < 2 ^ 63"
    and y: "grow (sized_ancestors p P) s k d = Some y" "code_kind (kind y)"
  shows "unat (computedSize y) = total_size (grow (sized_ancestors p P) s k) (children y) \<and> unat (computedSize y) < 2 ^ 63"
proof -
  let ?A = "sized_ancestors p P" let ?k = "grow ?A s k"
  from y(1) obtain x where x: "k d = Some x" "y = (if d \<in> ?A then x\<lparr>computedSize := computedSize x + s\<rparr> else x)"
    by (auto simp: grow_def)
  have kx: "kind y = kind x" "children y = children x" using x(2) by auto
  have fk: "kind F = Function" if "kind P = Block" "parent P = Some f" "k f = Some F" for f F
  proof -
    have "rank (kind F) = Suc (rank Block)" using pp that by (simp add: parent_ok_def)
    then show ?thesis by (simp only: rank_Suc)
  qed
  have Ak: "code_kind (kind z)" if "e \<in> ?A" "k e = Some z" for e z
    using that k(1,2) fk [of e z] by (cases "e = p") (simp_all add: sized_ancestors_def code_kind_def split: if_splits)
  have only_p: "e = p" if "e \<in> ?A" "e \<in> set (children x)" for e
  proof (rule ccontr)
    assume "e \<noteq> p"
    with that(1) have b: "kind P = Block" "parent P = Some e" by (simp_all add: sized_ancestors_def split: if_splits)
    from child(1) [OF x(1) that(2)] obtain z where z: "k e = Some z" "rank (kind x) = Suc (rank (kind z))"
      by (auto simp: child_ok_def split: option.splits)
    with fk [OF b z(1)] y(2) kx(1) show False by (auto simp: code_kind_def)
  qed
  have sz: "the_size ?k e = the_size k e" if "e \<in> set (children x)" "e \<noteq> p" for e
    using grow_sizes [of ?A k s e] Ak only_p [of e] that by auto
  have szp: "the_size k p = computedSize P" "the_size ?k p = computedSize P + s"
    using k(1,2) grow_sizes [of ?A k s p] Ak by (auto simp: the_size_def size_of_def chunk_getSize_def code_kind_def sized_ancestors_def)
  note tot = total_size_grow [of "children x" p ?k k, OF sz child(2) [OF x(1)]]
  have p_notin: "p \<notin> set (children x)" if "d = p"
    using that child(1) [OF x(1), of p] x(1) by (auto simp: child_ok_def)
  consider "d = p" | "d \<noteq> p" "d \<in> ?A" | "d \<notin> ?A" by blast
  then show ?thesis
  proof cases
    case 1
    then have "x = P" using x(1) k(1) by simp
    then show ?thesis using 1 x(2) new tot p_notin by (simp add: sized_ancestors_def)
  next
    case 2
    then have b: "kind P = Block" "parent P = Some d" by (simp_all add: sized_ancestors_def split: if_splits)
    have "p \<in> set (children x)" using att b x(1) by (simp add: attached_def)
    moreover have "unat (computedSize x) = total_size k (children x)" using k(3) 2 x(1) y(2) kx(1) by (auto simp: sums_except_def)
    ultimately show ?thesis using top [OF b x(1)] 2 x(2) tot szp by (simp add: kx(2))
  next
    case 3
    have "p \<notin> set (children x)"
    proof
      assume p: "p \<in> set (children x)"
      from child(1) [OF x(1) p] k(1) have c: "parent P = Some d" "rank (kind x) = Suc (rank (kind P))" by (auto simp: child_ok_def)
      have "kind P = Block" using c(2) k(2) y(2) kx(1) by (auto simp: code_kind_def)
      with c(1) 3 show False by (simp add: sized_ancestors_def)
    qed
    moreover have "d \<noteq> p" using 3 by (auto simp: sized_ancestors_def)
    moreover have "unat (computedSize x) = total_size k (children x) \<and> unat (computedSize x) < 2 ^ 63"
      using k(3) x(1) \<open>d \<noteq> p\<close> y(2) unfolding kx(1) sums_except_def by blast
    ultimately show ?thesis using 3 x(2) tot by simp
  qed
qed

lemma linked_SomeD:
  assumes "linked p us c vs h d = Some y"
  obtains x where "h d = Some x" "y = relink p us c vs d x"
  using assms by (auto simp: linked_def)

lemma linked_children:
  assumes "insertion h p P us c X vs" "linked p us c vs h d = Some y"
  shows "distinct (children y)" "e \<in> set (children y) \<Longrightarrow> child_ok (linked p us c vs h) d y e" "parent_ok (linked p us c vs h) y"
proof -
  note i = insertionD [OF assms(1)]
  note dist = insertion_distinct [OF assms(1)]
  let ?h = "linked p us c vs h"
  from assms(2) obtain x where x: "h d = Some x" "y = relink p us c vs d x" by (rule linked_SomeD)
  note w = wf_chunk [OF i(1) x(1), unfolded chunk_ok_def struct_ok_def]
  show "distinct (children y)" using w dist(1) x(2) by (simp add: relink_def)
  show "child_ok ?h d y e" if e: "e \<in> set (children y)"
  proof (cases "e = c")
    case True
    have "d = p"
    proof (rule ccontr)
      assume "d \<noteq> p"
      with e True x have "c \<in> set (children x)" by (simp add: relink_def)
      with i(7) x(1) show False by (simp add: free_chunk_def)
    qed
    then show ?thesis using True i(2,6,8) x dist(5) by (simp add: child_ok_def linked_def relink_def)
  next
    case False
    then have "e \<in> set (children x)" using e x i(2,5) by (auto simp: relink_def split: if_splits)
    then have "child_ok h d x e" using w by blast
    then show ?thesis using False x(2) by (auto simp: child_ok_def linked_def relink_def split: option.splits)
  qed
  show "parent_ok ?h y"
  proof (cases "d = c")
    case True
    then show ?thesis using i(2,6,8) x dist(5) by (simp add: parent_ok_def linked_def relink_def)
  next
    case False
    then have p: "parent y = parent x" using x(2) by (simp add: relink_def)
    show ?thesis
    proof (cases "parent x")
      case (Some q)
      with w obtain z where "h q = Some z" "accepts (kind z) (kind x)" "rank (kind z) = Suc (rank (kind x))"
        by (auto simp: parent_ok_def split: option.splits)
      then show ?thesis using p Some x(2) by (simp add: parent_ok_def linked_def)
    qed (use p in \<open>simp add: parent_ok_def\<close>)
  qed
qed

lemma linked_links:
  assumes "insertion h p P us c X vs" "linked p us c vs h d = Some y" "code_kind (kind y)"
  shows "siblings (linked p us c vs h) None (children y) None"
proof -
  note i = insertionD [OF assms(1)]
  from assms(2) obtain x where x: "h d = Some x" "y = relink p us c vs d x" by (rule linked_SomeD)
  show ?thesis
  proof (cases "d = p")
    case True
    then show ?thesis using linked_siblings [OF assms(1)] x(2) by (simp add: relink_def)
  next
    case False
    then have ch: "children y = children x" using x(2) by (simp add: relink_def)
    have "siblings h None (children x) None"
      using wf_chunk [OF i(1) x(1)] assms(3) x(2) by (simp add: chunk_ok_def struct_ok_def)
    moreover have "siblings (linked p us c vs h) None (children x) None = siblings h None (children x) None"
    proof (rule siblings_cong)
      fix e assume e: "e \<in> set (children x)"
      from wf_child [OF i(1) x(1) e] obtain z where z: "h e = Some z" "parent z = Some d" .
      have "e \<notin> set (us @ vs)"
      proof
        assume "e \<in> set (us @ vs)"
        with wf_child [OF i(1,2), of e] i(5) z(1) have "parent z = Some p" by auto
        with z(2) False show False by simp
      qed
      moreover have "e \<noteq> c" using e i(7) x(1) by (auto simp: free_chunk_def)
      ultimately have "first_of vs None \<noteq> Some e" "last_of None us \<noteq> Some e" "e \<noteq> c"
        by (auto simp: first_of_eq last_of_eq)
      then show "map_option (\<lambda>x. (prevSibling x, nextSibling x)) (linked p us c vs h e) =
          map_option (\<lambda>x. (prevSibling x, nextSibling x)) (h e)"
        using z(1) by (simp add: linked_def relink_def)
    qed
    ultimately show ?thesis using ch by simp
  qed
qed

lemma grow_view:
  "map_option kind (grow A s h d) = map_option kind (h d)" "map_option parent (grow A s h d) = map_option parent (h d)"
  "map_option (\<lambda>x. (prevSibling x, nextSibling x)) (grow A s h d) = map_option (\<lambda>x. (prevSibling x, nextSibling x)) (h d)"
  by (cases "h d"; simp add: grow_def)+

text \<open>Growing the sizes of a linked heap gives a heap whose structure is right.\<close>

lemma struct_grow:
  assumes k: "k p = Some P" "code_kind (kind P)" "sums_except k p" "attached k p P"
    and links: "\<And>d y. k d = Some y \<Longrightarrow> distinct (children y) \<and> (\<forall>e \<in> set (children y). child_ok k d y e) \<and> parent_ok k y \<and>
      (code_kind (kind y) \<longrightarrow> siblings k None (children y) None) \<and> (kind y = Instruction \<longrightarrow> semantic y \<noteq> None)"
    and new: "unat (computedSize P + s) = total_size k (children P)" "unat (computedSize P + s) < 2 ^ 63"
    and top: "\<And>f F. kind P = Block \<Longrightarrow> parent P = Some f \<Longrightarrow> k f = Some F \<Longrightarrow>
      unat (computedSize F + s) + unat (computedSize P) = unat (computedSize F) + unat (computedSize P + s) \<and>
      unat (computedSize F + s) < 2 ^ 63"
    and y: "grow (sized_ancestors p P) s k d = Some y"
  shows "struct_ok (grow (sized_ancestors p P) s k) d y"
proof -
  let ?k = "grow (sized_ancestors p P) s k"
  from y obtain x where x: "k d = Some x" "kind y = kind x" "children y = children x" "parent y = parent x" "semantic y = semantic x"
    by (cases "d \<in> sized_ancestors p P") (auto simp: grow_def)
  have "siblings ?k a cs z = siblings k a cs z" for a cs z by (rule siblings_cong) (rule grow_view)
  moreover have "child_ok ?k d y e \<longleftrightarrow> child_ok k d x e" for e
    unfolding child_ok_kind [OF x(2)] by (rule struct_views(1) [OF grow_view(1,2)])
  moreover have "parent_ok ?k y \<longleftrightarrow> parent_ok k x"
    unfolding parent_ok_view [OF x(2,4)] by (rule struct_views(2) [OF grow_view(1,2)])
  moreover have "unat (computedSize y) = total_size ?k (children y) \<and> unat (computedSize y) < 2 ^ 63" if "code_kind (kind y)"
    by (rule sums_grow [OF k(1-3) _ _ k(4) _ new top y that]) (use links k(1) in blast)+
  ultimately show ?thesis
    using links [OF x(1)] unfolding struct_ok_def size_ok_def x(3,5) by (simp only: x(2)) blast
qed

lemma insertion_struct:
  assumes ins: "insertion h p P us c X vs"
    and y: "grow (sized_ancestors p P) (the_size h c) (linked p us c vs h) d = Some y"
  shows "struct_ok (grow (sized_ancestors p P) (the_size h c) (linked p us c vs h)) d y"
proof -
  note i = insertionD [OF ins]
  note dist = insertion_distinct [OF ins]
  let ?k = "linked p us c vs h" let ?s = "the_size h c"
  have P: "?k p = Some (relink p us c vs p P)" using i(2) by (simp add: linked_def)
  have view: "kind (relink p us c vs p P) = kind P" "parent (relink p us c vs p P) = parent P"
    "children (relink p us c vs p P) = us @ c # vs" using dist(2) by (simp_all add: relink_def)
  have A: "sized_ancestors p (relink p us c vs p P) = sized_ancestors p P" by (simp add: sized_ancestors_def view)
  have tot: "total_size ?k cs = total_size h cs" for cs by (simp add: total_size_def linked_size)
  have sP: "unat (computedSize P) = total_size h (us @ vs)"
    using wf_chunk [OF i(1,2)] i(3,5) by (simp add: chunk_ok_def struct_ok_def size_ok_def)
  have add: "unat (computedSize z + ?s) = unat (computedSize z) + unat ?s" "unat (computedSize z + ?s) < 2 ^ 63"
    if "h e = Some z" for e z
    using i(9) [OF that] unat_add_no_wrap [of "computedSize z" ?s] by simp_all
  show ?thesis
    unfolding A [symmetric]
  proof (rule struct_grow [of ?k, OF P])
    show "code_kind (kind (relink p us c vs p P))" using i(3) by simp
    show "sums_except ?k p"
      unfolding sums_except_def
    proof (intro allI impI)
      fix e z assume z: "?k e = Some z" "e \<noteq> p" "code_kind (kind z)"
      from z(1) obtain x where x: "h e = Some x" "z = relink p us c vs e x" by (rule linked_SomeD)
      then show "unat (computedSize z) = total_size ?k (children z) \<and> unat (computedSize z) < 2 ^ 63"
        using wf_chunk [OF i(1) x(1)] z(2,3) tot by (simp add: relink_def chunk_ok_def struct_ok_def size_ok_def)
    qed
    show "attached ?k p (relink p us c vs p P)"
      unfolding attached_def view(2)
    proof (intro allI impI)
      fix f z assume b: "kind (relink p us c vs p P) = Block" "parent P = Some f" "?k f = Some z"
      from b(3) obtain x where x: "h f = Some x" "z = relink p us c vs f x" by (rule linked_SomeD)
      have "p \<in> set (children x)" using i(4) b(1,2) x(1) by (simp add: attached_def)
      then show "p \<in> set (children z)" using x i(2,5) by (auto simp: relink_def)
    qed
    fix e z assume z: "?k e = Some z"
    then have "kind z = Instruction \<longrightarrow> semantic z \<noteq> None"
      using wf_chunk [OF i(1)] by (auto simp: linked_def chunk_ok_def struct_ok_def size_ok_def)
    then show "distinct (children z) \<and> (\<forall>d \<in> set (children z). child_ok ?k e z d) \<and> parent_ok ?k z \<and>
      (code_kind (kind z) \<longrightarrow> siblings ?k None (children z) None) \<and> (kind z = Instruction \<longrightarrow> semantic z \<noteq> None)"
      using linked_children [OF ins z] linked_links [OF ins z] by blast
  next
    show "unat (computedSize (relink p us c vs p P) + ?s) = total_size ?k (children (relink p us c vs p P))"
      using add(1) [OF i(2)] sP unfolding view(3) tot by (simp add: total_size_def)
    show "unat (computedSize (relink p us c vs p P) + ?s) < 2 ^ 63" using add(2) [OF i(2)] by simp
    fix f F assume "?k f = Some F"
    then obtain x where x: "h f = Some x" "F = relink p us c vs f x" by (rule linked_SomeD)
    then show "unat (computedSize F + ?s) + unat (computedSize (relink p us c vs p P)) =
        unat (computedSize F) + unat (computedSize (relink p us c vs p P) + ?s) \<and> unat (computedSize F + ?s) < 2 ^ 63"
      using add(1,2) [OF x(1)] add(1) [OF i(2)] by simp
  next
    show "grow (sized_ancestors p (relink p us c vs p P)) ?s ?k d = Some y" using y by (simp add: A)
  qed
qed

subsection \<open>Positions while an edit is under way\<close>

lemma wf_from_frame:
  assumes "same_frame k h'" "\<And>d y. k d = Some y \<Longrightarrow> struct_ok k d y" "\<And>d y. h' d = Some y \<Longrightarrow> position_ok d y"
  shows "wf_heap h'"
  unfolding wf_heap_def chunk_ok_def
proof (intro allI impI conjI)
  fix d y assume y: "h' d = Some y"
  then show "position_ok d y" by (rule assms(3))
  from same_frame_Some [OF same_frame_sym [OF assms(1)] y] obtain x where "k d = Some x" "frame x = frame y" .
  then show "struct_ok h' d y" using struct_ok_frame [OF assms(1)] assms(2) by blast
qed

text \<open>Addresses above a chunk that is being inserted do not change.\<close>

lemma getAddress_agree:
  assumes wf: "wf_heap h" and c: "h c = Some X" "rank (kind X) = r"
    and agree: "\<And>d x. h d = Some x \<Longrightarrow> d \<noteq> c \<Longrightarrow> \<exists>x'. k d = Some x' \<and> kind x' = kind x \<and> parent x' = parent x \<and>
      position x' = position x \<and> slotPosition x' = slotPosition x"
  shows "h d = Some x \<Longrightarrow> d \<noteq> c \<Longrightarrow> rank (kind x) \<ge> r \<Longrightarrow> getAddress k d = getAddress h d"
proof (induction "6 - rank (kind x)" arbitrary: d x rule: less_induct)
  case less
  from agree [OF less.prems(1,2)] obtain x' where
    x': "k d = Some x'" "kind x' = kind x" "parent x' = parent x" "position x' = position x" "slotPosition x' = slotPosition x" by blast
  have g: "getPosition x' = getPosition x" using x' by (cases "kind x") (simp_all add: getPosition_def split: option.split)
  have up: "getAddress k q = getAddress h q" if q: "parent x = Some q" for q
  proof -
    from wf_parent [OF wf less.prems(1) q] obtain y where y: "h q = Some y" "rank (kind y) = Suc (rank (kind x))" .
    have "rank (kind y) < 6" by (cases "kind y") simp_all
    then show ?thesis using less.hyps [OF _ y(1)] y(2) less.prems(3) c y(1) by fastforce
  qed
  show ?case
  proof (cases "getPosition x")
    case None
    then show ?thesis using x'(1) g less.prems(1) by (subst (1 2) getAddress.simps) simp
  next
    case (Some p)
    have "(\<exists>a. p = AbsolutePosition a) \<or> (\<exists>s. p = SlotPosition s) \<or> (\<exists>off. p = OffsetPosition d off)"
      using Some wf_chunk [OF wf less.prems(1)]
      by (cases "kind x") (auto simp: getPosition_def chunk_ok_def position_ok_def split: option.splits Position.splits)
    then show ?thesis using x' g less.prems(1) Some up
      by (subst (1 2) getAddress.simps) (auto split: option.splits)
  qed
qed

lemma indexOf_append: "c \<notin> set us \<Longrightarrow> indexOf c (us @ c # vs) = int (length us)"
  by (induction us) auto

lemma indexOf_notin: "indexOf c xs = -1 \<longleftrightarrow> c \<notin> set xs"
proof -
  have "indexOf c xs \<ge> -1" by (induction xs) (auto simp: Let_def)
  then show ?thesis
  proof (induction xs)
    case (Cons x xs)
    have "indexOf c xs \<ge> -1" by (induction xs) (auto simp: Let_def)
    with Cons show ?case by (auto simp: Let_def)
  qed simp
qed

definition place :: "cid \<Rightarrow> address \<Rightarrow> heap \<Rightarrow> heap" where
  "place c off k = k(c := map_option (\<lambda>x. x\<lparr>position := Some (OffsetPosition c off)\<rparr>) (k c))"

lemma same_frame_place: "same_frame k (place c off k)"
  by (cases "k c") (simp_all add: same_frame_def place_def frame_def)

lemma makePositionFor_offset:
  assumes "k p = Some P" "kind P \<noteq> Instruction" "children P = us @ c # vs" "c \<notin> set us" "k c = Some x"
    "kind x = Block \<or> kind x = Instruction"
    "us \<noteq> [] \<Longrightarrow> located k (last us) \<and> located k p"
  shows "\<exists>off. makePositionFor MODE_OFFSET p c k = Some (place c off k)"
proof -
  have cs: "children_of k p = Some (us @ c # vs)" using assms(1,2,3) by (simp add: children_of_def)
  have cur: "newChunkCursor k p c = Some \<lparr>cursor_list = p, cursor_index = length us\<rparr>"
    using assms(4) cs by (simp add: newChunkCursor_def indexOf_append)
  have set: "setPosition (Some (OffsetPosition c off)) x = Some (x\<lparr>position := Some (OffsetPosition c off)\<rparr>)" for off
    using assms(6) by (auto simp: setPosition_def)
  have nf: "kind x \<noteq> Function" using assms(6) by auto
  show ?thesis
  proof (cases "us = []")
    case True
    then show ?thesis using cur set nf assms(5)
      by (auto simp: makePositionFor_def cursor_prev_def makePosition_def place_def)
  next
    case False
    then obtain a b where ab: "getAddress k (last us) = Some a" "getAddress k p = Some b"
      using assms(7) by (auto simp: located_def)
    have "(us @ c # vs) ! (length us - 1) = last us" using False by (simp add: nth_append last_conv_nth)
    then show ?thesis using False cur set nf assms(5) ab cs
      by (auto simp: makePositionFor_def cursor_prev_def cursor_get_def makePosition_def place_def)
  qed
qed

lemma same_frame_trans: "same_frame a b \<Longrightarrow> same_frame b c \<Longrightarrow> same_frame a c"
  by (simp add: same_frame_def)

lemma frame_grow:
  "frame x = frame y \<Longrightarrow> frame (x\<lparr>computedSize := computedSize x + s\<rparr>) = frame (y\<lparr>computedSize := computedSize y + s\<rparr>)"
  by (cases x; cases y) (simp add: frame_def)

lemma same_frame_grow:
  assumes "same_frame k k'"
  shows "same_frame (grow A s k) (grow A s k')"
  unfolding same_frame_def
proof
  fix d
  show "map_option frame (grow A s k d) = map_option frame (grow A s k' d)"
    using assms [unfolded same_frame_def, rule_format, of d]
    by (cases "k d"; cases "k' d") (auto simp: grow_def intro: frame_grow)
qed

lemma addToSize_code:
  assumes "code_kind (kind x)" "unat (computedSize x + s) < 2 ^ 63"
  shows "addToSize s x = Some (x\<lparr>computedSize := computedSize x + s\<rparr>)"
proof -
  have "uint (computedSize x + s) = int (unat (computedSize x + s))" by simp
  also have "\<dots> < 2 ^ 63" using assms(2) by (metis of_nat_less_iff of_nat_numeral of_nat_power)
  finally have "uint (computedSize x + s) < 2 ^ 63" .
  moreover have "- (2 ^ 63) \<le> uint (computedSize x + s)" by (rule order_trans [of _ 0]) simp_all
  ultimately have "signed_take_bit 63 (uint (computedSize x + s)) = uint (computedSize x + s)"
    by (intro signed_take_bit_int_eq_self)
  then have "sint (computedSize x + s) = uint (computedSize x + s)" by (simp add: sint_uint)
  then show ?thesis using assms(1) by (auto simp: addToSize_def adjustBy_def code_kind_def)
qed

lemma finish_insertion:
  assumes ins: "insertion h p P us c X vs" and loc: "located h p"
  shows "\<exists>h'. (do { k \<leftarrow> ensure_position MODE_OFFSET p c (linked p us c vs h); updateSizesAndAuthorities p c k }) = Some h' \<and>
    wf_heap h' \<and> same_frame (grow (sized_ancestors p P) (the_size h c) (linked p us c vs h)) h'"
proof -
  note i = insertionD [OF ins]
  note dist = insertion_distinct [OF ins]
  let ?k = "linked p us c vs h" let ?s = "the_size h c" let ?A = "sized_ancestors p P"
  have X: "?k c = Some (relink p us c vs c X)" and P: "?k p = Some (relink p us c vs p P)"
    using i(2,6) by (simp_all add: linked_def)
  have Xk: "kind X = Block \<or> kind X = Instruction" using i(3,8) by (auto simp: code_kind_def)
  have agree: "getAddress ?k d = getAddress h d" if "h d = Some x" "d \<noteq> c" "rank (kind x) \<ge> rank (kind X)" for d x
    using that by (intro getAddress_agree [OF i(1,6) refl]) (auto simp: linked_def relink_def)
  have "\<exists>off. ensure_position MODE_OFFSET p c ?k = Some (place c off ?k)"
  proof (cases "position X")
    case None
    have "located ?k (last us) \<and> located ?k p" if "us \<noteq> []"
    proof -
      have l: "last us \<in> set (children P)" using that i(5) by simp
      from child_of_code [OF i(1-3) l] obtain y where y: "h (last us) = Some y" "parent y = Some p" "kind y = Block \<or> kind y = Instruction" .
      from wf_child [OF i(1,2) l] y(1) have r: "rank (kind P) = Suc (rank (kind y))" by auto
      have "last us \<noteq> c" using dist(1) that by auto
      then show ?thesis
        using agree [OF y(1)] agree [OF i(2)] dist(2,5) r located_child [OF i(1) y(1,3,2)] loc by (simp add: located_def)
    qed
    then have "\<exists>off. makePositionFor MODE_OFFSET p c ?k = Some (place c off ?k)"
      using makePositionFor_offset [of ?k p "relink p us c vs p P" us c vs "relink p us c vs c X"] P X Xk dist(1) i(3)
      by (auto simp: relink_def code_kind_def)
    then show ?thesis using None X Xk by (auto simp: ensure_position_def getPosition_def)
  next
    case (Some q)
    from wf_offset [OF i(1,6) Xk Some] obtain off where "q = OffsetPosition c off" .
    then have "place c off ?k = ?k" using X Some by (auto simp: place_def)
    then show ?thesis using Some X Xk by (intro exI [of _ off]) (auto simp: ensure_position_def getPosition_def)
  qed
  then obtain off where off: "ensure_position MODE_OFFSET p c ?k = Some (place c off ?k)" ..
  let ?k' = "place c off ?k"
  have P': "?k' p = Some (relink p us c vs p P)" using P dist(2) by (simp add: place_def)
  have A: "sized_ancestors p (relink p us c vs p P) = ?A" using dist(2) by (simp add: sized_ancestors_def relink_def)
  have sc: "size_of (grow E ?s ?k') c \<noteq> None" for E
    using X wf_size(1) [OF i(1,6)] Xk by (auto simp: size_of_def grow_def place_def chunk_getSize_def)
  have sc': "size_of (grow E ?s ?k') c = Some ?s" if "c \<notin> E" for E
    using that X wf_size(1) [OF i(1,6)] chunk_getSize_view [of "(relink p us c vs c X)\<lparr>position := Some (OffsetPosition c off)\<rparr>" X]
    by (simp add: size_of_def grow_def place_def)
  have "for_ancestors (\<lambda>h x. do { s \<leftarrow> size_of h c; addToSize s x }) (Some p) ?k' =
      Some (grow (sized_ancestors p (relink p us c vs p P)) ?s ?k')"
  proof (rule for_ancestors_grow [of _ _ ?k', OF _ _ P'])
    fix E and x :: Chunk assume "kind x = FunctionList"
    then show "(do { s \<leftarrow> size_of (grow E ?s ?k') c; addToSize s x }) = Some x" using sc [of E] by (auto simp: addToSize_def)
  next
    fix d x assume "?k' d = Some x"
    with same_frame_Some [OF same_frame_sym [OF same_frame_place]] obtain y where
      y: "?k d = Some y" "frame y = frame x" by metis
    have "parent_ok ?k y" by (rule linked_children(3) [OF ins y(1)])
    then show "parent_ok ?k' x"
      using struct_views(2) [of ?k' ?k y] parent_ok_view [of x y] frame_eqD(1,2) [OF y(2)] X
      by (simp add: place_def)
  next
    show "code_kind (kind (relink p us c vs p P))" using i(3) by simp
  next
    fix E d x assume d: "E \<subseteq> sized_ancestors p (relink p us c vs p P)" "d \<in> sized_ancestors p (relink p us c vs p P)" "?k' d = Some x" "code_kind (kind x)"
    have nc: "c \<notin> sized_ancestors p P" by (rule insertion_ancestors(2) [OF ins])
    then have "d \<noteq> c" using d(2) A by auto
    then obtain z where z: "h d = Some z" "x = relink p us c vs d z" using d(3) by (auto simp: place_def linked_def)
    have "unat (computedSize x + ?s) < 2 ^ 63"
      using i(9) [OF z(1)] unat_add_no_wrap [of "computedSize z" ?s] z(2) by simp
    moreover have "c \<notin> E" using nc d(1) A by blast
    ultimately show "(do { s \<leftarrow> size_of (grow E ?s ?k') c; addToSize s x }) = Some (x\<lparr>computedSize := computedSize x + ?s\<rparr>)"
      using sc' [of E] d(4) addToSize_code [of x ?s] by simp
  qed
  then have res: "updateSizesAndAuthorities p c ?k' = Some (grow ?A ?s ?k')" by (simp add: updateSizesAndAuthorities_def A)
  have fr: "same_frame (grow ?A ?s ?k) (grow ?A ?s ?k')" by (rule same_frame_grow [OF same_frame_place])
  have "wf_heap (grow ?A ?s ?k')"
  proof (rule wf_from_frame [OF fr insertion_struct [OF ins]])
    fix d y assume y: "grow ?A ?s ?k' d = Some y"
    show "position_ok d y"
    proof (cases "d = c")
      case True
      then have "kind y = kind X" "position y = Some (OffsetPosition c off)" using y X by (auto simp: grow_def place_def split: if_splits)
      then show ?thesis using Xk True by (auto simp: position_ok_def)
    next
      case False
      then obtain x where x: "h d = Some x" "y = relink p us c vs d x \<or> y = (relink p us c vs d x)\<lparr>computedSize := computedSize x + ?s\<rparr>"
        using y by (cases "d \<in> ?A") (auto simp: grow_def place_def linked_def)
      then have v: "kind y = kind x" "position y = position x" "parent y = parent x"
        using False by (auto simp: relink_def)
      have "position_ok d x" using wf_chunk [OF i(1) x(1)] by (simp add: chunk_ok_def)
      then show ?thesis unfolding position_ok_def v .
    qed
  qed
  then show ?thesis using off res fr by auto
qed

subsection \<open>The operations\<close>

text \<open>In the default mode no position follows a sibling, so setting a sibling only sets the pointer.\<close>

definition steady :: "Chunk \<Rightarrow> bool" where
  "steady x = (case getPosition x of Some (SubsequentPosition d) \<Rightarrow> False | Some (CachedSubsequentPosition d a) \<Rightarrow> False | _ \<Rightarrow> True)"

lemma getPosition_update [simp]:
  "getPosition (x\<lparr>prevSibling := a\<rparr>) = getPosition x" "getPosition (x\<lparr>nextSibling := a\<rparr>) = getPosition x"
  "getPosition (x\<lparr>parent := a\<rparr>) = getPosition x" "getPosition (x\<lparr>children := cs\<rparr>) = getPosition x"
  by (cases "kind x"; simp add: getPosition_def split: option.split)+

lemma steady_update [simp]:
  "steady (x\<lparr>prevSibling := a\<rparr>) = steady x" "steady (x\<lparr>nextSibling := a\<rparr>) = steady x"
  by (simp_all add: steady_def)

lemma wf_steady: "wf_heap h \<Longrightarrow> h d = Some x \<Longrightarrow> steady x"
  by (drule (1) wf_chunk) (auto simp: steady_def chunk_ok_def position_ok_def getPosition_def
    split: option.splits Position.splits ChunkKind.splits)

lemma follow_steady:
  assumes "h d = Some x" "steady x"
  shows "follow d q h = Some h"
proof (cases "getPosition x")
  case None
  then show ?thesis using assms(1) by (simp add: follow_def update_chunk_def fun_upd_idem)
next
  case (Some p)
  then have "setAfterThis q p = p" using assms(2) by (cases p) (simp_all add: steady_def)
  moreover have "store_position p x = x"
    using Some by (cases "kind x") (auto simp: store_position_def getPosition_def split: option.splits)
  ultimately show ?thesis using assms(1) Some by (simp add: follow_def update_chunk_def fun_upd_idem)
qed

lemma setPreviousSibling_steady:
  assumes "h d = Some x" "steady x"
  shows "setPreviousSibling d q h = Some (h(d \<mapsto> x\<lparr>prevSibling := q\<rparr>))"
proof (cases q)
  case (Some r)
  have "steady (x\<lparr>prevSibling := q\<rparr>)" using assms(2) by simp
  then have "follow d r (h(d \<mapsto> x\<lparr>prevSibling := q\<rparr>)) = Some (h(d \<mapsto> x\<lparr>prevSibling := q\<rparr>))"
    by (intro follow_steady [of _ d "x\<lparr>prevSibling := q\<rparr>"]) simp_all
  then show ?thesis using assms(1) Some by (simp add: setPreviousSibling_def set_previous_def update_chunk_def)
qed (use assms(1) in \<open>simp add: setPreviousSibling_def set_previous_def update_chunk_def\<close>)

lemma setNextSibling_steady:
  assumes "h d = Some x" "\<And>n. q = Some n \<Longrightarrow> \<exists>y. h n = Some y \<and> steady y"
  shows "setNextSibling d q h = Some (h(d \<mapsto> x\<lparr>nextSibling := q\<rparr>))"
proof (cases q)
  case (Some n)
  from assms(2) [OF Some] obtain y where y: "h n = Some y" "steady y" by blast
  have "\<exists>z. (h(d \<mapsto> x\<lparr>nextSibling := q\<rparr>)) n = Some z \<and> steady z"
    using y assms(1) by auto
  then have "follow n d (h(d \<mapsto> x\<lparr>nextSibling := q\<rparr>)) = Some (h(d \<mapsto> x\<lparr>nextSibling := q\<rparr>))"
    using follow_steady by blast
  then show ?thesis using assms(1) Some by (simp add: setNextSibling_def set_next_def update_chunk_def)
qed (use assms(1) in \<open>simp add: setNextSibling_def set_next_def update_chunk_def\<close>)

lemma getLast_eq: "getLast xs = last_of None xs"
  by (auto simp: getLast_def last_of_def last_conv_nth)

text \<open>The chunks that an insertion changes.\<close>

lemma relink_eq:
  assumes "insertion h p P us c X vs"
  shows "relink p us c vs c x = x\<lparr>parent := Some p, prevSibling := last_of None us, nextSibling := first_of vs None\<rparr>"
    "relink p us c vs p x = x\<lparr>children := us @ c # vs\<rparr>"
    "us \<noteq> [] \<Longrightarrow> relink p us c vs (last us) x = x\<lparr>nextSibling := Some c\<rparr>"
    "vs \<noteq> [] \<Longrightarrow> relink p us c vs (hd vs) x = x\<lparr>prevSibling := Some c\<rparr>"
    "d \<noteq> c \<Longrightarrow> d \<noteq> p \<Longrightarrow> last_of None us \<noteq> Some d \<Longrightarrow> first_of vs None \<noteq> Some d \<Longrightarrow> relink p us c vs d x = x"
proof -
  note dist = insertion_distinct [OF assms]
  show "relink p us c vs c x = x\<lparr>parent := Some p, prevSibling := last_of None us, nextSibling := first_of vs None\<rparr>"
    using dist(2) by (cases x) (simp add: relink_def)
  have "first_of vs None \<noteq> Some p" "last_of None us \<noteq> Some p" using dist(3,4) by (auto simp: first_of_eq last_of_eq)
  then show "relink p us c vs p x = x\<lparr>children := us @ c # vs\<rparr>" using dist(2) by (cases x) (simp add: relink_def)
  show "relink p us c vs (last us) x = x\<lparr>nextSibling := Some c\<rparr>" if "us \<noteq> []"
  proof -
    have l: "last us \<in> set us" using that by simp
    have "first_of vs None \<noteq> Some (last us)"
    proof
      assume "first_of vs None = Some (last us)"
      then have "last us \<in> set vs" by (cases vs) simp_all
      with l dist(1) show False by auto
    qed
    moreover have "last us \<noteq> c" "last us \<noteq> p" using l dist(1,3) by auto
    ultimately show ?thesis using that by (cases x) (simp add: relink_def last_of_def)
  qed
  show "relink p us c vs (hd vs) x = x\<lparr>prevSibling := Some c\<rparr>" if "vs \<noteq> []"
  proof -
    have l: "hd vs \<in> set vs" using that by simp
    then have "hd vs \<noteq> c" "hd vs \<noteq> p" "hd vs \<notin> set us" using dist(1,4) by auto
    then have "last_of None us \<noteq> Some (hd vs)" by (metis last_in_set last_of_eq)
    moreover have "first_of vs None = Some (hd vs)" using that by (simp add: first_of_eq)
    ultimately show ?thesis using \<open>hd vs \<noteq> c\<close> \<open>hd vs \<noteq> p\<close> by (cases x) (simp add: relink_def)
  qed
  show "d \<noteq> c \<Longrightarrow> d \<noteq> p \<Longrightarrow> last_of None us \<noteq> Some d \<Longrightarrow> first_of vs None \<noteq> Some d \<Longrightarrow> relink p us c vs d x = x"
    by (cases x) (simp add: relink_def)
qed

lemma linked_eqI:
  assumes ins: "insertion h p P us c X vs"
    and "k c = Some (X\<lparr>parent := Some p, prevSibling := last_of None us, nextSibling := first_of vs None\<rparr>)"
    and "k p = Some (P\<lparr>children := us @ c # vs\<rparr>)"
    and "us \<noteq> [] \<Longrightarrow> k (last us) = map_option (\<lambda>x. x\<lparr>nextSibling := Some c\<rparr>) (h (last us))"
    and "vs \<noteq> [] \<Longrightarrow> k (hd vs) = map_option (\<lambda>x. x\<lparr>prevSibling := Some c\<rparr>) (h (hd vs))"
    and "\<And>d. d \<noteq> c \<Longrightarrow> d \<noteq> p \<Longrightarrow> last_of None us \<noteq> Some d \<Longrightarrow> first_of vs None \<noteq> Some d \<Longrightarrow> k d = h d"
  shows "k = linked p us c vs h"
proof
  fix d
  note i = insertionD [OF ins]
  note r = relink_eq [OF ins]
  consider "d = c" | "d = p" | "last_of None us = Some d" | "first_of vs None = Some d"
    | "d \<noteq> c" "d \<noteq> p" "last_of None us \<noteq> Some d" "first_of vs None \<noteq> Some d" by blast
  then show "k d = linked p us c vs h d"
  proof cases
    case 1
    then show ?thesis using assms(2) i(6) r(1) by (simp add: linked_def)
  next
    case 2
    then show ?thesis using assms(3) i(2) r(2) by (simp add: linked_def)
  next
    case 3
    then show ?thesis using assms(4) r(3) by (auto simp: last_of_eq linked_def intro: option.map_cong0)
  next
    case 4
    then show ?thesis using assms(5) r(4) by (auto simp: first_of_eq linked_def intro: option.map_cong0)
  next
    case 5
    then show ?thesis using assms(6) r(5) by (cases "h d") (simp_all add: linked_def)
  qed
qed

lemma insertion_neighbours:
  assumes "insertion h p P us c X vs"
  shows "us \<noteq> [] \<Longrightarrow> \<exists>x. h (last us) = Some x \<and> steady x \<and> nextSibling x = first_of vs None \<and> last us \<noteq> c \<and> last us \<noteq> p"
    "vs \<noteq> [] \<Longrightarrow> \<exists>x. h (hd vs) = Some x \<and> steady x \<and> prevSibling x = last_of None us \<and> hd vs \<noteq> c \<and> hd vs \<noteq> p"
    "us \<noteq> [] \<Longrightarrow> vs \<noteq> [] \<Longrightarrow> last us \<noteq> hd vs" "steady X" "children_of h p = Some (us @ vs)"
proof -
  note i = insertionD [OF assms]
  note dist = insertion_distinct [OF assms]
  have s: "siblings h None (us @ vs) None" using wf_chunk [OF i(1,2)] i(3,5) by (simp add: chunk_ok_def struct_ok_def)
  show "\<exists>x. h (last us) = Some x \<and> steady x \<and> nextSibling x = first_of vs None \<and> last us \<noteq> c \<and> last us \<noteq> p" if "us \<noteq> []"
  proof -
    from that obtain us' l where us: "us = us' @ [l]" by (cases us rule: rev_cases) auto
    with s obtain x where "h l = Some x" "nextSibling x = first_of vs None" by (auto simp: siblings_append split: option.splits)
    then show ?thesis using us dist wf_steady [OF i(1)] by auto
  qed
  show "\<exists>x. h (hd vs) = Some x \<and> steady x \<and> prevSibling x = last_of None us \<and> hd vs \<noteq> c \<and> hd vs \<noteq> p" if "vs \<noteq> []"
  proof -
    from that obtain v vs' where vs: "vs = v # vs'" by (cases vs) auto
    with s obtain x where "h v = Some x" "prevSibling x = last_of None us" by (auto simp: siblings_append split: option.splits)
    then show ?thesis using vs dist wf_steady [OF i(1)] by auto
  qed
  show "us \<noteq> [] \<Longrightarrow> vs \<noteq> [] \<Longrightarrow> last us \<noteq> hd vs" using dist(1) by (auto dest: last_in_set hd_in_set)
  show "steady X" by (rule wf_steady [OF i(1,6)])
  show "children_of h p = Some (us @ vs)" using children_of_code [of h p P] i(2,3,5) by simp
qed

lemma append_child_linked:
  assumes ins: "insertion h p P us c X []" and "nextSibling X = None"
  shows "append_child MODE_OFFSET p c h =
    (do { k \<leftarrow> ensure_position MODE_OFFSET p c (linked p us c [] h); updateSizesAndAuthorities p c k })"
proof -
  note i = insertionD [OF ins]
  note dist = insertion_distinct [OF ins]
  note n = insertion_neighbours [OF ins]
  have kP: "kind P \<noteq> Instruction" using i(3) by (auto simp: code_kind_def)
  show ?thesis
  proof (cases us rule: rev_cases)
    case Nil
    let ?k = "h(c \<mapsto> X\<lparr>prevSibling := None, nextSibling := None, parent := Some p\<rparr>, p \<mapsto> P\<lparr>children := [c]\<rparr>)"
    have "?k = linked p us c [] h"
      by (rule linked_eqI [OF ins]) (use Nil dist(2) assms(2) in \<open>auto intro: Chunk.equality\<close>)
    then show ?thesis
      using i n(5) Nil dist(2) kP
      by (simp add: append_child_def getLast_eq set_previous_def set_next_def set_parent_def update_chunk_def genericAdd_def)
  next
    case (snoc us' l)
    then obtain R where R: "h l = Some R" "steady R" "l \<noteq> c" "l \<noteq> p" using n(1) by auto
    let ?k = "h(c \<mapsto> X\<lparr>prevSibling := Some l\<rparr>, l \<mapsto> R\<lparr>nextSibling := Some c\<rparr>,
      c \<mapsto> X\<lparr>prevSibling := Some l, parent := Some p\<rparr>, p \<mapsto> P\<lparr>children := us @ [c]\<rparr>)"
    have "?k = linked p us c [] h"
      by (rule linked_eqI [OF ins]) (use snoc R dist(2) assms(2) in \<open>auto intro: Chunk.equality\<close>)
    moreover have "setPreviousSibling c (Some l) h = Some (h(c \<mapsto> X\<lparr>prevSibling := Some l\<rparr>))"
      by (rule setPreviousSibling_steady [of h, OF i(6) n(4)])
    moreover have "setNextSibling l (Some c) (h(c \<mapsto> X\<lparr>prevSibling := Some l\<rparr>)) =
        Some (h(c \<mapsto> X\<lparr>prevSibling := Some l\<rparr>, l \<mapsto> R\<lparr>nextSibling := Some c\<rparr>))"
      by (rule setNextSibling_steady) (use R n(4) in auto)
    ultimately show ?thesis
      using i n(5) snoc dist(2) kP R
      by (simp add: append_child_def getLast_eq set_parent_def update_chunk_def genericAdd_def fun_upd_twist [of l c])
  qed
qed

end
