(* ===== verification/MutatorCorrect.thy ===== *)
theory MutatorCorrect
  imports ChunkEdit
begin

section \<open>Correctness of the mutator\<close>

text \<open>
  The operations of the mutator on a well-formed heap in the default mode: they return, edit the
  list of children as documented, keep the invariant, and the destructor lays out the function.
\<close>

subsection \<open>Insertion next to a sibling\<close>

lemma insertAt_length [simp]: "insertAt (int (length us)) c (us @ vs) = Some (us @ c # vs)"
  by (simp add: insertAt_def)

lemma ensure_position_dom:
  assumes "ensure_position m p c k = Some k'"
  shows "\<exists>x. k' c = Some x"
proof -
  from assms obtain x where x: "k c = Some x" by (auto simp: ensure_position_def split: Option.bind_splits)
  show ?thesis
  proof (cases "getPosition x = None")
    case True
    with assms x have "makePositionFor m p c k = Some k'" by (simp add: ensure_position_def)
    then obtain x' where "k' = k(c \<mapsto> x')"
      by (auto simp: makePositionFor_def Let_def case_prod_beta split: Option.bind_splits if_splits)
    then show ?thesis by simp
  qed (use assms x in \<open>auto simp: ensure_position_def\<close>)
qed

lemma insertAfter_linked:
  assumes ins: "insertion h p P (us @ [ip]) c X vs"
  shows "insertAfter MODE_OFFSET p (Some ip) c h =
    (do { k \<leftarrow> ensure_position MODE_OFFSET p c (linked p (us @ [ip]) c vs h);
          k \<leftarrow> updateSizesAndAuthorities p c k;
          reset_first_child MODE_OFFSET c k })"
proof -
  note i = insertionD [OF ins]
  note dist = insertion_distinct [OF ins]
  note n = insertion_neighbours [OF ins]
  have kP: "kind P \<noteq> Instruction" using i(3) by (auto simp: code_kind_def)
  from n(1) obtain R where R: "h ip = Some R" "steady R" "nextSibling R = first_of vs None" "ip \<noteq> c" "ip \<noteq> p" by auto
  have idx: "indexOf ip (us @ ip # vs) + 1 = int (length (us @ [ip]))"
    using dist(1) by (simp add: indexOf_append)
  have at: "insertAt (int (length us) + 1) c (us @ ip # vs) = Some (us @ ip # c # vs)"
    using insertAt_length [of "us @ [ip]" c vs] by (simp add: add.commute)
  have s1: "setPreviousSibling c (Some ip) h = Some (h(c \<mapsto> X\<lparr>prevSibling := Some ip\<rparr>))"
    by (rule setPreviousSibling_steady [of h, OF i(6) n(4)])
  show ?thesis
  proof (cases vs)
    case Nil
    let ?h1 = "h(c \<mapsto> X\<lparr>prevSibling := Some ip\<rparr>)" let ?h2 = "?h1(c \<mapsto> X\<lparr>prevSibling := Some ip, nextSibling := None\<rparr>)"
    have s2: "setNextSibling c None ?h1 = Some ?h2"
      using setNextSibling_steady [of ?h1 c "X\<lparr>prevSibling := Some ip\<rparr>" None] by simp
    have s3: "setNextSibling ip (Some c) ?h2 = Some (?h2(ip \<mapsto> R\<lparr>nextSibling := Some c\<rparr>))"
      by (rule setNextSibling_steady) (use R n(4) in auto)
    have "?h2(ip \<mapsto> R\<lparr>nextSibling := Some c\<rparr>, p \<mapsto> P\<lparr>children := us @ ip # c # vs\<rparr>,
        c \<mapsto> X\<lparr>prevSibling := Some ip, nextSibling := None, parent := Some p\<rparr>) = linked p (us @ [ip]) c vs h"
      by (rule linked_eqI [OF ins]) (use Nil R dist(2) in \<open>auto intro: Chunk.equality\<close>)
    then show ?thesis
      using i n(5) Nil dist(2) kP R s1 s2 s3 idx at
      by (simp add: insertAfter_def set_parent_def update_chunk_def genericInsertAt_def children_of_def Let_def)
  next
    case (Cons v vs')
    with n(2) obtain V where V: "h v = Some V" "steady V" "v \<noteq> c" "v \<noteq> p" by auto
    have vi: "v \<noteq> ip" using n(3) Cons by simp
    let ?h1 = "h(c \<mapsto> X\<lparr>prevSibling := Some ip\<rparr>)" let ?h2 = "?h1(v \<mapsto> V\<lparr>prevSibling := Some c\<rparr>)"
    let ?h3 = "?h2(c \<mapsto> X\<lparr>prevSibling := Some ip, nextSibling := Some v\<rparr>)"
    have s2: "setPreviousSibling v (Some c) ?h1 = Some ?h2"
      by (rule setPreviousSibling_steady) (use V in auto)
    have s3: "setNextSibling c (Some v) ?h2 = Some ?h3"
      using setNextSibling_steady [of ?h2 c "X\<lparr>prevSibling := Some ip\<rparr>" "Some v"] V by simp
    have s4: "setNextSibling ip (Some c) ?h3 = Some (?h3(ip \<mapsto> R\<lparr>nextSibling := Some c\<rparr>))"
      by (rule setNextSibling_steady) (use R n(4) vi in auto)
    have "?h3(ip \<mapsto> R\<lparr>nextSibling := Some c\<rparr>, p \<mapsto> P\<lparr>children := us @ ip # c # vs\<rparr>,
        c \<mapsto> X\<lparr>prevSibling := Some ip, nextSibling := Some v, parent := Some p\<rparr>) = linked p (us @ [ip]) c vs h"
      by (rule linked_eqI [OF ins]) (use Cons R V vi dist(2) in \<open>auto intro: Chunk.equality\<close>)
    then show ?thesis
      using i n(5) Cons dist(2) kP R V s1 s2 s3 s4 idx at
      by (simp add: insertAfter_def set_parent_def update_chunk_def genericInsertAt_def children_of_def Let_def)
  qed
qed

lemma insertBefore_linked:
  assumes ins: "insertion h p P us c X (ip # vs)"
  shows "insertBefore MODE_OFFSET p (Some ip) c h =
    (do { k \<leftarrow> ensure_position MODE_OFFSET p c (linked p us c (ip # vs) h); updateSizesAndAuthorities p c k })"
proof -
  note i = insertionD [OF ins]
  note dist = insertion_distinct [OF ins]
  note n = insertion_neighbours [OF ins]
  have kP: "kind P \<noteq> Instruction" using i(3) by (auto simp: code_kind_def)
  from n(2) obtain V where V: "h ip = Some V" "steady V" "prevSibling V = last_of None us" "ip \<noteq> c" "ip \<noteq> p" by auto
  have idx: "indexOf ip (us @ ip # vs) = int (length us)" using dist(1) by (simp add: indexOf_append)
  have none: "(do { k \<leftarrow> ensure_position MODE_OFFSET p c k0; k \<leftarrow> replace_first MODE_OFFSET ip c k; updateSizesAndAuthorities p c k }) =
      (do { k \<leftarrow> ensure_position MODE_OFFSET p c k0; updateSizesAndAuthorities p c k })" for k0
  proof (cases "ensure_position MODE_OFFSET p c k0")
    case (Some k)
    then show ?thesis using ensure_position_dom [OF Some] by (auto simp: replace_first_def)
  qed simp
  show ?thesis
  proof (cases us rule: rev_cases)
    case Nil
    let ?h1 = "h(c \<mapsto> X\<lparr>nextSibling := Some ip\<rparr>)" let ?h2 = "?h1(c \<mapsto> X\<lparr>nextSibling := Some ip, prevSibling := None\<rparr>)"
    have s1: "setNextSibling c (Some ip) h = Some ?h1" by (rule setNextSibling_steady) (use i(6) V in auto)
    have s2: "setPreviousSibling c None ?h1 = Some ?h2"
      using setPreviousSibling_steady [of ?h1 c "X\<lparr>nextSibling := Some ip\<rparr>" None] n(4) by simp
    have s3: "setPreviousSibling ip (Some c) ?h2 = Some (?h2(ip \<mapsto> V\<lparr>prevSibling := Some c\<rparr>))"
      by (rule setPreviousSibling_steady) (use V in auto)
    have "?h2(ip \<mapsto> V\<lparr>prevSibling := Some c\<rparr>, p \<mapsto> P\<lparr>children := us @ c # ip # vs\<rparr>,
        c \<mapsto> X\<lparr>nextSibling := Some ip, prevSibling := None, parent := Some p\<rparr>) = linked p us c (ip # vs) h"
      by (rule linked_eqI [OF ins]) (use Nil V dist(2) in \<open>auto intro: Chunk.equality\<close>)
    then show ?thesis
      using i n(5) Nil dist(2) kP V s1 s2 s3 idx insertAt_length [of us c "ip # vs"] none
      by (simp add: insertBefore_def set_parent_def update_chunk_def genericInsertAt_def children_of_def)
  next
    case (snoc us' l)
    with n(1) obtain R where R: "h l = Some R" "steady R" "l \<noteq> c" "l \<noteq> p" by auto
    have li: "l \<noteq> ip" using n(3) snoc by simp
    let ?h1 = "h(l \<mapsto> R\<lparr>nextSibling := Some c\<rparr>)" let ?h2 = "?h1(c \<mapsto> X\<lparr>nextSibling := Some ip\<rparr>)"
    let ?h3 = "?h2(c \<mapsto> X\<lparr>nextSibling := Some ip, prevSibling := Some l\<rparr>)"
    have s1: "setNextSibling l (Some c) h = Some ?h1" by (rule setNextSibling_steady) (use i(6) n(4) R in auto)
    have s2: "setNextSibling c (Some ip) ?h1 = Some ?h2" by (rule setNextSibling_steady) (use i(6) V R li in auto)
    have s3: "setPreviousSibling c (Some l) ?h2 = Some ?h3"
      using setPreviousSibling_steady [of ?h2 c "X\<lparr>nextSibling := Some ip\<rparr>" "Some l"] n(4) by simp
    have s4: "setPreviousSibling ip (Some c) ?h3 = Some (?h3(ip \<mapsto> V\<lparr>prevSibling := Some c\<rparr>))"
      by (rule setPreviousSibling_steady) (use V li in auto)
    have "?h3(ip \<mapsto> V\<lparr>prevSibling := Some c\<rparr>, p \<mapsto> P\<lparr>children := us @ c # ip # vs\<rparr>,
        c \<mapsto> X\<lparr>nextSibling := Some ip, prevSibling := Some l, parent := Some p\<rparr>) = linked p us c (ip # vs) h"
      by (rule linked_eqI [OF ins]) (use snoc R V li dist(2) in \<open>auto intro: Chunk.equality\<close>)
    then show ?thesis
      using i n(5) snoc dist(2) kP R V s1 s2 s3 s4 idx insertAt_length [of us c "ip # vs"] none
      by (simp add: insertBefore_def set_parent_def update_chunk_def genericInsertAt_def children_of_def)
  qed
qed

text \<open>The end of \<^verbatim>\<open>insertAfter\<close> gives an offset to the first child of the next block, which changes no frame.\<close>

lemma reset_first_child_frame:
  assumes "wf_heap h" "h c = Some x" "kind x = Block \<or> kind x = Instruction" "nextSibling x \<noteq> None \<Longrightarrow> \<exists>y. h (the (nextSibling x)) = Some y \<and> kind y = kind x"
  shows "\<exists>h'. reset_first_child MODE_OFFSET c h = Some h' \<and> wf_heap h' \<and> same_frame h h'"
proof (cases "nextSibling x")
  case None
  then show ?thesis using assms(1,2) by (auto simp: reset_first_child_def same_frame_def)
next
  case (Some n)
  then obtain y where y: "h n = Some y" "kind y = kind x" using assms(4) by auto
  show ?thesis
  proof (cases "kind y \<noteq> Instruction \<and> children y \<noteq> []")
    case False
    then show ?thesis using assms(1,2) Some y by (auto simp: reset_first_child_def same_frame_def)
  next
    case True
    then obtain d ds where ds: "children y = d # ds" by (cases "children y") auto
    have yb: "kind y = Block" using True y(2) assms(3) by auto
    have dy: "d \<in> set (children y)" using ds by simp
    from wf_child [OF assms(1) y(1) dy] yb obtain z where
      z: "h d = Some z" "parent z = Some n" "kind z = Instruction" by auto
    let ?k = "h(d \<mapsto> z\<lparr>position := None\<rparr>)"
    have "d \<noteq> n" using y(1) z(1,3) yb by auto
    then have "\<exists>off. makePositionFor MODE_OFFSET n d ?k = Some (place d off ?k)"
      using makePositionFor_offset [of ?k n y "[]" d ds "z\<lparr>position := None\<rparr>"] y(1) yb ds z(3) by simp
    then obtain off where off: "makePositionFor MODE_OFFSET n d ?k = Some (place d off ?k)" ..
    have e: "place d off ?k = place d off h" using z(1) by (auto simp: place_def)
    have r: "reset_first_child MODE_OFFSET c h = Some (place d off h)"
      using assms(2) Some y(1) yb ds z(1,3) off e by (simp add: reset_first_child_def setPosition_def)
    have "wf_heap (place d off h)"
    proof (rule wf_from_frame [OF same_frame_place])
      show "h e = Some w \<Longrightarrow> struct_ok h e w" for e w using wf_chunk [OF assms(1)] by (simp add: chunk_ok_def)
      fix e w assume "place d off h e = Some w"
      then show "position_ok e w" using wf_chunk [OF assms(1), of e w] z
        by (cases "e = d") (auto simp: place_def chunk_ok_def position_ok_def)
    qed
    then show ?thesis using r same_frame_place by blast
  qed
qed

subsection \<open>The contract of an edit\<close>

definition kids :: "heap \<Rightarrow> cid \<Rightarrow> cid list" where
  "kids h p = (case h p of None \<Rightarrow> [] | Some x \<Rightarrow> children x)"

text \<open>
  \<open>edits p cs h h'\<close>: the children of \<open>p\<close> become \<open>cs\<close>; every other list of children, every class, every
  assigned slot and the parent of \<open>p\<close> are as before.
\<close>

definition edits :: "cid \<Rightarrow> cid list \<Rightarrow> heap \<Rightarrow> heap \<Rightarrow> bool" where
  "edits p cs h h' \<longleftrightarrow>
     kids h' p = cs \<and> (\<forall>d. d \<noteq> p \<longrightarrow> map_option children (h' d) = map_option children (h d)) \<and>
     (\<forall>d. map_option (\<lambda>x. (kind x, slotPosition x)) (h' d) = map_option (\<lambda>x. (kind x, slotPosition x)) (h d)) \<and>
     map_option parent (h' p) = map_option parent (h p)"

lemma map_option_view:
  assumes "map_option frame a = map_option frame b" "\<And>x y. frame x = frame y \<Longrightarrow> g x = g y"
  shows "map_option g a = map_option g b"
proof (cases a)
  case (Some x)
  with assms(1) obtain y where y: "b = Some y" "frame x = frame y" by (cases b) auto
  show ?thesis using Some y(1) assms(2) [OF y(2)] by simp
qed (use assms(1) in simp)

lemma edits_frame:
  assumes "edits p cs h k" "same_frame k h'"
  shows "edits p cs h h'"
proof -
  have f: "map_option frame (h' d) = map_option frame (k d)" for d using assms(2) by (simp add: same_frame_def)
  have "map_option children (h' d) = map_option children (k d)" for d
    by (rule map_option_view [OF f]) (rule frame_eqD(5))
  moreover have "map_option parent (h' d) = map_option parent (k d)" for d
    by (rule map_option_view [OF f]) (rule frame_eqD(2))
  moreover have "map_option (\<lambda>x. (kind x, slotPosition x)) (h' d) = map_option (\<lambda>x. (kind x, slotPosition x)) (k d)" for d
    by (rule map_option_view [OF f]) (blast dest: frame_eqD(1,6))
  moreover have "kids h' p = kids k p" using calculation(1) [of p] by (cases "h' p"; cases "k p") (auto simp: kids_def)
  ultimately show ?thesis using assms(1) by (simp add: edits_def)
qed

locale tree_edit =
  fixes edit :: "heap \<Rightarrow> heap option" and pre :: "heap \<Rightarrow> bool" and p :: cid and edited :: "cid list \<Rightarrow> cid list"
  assumes edit_ok: "pre h \<Longrightarrow> \<exists>h'. edit h = Some h' \<and> wf_heap h' \<and> edits p (edited (kids h p)) h h'"
begin

lemma mutator_ok:
  assumes "pre h" "absolute_function h f" "in_function h f p"
  shows "\<exists>h'. with_mutator MODE_OFFSET p edit h = Some h' \<and> wf_heap h' \<and> edits p (edited (kids h p)) h h' \<and> laid_out h' f"
proof -
  from edit_ok [OF assms(1)] obtain k where k: "edit h = Some k" "wf_heap k" "edits p (edited (kids h p)) h k" by blast
  have v: "map_option (\<lambda>x. (kind x, slotPosition x)) (k d) = map_option (\<lambda>x. (kind x, slotPosition x)) (h d)"
    "map_option parent (k p) = map_option parent (h p)" for d using k(3) by (simp_all add: edits_def)
  have "absolute_function k f" using assms(2) v(1) [of f] by (auto simp: absolute_function_def split: option.splits)
  moreover have "in_function k f p" using assms(3) v(1) [of p] v(2) by (cases "h p"; cases "k p") (auto simp: in_function_def)
  ultimately obtain h' where h': "updatePositions MODE_OFFSET True p k = Some h'" "wf_heap h'" "laid_out h' f" "same_frame k h'"
    using updatePositions_lays_out [OF k(2)] by metis
  then show ?thesis using k edits_frame [OF k(3)] by (auto simp: with_mutator_def)
qed

end

subsection \<open>The insertions keep the contract\<close>

definition insertable :: "heap \<Rightarrow> cid \<Rightarrow> cid \<Rightarrow> bool" where
  "insertable h p c \<longleftrightarrow>
     wf_heap h \<and> located h p \<and>
     (\<exists>P X. h p = Some P \<and> code_kind (kind P) \<and> attached h p P \<and> h c = Some X \<and> free_chunk h c \<and> accepts (kind P) (kind X)) \<and>
     (\<forall>d y. h d = Some y \<longrightarrow> unat (computedSize y) + unat (the_size h c) < 2 ^ 63)"

lemma insertableE:
  assumes "insertable h p c" "kids h p = us @ vs"
  obtains P X where "insertion h p P us c X vs" "located h p" "h c = Some X"
  using assms by (auto simp: insertable_def insertion_def kids_def)

lemma edits_linked:
  assumes ins: "insertion h p P us c X vs"
  shows "edits p (us @ c # vs) h (grow A s (linked p us c vs h))"
proof -
  have c: "c \<noteq> p" and i: "h p = Some P" using insertion_distinct [OF ins] insertionD [OF ins] by blast+
  show ?thesis
    unfolding edits_def
  proof (intro conjI allI impI)
    show "kids (grow A s (linked p us c vs h)) p = us @ c # vs" using i by (simp add: kids_def grow_def linked_def relink_def)
    show "map_option parent (grow A s (linked p us c vs h) p) = map_option parent (h p)"
      using i c by (simp add: grow_def linked_def relink_def)
    fix d
    show "map_option (\<lambda>x. (kind x, slotPosition x)) (grow A s (linked p us c vs h) d) = map_option (\<lambda>x. (kind x, slotPosition x)) (h d)"
      by (cases "h d") (simp_all add: grow_def linked_def)
    show "d \<noteq> p \<Longrightarrow> map_option children (grow A s (linked p us c vs h) d) = map_option children (h d)"
      by (cases "h d") (simp_all add: grow_def linked_def relink_def)
  qed
qed

fun insert_after :: "cid \<Rightarrow> cid \<Rightarrow> cid list \<Rightarrow> cid list" where
  "insert_after ip c [] = []"
| "insert_after ip c (x # xs) = (if x = ip then x # c # xs else x # insert_after ip c xs)"

fun insert_before :: "cid \<Rightarrow> cid \<Rightarrow> cid list \<Rightarrow> cid list" where
  "insert_before ip c [] = []"
| "insert_before ip c (x # xs) = (if x = ip then c # x # xs else x # insert_before ip c xs)"

lemma insert_next_to:
  "ip \<notin> set us \<Longrightarrow> insert_after ip c (us @ ip # vs) = us @ ip # c # vs"
  "ip \<notin> set us \<Longrightarrow> insert_before ip c (us @ ip # vs) = us @ c # ip # vs"
  by (induction us) auto

definition append_pre :: "cid \<Rightarrow> cid \<Rightarrow> heap \<Rightarrow> bool" where
  "append_pre p c h \<longleftrightarrow> insertable h p c \<and> (case h c of None \<Rightarrow> False | Some x \<Rightarrow> nextSibling x = None)"

definition insert_pre :: "cid \<Rightarrow> cid \<Rightarrow> cid \<Rightarrow> heap \<Rightarrow> bool" where
  "insert_pre p ip c h \<longleftrightarrow> insertable h p c \<and> ip \<in> set (kids h p)"

lemma append_child_ok:
  assumes "append_pre p c h"
  shows "\<exists>h'. append_child MODE_OFFSET p c h = Some h' \<and> wf_heap h' \<and> edits p (kids h p @ [c]) h h'"
proof -
  from assms have "insertable h p c" "kids h p = kids h p @ []" by (simp_all add: append_pre_def)
  from insertableE [OF this] obtain P X where
    ins: "insertion h p P (kids h p) c X []" "located h p" "h c = Some X" .
  then have n: "nextSibling X = None" using assms by (simp add: append_pre_def)
  from finish_insertion [OF ins(1,2)] show ?thesis
    unfolding append_child_linked [OF ins(1) n] using edits_frame [OF edits_linked [OF ins(1)]] by auto
qed

lemma insertAfter_ok:
  assumes "insert_pre p ip c h"
  shows "\<exists>h'. insertAfter MODE_OFFSET p (Some ip) c h = Some h' \<and> wf_heap h' \<and> edits p (insert_after ip c (kids h p)) h h'"
proof -
  from assms obtain us vs where uv: "kids h p = us @ ip # vs" "ip \<notin> set us"
    using split_list_first [of ip "kids h p"] by (auto simp: insert_pre_def)
  from assms have "insertable h p c" "kids h p = (us @ [ip]) @ vs" using uv by (simp_all add: insert_pre_def)
  from insertableE [OF this] obtain P X where
    ins: "insertion h p P (us @ [ip]) c X vs" "located h p" "h c = Some X" .
  note i = insertionD [OF ins(1)]
  let ?k = "grow (sized_ancestors p P) (the_size h c) (linked p (us @ [ip]) c vs h)"
  from finish_insertion [OF ins(1,2)] obtain k where
    k: "(do { k \<leftarrow> ensure_position MODE_OFFSET p c (linked p (us @ [ip]) c vs h); updateSizesAndAuthorities p c k }) = Some k"
      "wf_heap k" "same_frame ?k k" by blast
  obtain x1 where x1: "?k c = Some x1" "nextSibling x1 = first_of vs None" "kind x1 = kind X"
    using i(6) by (simp add: grow_def linked_def relink_def)
  from same_frame_Some [OF k(3) x1(1)] obtain x where x: "k c = Some x" "frame x = frame x1" .
  have kx: "kind x = kind X" "nextSibling x = first_of vs None" using frame_eqD(1,4) [OF x(2)] x1 by simp_all
  have bi: "kind X = Block \<or> kind X = Instruction" using i(3,8) by (auto simp: code_kind_def)
  have nxt: "\<exists>y. k (the (nextSibling x)) = Some y \<and> kind y = kind x" if "nextSibling x \<noteq> None"
  proof -
    from that kx(2) obtain v vs' where v: "vs = v # vs'" by (cases vs) auto
    have "v \<in> set (children P)" using i(5) v by simp
    from wf_child [OF i(1,2) this] obtain y where y: "h v = Some y" "rank (kind P) = Suc (rank (kind y))" .
    have ky: "kind y = kind X" using insertion_distinct(5) [OF ins(1)] y(2) by simp
    obtain y1 where y1: "?k v = Some y1" "kind y1 = kind y" using y(1) by (simp add: grow_def linked_def)
    from same_frame_Some [OF k(3) y1(1)] obtain y2 where y2: "k v = Some y2" "frame y2 = frame y1" .
    show ?thesis using kx v ky y1(2) y2(1) frame_eqD(1) [OF y2(2)] by simp
  qed
  from reset_first_child_frame [OF k(2) x(1) _ nxt] bi kx(1) obtain h' where
    h': "reset_first_child MODE_OFFSET c k = Some h'" "wf_heap h'" "same_frame k h'" by auto
  have "insertAfter MODE_OFFSET p (Some ip) c h = Some h'"
    unfolding insertAfter_linked [OF ins(1)] using k(1) h'(1) by (auto split: Option.bind_splits)
  moreover have "edits p (insert_after ip c (kids h p)) h h'"
    using edits_frame [OF edits_linked [OF ins(1)] same_frame_trans [OF k(3) h'(3)]] uv by (simp add: insert_next_to)
  ultimately show ?thesis using h'(2) by blast
qed

lemma insertBefore_ok:
  assumes "insert_pre p ip c h"
  shows "\<exists>h'. insertBefore MODE_OFFSET p (Some ip) c h = Some h' \<and> wf_heap h' \<and> edits p (insert_before ip c (kids h p)) h h'"
proof -
  from assms obtain us vs where uv: "kids h p = us @ ip # vs" "ip \<notin> set us"
    using split_list_first [of ip "kids h p"] by (auto simp: insert_pre_def)
  from assms have "insertable h p c" by (simp add: insert_pre_def)
  from insertableE [OF this uv(1)] obtain P X where
    ins: "insertion h p P us c X (ip # vs)" "located h p" "h c = Some X" .
  from finish_insertion [OF ins(1,2)] show ?thesis
    unfolding insertBefore_linked [OF ins(1)]
    using edits_frame [OF edits_linked [OF ins(1)]] uv by (auto simp: insert_next_to)
qed

interpretation app: tree_edit "append_child MODE_OFFSET p c" "append_pre p c" p "\<lambda>cs. cs @ [c]" for p c
  by unfold_locales (rule append_child_ok)

interpretation aft: tree_edit "insertAfter MODE_OFFSET p (Some ip) c" "insert_pre p ip c" p "insert_after ip c" for p ip c
  by unfold_locales (rule insertAfter_ok)

interpretation bef: tree_edit "insertBefore MODE_OFFSET p (Some ip) c" "insert_pre p ip c" p "insert_before ip c" for p ip c
  by unfold_locales (rule insertBefore_ok)

end
