(* ===== verification/ChunkRemove.thy ===== *)
theory ChunkRemove
  imports MutatorCorrect
begin

section \<open>Removal from the chunk tree\<close>

text \<open>
  Removing a child relinks its neighbours and shrinks the ancestors. The removed chunk keeps its
  pointers, so it is still in the heap, with its old parent.
\<close>

definition removal :: "heap \<Rightarrow> cid \<Rightarrow> Chunk \<Rightarrow> cid list \<Rightarrow> cid \<Rightarrow> Chunk \<Rightarrow> cid list \<Rightarrow> bool" where
  "removal h p P us c X vs \<longleftrightarrow>
     wf_heap h \<and> h p = Some P \<and> code_kind (kind P) \<and> attached h p P \<and> children P = us @ c # vs \<and> h c = Some X"

lemma removalD:
  assumes "removal h p P us c X vs"
  shows "wf_heap h" "h p = Some P" "code_kind (kind P)" "attached h p P" "children P = us @ c # vs" "h c = Some X"
    "parent X = Some p" "accepts (kind P) (kind X)" "rank (kind P) = Suc (rank (kind X))"
proof -
  show *: "wf_heap h" "h p = Some P" "code_kind (kind P)" "attached h p P" "children P = us @ c # vs" "h c = Some X"
    using assms by (simp_all add: removal_def)
  have "c \<in> set (children P)" using *(5) by simp
  from wf_child [OF *(1,2) this] *(6) show "parent X = Some p" "accepts (kind P) (kind X)" "rank (kind P) = Suc (rank (kind X))"
    by auto
qed

lemma removal_distinct:
  assumes "removal h p P us c X vs"
  shows "distinct (us @ c # vs)" "p \<notin> set (us @ c # vs)"
proof -
  note r = removalD [OF assms]
  show "distinct (us @ c # vs)" using wf_chunk [OF r(1,2)] r(5) by (simp add: chunk_ok_def struct_ok_def)
  show "p \<notin> set (us @ c # vs)"
  proof
    assume "p \<in> set (us @ c # vs)"
    with r(5) have "p \<in> set (children P)" by simp
    from wf_child [OF r(1,2) this] r(2) show False by auto
  qed
qed

lemma unlink_view [simp]:
  "kind (unlink p us c vs d x) = kind x" "semantic (unlink p us c vs d x) = semantic x"
  "computedSize (unlink p us c vs d x) = computedSize x" "position (unlink p us c vs d x) = position x"
  "slotPosition (unlink p us c vs d x) = slotPosition x" "parent (unlink p us c vs d x) = parent x"
  by (simp_all add: unlink_def)

lemma unlinked_size: "the_size (unlinked p us c vs h) d = the_size h d"
  using chunk_getSize_view [of "unlink p us c vs d (the (h d))" "the (h d)"]
  by (cases "h d") (simp_all add: unlinked_def the_size_def size_of_def)

lemma unlinked_SomeD:
  assumes "unlinked p us c vs h d = Some y"
  obtains x where "h d = Some x" "y = unlink p us c vs d x"
  using assms by (auto simp: unlinked_def)

lemma unlinked_views:
  "map_option kind (unlinked p us c vs h d) = map_option kind (h d)"
  "map_option parent (unlinked p us c vs h d) = map_option parent (h d)"
  by (cases "h d"; simp add: unlinked_def)+

lemma unlinked_links:
  assumes rem: "removal h p P us c X vs" and y: "unlinked p us c vs h d = Some y"
  shows "distinct (children y) \<and> (\<forall>e \<in> set (children y). child_ok (unlinked p us c vs h) d y e) \<and>
    parent_ok (unlinked p us c vs h) y \<and> (kind y = Instruction \<longrightarrow> semantic y \<noteq> None)"
proof -
  note r = removalD [OF rem]
  from y obtain x where x: "h d = Some x" "y = unlink p us c vs d x" by (rule unlinked_SomeD)
  note w = wf_chunk [OF r(1) x(1), unfolded chunk_ok_def struct_ok_def]
  have sub: "set (children y) \<subseteq> set (children x)" using x r(2,5) by (auto simp: unlink_def)
  have dist: "distinct (children y)" using w removal_distinct(1) [OF rem] x(2) by (simp add: unlink_def)
  have "child_ok (unlinked p us c vs h) d y e" if "e \<in> set (children y)" for e
    using that sub w struct_views(1) [of "unlinked p us c vs h" h d y e, OF unlinked_views] child_ok_kind [of y x h d e] x(2) by auto
  moreover have "parent_ok (unlinked p us c vs h) y"
    using w struct_views(2) [of "unlinked p us c vs h" h y, OF unlinked_views] parent_ok_view [of y x h] x(2) by auto
  ultimately show ?thesis using dist w x(2) by (simp add: size_ok_def)
qed

lemma unlinked_siblings:
  assumes rem: "removal h p P us c X vs" and y: "unlinked p us c vs h d = Some y" "code_kind (kind y)"
  shows "siblings (unlinked p us c vs h) None (children y) None"
proof -
  note r = removalD [OF rem]
  note dist = removal_distinct [OF rem]
  let ?h = "unlinked p us c vs h"
  from y(1) obtain x where x: "h d = Some x" "y = unlink p us c vs d x" by (rule unlinked_SomeD)
  show ?thesis
  proof (cases "d = p")
    case True
    have "siblings h None (us @ c # vs) None" using wf_chunk [OF r(1,2)] r(3,5) by (simp add: chunk_ok_def struct_ok_def)
    then have s: "siblings h None us (Some c)" "siblings h (Some c) vs None" by (simp_all add: siblings_append)
    have ex: "\<exists>x. h e = Some x" if "e \<in> set us \<or> e \<in> set vs" for e
      using that r(5) wf_child [OF r(1,2), of e] by (metis Un_iff list.set_intros(2) set_append)
    have "siblings ?h None us (first_of vs None)"
    proof (rule siblings_new_last [OF s(1)])
      fix e assume u: "e \<in> set us"
      then have "us \<noteq> []" "first_of vs None \<noteq> Some e" using dist(1) by (auto simp: first_of_eq)
      moreover obtain z where "h e = Some z" using ex u by blast
      ultimately show "map_option prevSibling (?h e) = map_option prevSibling (h e)"
        "map_option nextSibling (?h e) = (if e = last us then Some (first_of vs None) else map_option nextSibling (h e))"
        by (simp_all add: unlinked_def unlink_def last_of_eq)
    qed (use dist(1) in simp)
    moreover have "siblings ?h (last_of None us) vs None"
    proof (rule siblings_new_first [OF s(2)])
      fix e assume v: "e \<in> set vs"
      then have "e \<notin> set us" "vs \<noteq> []" using dist(1) by auto
      then have "last_of None us \<noteq> Some e" by (metis last_in_set last_of_eq)
      moreover obtain z where "h e = Some z" using ex v by blast
      ultimately show "map_option nextSibling (?h e) = map_option nextSibling (h e)"
        "map_option prevSibling (?h e) = (if e = hd vs then Some (last_of None us) else map_option prevSibling (h e))"
        using \<open>vs \<noteq> []\<close> by (simp_all add: unlinked_def unlink_def first_of_eq)
    qed (use dist(1) in simp)
    ultimately show ?thesis using True x(2) by (simp add: siblings_append unlink_def)
  next
    case False
    then have ch: "children y = children x" using x(2) by (simp add: unlink_def)
    have "siblings h None (children x) None"
      using wf_chunk [OF r(1) x(1)] y(2) x(2) by (simp add: chunk_ok_def struct_ok_def)
    moreover have "siblings ?h None (children x) None = siblings h None (children x) None"
    proof (rule siblings_cong)
      fix e assume e: "e \<in> set (children x)"
      from wf_child [OF r(1) x(1) e] obtain z where z: "h e = Some z" "parent z = Some d" .
      have "e \<notin> set us \<and> e \<notin> set vs"
      proof (rule ccontr)
        assume "\<not> (e \<notin> set us \<and> e \<notin> set vs)"
        then have "e \<in> set (children P)" using r(5) by auto
        from wf_child [OF r(1,2) this] z(1) have "parent z = Some p" by auto
        with z(2) False show False by simp
      qed
      then have "first_of vs None \<noteq> Some e" "last_of None us \<noteq> Some e"
        by (metis hd_in_set first_of_eq, metis last_in_set last_of_eq)
      then show "map_option (\<lambda>x. (prevSibling x, nextSibling x)) (?h e) = map_option (\<lambda>x. (prevSibling x, nextSibling x)) (h e)"
        using z(1) by (simp add: unlinked_def unlink_def)
    qed
    ultimately show ?thesis using ch by simp
  qed
qed

subsection \<open>Sizes\<close>

lemma member_total: "e \<in> set cs \<Longrightarrow> unat (the_size h e) \<le> total_size h cs"
  by (induction cs) (auto simp: total_size_def)

lemma wf_total:
  assumes "wf_heap h" "h d = Some x" "code_kind (kind x)"
  shows "unat (computedSize x) = total_size h (children x)" "unat (computedSize x) < 2 ^ 63" "the_size h d = computedSize x"
proof -
  show "unat (computedSize x) = total_size h (children x)" "unat (computedSize x) < 2 ^ 63"
    using wf_chunk [OF assms(1,2)] assms(3) by (simp_all add: chunk_ok_def struct_ok_def size_ok_def)
  show "the_size h d = computedSize x" using assms(2,3) by (auto simp: the_size_def size_of_def chunk_getSize_def code_kind_def)
qed

lemma unat_shrink:
  fixes a s :: "64 word"
  assumes "unat s \<le> unat a" "unat a < 2 ^ 63"
  shows "unat (a + - s) = unat a - unat s" "unat (a + - s) < 2 ^ 63"
proof -
  have "s \<le> a" using assms(1) by (simp add: word_le_nat_alt)
  then show *: "unat (a + - s) = unat a - unat s" using unat_sub_no_wrap [of s a] by simp
  show "unat (a + - s) < 2 ^ 63" unfolding * using assms(2) by (rule le_less_trans [OF diff_le_self])
qed

lemma removal_sizes:
  assumes "removal h p P us c X vs" "d \<in> sized_ancestors p P" "h d = Some x"
  shows "code_kind (kind x)" "unat (the_size h c) \<le> unat (computedSize x)" "unat (computedSize x) < 2 ^ 63"
proof -
  note r = removalD [OF assms(1)]
  have "c \<in> set (children P)" using r(5) by simp
  then have P: "unat (the_size h c) \<le> unat (computedSize P)" using wf_total(1) [OF r(1-3)] member_total by simp
  have "code_kind (kind x) \<and> unat (the_size h c) \<le> unat (computedSize x)"
  proof (cases "d = p")
    case True
    then show ?thesis using P assms(3) r(2,3) by simp
  next
    case False
    then have b: "kind P = Block" "parent P = Some d" using assms(2) by (simp_all add: sized_ancestors_def split: if_splits)
    then have m: "p \<in> set (children x)" using r(4) assms(3) by (simp add: attached_def)
    from wf_parent [OF r(1,2) b(2)] assms(3) b(1) have "rank (kind x) = Suc (rank Block)" by auto
    then have k: "code_kind (kind x)" by (simp only: rank_Suc code_kind_def) simp
    have "unat (the_size h p) \<le> unat (computedSize x)" using wf_total(1) [OF r(1) assms(3) k] member_total [OF m] by simp
    with P k show ?thesis using wf_total(3) [OF r(1-3)] by simp
  qed
  then show *: "code_kind (kind x)" "unat (the_size h c) \<le> unat (computedSize x)" by auto
  show "unat (computedSize x) < 2 ^ 63" by (rule wf_total(2) [OF r(1) assms(3) *(1)])
qed

lemma removal_struct:
  assumes rem: "removal h p P us c X vs"
    and y: "grow (sized_ancestors p P) (- the_size h c) (unlinked p us c vs h) d = Some y"
  shows "struct_ok (grow (sized_ancestors p P) (- the_size h c) (unlinked p us c vs h)) d y"
proof -
  note r = removalD [OF rem]
  note dist = removal_distinct [OF rem]
  let ?k = "unlinked p us c vs h" let ?s = "- the_size h c" let ?P = "unlink p us c vs p P"
  have P: "?k p = Some ?P" using r(2) by (simp add: unlinked_def)
  have ch: "children ?P = us @ vs" by (simp add: unlink_def)
  have A: "sized_ancestors p ?P = sized_ancestors p P" by (simp add: sized_ancestors_def)
  have tot: "total_size ?k cs = total_size h cs" for cs by (simp add: total_size_def unlinked_size)
  have pA: "p \<in> sized_ancestors p P" by (simp add: sized_ancestors_def)
  note sP = removal_sizes [OF rem pA r(2)]
  show ?thesis
    unfolding A [symmetric]
  proof (rule struct_grow [of ?k, OF P])
    show "code_kind (kind ?P)" using r(3) by simp
    show "sums_except ?k p"
      unfolding sums_except_def
    proof (intro allI impI)
      fix e z assume z: "?k e = Some z" "e \<noteq> p" "code_kind (kind z)"
      from z(1) obtain x where x: "h e = Some x" "z = unlink p us c vs e x" by (rule unlinked_SomeD)
      then show "unat (computedSize z) = total_size ?k (children z) \<and> unat (computedSize z) < 2 ^ 63"
        using wf_total(1,2) [OF r(1) x(1)] z(2,3) tot by (simp add: unlink_def)
    qed
    show "attached ?k p ?P"
      unfolding attached_def unlink_view
    proof (intro allI impI)
      fix f z assume b: "kind P = Block" "parent P = Some f" "?k f = Some z"
      from b(3) obtain x where x: "h f = Some x" "z = unlink p us c vs f x" by (rule unlinked_SomeD)
      have m: "p \<in> set (children x)" using r(4) b(1,2) x(1) by (simp add: attached_def)
      have "f \<noteq> p"
      proof
        assume "f = p"
        then have "x = P" using x(1) r(2) by simp
        with m dist(2) r(5) show False by simp
      qed
      with m show "p \<in> set (children z)" using x(2) by (simp add: unlink_def)
    qed
    fix e z assume z: "?k e = Some z"
    show "distinct (children z) \<and> (\<forall>d \<in> set (children z). child_ok ?k e z d) \<and> parent_ok ?k z \<and>
      (code_kind (kind z) \<longrightarrow> siblings ?k None (children z) None) \<and> (kind z = Instruction \<longrightarrow> semantic z \<noteq> None)"
      using unlinked_links [OF rem z] unlinked_siblings [OF rem z] by blast
  next
    show "unat (computedSize ?P + ?s) < 2 ^ 63" using unat_shrink(2) [OF sP(2,3)] by simp
    have "unat (computedSize P) = total_size h (us @ vs) + unat (the_size h c)"
      using wf_total(1) [OF r(1-3)] r(5) by (simp add: total_size_def)
    then show "unat (computedSize ?P + ?s) = total_size ?k (children ?P)"
      using unat_shrink(1) [OF sP(2,3)] unfolding ch tot by simp
    fix f F assume b: "kind ?P = Block" "parent ?P = Some f" "?k f = Some F"
    from b(3) obtain x where x: "h f = Some x" "F = unlink p us c vs f x" by (rule unlinked_SomeD)
    have "f \<in> sized_ancestors p P" using b(1,2) by (simp add: sized_ancestors_def)
    note sF = removal_sizes [OF rem this x(1)]
    show "unat (computedSize F + ?s) + unat (computedSize ?P) = unat (computedSize F) + unat (computedSize ?P + ?s) \<and>
        unat (computedSize F + ?s) < 2 ^ 63"
      using unat_shrink [OF sF(2,3)] unat_shrink(1) [OF sP(2,3)] sF(2) sP(2) x(2) by simp
  next
    show "grow (sized_ancestors p ?P) ?s ?k d = Some y" using y by (simp add: A)
  qed
qed

text \<open>
  The loop skips chunks of size 0; a child of such a chunk has size 0, so subtracting would change
  nothing either.
\<close>

lemma shrink_ancestors_grow:
  assumes par: "\<And>d x. k d = Some x \<Longrightarrow> parent_ok k x"
    and p: "k p = Some P" "code_kind (kind P)"
    and amount: "\<And>E. E \<subseteq> sized_ancestors p P \<Longrightarrow> amount (grow E (- s) k) = Some s"
    and big: "\<And>d x. d \<in> sized_ancestors p P \<Longrightarrow> k d = Some x \<Longrightarrow> unat s \<le> unat (computedSize x) \<and> unat (computedSize x) < 2 ^ 63"
  shows "shrink_ancestors amount p k = Some (grow (sized_ancestors p P) (- s) k)"
  unfolding shrink_ancestors_def
proof (rule for_ancestors_grow [of _ "- s" k, OF _ par p])
  fix E and x :: Chunk assume "kind x = FunctionList"
  then show "(do { t \<leftarrow> chunk_getSize x; if t \<noteq> 0 then do { s' \<leftarrow> amount (grow E (- s) k); addToSize (- s') x } else Some x }) = Some x"
    by (simp add: chunk_getSize_def)
next
  fix E d x assume a: "E \<subseteq> sized_ancestors p P" "d \<in> sized_ancestors p P" "k d = Some x" "code_kind (kind x)"
  have g: "chunk_getSize x = Some (computedSize x)" using a(4) by (auto simp: chunk_getSize_def code_kind_def)
  have b: "unat s \<le> unat (computedSize x)" "unat (computedSize x) < 2 ^ 63" using big [OF a(2,3)] by auto
  show "(do { t \<leftarrow> chunk_getSize x; if t \<noteq> 0 then do { s' \<leftarrow> amount (grow E (- s) k); addToSize (- s') x } else Some x }) =
      Some (x\<lparr>computedSize := computedSize x + - s\<rparr>)"
  proof (cases "computedSize x = 0")
    case True
    then have "s = 0" using b(1) by (simp add: unat_eq_zero)
    then show ?thesis using True g by simp
  next
    case False
    then show ?thesis using g amount [OF a(1)] addToSize_code [of x "- s", OF a(4) unat_shrink(2) [OF b]] by simp
  qed
qed

lemma list_remove_mid: "c \<notin> set us \<Longrightarrow> list_remove c (us @ c # vs) = us @ vs"
  by (simp add: list_remove_def remove_at_def indexOf_append)

lemma unlink_eq:
  assumes "removal h p P us c X vs"
  shows "unlink p us c vs p x = x\<lparr>children := us @ vs\<rparr>"
    "us \<noteq> [] \<Longrightarrow> unlink p us c vs (last us) x = x\<lparr>nextSibling := first_of vs None\<rparr>"
    "vs \<noteq> [] \<Longrightarrow> unlink p us c vs (hd vs) x = x\<lparr>prevSibling := last_of None us\<rparr>"
    "d \<noteq> p \<Longrightarrow> last_of None us \<noteq> Some d \<Longrightarrow> first_of vs None \<noteq> Some d \<Longrightarrow> unlink p us c vs d x = x"
proof -
  note dist = removal_distinct [OF assms]
  have pn: "first_of vs None \<noteq> Some p" "last_of None us \<noteq> Some p"
    using dist(2) by (metis first_of_eq hd_in_set list.set_intros(2) in_set_conv_decomp append_Cons Un_iff set_append,
        metis last_of_eq last_in_set Un_iff set_append)
  then show "unlink p us c vs p x = x\<lparr>children := us @ vs\<rparr>" by (cases x) (simp add: unlink_def)
  show "unlink p us c vs (last us) x = x\<lparr>nextSibling := first_of vs None\<rparr>" if "us \<noteq> []"
  proof -
    have l: "last us \<in> set us" using that by simp
    have "first_of vs None \<noteq> Some (last us)"
    proof
      assume "first_of vs None = Some (last us)"
      then have "last us \<in> set vs" by (cases vs) simp_all
      with l dist(1) show False by auto
    qed
    moreover have "last us \<noteq> p" using l dist(2) by auto
    ultimately show ?thesis using that by (cases x) (simp add: unlink_def last_of_def)
  qed
  show "unlink p us c vs (hd vs) x = x\<lparr>prevSibling := last_of None us\<rparr>" if "vs \<noteq> []"
  proof -
    have l: "hd vs \<in> set vs" using that by simp
    then have "hd vs \<noteq> p" "hd vs \<notin> set us" using dist by auto
    then have "last_of None us \<noteq> Some (hd vs)" by (metis last_in_set last_of_eq)
    moreover have "first_of vs None = Some (hd vs)" using that by (simp add: first_of_eq)
    ultimately show ?thesis using \<open>hd vs \<noteq> p\<close> by (cases x) (simp add: unlink_def)
  qed
  show "d \<noteq> p \<Longrightarrow> last_of None us \<noteq> Some d \<Longrightarrow> first_of vs None \<noteq> Some d \<Longrightarrow> unlink p us c vs d x = x"
    by (cases x) (simp add: unlink_def)
qed

lemma unlinked_eqI:
  assumes rem: "removal h p P us c X vs"
    and "k p = Some (P\<lparr>children := us @ vs\<rparr>)"
    and "us \<noteq> [] \<Longrightarrow> k (last us) = map_option (\<lambda>x. x\<lparr>nextSibling := first_of vs None\<rparr>) (h (last us))"
    and "vs \<noteq> [] \<Longrightarrow> k (hd vs) = map_option (\<lambda>x. x\<lparr>prevSibling := last_of None us\<rparr>) (h (hd vs))"
    and "\<And>d. d \<noteq> p \<Longrightarrow> last_of None us \<noteq> Some d \<Longrightarrow> first_of vs None \<noteq> Some d \<Longrightarrow> k d = h d"
  shows "k = unlinked p us c vs h"
proof
  fix d
  note i = removalD [OF rem]
  note r = unlink_eq [OF rem]
  consider "d = p" | "last_of None us = Some d" | "first_of vs None = Some d"
    | "d \<noteq> p" "last_of None us \<noteq> Some d" "first_of vs None \<noteq> Some d" by blast
  then show "k d = unlinked p us c vs h d"
  proof cases
    case 1
    then show ?thesis using assms(2) i(2) r(1) by (simp add: unlinked_def)
  next
    case 2
    then show ?thesis using assms(3) r(2) by (auto simp: last_of_eq unlinked_def intro: option.map_cong0)
  next
    case 3
    then show ?thesis using assms(4) r(3) by (auto simp: first_of_eq unlinked_def intro: option.map_cong0)
  next
    case 4
    then show ?thesis using assms(5) r(4) by (cases "h d") (simp_all add: unlinked_def)
  qed
qed

lemma removal_neighbours:
  assumes "removal h p P us c X vs"
  shows "us \<noteq> [] \<Longrightarrow> \<exists>x. h (last us) = Some x \<and> steady x \<and> last us \<noteq> c \<and> last us \<noteq> p"
    "vs \<noteq> [] \<Longrightarrow> \<exists>x. h (hd vs) = Some x \<and> steady x \<and> hd vs \<noteq> c \<and> hd vs \<noteq> p"
    "us \<noteq> [] \<Longrightarrow> vs \<noteq> [] \<Longrightarrow> last us \<noteq> hd vs" "prevSibling X = last_of None us" "nextSibling X = first_of vs None" "c \<noteq> p"
proof -
  note r = removalD [OF assms]
  note dist = removal_distinct [OF assms]
  have s: "siblings h None (us @ c # vs) None" using wf_chunk [OF r(1,2)] r(3,5) by (simp add: chunk_ok_def struct_ok_def)
  show "prevSibling X = last_of None us" "nextSibling X = first_of vs None" using siblings_nth [OF s r(6)] by simp_all
  show "c \<noteq> p" using dist(2) by auto
  have ex: "\<exists>x. h e = Some x \<and> steady x \<and> e \<noteq> c \<and> e \<noteq> p" if "e \<in> set us \<or> e \<in> set vs" for e
  proof -
    from that have "e \<in> set (children P)" using r(5) by auto
    from wf_child [OF r(1,2) this] obtain y where "h e = Some y" .
    moreover have "e \<noteq> c" "e \<noteq> p" using that dist by auto
    ultimately show ?thesis using wf_steady [OF r(1)] by blast
  qed
  show "us \<noteq> [] \<Longrightarrow> \<exists>x. h (last us) = Some x \<and> steady x \<and> last us \<noteq> c \<and> last us \<noteq> p"
    by (rule ex) simp
  show "vs \<noteq> [] \<Longrightarrow> \<exists>x. h (hd vs) = Some x \<and> steady x \<and> hd vs \<noteq> c \<and> hd vs \<noteq> p"
    by (rule ex) simp
  show "us \<noteq> [] \<Longrightarrow> vs \<noteq> [] \<Longrightarrow> last us \<noteq> hd vs" using dist(1) by (auto dest: last_in_set hd_in_set)
qed

subsection \<open>The operation\<close>

lemma remove_child_unlinked:
  assumes rem: "removal h p P us c X vs"
  shows "remove_child p c h = shrink_ancestors (\<lambda>h. size_of h c) p (unlinked p us c vs h)"
proof -
  note r = removalD [OF rem]
  note n = removal_neighbours [OF rem]
  have kP: "kind P \<noteq> Instruction" using r(3) by (auto simp: code_kind_def)
  have lr: "list_remove c (us @ c # vs) = us @ vs" using removal_distinct(1) [OF rem] by (simp add: list_remove_mid)
  define h1 where "h1 = (case last_of None us of None \<Rightarrow> h | Some q \<Rightarrow> h(q := map_option (\<lambda>x. x\<lparr>nextSibling := first_of vs None\<rparr>) (h q)))"
  define h2 where "h2 = (case first_of vs None of None \<Rightarrow> h1 | Some q \<Rightarrow> h1(q := map_option (\<lambda>x. x\<lparr>prevSibling := last_of None us\<rparr>) (h1 q)))"
  have s1: "(case last_of None us of None \<Rightarrow> Some h | Some q \<Rightarrow> setNextSibling q (first_of vs None) h) = Some h1"
  proof (cases "us = []")
    case False
    with n(1) obtain R where R: "h (last us) = Some R" by blast
    have "setNextSibling (last us) (first_of vs None) h = Some (h(last us \<mapsto> R\<lparr>nextSibling := first_of vs None\<rparr>))"
      by (rule setNextSibling_steady [of h, OF R]) (use n(2) in \<open>auto simp: first_of_eq\<close>)
    then show ?thesis using False R by (simp add: h1_def last_of_def)
  qed (simp add: h1_def)
  have s2: "(case first_of vs None of None \<Rightarrow> Some h1 | Some q \<Rightarrow> setPreviousSibling q (last_of None us) h1) = Some h2"
  proof (cases "vs = []")
    case False
    with n(2) obtain V where V: "h (hd vs) = Some V" "steady V" by blast
    have f: "first_of vs None = Some (hd vs)" using False by (simp add: first_of_eq)
    have "h1 (hd vs) = Some V" using V(1) n(3) False by (auto simp: h1_def last_of_def)
    then show ?thesis using setPreviousSibling_steady [of h1 "hd vs" V] V(2) f by (simp add: h2_def)
  qed (simp add: h2_def)
  have hp: "h2 p = Some P" "h2 c = Some X"
    using r(2,6) n(1,2) by (auto simp: h2_def h1_def last_of_def first_of_def split: list.splits)
  have "h2(p \<mapsto> P\<lparr>children := us @ vs\<rparr>) = unlinked p us c vs h"
  proof (rule unlinked_eqI [OF rem])
    show "(h2(p \<mapsto> P\<lparr>children := us @ vs\<rparr>)) (last us) = map_option (\<lambda>x. x\<lparr>nextSibling := first_of vs None\<rparr>) (h (last us))" if "us \<noteq> []"
      using that n(1,3) by (auto simp: h2_def h1_def last_of_def first_of_def split: list.splits)
    show "(h2(p \<mapsto> P\<lparr>children := us @ vs\<rparr>)) (hd vs) = map_option (\<lambda>x. x\<lparr>prevSibling := last_of None us\<rparr>) (h (hd vs))" if "vs \<noteq> []"
      using that n(2,3) by (auto simp: h2_def h1_def last_of_def first_of_def split: list.splits)
    show "(h2(p \<mapsto> P\<lparr>children := us @ vs\<rparr>)) d = h d"
      if "d \<noteq> p" "last_of None us \<noteq> Some d" "first_of vs None \<noteq> Some d" for d
      using that by (auto simp: h2_def h1_def split: option.splits)
  qed simp
  then have s3: "genericRemove p c h2 = Some (unlinked p us c vs h)"
    using hp kP r(5,8) lr by (simp add: genericRemove_def)
  show ?thesis unfolding remove_child_def r(6) bind.bind_lunit Let_def n(4,5) s1 s2 s3 ..
qed

definition removable :: "cid \<Rightarrow> cid \<Rightarrow> heap \<Rightarrow> bool" where
  "removable p c h \<longleftrightarrow> wf_heap h \<and> c \<in> set (kids h p) \<and>
     (case h p of None \<Rightarrow> False | Some x \<Rightarrow> code_kind (kind x) \<and> attached h p x)"

lemma removableE:
  assumes "removable p c h"
  obtains P us X vs where "removal h p P us c X vs" "kids h p = us @ c # vs" "c \<notin> set us"
proof -
  from assms obtain P where P: "wf_heap h" "h p = Some P" "code_kind (kind P)" "attached h p P" "c \<in> set (children P)"
    by (auto simp: removable_def kids_def split: option.splits)
  from split_list_first [OF P(5)] obtain us vs where uv: "children P = us @ c # vs" "c \<notin> set us" by blast
  from wf_child [OF P(1,2,5)] obtain X where "h c = Some X" .
  then have "removal h p P us c X vs" using P uv by (simp add: removal_def)
  then show thesis using that uv P(2) by (simp add: kids_def)
qed

lemma edits_unlinked:
  assumes "removal h p P us c X vs"
  shows "edits p (us @ vs) h (grow A s (unlinked p us c vs h))"
  unfolding edits_def
proof (intro conjI allI impI)
  have i: "h p = Some P" using removalD [OF assms] by blast
  show "kids (grow A s (unlinked p us c vs h)) p = us @ vs" using i by (simp add: kids_def grow_def unlinked_def unlink_def)
  show "map_option parent (grow A s (unlinked p us c vs h) p) = map_option parent (h p)" using i by (simp add: grow_def unlinked_def)
  fix d
  show "map_option (\<lambda>x. (kind x, slotPosition x)) (grow A s (unlinked p us c vs h) d) = map_option (\<lambda>x. (kind x, slotPosition x)) (h d)"
    by (cases "h d") (simp_all add: grow_def unlinked_def)
  show "d \<noteq> p \<Longrightarrow> map_option children (grow A s (unlinked p us c vs h) d) = map_option children (h d)"
    by (cases "h d") (simp_all add: grow_def unlinked_def unlink_def)
qed

lemma remove_child_ok:
  assumes "removable p c h"
  shows "\<exists>h'. remove_child p c h = Some h' \<and> wf_heap h' \<and> edits p (remove1 c (kids h p)) h h'"
proof -
  from removableE [OF assms] obtain P us X vs where
    rem: "removal h p P us c X vs" and uv: "kids h p = us @ c # vs" "c \<notin> set us" .
  note r = removalD [OF rem]
  let ?k = "unlinked p us c vs h" let ?s = "the_size h c" let ?A = "sized_ancestors p P"
  have P: "?k p = Some (unlink p us c vs p P)" using r(2) by (simp add: unlinked_def)
  have A: "sized_ancestors p (unlink p us c vs p P) = ?A" by (simp add: sized_ancestors_def)
  have cA: "c \<notin> ?A"
  proof
    assume "c \<in> ?A"
    then have "c = p \<or> (kind P = Block \<and> parent P = Some c)" by (auto simp: sized_ancestors_def split: if_splits)
    then show False using r(2,6,9) wf_parent [OF r(1,2), of c] by auto
  qed
  have res: "shrink_ancestors (\<lambda>h. size_of h c) p ?k = Some (grow (sized_ancestors p (unlink p us c vs p P)) (- ?s) ?k)"
  proof (rule shrink_ancestors_grow [of ?k, OF _ P])
    show "parent_ok ?k x" if "?k d = Some x" for d x using unlinked_links [OF rem that] by blast
    show "code_kind (kind (unlink p us c vs p P))" using r(3) by simp
    show "size_of (grow E (- ?s) ?k) c = Some ?s" if "E \<subseteq> sized_ancestors p (unlink p us c vs p P)" for E
    proof -
      have "c \<notin> E" using that cA A by blast
      then show ?thesis using r(6) wf_size(1) [OF r(1,6)] chunk_getSize_view [of "unlink p us c vs c X" X]
        by (simp add: size_of_def grow_def unlinked_def)
    qed
    show "unat ?s \<le> unat (computedSize x) \<and> unat (computedSize x) < 2 ^ 63"
      if d: "d \<in> sized_ancestors p (unlink p us c vs p P)" "?k d = Some x" for d x
    proof -
      from d(2) obtain y where y: "h d = Some y" "x = unlink p us c vs d y" by (rule unlinked_SomeD)
      show ?thesis using removal_sizes(2,3) [OF rem _ y(1)] d(1) A y(2) by simp
    qed
  qed
  have "wf_heap (grow ?A (- ?s) ?k)"
  proof (rule wf_from_frame [of _, OF _ removal_struct [OF rem]])
    show "same_frame (grow ?A (- ?s) ?k) (grow ?A (- ?s) ?k)" by (simp add: same_frame_def)
    fix d y assume "grow ?A (- ?s) ?k d = Some y"
    then obtain x where x: "h d = Some x" "kind y = kind x" "position y = position x" "parent y = parent x"
      by (cases "d \<in> ?A") (auto simp: grow_def unlinked_def)
    have "position_ok d x" using wf_chunk [OF r(1) x(1)] by (simp add: chunk_ok_def)
    then show "position_ok d y" unfolding position_ok_def x(2-4) .
  qed
  moreover have "edits p (remove1 c (kids h p)) h (grow ?A (- ?s) ?k)"
    using edits_unlinked [OF rem] uv by (simp add: remove1_append)
  ultimately show ?thesis unfolding remove_child_unlinked [OF rem] res A by blast
qed

interpretation rmv: tree_edit "remove_child p c" "removable p c" p "remove1 c" for p c
  by unfold_locales (rule remove_child_ok)

end
