(* ===== verification/ChunkResize.thy ===== *)
theory ChunkResize
  imports ChunkRemove
begin

section \<open>Changing the size of an instruction\<close>

text \<open>
  When a semantic changes its size, the instruction that holds it has the new size at once; \<^verbatim>\<open>modifiedChildSize\<close> then
  corrects the sizes of the block and the function, and the destructor of the mutator moves what follows.
\<close>

primrec semantic_setSize :: "64 word \<Rightarrow> Semantic \<Rightarrow> Semantic" where
  "semantic_setSize n (IsolatedInstruction i s) = IsolatedInstruction i n"
| "semantic_setSize n (LinkedInstructionBase i s c) = LinkedInstructionBase i n c"
| "semantic_setSize n (ControlFlowInstructionBase i s c) = ControlFlowInstructionBase i n c"

definition resized :: "64 word \<Rightarrow> Chunk \<Rightarrow> Chunk" where
  "resized n x = x\<lparr>semantic := map_option (semantic_setSize n) (semantic x)\<rparr>"

lemma semantic_getSize_set [simp]: "semantic_getSize (semantic_setSize n s) = n"
  by (cases s) simp_all

lemma resized_view [simp]:
  "kind (resized n x) = kind x" "parent (resized n x) = parent x" "children (resized n x) = children x"
  "prevSibling (resized n x) = prevSibling x" "nextSibling (resized n x) = nextSibling x" "position (resized n x) = position x"
  "slotPosition (resized n x) = slotPosition x" "computedSize (resized n x) = computedSize x" "semantic (resized n x) = None \<longleftrightarrow> semantic x = None"
  by (simp_all add: resized_def)

text \<open>An instruction of a function, with its block.\<close>

definition instr_in :: "heap \<Rightarrow> cid \<Rightarrow> Chunk \<Rightarrow> cid \<Rightarrow> Chunk \<Rightarrow> cid \<Rightarrow> Chunk \<Rightarrow> bool" where
  "instr_in h f F p P i x \<longleftrightarrow> h f = Some F \<and> kind F = Function \<and> p \<in> set (children F) \<and> h p = Some P \<and> kind P = Block \<and>
     parent P = Some f \<and> i \<in> set (children P) \<and> h i = Some x \<and> kind x = Instruction \<and> parent x = Some p"

lemma instr_inI:
  assumes "wf_heap h" "h f = Some F" "kind F = Function" "p \<in> set (children F)" "h p = Some P" "i \<in> set (children P)"
  obtains x where "instr_in h f F p P i x"
proof -
  from wf_child [OF assms(1,2,4)] assms(5) have P: "parent P = Some f" "accepts (kind F) (kind P)" by auto
  then have k: "kind P = Block" using assms(3) by simp
  from wf_child [OF assms(1,5,6)] obtain x where "h i = Some x" "parent x = Some p" "accepts (kind P) (kind x)" .
  with P k assms show thesis by (intro that [of x]) (simp add: instr_in_def)
qed

lemma unat_resize:
  fixes a :: "64 word"
  assumes "old \<le> unat a" "unat a - old + new < 2 ^ 63"
  shows "unat (a + (of_nat new - of_nat old)) = unat a - old + new"
proof -
  have "of_nat (unat a - old + new) = a + (of_nat new - of_nat old)"
    using assms(1) by (simp add: of_nat_diff)
  then have "unat (a + (of_nat new - of_nat old)) = unat (of_nat (unat a - old + new) :: 64 word)" by (simp only:)
  also have "\<dots> = unat a - old + new"
    using assms(2) by (subst unat_of_nat) simp
  finally show ?thesis .
qed

text \<open>The sizes of the block and the function change by the same amount.\<close>

lemma resize_ancestors:
  assumes "wf_heap h" "instr_in h f F p P i x" "unat (the_size h f) - unat (the_size h i) + new < 2 ^ 63"
  defines "s \<equiv> of_nat new - the_size h i"
  shows "unat (the_size h i) \<le> unat (computedSize P)" "unat (computedSize P) \<le> unat (computedSize F)"
    and "unat (computedSize P + s) = unat (computedSize P) - unat (the_size h i) + new"
    and "unat (computedSize F + s) = unat (computedSize F) - unat (the_size h i) + new"
    and "unat (computedSize F) - unat (the_size h i) + new < 2 ^ 63"
proof -
  have i: "h f = Some F" "kind F = Function" "p \<in> set (children F)" "h p = Some P" "kind P = Block" "i \<in> set (children P)"
    using assms(2) by (simp_all add: instr_in_def)
  have F: "unat (computedSize F) = total_size h (children F)" "the_size h f = computedSize F"
    using wf_total [OF assms(1) i(1)] i(2) by (simp_all add: code_kind_def)
  have P: "unat (computedSize P) = total_size h (children P)" "the_size h p = computedSize P"
    using wf_total [OF assms(1) i(4)] i(5) by (simp_all add: code_kind_def)
  show 1: "unat (the_size h i) \<le> unat (computedSize P)" using P(1) member_total [OF i(6)] by simp
  show 2: "unat (computedSize P) \<le> unat (computedSize F)" using F(1) P(2) member_total [OF i(3), of h] by simp
  show 3: "unat (computedSize F) - unat (the_size h i) + new < 2 ^ 63" using assms(3) F(2) by simp
  have s: "s = of_nat new - of_nat (unat (the_size h i))" by (simp add: s_def)
  show "unat (computedSize F + s) = unat (computedSize F) - unat (the_size h i) + new"
    unfolding s by (rule unat_resize) (use 1 2 3 in auto)
  show "unat (computedSize P + s) = unat (computedSize P) - unat (the_size h i) + new"
    unfolding s by (rule unat_resize) (use 1 2 3 in auto)
qed

lemma resized_sizes:
  assumes "instr_in h f F p P i x" "semantic x \<noteq> None"
  shows "the_size (h(i \<mapsto> resized n x)) d = (if d = i then n else the_size h d)"
  using assms by (auto simp: the_size_def size_of_def chunk_getSize_def instr_in_def resized_def option.map_comp comp_def)

lemma resized_struct:
  assumes "wf_heap h" "h i = Some x" "kind x = Instruction" "(h(i \<mapsto> resized n x)) d = Some y"
  shows "distinct (children y) \<and> (\<forall>e \<in> set (children y). child_ok (h(i \<mapsto> resized n x)) d y e) \<and> parent_ok (h(i \<mapsto> resized n x)) y \<and>
    (code_kind (kind y) \<longrightarrow> siblings (h(i \<mapsto> resized n x)) None (children y) None) \<and> (kind y = Instruction \<longrightarrow> semantic y \<noteq> None)"
proof -
  let ?k = "h(i \<mapsto> resized n x)"
  obtain z where z: "h d = Some z" "kind y = kind z" "children y = children z" "parent y = parent z" "semantic y = None \<longleftrightarrow> semantic z = None"
    using assms(2,4) by (cases "d = i") auto
  have v: "map_option kind (?k e) = map_option kind (h e)" "map_option parent (?k e) = map_option parent (h e)" for e
    using assms(2) by simp_all
  have "child_ok ?k d y e \<longleftrightarrow> child_ok h d z e" for e
    unfolding child_ok_kind [OF z(2)] by (rule struct_views(1) [OF v])
  moreover have "parent_ok ?k y \<longleftrightarrow> parent_ok h z"
    unfolding parent_ok_view [OF z(2,4)] by (rule struct_views(2) [OF v])
  moreover have "siblings ?k a cs e = siblings h a cs e" for a cs e
    by (rule siblings_cong) (use assms(2) in simp)
  ultimately show ?thesis
    using wf_chunk [OF assms(1) z(1)] z by (auto simp: chunk_ok_def struct_ok_def size_ok_def)
qed

lemma wf_resize:
  assumes wf: "wf_heap h" and i: "instr_in h f F p P i x" and room: "unat (the_size h f) - unat (the_size h i) + new < 2 ^ 63"
  shows "wf_heap (grow {f, p} (of_nat new - the_size h i) (h(i \<mapsto> resized (of_nat new) x)))"
    (is "wf_heap (grow _ ?s ?k)")
proof -
  have in': "h f = Some F" "kind F = Function" "p \<in> set (children F)" "h p = Some P" "kind P = Block" "parent P = Some f"
      "i \<in> set (children P)" "h i = Some x" "kind x = Instruction" "parent x = Some p"
    using i by (simp_all add: instr_in_def)
  have sem: "semantic x \<noteq> None"
    using wf_chunk [OF wf in'(8)] in'(9) by (simp add: chunk_ok_def struct_ok_def size_ok_def)
  note sz = resized_sizes [OF i sem, of "of_nat new"]
  have ne: "f \<noteq> i" "p \<noteq> i" "f \<noteq> p" using in' by auto
  have A: "sized_ancestors p P = {f, p}" using in'(5,6) by (auto simp: sized_ancestors_def)
  note anc = resize_ancestors [OF wf i room]
  have newP: "unat (computedSize P + ?s) = total_size ?k (children P)"
  proof -
    have small: "unat (of_nat new :: 64 word) = new" using anc(5) by (simp add: unat_of_nat)
    have "distinct (children P)" using wf_chunk [OF wf in'(4)] by (simp add: chunk_ok_def struct_ok_def)
    from total_size_grow [of "children P" i ?k h, OF _ this] sz in'(7) small
    have "total_size ?k (children P) + unat (the_size h i) = total_size h (children P) + new" by simp
    then show ?thesis using anc(1,3) wf_total(1) [OF wf in'(4)] in'(5) by (simp add: code_kind_def)
  qed
  have tot: "total_size ?k cs = total_size h cs" if "i \<notin> set cs" for cs
    using that sz by (auto simp: total_size_def intro!: arg_cong [where f = sum_list] map_cong)
  have only: "d = p" if "h d = Some y" "i \<in> set (children y)" for d y
    using wf_child [OF wf that] in'(8,10) by auto
  have sums: "sums_except ?k p"
    unfolding sums_except_def
  proof (intro allI impI)
    fix d y assume y: "?k d = Some y" "d \<noteq> p" "code_kind (kind y)"
    then have hd: "h d = Some y" using in'(9) by (auto simp: code_kind_def split: if_splits)
    have n: "i \<notin> set (children y)" using only [OF hd] y(2) by blast
    show "unat (computedSize y) = total_size ?k (children y) \<and> unat (computedSize y) < 2 ^ 63"
      using wf_total(1,2) [OF wf hd y(3)] unfolding tot [OF n] by blast
  qed
  have st: "struct_ok (grow {f, p} ?s ?k) d y" if "grow {f, p} ?s ?k d = Some y" for d y
    unfolding A [symmetric]
  proof (rule struct_grow [OF _ _ sums _ resized_struct [OF wf in'(8,9)] newP])
    show "?k p = Some P" "code_kind (kind P)" using in'(4,5) ne(2) by (simp_all add: code_kind_def)
    show "attached ?k p P" using in'(1,3,6) ne(1) by (simp add: attached_def)
    show "unat (computedSize P + ?s) < 2 ^ 63" using anc(2-5) by linarith
    fix g G assume "parent P = Some g" "?k g = Some G"
    then have "G = F" using in'(1,6) ne(1) by simp
    then show "unat (computedSize G + ?s) + unat (computedSize P) = unat (computedSize G) + unat (computedSize P + ?s) \<and>
        unat (computedSize G + ?s) < 2 ^ 63"
      using anc by simp
  qed (use that in \<open>simp_all only: A\<close>)
  show ?thesis
    unfolding wf_heap_def chunk_ok_def
  proof (intro allI impI conjI)
    fix d y assume y: "grow {f, p} ?s ?k d = Some y"
    then show "struct_ok (grow {f, p} ?s ?k) d y" by (rule st)
    obtain z where z: "h d = Some z" "kind y = kind z" "position y = position z" "parent y = parent z"
      using y in'(8) by (cases "d \<in> {f, p}"; cases "d = i") (auto simp: grow_def)
    show "position_ok d y"
      using wf_chunk [OF wf z(1)] unfolding chunk_ok_def position_ok_def z(2-4) by blast
  qed
qed

lemma modifiedChildSize_resized:
  assumes wf: "wf_heap h" and i: "instr_in h f F p P i x" and room: "unat (the_size h f) - unat (the_size h i) + new < 2 ^ 63"
    and added: "scast added = of_nat new - the_size h i"
  shows "modifiedChildSize p added (h(i \<mapsto> resized (of_nat new) x)) =
    Some (grow {f, p} (of_nat new - the_size h i) (h(i \<mapsto> resized (of_nat new) x)))"
    (is "_ = Some (grow _ ?s ?k)")
proof -
  have in': "h f = Some F" "kind F = Function" "h p = Some P" "kind P = Block" "parent P = Some f" "h i = Some x" "kind x = Instruction"
    using i by (simp_all add: instr_in_def)
  have ne: "f \<noteq> i" "p \<noteq> i" using in' by auto
  have A: "sized_ancestors p P = {f, p}" using in'(4,5) by (auto simp: sized_ancestors_def)
  note anc = resize_ancestors [OF wf i room]
  have "for_ancestors (\<lambda>h. addToSize (scast added)) (Some p) ?k = Some (grow (sized_ancestors p P) ?s ?k)"
  proof (rule for_ancestors_grow)
    show "?k p = Some P" "code_kind (kind P)" using in'(3,4) ne by (simp_all add: code_kind_def)
    fix d y assume y: "?k d = Some y"
    then show "parent_ok ?k y" using resized_struct [OF wf in'(6,7) y] by blast
  next
    fix d y assume y: "d \<in> sized_ancestors p P" "?k d = Some y" "code_kind (kind y)"
    then have "y = P \<or> y = F" using A ne in'(1,3) by auto
    then have "unat (computedSize y + ?s) < 2 ^ 63" using anc by auto
    then show "addToSize (scast added) y = Some (y\<lparr>computedSize := computedSize y + ?s\<rparr>)"
      unfolding added by (rule addToSize_code [OF y(3)])
  qed (simp add: addToSize_def)
  then show ?thesis by (simp add: modifiedChildSize_def A)
qed

text \<open>
  The whole step: the instruction has the new size, the function is laid out, nothing but sizes and positions changed,
  and what had an address still has one.
\<close>

definition resizes :: "cid \<Rightarrow> cid \<Rightarrow> nat \<Rightarrow> heap \<Rightarrow> heap \<Rightarrow> bool" where
  "resizes f i new h h' \<longleftrightarrow>
     wf_heap h' \<and> absolute_function h' f \<and> laid_out h' f \<and> children_of h' = children_of h \<and>
     the_size h' i = of_nat new \<and> unat (the_size h' f) = unat (the_size h f) - unat (the_size h i) + new \<and>
     (\<forall>d y. h d = Some y \<longrightarrow> kind y = Instruction \<longrightarrow> d \<noteq> i \<longrightarrow> the_size h' d = the_size h d) \<and>
     (\<forall>d. located h d \<longrightarrow> located h' d) \<and> (\<forall>d. size_of h d \<noteq> None \<longrightarrow> size_of h' d \<noteq> None)"

lemma grown_address:
  assumes wf: "wf_heap h" and i: "instr_in h f F p P i x" and d: "h d = Some y"
  shows "getAddress (grow A s (h(i \<mapsto> resized n x))) d = getAddress h d" (is "getAddress ?k d = _")
proof -
  have in': "h p = Some P" "h i = Some x" "kind x = Instruction" "parent x = Some p" "p \<noteq> i"
    using i by (auto simp: instr_in_def)
  have other: "getAddress ?k e = getAddress h e" if "h e = Some z" "e \<noteq> i" for e z
    using that by (intro getAddress_agree [OF wf in'(2) refl, of ?k]) (auto simp: grow_def in'(3))
  show ?thesis
  proof (cases "d = i")
    case True
    obtain off where off: "position x = Some (OffsetPosition i off)"
      using wf_positioned [OF wf in'(2)] in'(3,4) by auto
    obtain x' where "?k i = Some x'" "kind x' = Instruction" "position x' = Some (OffsetPosition i off)" "parent x' = Some p"
      using in' off by (cases "i \<in> A") (auto simp: grow_def)
    then show ?thesis
      using getAddress_offset [of ?k i x' off p] getAddress_offset [of h i x off p] in' off other [OF in'(1,5)] True by simp
  qed (use other d in blast)
qed

lemma resize_step:
  assumes wf: "wf_heap h" and abs: "absolute_function h f" and i: "instr_in h f F p P i x"
    and room: "unat (the_size h f) - unat (the_size h i) + new < 2 ^ 63" and added: "scast added = of_nat new - the_size h i"
  shows "\<exists>h'. with_mutator MODE_OFFSET p (modifiedChildSize p added) (h(i \<mapsto> resized (of_nat new) x)) = Some h' \<and> resizes f i new h h'"
proof -
  let ?s = "of_nat new - the_size h i" let ?r = "h(i \<mapsto> resized (of_nat new) x)" let ?k = "grow {f, p} ?s ?r"
  have in': "h f = Some F" "kind F = Function" "h p = Some P" "kind P = Block" "parent P = Some f" "h i = Some x" "kind x = Instruction"
    using i by (simp_all add: instr_in_def)
  have ne: "f \<noteq> i" "p \<noteq> i" "f \<noteq> p" using in' by auto
  have sem: "semantic x \<noteq> None"
    using wf_chunk [OF wf in'(6)] in'(7) by (simp add: chunk_ok_def struct_ok_def size_ok_def)
  have wk: "wf_heap ?k" by (rule wf_resize [OF wf i room])
  have kf: "?k f = Some (F\<lparr>computedSize := computedSize F + ?s\<rparr>)" using in'(1) ne(1) by (simp add: grow_def)
  have ak: "absolute_function ?k f" using abs in'(1) kf by (simp add: absolute_function_def)
  have "in_function ?k f p" using in'(3-5) ne(2) by (simp add: in_function_def grow_def)
  note up = updatePositions_function [OF wk ak kf this]
  define D where "D = below ?k (children (F\<lparr>computedSize := computedSize F + ?s\<rparr>))"
  have mv: "movable ?k D"
    unfolding D_def by (rule movable_below [OF wk kf]) (simp_all add: in'(2) code_kind_def)
  have fr: "same_frame ?k (canonical D ?k)" by (rule same_frame_canonical)
  have the_k: "the_size ?k d = the_size ?r d + (if d \<in> {f, p} \<and> ?r d \<noteq> None then ?s else 0)" for d
    using in' ne by (intro grow_sizes) (auto simp: code_kind_def)
  have sz: "the_size (canonical D ?k) d = (if d = i then of_nat new else the_size h d) + (if d \<in> {f, p} then ?s else 0)" for d
    unfolding the_size_frame [OF fr] the_k resized_sizes [OF i sem] using in' ne by auto
  have "resizes f i new h (canonical D ?k)"
    unfolding resizes_def
  proof (intro conjI allI impI)
    show "wf_heap (canonical D ?k)" by (rule wf_canonical [OF wk mv])
    show "laid_out (canonical D ?k) f" unfolding D_def by (rule laid_out_canonical [OF wk ak kf])
    show "absolute_function (canonical D ?k) f"
      using ak by (auto simp: absolute_function_def canonical_def split: option.splits)
    show "children_of (canonical D ?k) = children_of h"
    proof
      fix d
      show "children_of (canonical D ?k) d = children_of h d"
        using in'(6) by (cases "h d"; cases "d = i"; cases "d \<in> {f, p}"; cases "d \<in> D") (auto simp: children_of_def canonical_def grow_def)
    qed
    show "the_size (canonical D ?k) i = of_nat new" unfolding sz using ne by simp
    have "the_size (canonical D ?k) f = computedSize F + ?s"
      unfolding sz using ne wf_total(3) [OF wf in'(1)] in'(2) by (simp add: code_kind_def)
    then show "unat (the_size (canonical D ?k) f) = unat (the_size h f) - unat (the_size h i) + new"
      using resize_ancestors(4) [OF wf i room] wf_total(3) [OF wf in'(1)] in'(2) by (simp add: code_kind_def)
    fix d
    show "the_size (canonical D ?k) d = the_size h d" if "h d = Some y" "kind y = Instruction" "d \<noteq> i" for y
      unfolding sz using that in' by auto
    show "located (canonical D ?k) d" if l: "located h d"
    proof -
      obtain y where y: "h d = Some y" using l unfolding located_def by (subst (asm) getAddress.simps) (auto split: bind_splits)
      then obtain z where z: "?k d = Some z" using in'(6) by (cases "d = i") (auto simp: grow_def)
      have "located ?k d" using l grown_address [OF wf i y] by (simp add: located_def)
      then show ?thesis by (rule located_canonical [of ?k, OF wk mv z])
    qed
    show "size_of (canonical D ?k) d \<noteq> None" if sd: "size_of h d \<noteq> None"
    proof -
      obtain y where "h d = Some y" using sd by (auto simp: size_of_def split: bind_splits)
      then obtain z where z: "canonical D ?k d = Some z" using in'(6) by (cases "d = i") (auto simp: grow_def canonical_def)
      show ?thesis using wf_size(2) [of "canonical D ?k" d z, OF wf_canonical [OF wk mv] z] by (simp only: option.distinct not_False_eq_True)
    qed
  qed
  then show ?thesis
    using modifiedChildSize_resized [OF wf i room added] up by (simp add: with_mutator_def D_def)
qed

end
