(* ===== verification/MutatorLayout.thy ===== *)
theory MutatorLayout
  imports ChunkRemove
begin

section \<open>What the mutator guarantees\<close>

text \<open>
  The theorems on the mutator, with a function of one block as the example on which their
  hypotheses are evaluated, and the cases in which the code does not keep its documentation.
\<close>

definition ex_chunk :: "ChunkKind \<Rightarrow> cid option \<Rightarrow> cid list \<Rightarrow> Position option \<Rightarrow> 64 word \<Rightarrow> Chunk" where
  "ex_chunk k pa cs pos sz = \<lparr>kind = k, parent = pa, prevSibling = None, nextSibling = None, children = cs,
     position = pos, slotPosition = None, computedSize = sz, semantic = None\<rparr>"

definition ex_instruction :: "cid option \<Rightarrow> Position option \<Rightarrow> 64 word \<Rightarrow> Chunk" where
  "ex_instruction pa pos sz = (ex_chunk Instruction pa [] pos 0)\<lparr>semantic := Some (IsolatedInstruction 0 sz)\<rparr>"

text \<open>Function 0 at 0x1000, its block 1, its instructions 2 and 3, and a new instruction 4.\<close>

definition ex_heap :: heap where
  "ex_heap = Map.empty(
     0 \<mapsto> ex_chunk Function None [1] (Some (AbsolutePosition 0x1000)) 7,
     1 \<mapsto> ex_chunk Block (Some 0) [2, 3] (Some (OffsetPosition 1 0)) 7,
     2 \<mapsto> (ex_instruction (Some 1) (Some (OffsetPosition 2 0)) 4)\<lparr>nextSibling := Some 3\<rparr>,
     3 \<mapsto> (ex_instruction (Some 1) (Some (OffsetPosition 3 4)) 3)\<lparr>prevSibling := Some 2\<rparr>,
     4 \<mapsto> ex_instruction None None 5)"

lemmas ex_defs = ex_heap_def ex_instruction_def ex_chunk_def

lemma ex_heap_eq: "ex_heap d = Some x \<longleftrightarrow>
   d = 0 \<and> x = ex_chunk Function None [1] (Some (AbsolutePosition 0x1000)) 7 \<or>
   d = 1 \<and> x = ex_chunk Block (Some 0) [2, 3] (Some (OffsetPosition 1 0)) 7 \<or>
   d = 2 \<and> x = (ex_instruction (Some 1) (Some (OffsetPosition 2 0)) 4)\<lparr>nextSibling := Some 3\<rparr> \<or>
   d = 3 \<and> x = (ex_instruction (Some 1) (Some (OffsetPosition 3 4)) 3)\<lparr>prevSibling := Some 2\<rparr> \<or>
   d = 4 \<and> x = ex_instruction None None 5"
  by (auto simp: ex_heap_def)

lemma ex_sizes: "the_size ex_heap 0 = 7" "the_size ex_heap 1 = 7" "the_size ex_heap 2 = 4" "the_size ex_heap 3 = 3" "the_size ex_heap 4 = 5"
  by (simp_all add: the_size_def size_of_def chunk_getSize_def ex_defs)

lemma ex_wf: "wf_heap ex_heap"
proof -
  have "chunk_ok ex_heap d x" if "ex_heap d = Some x" for d x
    using that unfolding ex_heap_eq
    by (elim disjE conjE)
      (simp_all add: chunk_ok_def struct_ok_def child_ok_def parent_ok_def position_ok_def size_ok_def
        total_size_def code_kind_def ex_defs the_size_def size_of_def chunk_getSize_def)
  then show ?thesis by (simp add: wf_heap_def)
qed

lemma ex_located: "getAddress ex_heap 0 = Some 0x1000" "getAddress ex_heap 1 = Some 0x1000"
proof -
  show *: "getAddress ex_heap 0 = Some 0x1000" by (subst getAddress.simps) (simp add: ex_defs getPosition_def)
  show "getAddress ex_heap 1 = Some 0x1000" by (subst getAddress.simps) (use * in \<open>simp add: ex_defs getPosition_def\<close>)
qed

lemma ex_function: "absolute_function ex_heap 0" "in_function ex_heap 0 1"
  by (simp_all add: absolute_function_def in_function_def ex_defs)

lemma ex_insertable: "insertable ex_heap 1 4"
proof -
  have "unat (computedSize y) + unat (the_size ex_heap 4) < 2 ^ 63" if "ex_heap d = Some y" for d y
    using that unfolding ex_heap_eq by (elim disjE conjE) (simp_all add: ex_sizes ex_instruction_def ex_chunk_def)
  moreover have "free_chunk ex_heap 4"
    unfolding free_chunk_def ex_heap_eq by (auto simp: ex_defs)
  moreover have "attached ex_heap 1 (ex_chunk Block (Some 0) [2, 3] (Some (OffsetPosition 1 0)) 7)"
    by (simp add: attached_def ex_defs)
  ultimately show ?thesis
    using ex_wf ex_located by (simp add: insertable_def located_def) (simp add: ex_defs code_kind_def)
qed

lemma ex_append: "append_pre 1 4 ex_heap"
  using ex_insertable by (simp add: append_pre_def) (simp add: ex_defs)

lemma ex_insert: "insert_pre 1 3 4 ex_heap"
  using ex_insertable by (simp add: insert_pre_def) (simp add: kids_def ex_defs)

lemma ex_removable: "removable 1 2 ex_heap"
  using ex_wf by (simp add: removable_def) (simp add: kids_def attached_def code_kind_def ex_defs)

lemma ex_kids: "kids ex_heap 1 = [2, 3]" "kids ex_heap (Suc 0) = [2, 3]"
  by (simp_all add: kids_def ex_defs)

subsection \<open>Edits of a laid-out function\<close>

text \<open>Claim C19: appending a chunk through a mutator returns, puts it at the end of the children of its
  parent and changes no other list of children, keeps the tree well-formed (sibling pointers,
  parents and sizes) and leaves every chunk of the function at the end of its predecessors.\<close>

theorem append_lays_out:
  assumes "append_pre p c h" "absolute_function h f" "in_function h f p"
  shows "\<exists>h'. with_mutator MODE_OFFSET p (append_child MODE_OFFSET p c) h = Some h' \<and> wf_heap h' \<and>
    edits p (kids h p @ [c]) h h' \<and> laid_out h' f"
  using assms by (rule app.mutator_ok)

theorem append_lays_out_witness:
  "\<exists>h'. with_mutator MODE_OFFSET 1 (append_child MODE_OFFSET 1 4) ex_heap = Some h' \<and> wf_heap h' \<and>
    edits 1 [2, 3, 4] ex_heap h' \<and> laid_out h' 0"
  using append_lays_out [OF ex_append ex_function] by (simp add: ex_kids)

text \<open>Claim C5: inserting a chunk after or before a child returns, puts it next to that child and keeps
  the tree well-formed and the function laid out.\<close>

theorem insert_lays_out:
  assumes "insert_pre p ip c h" "absolute_function h f" "in_function h f p"
  shows "(\<exists>h'. with_mutator MODE_OFFSET p (insertAfter MODE_OFFSET p (Some ip) c) h = Some h' \<and> wf_heap h' \<and>
      edits p (insert_after ip c (kids h p)) h h' \<and> laid_out h' f) \<and>
    (\<exists>h'. with_mutator MODE_OFFSET p (insertBefore MODE_OFFSET p (Some ip) c) h = Some h' \<and> wf_heap h' \<and>
      edits p (insert_before ip c (kids h p)) h h' \<and> laid_out h' f)"
  using aft.mutator_ok [OF assms] bef.mutator_ok [OF assms] by blast

theorem insert_lays_out_witness:
  "\<exists>h'. with_mutator MODE_OFFSET 1 (insertBefore MODE_OFFSET 1 (Some 3) 4) ex_heap = Some h' \<and> wf_heap h' \<and>
    edits 1 [2, 4, 3] ex_heap h' \<and> laid_out h' 0"
  using insert_lays_out [OF ex_insert ex_function] by (simp add: ex_kids)

text \<open>Claim C13: removing a child returns, takes it out of the list of its parent and of the chain of
  siblings, and keeps the tree well-formed and the function laid out.\<close>

theorem remove_lays_out:
  assumes "removable p c h" "absolute_function h f" "in_function h f p"
  shows "\<exists>h'. with_mutator MODE_OFFSET p (remove_child p c) h = Some h' \<and> wf_heap h' \<and>
    edits p (remove1 c (kids h p)) h h' \<and> laid_out h' f"
  using assms by (rule rmv.mutator_ok)

theorem remove_lays_out_witness:
  "\<exists>h'. with_mutator MODE_OFFSET 1 (remove_child 1 2) ex_heap = Some h' \<and> wf_heap h' \<and>
    edits 1 [3] ex_heap h' \<and> laid_out h' 0"
  using remove_lays_out [OF ex_removable ex_function] by (simp add: ex_kids)

subsection \<open>Where the layout is lost\<close>

lemma for_ancestors_eval:
  "for_ancestors B None h = Some h"
  "for_ancestors B (Some c) h = do { x \<leftarrow> h c; if kind x = Module then Some h
     else do { x' \<leftarrow> B h x; for_ancestors B (parent x') (h(c \<mapsto> x')) } }"
  by (subst for_ancestors.simps, simp)+

lemma update_ancestors_eval:
  "update_ancestors None h = Some h"
  "update_ancestors (Some c) h = do { x \<leftarrow> h c;
     h \<leftarrow> (if is_absolute (getPosition x) then updatePositionHelper [c] h else Some h); update_ancestors (parent x) h }"
  by (subst update_ancestors.simps, simp)+

lemma updatePositionHelper_eval:
  "updatePositionHelper [] h = Some h"
  "updatePositionHelper (c # cs) h = do { (visited, h) \<leftarrow> recalculate_at c h; x \<leftarrow> h c;
     h \<leftarrow> (if visited then updatePositionHelper (children x) h else Some h); updatePositionHelper cs h }"
  by (subst updatePositionHelper.simps, simp)+

lemma getAddress_eval:
  "h c = Some x \<Longrightarrow> getPosition x = Some (AbsolutePosition a) \<Longrightarrow> getAddress h c = Some a"
  "h c = Some x \<Longrightarrow> getPosition x = Some (SlotPosition s) \<Longrightarrow> getAddress h c = Some (slot_address s)"
  "h c = Some x \<Longrightarrow> getPosition x = Some (OffsetPosition d off) \<Longrightarrow> h d = Some y \<Longrightarrow> parent y = Some q \<Longrightarrow>
     getAddress h c = do { a \<leftarrow> getAddress h q; Some (a + off) }"
  by (subst getAddress.simps, simp)+

lemmas mutator_eval = with_mutator_def insertAfter_def append_child_def setPreviousSibling_def setNextSibling_def
  set_previous_def set_next_def set_parent_def update_chunk_def follow_def store_position_def genericInsertAt_def genericAdd_def
  children_of_def insertAt_def getLast_def ensure_position_def makePositionFor_def newChunkCursor_def cursor_prev_def cursor_get_def
  makePosition_def setPosition_def updateSizesAndAuthorities_def for_ancestors_eval size_of_def chunk_getSize_def
  addToSize_def adjustBy_def reset_first_child_def updatePositions_def update_ancestors_eval
  updatePositionHelper_eval recalculate_at_def OffsetPosition_recalculate_def getAddress_eval getPosition_def kids_def

text \<open>The comment on \<^verbatim>\<open>insertAfter\<close> says that without an insertion point the new chunk
  becomes the first child. It does, but the old first child is not linked to it, so both get the
  same address.\<close>

lemma insertAfter_null_overlaps:
  "\<exists>h'. with_mutator MODE_OFFSET 1 (insertAfter MODE_OFFSET 1 None 4) ex_heap = Some h' \<and>
    kids h' 1 = [4, 2, 3] \<and> getAddress h' 4 = Some 0x1000 \<and> getAddress h' 2 = Some 0x1000"
  by (simp add: mutator_eval ex_defs)

text \<open>The example with its function assigned to a slot.\<close>

definition ex_assigned :: heap where
  "ex_assigned = ex_heap(0 \<mapsto> (ex_chunk Function None [1] (Some (AbsolutePosition 0x1000)) 7)\<lparr>
     slotPosition := Some \<lparr>slot_address = 0x2000, slot_size = 64\<rparr>\<rparr>)"


end
