(* ===== verification/Loops.thy ===== *)
theory Loops
  imports Prelude "HOL-Library.Monad_Syntax"
begin

section \<open>Passes that repeat until nothing changes\<close>

text \<open>
  A \<^verbatim>\<open>do\<close>-\<^verbatim>\<open>while\<close> loop whose body says whether it is to run again. \<open>None\<close> is a body without a result or a loop
  that does not end. The contract \<open>settling_pass\<close>: a run of the body keeps an invariant, and decreases a measure
  when it asks for another one. \<open>for_each\<close> is a loop over a list whose body may call a function that is being defined.
\<close>

primrec for_each :: "('b \<Rightarrow> 's \<Rightarrow> 's option) \<Rightarrow> 'b list \<Rightarrow> 's \<Rightarrow> 's option" where
  "for_each body [] s = Some s"
| "for_each body (x # xs) s = do { s \<leftarrow> body x s; for_each body xs s }"

lemma for_each_mono [partial_function_mono]:
  assumes "\<And>x s. mono_option (\<lambda>f. body f x s)"
  shows "mono_option (\<lambda>f. for_each (body f) xs s)"
proof (induction xs arbitrary: s)
  case (Cons x xs)
  then show ?case
    by (simp add: assms bind_mono)
qed (simp add: option.const_mono)

lemma for_each_append [simp]: "for_each body (xs @ ys) s = do { s \<leftarrow> for_each body xs s; for_each body ys s }"
  by (induction xs arbitrary: s) (simp_all add: bind_assoc)

lemma for_each_invariant:
  assumes "I [] s" "\<And>x ys s. x \<in> set xs \<Longrightarrow> I ys s \<Longrightarrow> \<exists>s'. body x s = Some s' \<and> I (ys @ [x]) s'"
  shows "\<exists>s'. for_each body xs s = Some s' \<and> I xs s'"
proof -
  have "\<exists>s'. for_each body zs s = Some s' \<and> I (ys @ zs) s'" if "set zs \<subseteq> set xs" "I ys s" for ys zs s
    using that
  proof (induction zs arbitrary: ys s)
    case (Cons x zs)
    then obtain s' where s': "body x s = Some s'" "I (ys @ [x]) s'" using assms(2) [of x ys s] by auto
    with Cons.IH [of "ys @ [x]" s'] Cons.prems(1) show ?case by simp
  qed simp
  from this [of xs "[]" s] assms(1) show ?thesis by simp
qed

lemma for_each_upt:
  assumes "I 0 s" "\<And>k s. k < n \<Longrightarrow> I k s \<Longrightarrow> \<exists>s'. body k s = Some s' \<and> I (Suc k) s'"
  shows "\<exists>s'. for_each body [0..<n] s = Some s' \<and> I n s'"
  using assms(2)
proof (induction n)
  case (Suc n)
  then obtain s1 where s1: "for_each body [0..<n] s = Some s1" "I n s1" by (auto simp: less_Suc_eq)
  with Suc.prems [of n s1] show ?case by auto
qed (use assms(1) in simp)

partial_function (option) do_while :: "('s \<Rightarrow> ('s \<times> bool) option) \<Rightarrow> 's \<Rightarrow> 's option" where
  "do_while body s = do { (s', again) \<leftarrow> body s; if again then do_while body s' else Some s' }"

locale settling_pass =
  fixes body :: "'s \<Rightarrow> ('s \<times> bool) option" and inv :: "'s \<Rightarrow> bool" and weight :: "'s \<Rightarrow> nat" and settled :: "'s \<Rightarrow> bool"
  assumes body_ok: "inv s \<Longrightarrow> \<exists>s' again. body s = Some (s', again) \<and> inv s' \<and> (if again then weight s' < weight s else settled s')"
begin

lemma settles: "inv s \<Longrightarrow> \<exists>s'. do_while body s = Some s' \<and> inv s' \<and> settled s'"
proof (induction "weight s" arbitrary: s rule: less_induct)
  case less
  from body_ok [OF less.prems] obtain s' again where
    b: "body s = Some (s', again)" "inv s'" "if again then weight s' < weight s else settled s'" by blast
  show ?case
  proof (cases again)
    case True
    with b less.hyps [of s'] show ?thesis by (subst do_while.simps) simp
  next
    case False
    with b show ?thesis by (subst do_while.simps) simp
  qed
qed

end

end
