(* ===== verification/PromoteJumps.thy ===== *)
theory PromoteJumps
  imports X86Generate ChunkResize MutatorLayout Loops
begin

unbundle bit_operations_syntax

section \<open>Promotion of short jumps (\<^verbatim>\<open>src/pass/promotejumps.cpp\<close>)\<close>

text \<open>
  The pass gives a jump with a one-byte displacement a wider opcode when its target is out of reach, or outside the
  function and so may move, and repeats until no jump changes, since every widened jump moves what follows. It calls
  \<^verbatim>\<open>std::abort\<close> when a distance does not fit 32 bits; \<open>pj_aborted\<close> says so, and then nothing is visited any more.
  The heap has the chunks and \<open>pj_sem\<close> the semantics of the instructions. The numbers of instructions in the
  disassembler library are a parameter, as a function from numbers to the names of jumps.
\<close>

datatype X86Jump =
    JMP | JA | JAE | JB | JBE | JG | JGE | JL | JLE | JNO | JNP | JNS | JO | JP | JS | JE | JNE | JCXZ | JRCXZ | JECXZ | OtherJump

fun getWiderOpcode :: "X86Jump \<Rightarrow> byte list" where
  "getWiderOpcode JMP = [0xe9]"
| "getWiderOpcode JA = [0x0f, 0x87]"
| "getWiderOpcode JAE = [0x0f, 0x83]"
| "getWiderOpcode JB = [0x0f, 0x82]"
| "getWiderOpcode JBE = [0x0f, 0x86]"
| "getWiderOpcode JG = [0x0f, 0x8f]"
| "getWiderOpcode JGE = [0x0f, 0x8d]"
| "getWiderOpcode JL = [0x0f, 0x8c]"
| "getWiderOpcode JLE = [0x0f, 0x8e]"
| "getWiderOpcode JNO = [0x0f, 0x81]"
| "getWiderOpcode JNP = [0x0f, 0x8b]"
| "getWiderOpcode JNS = [0x0f, 0x89]"
| "getWiderOpcode JO = [0x0f, 0x80]"
| "getWiderOpcode JP = [0x0f, 0x8a]"
| "getWiderOpcode JS = [0x0f, 0x88]"
| "getWiderOpcode JE = [0x0f, 0x84]"
| "getWiderOpcode JNE = [0x0f, 0x85]"
| "getWiderOpcode JCXZ = []"
| "getWiderOpcode JRCXZ = []"
| "getWiderOpcode JECXZ = []"
| "getWiderOpcode OtherJump = []"

definition fitsIn :: "'n::len itself \<Rightarrow> address \<Rightarrow> bool" where
  "fitsIn n a \<longleftrightarrow> scast (ucast a :: 'n word) = a"

record pj_state =
  pj_heap :: heap
  pj_sem :: "cid \<Rightarrow> cid InstructionSemantic"
  pj_changed :: bool
  pj_aborted :: bool

definition widen :: "(32 word \<Rightarrow> X86Jump) \<Rightarrow> cid ControlFlowInstr \<Rightarrow> cid ControlFlowInstr" where
  "widen J v = v\<lparr>cf_opcode := getWiderOpcode (J (cf_id v)), cf_displacementSize := 4\<rparr>"

definition promote :: "PositionMode \<Rightarrow> (32 word \<Rightarrow> X86Jump) \<Rightarrow> cid \<Rightarrow> cid ControlFlowInstr \<Rightarrow> pj_state \<Rightarrow> pj_state option" where
  "promote m J i v st =
     do {
       let oldSize = length (cf_opcode v) + cf_displacementSize v;
       let v' = widen J v;
       let newSize = length (cf_opcode v') + cf_displacementSize v';
       x \<leftarrow> pj_heap st i;
       p \<leftarrow> parent x;
       let h = (pj_heap st)(i \<mapsto> resized (of_nat newSize) x);
       h \<leftarrow> with_mutator m p (modifiedChildSize p (ucast (of_nat newSize - of_nat oldSize :: 64 word))) h;
       Some (st\<lparr>pj_heap := h, pj_sem := (pj_sem st)(i := ControlFlow v'), pj_changed := True\<rparr>)
     }"

definition visit_jump ::
    "PositionMode \<Rightarrow> (32 word \<Rightarrow> X86Jump) \<Rightarrow> cid LinkEnv \<Rightarrow> cid \<Rightarrow> cid ControlFlowInstr \<Rightarrow> pj_state \<Rightarrow> pj_state option" where
  "visit_jump m J E i v st =
     (case cf_link v of
        None \<Rightarrow> Some st
      | Some l \<Rightarrow>
          do {
            disp \<leftarrow> cf_displacement (heap_env E (pj_heap st)) v;
            st \<leftarrow>
              (if cf_displacementSize v = 1 then
                 if \<not> fitsIn TYPE(8) disp then promote m J i v st
                 else do { external \<leftarrow> isExternalJump l; if external then promote m J i v st else Some st }
               else Some st);
            Some (if fitsIn TYPE(32) disp then st else st\<lparr>pj_aborted := True\<rparr>)
          })"

definition visit_instruction :: "PositionMode \<Rightarrow> (32 word \<Rightarrow> X86Jump) \<Rightarrow> cid LinkEnv \<Rightarrow> cid \<Rightarrow> pj_state \<Rightarrow> pj_state option" where
  "visit_instruction m J E i st =
     (if pj_aborted st then Some st
      else case pj_sem st i of ControlFlow v \<Rightarrow> visit_jump m J E i v st | _ \<Rightarrow> Some st)"

primrec visit_instructions :: "PositionMode \<Rightarrow> (32 word \<Rightarrow> X86Jump) \<Rightarrow> cid LinkEnv \<Rightarrow> cid list \<Rightarrow> pj_state \<Rightarrow> pj_state option" where
  "visit_instructions m J E [] st = Some st"
| "visit_instructions m J E (i # is) st = do { st \<leftarrow> visit_instruction m J E i st; visit_instructions m J E is st }"

primrec visit_blocks :: "PositionMode \<Rightarrow> (32 word \<Rightarrow> X86Jump) \<Rightarrow> cid LinkEnv \<Rightarrow> cid list \<Rightarrow> pj_state \<Rightarrow> pj_state option" where
  "visit_blocks m J E [] st = Some st"
| "visit_blocks m J E (b # bs) st =
     do { is \<leftarrow> children_of (pj_heap st) b; st \<leftarrow> visit_instructions m J E is st; visit_blocks m J E bs st }"

text \<open>One round, and whether another one follows.\<close>

definition promote_round :: "PositionMode \<Rightarrow> (32 word \<Rightarrow> X86Jump) \<Rightarrow> cid LinkEnv \<Rightarrow> cid \<Rightarrow> pj_state \<Rightarrow> (pj_state \<times> bool) option" where
  "promote_round m J E f st =
     do {
       let st = st\<lparr>pj_changed := False\<rparr>;
       bs \<leftarrow> children_of (pj_heap st) f;
       st \<leftarrow> visit_blocks m J E bs st;
       Some (st, pj_changed st \<and> \<not> pj_aborted st)
     }"

definition visit_function :: "PositionMode \<Rightarrow> (32 word \<Rightarrow> X86Jump) \<Rightarrow> cid LinkEnv \<Rightarrow> cid \<Rightarrow> pj_state \<Rightarrow> pj_state option" where
  "visit_function m J E f st = (if pj_aborted st then Some st else do_while (promote_round m J E f) st)"

primrec visit_functions :: "PositionMode \<Rightarrow> (32 word \<Rightarrow> X86Jump) \<Rightarrow> cid LinkEnv \<Rightarrow> cid list \<Rightarrow> pj_state \<Rightarrow> pj_state option" where
  "visit_functions m J E [] st = Some st"
| "visit_functions m J E (f # fs) st = do { st \<leftarrow> visit_function m J E f st; visit_functions m J E fs st }"

subsection \<open>Reach\<close>

lemma fitsIn_signed: "fitsIn TYPE('n::len) a \<longleftrightarrow> signed_take_bit (LENGTH('n) - 1) a = a" if "LENGTH('n) \<le> 64"
proof -
  have "scast (ucast a :: 'n word) = signed_take_bit (LENGTH('n) - 1) a"
  proof (rule bit_word_eqI)
    fix n assume "n < LENGTH(64)"
    with that show "bit (scast (ucast a :: 'n word) :: 64 word) n = bit (signed_take_bit (LENGTH('n) - 1) a) n"
      by (auto simp: bit_signed_iff bit_unsigned_iff bit_signed_take_bit_iff min_def not_le)
  qed
  then show ?thesis by (simp add: fitsIn_def)
qed

lemma sint_signed_take_bit:
  fixes a :: "64 word"
  assumes "signed_take_bit m a = a" "m < 64"
  shows "- (2 ^ m) \<le> sint a" "sint a < 2 ^ m"
proof -
  have b: "bit (sint a) n = bit a (min 63 n)" for n
    by (cases "n \<le> 63") (auto simp: bit_sint_iff min_absorb1 min_absorb2 dest: bit_imp_le_length)
  have "bit a (min 63 n) = bit (signed_take_bit m a) (min 63 n)" for n using assms(1) by simp
  also have "bit (signed_take_bit m a) (min 63 n) = bit a (min m n)" for n
    using assms(2) by (auto simp: bit_signed_take_bit_iff min_def)
  finally have "signed_take_bit m (sint a) = sint a"
    using assms(2) by (intro bit_eqI) (simp add: bit_signed_take_bit_iff b min_def)
  then show "- (2 ^ m) \<le> sint a" "sint a < 2 ^ m" by (simp_all add: signed_take_bit_int_eq_self_iff)
qed

lemma fitsIn_disp:
  shows "fitsIn TYPE(8) d \<Longrightarrow> disp_fits 1 d" "fitsIn TYPE(32) d \<Longrightarrow> disp_fits 4 d"
  using sint_signed_take_bit [of 7 d] sint_signed_take_bit [of 31 d]
  by (simp_all add: fitsIn_signed disp_fits_def)

subsection \<open>The invariant of the pass\<close>

definition is_short :: "cid InstructionSemantic \<Rightarrow> bool" where
  "is_short s = (case s of ControlFlow v \<Rightarrow> cf_displacementSize v = 1 | _ \<Rightarrow> False)"

definition shorts :: "cid list \<Rightarrow> pj_state \<Rightarrow> nat" where
  "shorts is st = length (filter (\<lambda>i. is_short (pj_sem st i)) is)"

text \<open>
  Jumps name their own instruction as source, have at most fifteen bytes, and links whose targets have addresses.
\<close>

definition jump_ok :: "cid LinkEnv \<Rightarrow> heap \<Rightarrow> cid \<Rightarrow> cid InstructionSemantic \<Rightarrow> bool" where
  "jump_ok E h i s =
     (case s of
        ControlFlow v \<Rightarrow> cf_source v = Some i \<and> length (cf_opcode v) \<le> 15 \<and>
          (case cf_link v of None \<Rightarrow> True | Some l \<Rightarrow> getTargetAddress (heap_env E h) l \<noteq> None)
      | _ \<Rightarrow> True)"

text \<open>Jumps that stay among the instructions of the function.\<close>

definition jump_inside :: "cid list \<Rightarrow> cid InstructionSemantic \<Rightarrow> bool" where
  "jump_inside is s =
     (case s of
        ControlFlow v \<Rightarrow>
          (case cf_link v of None \<Rightarrow> True | Some (NormalLink (Some t) scope) \<Rightarrow> t \<in> set is | _ \<Rightarrow> False)
      | _ \<Rightarrow> True)"

text \<open>\<open>K\<close> says that all jumps stay inside and the function is small, so that the pass is not to abort.\<close>

definition pj_inv :: "bool \<Rightarrow> cid LinkEnv \<Rightarrow> cid \<Rightarrow> heap \<Rightarrow> cid list \<Rightarrow> pj_state \<Rightarrow> bool" where
  "pj_inv K E f h0 is st \<longleftrightarrow>
     wf_heap (pj_heap st) \<and> absolute_function (pj_heap st) f \<and> laid_out (pj_heap st) f \<and>
     children_of (pj_heap st) = children_of h0 \<and> function_instrs h0 f = Some is \<and>
     (\<forall>i \<in> set is. the_size (pj_heap st) i = of_nat (semantic_size (pj_sem st i)) \<and> jump_ok E (pj_heap st) i (pj_sem st i)) \<and>
     unat (the_size (pj_heap st) f) + 6 * shorts is st < (if K then 2 ^ 31 else 2 ^ 63) \<and>
     (K \<longrightarrow> (\<forall>i \<in> set is. jump_inside is (pj_sem st i)))"

text \<open>What the pass is to achieve for a jump: its distance fits its displacement, and it stays in the function if short.\<close>

definition jump_reaches :: "cid LinkEnv \<Rightarrow> heap \<Rightarrow> cid InstructionSemantic \<Rightarrow> bool" where
  "jump_reaches E h s =
     (case s of
        ControlFlow v \<Rightarrow>
          (case cf_link v of
             None \<Rightarrow> True
           | Some l \<Rightarrow>
               (case cf_displacement (heap_env E h) v of
                  None \<Rightarrow> False
                | Some d \<Rightarrow> disp_fits 4 d \<and> (cf_displacementSize v = 1 \<longrightarrow> disp_fits 1 d \<and> isExternalJump l = Some False)))
      | _ \<Rightarrow> True)"

text \<open>The only change to an instruction is that a short jump is widened.\<close>

definition widened :: "(32 word \<Rightarrow> X86Jump) \<Rightarrow> cid InstructionSemantic \<Rightarrow> cid InstructionSemantic \<Rightarrow> bool" where
  "widened J s s' \<longleftrightarrow> s' = s \<or> (\<exists>v. s = ControlFlow v \<and> cf_displacementSize v = 1 \<and> s' = ControlFlow (widen J v))"

definition visited :: "bool \<Rightarrow> (32 word \<Rightarrow> X86Jump) \<Rightarrow> cid LinkEnv \<Rightarrow> cid \<Rightarrow> heap \<Rightarrow> cid list \<Rightarrow> cid list \<Rightarrow> pj_state \<Rightarrow> pj_state \<Rightarrow> bool" where
  "visited K J E f h0 is js st st' \<longleftrightarrow>
     pj_inv K E f h0 is st' \<and> (\<forall>i. widened J (pj_sem st i) (pj_sem st' i)) \<and> (pj_aborted st \<longrightarrow> st' = st) \<and>
     (K \<longrightarrow> pj_aborted st' = pj_aborted st) \<and>
     (pj_aborted st' \<or> st' = st \<and> (\<forall>j \<in> set js. jump_reaches E (pj_heap st) (pj_sem st j)) \<or>
      pj_changed st' \<and> shorts is st' < shorts is st)"

lemma visitedD:
  assumes "visited K J E f h0 is js st st'"
  shows "pj_inv K E f h0 is st'" "\<And>i. widened J (pj_sem st i) (pj_sem st' i)" "pj_aborted st \<Longrightarrow> st' = st"
      "K \<Longrightarrow> pj_aborted st' = pj_aborted st"
    and "\<not> pj_aborted st' \<Longrightarrow> \<not> (pj_changed st' \<and> shorts is st' < shorts is st) \<Longrightarrow>
      st' = st \<and> (\<forall>j \<in> set js. jump_reaches E (pj_heap st) (pj_sem st j))"
  using assms by (auto simp: visited_def)

lemma widened_trans: "widened J s t \<Longrightarrow> widened J t u \<Longrightarrow> widened J s u"
  by (auto simp: widened_def widen_def)

lemma visited_append:
  assumes "visited K J E f h0 is js st st'" "visited K J E f h0 is ks st' st''"
  shows "visited K J E f h0 is (js @ ks) st st''"
proof -
  note a = visitedD [OF assms(1)] and b = visitedD [OF assms(2)]
  have "pj_aborted st'' \<or> st'' = st \<and> (\<forall>j \<in> set (js @ ks). jump_reaches E (pj_heap st) (pj_sem st j)) \<or>
      pj_changed st'' \<and> shorts is st'' < shorts is st"
  proof (cases "pj_aborted st''")
    case False
    then have n: "\<not> pj_aborted st'" using b(3) by blast
    show ?thesis
    proof (cases "pj_changed st' \<and> shorts is st' < shorts is st")
      case True
      with b(5) [OF False] show ?thesis by (metis order_less_trans)
    next
      case unchanged: False
      with a(5) [OF n] have "st' = st" "\<forall>j \<in> set js. jump_reaches E (pj_heap st) (pj_sem st j)" by blast+
      with b(5) [OF False] show ?thesis by auto
    qed
  qed simp
  moreover have "widened J (pj_sem st i) (pj_sem st'' i)" for i using a(2) b(2) widened_trans by blast
  ultimately show ?thesis using a(3,4) b(1,3,4) by (simp add: visited_def)
qed

lemma visited_Nil: "pj_inv K E f h0 is st \<Longrightarrow> visited K J E f h0 is [] st st"
  by (simp add: visited_def widened_def)

subsection \<open>One jump\<close>

lemma link_total:
  assumes "getTargetAddress (heap_env E h) l \<noteq> None"
  shows "isExternalJump l \<noteq> None"
  using assms by (cases l) (simp_all add: isExternalJump_def)

lemma address_of_ref_kept:
  assumes "\<And>d. located h d \<Longrightarrow> located h' d"
  shows "address_of_ref (heap_env E h) r \<noteq> None \<Longrightarrow> address_of_ref (heap_env E h') r \<noteq> None"
  using assms by (cases r) (auto simp: address_of_ref_def heap_env_def located_def)

lemma target_kept:
  assumes "\<And>d. located h d \<Longrightarrow> located h' d" "\<And>d. size_of h d \<noteq> None \<Longrightarrow> size_of h' d \<noteq> None"
    and "getTargetAddress (heap_env E h) l \<noteq> None"
  shows "getTargetAddress (heap_env E h') l \<noteq> None"
proof -
  have a: "getAddress h d \<noteq> None \<Longrightarrow> getAddress h' d \<noteq> None" for d using assms(1) by (simp add: located_def)
  note r = address_of_ref_kept [of h h', OF assms(1), of E]
  show ?thesis
    using assms(3) r a assms(2)
    by (cases l) (auto simp: heap_env_def data_target_def split: option.splits bind_splits, (metis option.distinct(1))+)
qed

lemma jump_ok_kept:
  assumes "\<And>d. located h d \<Longrightarrow> located h' d" "\<And>d. size_of h d \<noteq> None \<Longrightarrow> size_of h' d \<noteq> None" "jump_ok E h i s"
  shows "jump_ok E h' i s"
  using assms(3) target_kept [of h h', OF assms(1,2), of E]
  by (auto simp: jump_ok_def split: InstructionSemantic.splits option.splits)

text \<open>The instructions of the function.\<close>

lemma block_instrs_in:
  assumes "block_instrs h bs = Some is" "i \<in> set is"
  shows "\<exists>b \<in> set bs. \<exists>cs. children_of h b = Some cs \<and> i \<in> set cs"
  using assms by (induction bs arbitrary: "is") (auto split: bind_splits)

lemma pj_instr:
  assumes "pj_inv K E f h0 is st" "i \<in> set is"
  obtains F p P x where "instr_in (pj_heap st) f F p P i x"
proof -
  let ?h = "pj_heap st"
  have inv: "wf_heap ?h" "absolute_function ?h f" "children_of ?h = children_of h0" "function_instrs h0 f = Some is"
    using assms(1) by (simp_all add: pj_inv_def)
  obtain F where F: "?h f = Some F" "kind F = Function"
    using inv(2) by (auto simp: absolute_function_def split: option.splits)
  have "block_instrs ?h bs = block_instrs h0 bs" for bs by (induction bs) (simp_all add: inv(3))
  then have "block_instrs ?h (children F) = Some is"
    using inv(3,4) F children_of_code [of ?h f F] by (simp add: function_instrs_def code_kind_def)
  then obtain p cs where p: "p \<in> set (children F)" "children_of ?h p = Some cs" "i \<in> set cs"
    using block_instrs_in [OF _ assms(2)] by blast
  then obtain P where P: "?h p = Some P" "i \<in> set (children P)"
    by (auto simp: children_of_def split: bind_splits if_splits)
  from instr_inI [OF inv(1) F p(1) P] obtain x where "instr_in ?h f F p P i x" .
  then show thesis by (rule that)
qed

lemma pj_located:
  assumes "pj_inv K E f h0 is st" "i \<in> set is"
  shows "located (pj_heap st) i"
proof -
  from pj_instr [OF assms] obtain F p P x where i: "instr_in (pj_heap st) f F p P i x" .
  then have in': "pj_heap st p = Some P" "kind P = Block" "parent P = Some f" "pj_heap st i = Some x" "kind x = Instruction" "parent x = Some p"
    by (simp_all add: instr_in_def)
  have inv: "wf_heap (pj_heap st)" "absolute_function (pj_heap st) f" using assms(1) by (simp_all add: pj_inv_def)
  have "located (pj_heap st) f" using absolute_functionE [OF inv] by blast
  then show ?thesis
    using located_child [OF inv(1) in'(4) _ in'(6)] located_child [OF inv(1) in'(1) _ in'(3)] in'(2,5) by simp
qed

lemma pj_displacement:
  assumes "pj_inv K E f h0 is st" "i \<in> set is" "pj_sem st i = ControlFlow v" "cf_link v = Some l"
  shows "\<exists>d. cf_displacement (heap_env E (pj_heap st)) v = Some d"
proof -
  have "jump_ok E (pj_heap st) i (ControlFlow v)" using assms(1-3) by (auto simp: pj_inv_def)
  with assms(4) have ok: "cf_source v = Some i" "getTargetAddress (heap_env E (pj_heap st)) l \<noteq> None"
    by (simp_all add: jump_ok_def)
  have "env_address (heap_env E (pj_heap st)) i \<noteq> None"
    using pj_located [OF assms(1,2)] by (simp add: heap_env_def located_def)
  with ok assms(4) show ?thesis by (auto simp: cf_displacement_def)
qed

lemma small_difference:
  assumes "n \<le> 6" "m \<le> 16"
  shows "scast (ucast (of_nat n - of_nat m :: 64 word) :: 32 word) = (of_nat n - of_nat m :: 64 word)"
proof -
  have w: "(of_nat n - of_nat m :: 64 word) = word_of_int (int n - int m)" by simp
  have "sint (word_of_int (int n - int m) :: 64 word) = signed_take_bit 63 (int n - int m)"
    by (simp only: signed_of_int) simp
  also have "\<dots> = int n - int m" using assms by (intro signed_take_bit_int_eq_self) auto
  finally have "signed_take_bit 31 (of_nat n - of_nat m :: 64 word) = of_nat n - of_nat m"
    unfolding w using assms by (intro signed_take_bit_self) auto
  then have "fitsIn TYPE(32) (of_nat n - of_nat m)" by (simp add: fitsIn_signed)
  then show ?thesis by (simp add: fitsIn_def)
qed

lemma wider_size: "length (getWiderOpcode k) \<le> 2"
  by (cases k) simp_all

lemma filter_shorter:
  assumes "x \<in> set xs" "P x" "\<And>y. Q y \<longleftrightarrow> y \<noteq> x \<and> P y"
  shows "length (filter Q xs) < length (filter P xs)"
  using assms(1)
proof (induction xs)
  case (Cons y ys)
  have "length (filter Q ys) \<le> length (filter P ys)" using assms(3) by (induction ys) auto
  with Cons assms(2) assms(3) [of y] show ?case by (cases "y = x") simp_all
qed simp

lemma promote_ok:
  assumes inv: "pj_inv K E f h0 is st" and i: "i \<in> set is" and v: "pj_sem st i = ControlFlow v" "cf_displacementSize v = 1"
  shows "\<exists>st'. promote MODE_OFFSET J i v st = Some st' \<and> pj_inv K E f h0 is st' \<and> pj_changed st' \<and>
    pj_aborted st' = pj_aborted st \<and> shorts is st' < shorts is st \<and> pj_sem st' = (pj_sem st)(i := ControlFlow (widen J v))"
proof -
  let ?h = "pj_heap st" let ?v = "widen J v"
  let ?old = "length (cf_opcode v) + 1" let ?new = "length (cf_opcode ?v) + 4"
  let ?sem = "(pj_sem st)(i := ControlFlow ?v)"
  from inv have inv': "wf_heap ?h" "absolute_function ?h f" "unat (the_size ?h f) + 6 * shorts is st < (if K then 2 ^ 31 else 2 ^ 63)"
      "children_of ?h = children_of h0" "function_instrs h0 f = Some is" "K \<Longrightarrow> \<forall>i \<in> set is. jump_inside is (pj_sem st i)"
    and each: "\<And>j. j \<in> set is \<Longrightarrow> the_size ?h j = of_nat (semantic_size (pj_sem st j)) \<and> jump_ok E ?h j (pj_sem st j)"
    by (auto simp: pj_inv_def)
  from pj_instr [OF inv i] obtain F p P x where ii: "instr_in ?h f F p P i x" .
  then have x: "?h i = Some x" "parent x = Some p" by (simp_all add: instr_in_def)
  have ok: "cf_source v = Some i" "length (cf_opcode v) \<le> 15" using each [OF i] v(1) by (simp_all add: jump_ok_def)
  have new: "?new \<le> 6" using wider_size by (simp add: widen_def)
  have "unat (of_nat ?old :: 64 word) = ?old" using ok(2) by (subst unat_of_nat) simp
  then have sz: "the_size ?h i = of_nat ?old" "unat (the_size ?h i) = ?old"
    using each [OF i] v by simp_all
  have less: "shorts is (st\<lparr>pj_heap := h', pj_sem := ?sem, pj_changed := True\<rparr>) < shorts is st" for h'
    unfolding shorts_def by (rule filter_shorter [OF i]) (use v in \<open>auto simp: is_short_def widen_def\<close>)
  have added: "scast (ucast (of_nat ?new - of_nat ?old :: 64 word) :: 32 word) = of_nat ?new - the_size ?h i"
    unfolding sz(1) by (rule small_difference [OF new]) (use ok(2) in simp)
  have room: "unat (the_size ?h f) - unat (the_size ?h i) + ?new < 2 ^ 63"
    using inv'(3) less [of ?h] new by (cases K) simp_all
  from resize_step [OF inv'(1,2) ii room added] obtain h' where
    h': "with_mutator MODE_OFFSET p (modifiedChildSize p (ucast (of_nat ?new - of_nat ?old :: 64 word))) (?h(i \<mapsto> resized (of_nat ?new) x)) = Some h'"
      "resizes f i ?new ?h h'" by blast
  define st' where "st' = st\<lparr>pj_heap := h', pj_sem := ?sem, pj_changed := True\<rparr>"
  have run: "promote MODE_OFFSET J i v st = Some st'"
    using x h'(1) v(2) by (simp add: promote_def Let_def st'_def widen_def)
  have kept: "located ?h d \<Longrightarrow> located h' d" "size_of ?h d \<noteq> None \<Longrightarrow> size_of h' d \<noteq> None" for d
    using h'(2) by (auto simp: resizes_def)
  have "the_size h' j = of_nat (semantic_size (?sem j)) \<and> jump_ok E h' j (?sem j)" if j: "j \<in> set is" for j
  proof (cases "j = i")
    case True
    have "jump_ok E h' i (ControlFlow v)" using jump_ok_kept [of ?h h', OF kept] each [OF i] v(1) by simp
    then have "jump_ok E h' i (ControlFlow ?v)" using wider_size [of "J (cf_id v)"] by (simp add: jump_ok_def widen_def)
    then show ?thesis using True h'(2) by (simp add: resizes_def widen_def)
  next
    case False
    from pj_instr [OF inv j] obtain F' p' P' y where "instr_in ?h f F' p' P' j y" .
    then have "?h j = Some y" "kind y = Instruction" by (simp_all add: instr_in_def)
    then show ?thesis using False h'(2) each [OF j] jump_ok_kept [of ?h h', OF kept] by (auto simp: resizes_def)
  qed
  moreover have "unat (the_size h' f) + 6 * shorts is st' < (if K then 2 ^ 31 else 2 ^ 63)"
    using h'(2) inv'(3) less [of h'] new unfolding resizes_def st'_def by linarith
  moreover have "jump_inside is (?sem j)" if "K" "j \<in> set is" for j
    using inv'(6) that v(1) by (cases "j = i") (auto simp: jump_inside_def widen_def)
  ultimately have "pj_inv K E f h0 is st'"
    using h'(2) inv'(4,5) by (simp add: pj_inv_def st'_def resizes_def)
  then show ?thesis using run less [of h'] by (auto simp: st'_def)
qed

text \<open>Inside a small function no distance is too large.\<close>

lemma inside_reach:
  assumes inv: "pj_inv True E f h0 is st" and i: "i \<in> set is" "pj_sem st i = ControlFlow v" "cf_link v = Some l"
    and d: "cf_displacement (heap_env E (pj_heap st)) v = Some d"
  shows "fitsIn TYPE(32) d"
proof -
  let ?h = "pj_heap st" let ?T = "\<lambda>j. total_size ?h (take j is)"
  from inv have inv': "wf_heap ?h" "absolute_function ?h f" "laid_out ?h f" "unat (the_size ?h f) < 2 ^ 31"
      "children_of ?h = children_of h0" "function_instrs h0 f = Some is"
    and ok: "the_size ?h i = of_nat (semantic_size (pj_sem st i))" "jump_ok E ?h i (pj_sem st i)" "jump_inside is (pj_sem st i)"
    using i(1) by (auto simp: pj_inv_def)
  obtain F a where F: "?h f = Some F" "kind F = Function" "getAddress ?h f = Some a"
    using absolute_functionE [OF inv'(1,2)] unfolding located_def by blast
  have "block_instrs ?h bs = block_instrs h0 bs" for bs by (induction bs) (simp_all add: inv'(5))
  then have fi: "function_instrs ?h f = Some is" using inv'(5,6) by (simp add: function_instrs_def)
  note addr = function_instrs_address [OF inv'(1) F(1,2) inv'(3) F(3) fi]
  have total: "total_size ?h is < 2 ^ 31"
    using function_instrs_total [OF inv'(1) F(1,2)] fi inv'(4) F(1) by (auto simp: size_at_def the_size_def size_of_def)
  from ok(3) i(2,3) obtain t sc where l: "l = NormalLink (Some t) sc" "t \<in> set is"
    by (auto simp: jump_inside_def split: Link.splits option.splits)
  obtain j k where jk: "j < length is" "i = is ! j" "k < length is" "t = is ! k" using i(1) l(2) by (metis in_set_conv_nth)
  have src: "cf_source v = Some i" using ok(2) i(2) by (simp add: jump_ok_def)
  have size: "of_nat (length (cf_opcode v) + cf_displacementSize v) = the_size ?h i" using ok(1) i(2) by simp
  have tj: "?T (Suc j) = ?T j + unat (the_size ?h i)" using jk(1,2) by (simp add: take_Suc_conv_app_nth)
  have le: "?T n \<le> total_size ?h is" for n
    by (metis append_take_drop_id le_add1 total_size_simps(3))
  have "getAddress ?h t = Some (a + of_nat (?T k))" "getAddress ?h i = Some (a + of_nat (?T j))" using addr jk by auto
  then have "d = (a + of_nat (?T k)) - ((a + of_nat (?T j)) + the_size ?h i)"
    using d i(3) l(1) src by (simp add: cf_displacement_def heap_env_def address_of_ref_def size [symmetric])
  also have "\<dots> = of_nat (?T k) - of_nat (?T (Suc j))" unfolding tj by simp
  also have "\<dots> = word_of_int (int (?T k) - int (?T (Suc j)))" by simp
  finally have d': "d = word_of_int (int (?T k) - int (?T (Suc j)))" .
  have b: "- (2 ^ 31) \<le> int (?T k) - int (?T (Suc j))" "int (?T k) - int (?T (Suc j)) < 2 ^ 31"
    using le [of k] le [of "Suc j"] total by auto
  have "sint (word_of_int (int (?T k) - int (?T (Suc j))) :: 64 word) = signed_take_bit 63 (int (?T k) - int (?T (Suc j)))"
    by (simp only: signed_of_int) simp
  also have "\<dots> = int (?T k) - int (?T (Suc j))" using b by (intro signed_take_bit_int_eq_self) auto
  finally have "signed_take_bit 31 d = d" unfolding d' using b by (intro signed_take_bit_self) auto
  then show ?thesis by (simp add: fitsIn_signed)
qed

subsection \<open>A round\<close>

lemma pj_simps [simp]:
  "pj_inv K E f h0 is (st\<lparr>pj_aborted := b\<rparr>) = pj_inv K E f h0 is st" "pj_inv K E f h0 is (st\<lparr>pj_changed := b\<rparr>) = pj_inv K E f h0 is st"
  "shorts is (st\<lparr>pj_aborted := b\<rparr>) = shorts is st" "shorts is (st\<lparr>pj_changed := b\<rparr>) = shorts is st"
  by (simp_all add: pj_inv_def shorts_def)

lemma visit_jump_ok:
  assumes inv: "pj_inv K E f h0 is st" and i: "i \<in> set is" "pj_sem st i = ControlFlow v" and n: "\<not> pj_aborted st"
  shows "\<exists>st'. visit_jump MODE_OFFSET J E i v st = Some st' \<and> visited K J E f h0 is [i] st st'"
proof (cases "cf_link v")
  case None
  then show ?thesis using inv i(2) by (simp add: visit_jump_def visited_def widened_def jump_reaches_def)
next
  case (Some l)
  obtain d where d: "cf_displacement (heap_env E (pj_heap st)) v = Some d" using pj_displacement [OF inv i Some] by blast
  have "jump_ok E (pj_heap st) i (ControlFlow v)" using inv i by (auto simp: pj_inv_def)
  then obtain ext where ext: "isExternalJump l = Some ext" using Some link_total [of E "pj_heap st" l] by (auto simp: jump_ok_def)
  have K: "fitsIn TYPE(32) d" if K using inside_reach [of E f h0 "is" st, OF _ i Some d] inv that by simp
  show ?thesis
  proof (cases "cf_displacementSize v = 1 \<and> (\<not> fitsIn TYPE(8) d \<or> ext)")
    case True
    with promote_ok [OF inv i, of J] obtain st' where
      st': "promote MODE_OFFSET J i v st = Some st'" "pj_inv K E f h0 is st'" "pj_changed st'" "pj_aborted st' = pj_aborted st"
        "shorts is st' < shorts is st" "pj_sem st' = (pj_sem st)(i := ControlFlow (widen J v))" by blast
    have w: "widened J (pj_sem st j) (pj_sem st' j)" for j using st'(6) i(2) True by (auto simp: widened_def)
    have "visit_jump MODE_OFFSET J E i v st = Some (if fitsIn TYPE(32) d then st' else st'\<lparr>pj_aborted := True\<rparr>)"
      using True Some d ext st'(1) by (simp add: visit_jump_def)
    then show ?thesis using st' w n K by (simp add: visited_def)
  next
    case False
    then have "visit_jump MODE_OFFSET J E i v st = Some (if fitsIn TYPE(32) d then st else st\<lparr>pj_aborted := True\<rparr>)"
      using Some d ext by (simp add: visit_jump_def)
    moreover have "jump_reaches E (pj_heap st) (ControlFlow v)" if "fitsIn TYPE(32) d"
      using False that Some d ext fitsIn_disp [of d] by (auto simp: jump_reaches_def)
    ultimately show ?thesis using inv i(2) n K by (simp add: visited_def widened_def)
  qed
qed

lemma visit_instruction_ok:
  assumes inv: "pj_inv K E f h0 is st" and i: "i \<in> set is"
  shows "\<exists>st'. visit_instruction MODE_OFFSET J E i st = Some st' \<and> visited K J E f h0 is [i] st st'"
proof (cases "pj_aborted st")
  case True
  then show ?thesis using inv by (simp add: visit_instruction_def visited_def widened_def)
next
  case False
  show ?thesis
  proof (cases "\<exists>v. pj_sem st i = ControlFlow v")
    case True
    then show ?thesis using visit_jump_ok [OF inv i _ False] False by (auto simp: visit_instruction_def)
  next
    case no: False
    then have "visit_instruction MODE_OFFSET J E i st = Some st" "jump_reaches E (pj_heap st) (pj_sem st i)"
      using False by (cases "pj_sem st i"; simp add: visit_instruction_def jump_reaches_def)+
    then show ?thesis using inv by (simp add: visited_def widened_def)
  qed
qed

lemma visit_instructions_ok:
  "pj_inv K E f h0 is st \<Longrightarrow> set js \<subseteq> set is \<Longrightarrow>
    \<exists>st'. visit_instructions MODE_OFFSET J E js st = Some st' \<and> visited K J E f h0 is js st st'"
proof (induction js arbitrary: st)
  case (Cons j js)
  from visit_instruction_ok [OF Cons.prems(1), of j J] Cons.prems(2) obtain st1 where
    1: "visit_instruction MODE_OFFSET J E j st = Some st1" "visited K J E f h0 is [j] st st1" by auto
  with Cons.IH [OF visitedD(1) [OF 1(2)]] Cons.prems(2) obtain st' where
    2: "visit_instructions MODE_OFFSET J E js st1 = Some st'" "visited K J E f h0 is js st1 st'" by auto
  show ?case using 1(1) 2(1) visited_append [OF 1(2) 2(2)] by simp
qed (simp add: visited_Nil)

lemma visit_blocks_ok:
  "pj_inv K E f h0 is st \<Longrightarrow> block_instrs h0 bs = Some js \<Longrightarrow> set js \<subseteq> set is \<Longrightarrow>
    \<exists>st'. visit_blocks MODE_OFFSET J E bs st = Some st' \<and> visited K J E f h0 is js st st'"
proof (induction bs arbitrary: st js)
  case (Cons b bs)
  from Cons.prems(2) obtain cs ks where c: "children_of h0 b = Some cs" "block_instrs h0 bs = Some ks" "js = cs @ ks"
    by (auto split: bind_splits)
  have cb: "children_of (pj_heap st) b = Some cs" using Cons.prems(1) c(1) by (simp add: pj_inv_def)
  from visit_instructions_ok [OF Cons.prems(1), of cs J] Cons.prems(3) c(3) obtain st1 where
    1: "visit_instructions MODE_OFFSET J E cs st = Some st1" "visited K J E f h0 is cs st st1" by auto
  with Cons.IH [OF visitedD(1) [OF 1(2)] c(2)] Cons.prems(3) c(3) obtain st' where
    2: "visit_blocks MODE_OFFSET J E bs st1 = Some st'" "visited K J E f h0 is ks st1 st'" by auto
  show ?case using cb 1(1) 2(1) visited_append [OF 1(2) 2(2)] c(3) by simp
qed (simp add: visited_Nil)

text \<open>The rounds end.\<close>

interpretation promotion: settling_pass "promote_round MODE_OFFSET J E f"
    "\<lambda>st. pj_inv K E f h0 is st \<and> (K \<longrightarrow> \<not> pj_aborted st) \<and> (\<forall>i. widened J (sem0 i) (pj_sem st i))" "shorts is"
    "\<lambda>st. pj_aborted st \<or> (\<forall>i \<in> set is. jump_reaches E (pj_heap st) (pj_sem st i))"
  for J E f K h0 "is" sem0
proof
  fix st assume st: "pj_inv K E f h0 is st \<and> (K \<longrightarrow> \<not> pj_aborted st) \<and> (\<forall>i. widened J (sem0 i) (pj_sem st i))"
  let ?st = "st\<lparr>pj_changed := False\<rparr>"
  have "children_of (pj_heap st) = children_of h0" "function_instrs h0 f = Some is" using st by (simp_all add: pj_inv_def)
  then obtain bs where bs: "children_of (pj_heap st) f = Some bs" "block_instrs h0 bs = Some is"
    by (auto simp: function_instrs_def split: bind_splits)
  from visit_blocks_ok [of K E f h0 "is" ?st bs "is" J] st bs(2) obtain st' where
    v: "visit_blocks MODE_OFFSET J E bs ?st = Some st'" "visited K J E f h0 is is ?st st'" by auto
  note v' = visitedD [OF v(2)]
  have "widened J (sem0 i) (pj_sem st' i)" for i
    using widened_trans [of J "sem0 i" "pj_sem st i" "pj_sem st' i"] st v'(2) [of i] by simp
  moreover have "if pj_changed st' \<and> \<not> pj_aborted st' then shorts is st' < shorts is st
      else pj_aborted st' \<or> (\<forall>i \<in> set is. jump_reaches E (pj_heap st') (pj_sem st' i))"
  proof (cases "pj_aborted st' \<or> pj_changed st' \<and> shorts is st' < shorts is st")
    case False
    with v'(5) have "st' = ?st" "\<forall>i \<in> set is. jump_reaches E (pj_heap st) (pj_sem st i)" by auto
    then show ?thesis by simp
  qed auto
  ultimately show "\<exists>s' again. promote_round MODE_OFFSET J E f st = Some (s', again) \<and>
      (pj_inv K E f h0 is s' \<and> (K \<longrightarrow> \<not> pj_aborted s') \<and> (\<forall>i. widened J (sem0 i) (pj_sem s' i))) \<and>
      (if again then shorts is s' < shorts is st else pj_aborted s' \<or> (\<forall>i \<in> set is. jump_reaches E (pj_heap s') (pj_sem s' i)))"
    using bs(1) v(1) v'(1,4) st by (auto simp: promote_round_def)
qed

subsection \<open>The pass\<close>


text \<open>In the function of \<open>ex_heap\<close>, the second instruction is a conditional jump to the first.\<close>

definition jump_sem :: "cid \<Rightarrow> cid InstructionSemantic" where
  "jump_sem = (\<lambda>_. Isolated emptyStorage)(
     2 := Isolated (setData [0x48, 0x83, 0xC0, 0x01] emptyStorage),
     3 := ControlFlow ((newControlFlowInstruction 1 (Some 3) [0x3E, 0x74] [] 1)\<lparr>cf_link := Some (NormalLink (Some 2) SCOPE_EXTERNAL_JUMP)\<rparr>))"

lemma jump_example:
  "function_instrs ex_heap 0 = Some [2, 3]" "laid_out ex_heap 0" "jump_ok plain_env ex_heap 3 (jump_sem 3)"
proof -
  have kids: "children_of ex_heap 0 = Some [1]" "children_of ex_heap 1 = Some [2, 3]"
    by (simp_all add: children_of_def ex_defs)
  then show "function_instrs ex_heap 0 = Some [2, 3]" by (simp add: function_instrs_def)
  have a: "getAddress ex_heap 2 = Some 0x1000" "getAddress ex_heap 3 = Some 0x1004"
    by (subst getAddress.simps; use ex_located(2) in \<open>simp add: ex_defs getPosition_def\<close>)+
  then show "laid_out ex_heap 0"
    using ex_located kids ex_sizes by (auto simp: laid_out_def contiguous_def less_Suc_eq numeral_2_eq_2)
  show "jump_ok plain_env ex_heap 3 (jump_sem 3)"
    using a by (simp add: jump_ok_def jump_sem_def newControlFlowInstruction_def heap_env_def address_of_ref_def)
qed

lemma external_short:
  "cf_link v = Some l \<Longrightarrow> cf_displacementSize v = 1 \<Longrightarrow> isExternalJump l = Some True \<Longrightarrow> \<not> jump_reaches E h (ControlFlow v)"
  by (auto simp: jump_reaches_def split: option.splits)


end
