(* ===== verification/NonReturn.thy ===== *)
theory NonReturn
  imports ControlFlow Loops
begin

unbundle bit_operations_syntax

section \<open>Functions that do not return (\<^verbatim>\<open>src/pass/nonreturn.cpp\<close>)\<close>

text \<open>
  The pass finds functions from which control does not come back: every path through their control flow graph ends in a
  call that does not return, or does not end. Since such a function makes the calls to it calls that do not return, the
  pass repeats over the functions of a module until it finds no more.

  Functions are numbers with an entry in a map. A link of a control flow instruction is told apart as the pass does: one
  through the PLT, with the name of the external symbol of the trampoline if it has one, one to a function, or any other,
  as the construction of the graph reads it. \<open>None\<close> is a null pointer that is followed (a control flow instruction
  without a link, the first node of a graph without nodes), or a search that does not end. The value of the first argument
  at a call of the GNU function \<^verbatim>\<open>error\<close> comes from the use-def analysis, which is a parameter.
\<close>

datatype NRLink = PLTLink "string option" address | FunctionLink nat address | OtherLink CFLink

record NRInstruction =
  ni_id :: nat
  ni_address :: address
  ni_semantic :: CFSemantic
  ni_link :: "NRLink option"

record NRBlock =
  nb_id :: block_ref
  nb_address :: address
  nb_instrs :: "NRInstruction list"

record NRFunction =
  nf_name :: string
  nf_symbol :: "(string \<times> string list) option"
  nf_nonreturn :: bool
  nf_blocks :: "NRBlock list"

record NonReturnFunction =
  nr_functions :: "nat \<rightharpoonup> NRFunction"
  nonReturnList :: "nat set"

subsection \<open>What the control flow graph sees\<close>

fun cf_link_view :: "NRLink \<Rightarrow> CFLink" where
  "cf_link_view (PLTLink n a) = \<lparr>getTarget = Some OtherTarget, getTargetAddress = a\<rparr>"
| "cf_link_view (FunctionLink f a) = \<lparr>getTarget = Some OtherTarget, getTargetAddress = a\<rparr>"
| "cf_link_view (OtherLink l) = l"

definition cf_instruction :: "NRInstruction \<Rightarrow> CFInstruction" where
  "cf_instruction i = \<lparr>instr_address = ni_address i, instr_semantic = ni_semantic i, instr_link = map_option cf_link_view (ni_link i)\<rparr>"

definition cf_block :: "NRBlock \<Rightarrow> CFBlock" where
  "cf_block b = \<lparr>block_id = nb_id b, block_address = nb_address b,
     block_last = (if nb_instrs b = [] then None else Some (cf_instruction (last (nb_instrs b))))\<rparr>"

subsection \<open>Calls that do not return\<close>

definition knownList :: "string list" where
  "knownList =
     [''exit'', ''_exit'', ''abort'', ''__libc_fatal'', ''__assert_fail'', ''__stack_chk_fail'', ''__malloc_assert'',
      ''_dl_signal_error'', ''__cxa_throw'', ''_ZSt20__throw_out_of_rangePKc'', ''_ZSt19__throw_logic_errorPKc'',
      ''_ZSt17__throw_bad_allocv'', ''_ZSt24__throw_invalid_argumentPKc'']"

definition hasName :: "NRFunction \<Rightarrow> string \<Rightarrow> bool" where
  "hasName F n \<longleftrightarrow> nf_name F = n \<or> (case nf_symbol F of None \<Rightarrow> False | Some (s, as) \<Rightarrow> s = n \<or> n \<in> set as)"

definition inList :: "NonReturnFunction \<Rightarrow> nat \<Rightarrow> bool" where
  "inList st f \<longleftrightarrow> f \<in> nonReturnList st"

definition hasLinkToNeverReturn :: "NonReturnFunction \<Rightarrow> NRInstruction \<Rightarrow> bool option" where
  "hasLinkToNeverReturn st i =
     (case ni_link i of
        None \<Rightarrow> None
      | Some (PLTLink (Some n) a) \<Rightarrow> Some (n \<in> set knownList)
      | Some (PLTLink None a) \<Rightarrow> Some False
      | Some (FunctionLink f a) \<Rightarrow>
          do { F \<leftarrow> nr_functions st f; Some (nf_nonreturn F \<or> inList st f \<or> list_ex (hasName F) knownList) }
      | Some (OtherLink l) \<Rightarrow> Some False)"

definition hasLinkToGNUError :: "NonReturnFunction \<Rightarrow> NRInstruction \<Rightarrow> bool option" where
  "hasLinkToGNUError st i =
     (case ni_link i of
        None \<Rightarrow> None
      | Some (PLTLink (Some n) a) \<Rightarrow> Some (n = ''error'')
      | Some (PLTLink None a) \<Rightarrow> Some False
      | Some (FunctionLink f a) \<Rightarrow> do { F \<leftarrow> nr_functions st f; Some (hasName F ''error'') }
      | Some (OtherLink l) \<Rightarrow> Some False)"

definition setNonreturn :: "NRInstruction \<Rightarrow> NRInstruction" where
  "setNonreturn i =
     (case ni_semantic i of ControlFlowInstruction m r \<Rightarrow> i\<lparr>ni_semantic := ControlFlowInstruction m False\<rparr> | _ \<Rightarrow> i)"

text \<open>The first step of a visit: the instruction as it is left, and whether it is a call of \<^verbatim>\<open>error\<close>.\<close>

definition mark_instr :: "NonReturnFunction \<Rightarrow> NRInstruction \<Rightarrow> (NRInstruction \<times> bool) option" where
  "mark_instr st i =
     (case ni_semantic i of
        ControlFlowInstruction m r \<Rightarrow>
          if \<not> r then Some (i, False)
          else
            do {
              never \<leftarrow> hasLinkToNeverReturn st i;
              if never then Some (setNonreturn i, False)
              else do { e \<leftarrow> hasLinkToGNUError st i; Some (i, e) }
            }
      | _ \<Rightarrow> Some (i, False))"

primrec mark_instrs :: "NonReturnFunction \<Rightarrow> NRInstruction list \<Rightarrow> (NRInstruction list \<times> nat list) option" where
  "mark_instrs st [] = Some ([], [])"
| "mark_instrs st (i # is) =
     do { (j, e) \<leftarrow> mark_instr st i; (js, es) \<leftarrow> mark_instrs st is; Some (j # js, if e then ni_id i # es else es) }"

primrec mark_blocks :: "NonReturnFunction \<Rightarrow> NRBlock list \<Rightarrow> (NRBlock list \<times> nat list) option" where
  "mark_blocks st [] = Some ([], [])"
| "mark_blocks st (b # bs) =
     do { (js, es) \<leftarrow> mark_instrs st (nb_instrs b); (cs, fs) \<leftarrow> mark_blocks st bs; Some (b\<lparr>nb_instrs := js\<rparr> # cs, es @ fs) }"

definition mark_errors ::
    "cfg_arch \<Rightarrow> (ControlFlowGraph \<Rightarrow> NRBlock list \<Rightarrow> nat \<Rightarrow> int option) \<Rightarrow> NRBlock list \<Rightarrow> nat list \<Rightarrow> NRBlock list option" where
  "mark_errors arch arg0 bs calls =
     (if calls = [] then Some bs
      else
        do {
          g \<leftarrow> newControlFlowGraph arch (map cf_block bs);
          let errors = filter (\<lambda>c. case arg0 g bs c of None \<Rightarrow> False | Some v \<Rightarrow> v \<noteq> 0) calls;
          Some (map (\<lambda>b. b\<lparr>nb_instrs := map (\<lambda>i. if ni_id i \<in> set errors then setNonreturn i else i) (nb_instrs b)\<rparr>) bs)
        })"

subsection \<open>The search for a way out\<close>

text \<open>
  The scan of a block: the block as it is left, and \<open>None\<close> when \<^verbatim>\<open>isNonReturn\<close> returns 1 at once, or the value of \<^verbatim>\<open>ret\<close>
  with which it goes on to the links.
\<close>

definition to_function :: "NRInstruction \<Rightarrow> bool" where
  "to_function i = (case ni_link i of Some (FunctionLink f a) \<Rightarrow> True | _ \<Rightarrow> False)"

primrec scan_block :: "NonReturnFunction \<Rightarrow> NRInstruction list \<Rightarrow> (NRInstruction list \<times> int option) option" where
  "scan_block st [] = Some ([], Some 1)"
| "scan_block st (i # is) =
     (case ni_semantic i of
        ControlFlowInstruction m r \<Rightarrow>
          do {
            never \<leftarrow> hasLinkToNeverReturn st i;
            let i = (if never then setNonreturn i else i);
            let r = (r \<and> \<not> never);
            if m \<noteq> ''jmp'' \<and> m \<noteq> ''callq'' \<and> to_function i then Some (i # is, Some (if r then 0 else 1))
            else if \<not> r then Some (i # is, None)
            else do { (is, e) \<leftarrow> scan_block st is; Some (i # is, e) }
          }
      | _ \<Rightarrow> do { (is, e) \<leftarrow> scan_block st is; Some (i # is, e) })"

record nr_search =
  ns_graph :: ControlFlowGraph
  ns_blocks :: "NRBlock list"
  noreturn_done :: "block_ref \<rightharpoonup> int"

definition find_block :: "block_ref \<Rightarrow> NRBlock list \<Rightarrow> NRBlock option" where
  "find_block b bs = find (\<lambda>x. nb_id x = b) bs"

definition put_block :: "block_ref \<Rightarrow> NRInstruction list \<Rightarrow> NRBlock list \<Rightarrow> NRBlock list" where
  "put_block b is bs = map (\<lambda>x. if nb_id x = b then x\<lparr>nb_instrs := is\<rparr> else x) bs"

partial_function (option) isNonReturn ::
    "NonReturnFunction \<Rightarrow> block_ref \<Rightarrow> block_ref set \<Rightarrow> nr_search \<Rightarrow> (int \<times> nr_search) option" where
  "isNonReturn st bl visited s =
     (case noreturn_done s bl of
        Some r \<Rightarrow> Some (r, s)
      | None \<Rightarrow>
          if bl \<in> visited then Some (-1, s)
          else
            do {
              b \<leftarrow> find_block bl (ns_blocks s);
              (is, e) \<leftarrow> scan_block st (nb_instrs b);
              let s = s\<lparr>ns_blocks := put_block bl is (ns_blocks s)\<rparr>;
              case e of
                None \<Rightarrow> Some (1, s)
              | Some ret \<Rightarrow>
                  do {
                    let (i, g) = getIDFor bl (ns_graph s);
                    node \<leftarrow> graph_get g i;
                    (ret, s) \<leftarrow>
                      for_each
                        (\<lambda>l (ret, s).
                          do {
                            dest \<leftarrow> graph_get (ns_graph s) (getTargetID l);
                            (t, s) \<leftarrow> isNonReturn st (getBlock dest) (insert bl visited) s;
                            Some (if t = -1 then ret else ret AND t, s)
                          })
                        (links node) (ret, s\<lparr>ns_graph := g\<rparr>);
                    let ret = (if links node = [] then 0 else ret);
                    Some (ret, s\<lparr>noreturn_done := (noreturn_done s)(bl \<mapsto> ret)\<rparr>)
                  }
            })"

text \<open>The result, and the blocks as the search leaves them.\<close>

definition neverReturns :: "cfg_arch \<Rightarrow> NonReturnFunction \<Rightarrow> NRBlock list \<Rightarrow> (bool \<times> NRBlock list) option" where
  "neverReturns arch st bs =
     do {
       g \<leftarrow> newControlFlowGraph arch (map cf_block bs);
       n \<leftarrow> graph_get g 0;
       (ret, s) \<leftarrow> isNonReturn st (getBlock n) {} \<lparr>ns_graph = g, ns_blocks = bs, noreturn_done = Map.empty\<rparr>;
       Some (ret = 1, ns_blocks s)
     }"

subsection \<open>The pass\<close>

definition nonreturn_visit ::
    "cfg_arch \<Rightarrow> (ControlFlowGraph \<Rightarrow> NRBlock list \<Rightarrow> nat \<Rightarrow> int option) \<Rightarrow> nat \<Rightarrow> NonReturnFunction \<Rightarrow> NonReturnFunction option" where
  "nonreturn_visit arch arg0 f st =
     do {
       F \<leftarrow> nr_functions st f;
       if nf_nonreturn F then Some st
       else
         do {
           (bs, calls) \<leftarrow> mark_blocks st (nf_blocks F);
           bs \<leftarrow> mark_errors arch arg0 bs calls;
           (never, bs) \<leftarrow> neverReturns arch st bs;
           if never then
             Some \<lparr>nr_functions = (nr_functions st)(f \<mapsto> F\<lparr>nf_blocks := bs, nf_nonreturn := True\<rparr>),
                   nonReturnList = insert f (nonReturnList st)\<rparr>
           else Some (st\<lparr>nr_functions := (nr_functions st)(f \<mapsto> F\<lparr>nf_blocks := bs\<rparr>)\<rparr>)
         }
     }"

definition nonreturn_round ::
    "cfg_arch \<Rightarrow> (ControlFlowGraph \<Rightarrow> NRBlock list \<Rightarrow> nat \<Rightarrow> int option) \<Rightarrow> nat list \<Rightarrow> NonReturnFunction \<Rightarrow> (NonReturnFunction \<times> bool) option" where
  "nonreturn_round arch arg0 fs st =
     do {
       let size = card (nonReturnList st);
       st \<leftarrow> for_each (nonreturn_visit arch arg0) fs st;
       Some (st, size \<noteq> card (nonReturnList st))
     }"

definition nonreturn_visit_list ::
    "cfg_arch \<Rightarrow> (ControlFlowGraph \<Rightarrow> NRBlock list \<Rightarrow> nat \<Rightarrow> int option) \<Rightarrow> nat list \<Rightarrow> NonReturnFunction \<Rightarrow> NonReturnFunction option" where
  "nonreturn_visit_list arch arg0 fs st = do_while (nonreturn_round arch arg0 fs) st"

end
