(* ===== verification/NonReturnCorrect.thy ===== *)
theory NonReturnCorrect
  imports NonReturn
begin

unbundle bit_operations_syntax

section \<open>The non-returning functions are found\<close>

text \<open>
  The verdict of a block, by the flags of its instructions: \<open>None\<close> when it runs into a call that does not return, and
  \<open>Some 0\<close> when it may leave the function through a conditional jump to one that returns. A function may return when a
  block of the second kind, or one without successors, is reached from its first block without passing one of the first.
\<close>

primrec block_verdict :: "NRInstruction list \<Rightarrow> int option" where
  "block_verdict [] = Some 1"
| "block_verdict (i # is) =
     (case ni_semantic i of
        ControlFlowInstruction m r \<Rightarrow>
          if m \<noteq> ''jmp'' \<and> m \<noteq> ''callq'' \<and> to_function i then Some (if r then 0 else 1)
          else if \<not> r then None else block_verdict is
      | _ \<Rightarrow> block_verdict is)"

abbreviation verdict :: "NRBlock list \<Rightarrow> nat \<Rightarrow> int option" where
  "verdict bs k \<equiv> block_verdict (nb_instrs (bs ! k))"

definition successors :: "cfg_arch \<Rightarrow> NRBlock list \<Rightarrow> nat \<Rightarrow> int list" where
  "successors arch bs k = block_successors arch (map cf_block bs) (cf_block (bs ! k))"

inductive may_return :: "cfg_arch \<Rightarrow> NRBlock list \<Rightarrow> nat \<Rightarrow> bool" for arch bs where
  leave: "k < length bs \<Longrightarrow> verdict bs k = Some r \<Longrightarrow> r = 0 \<or> successors arch bs k = [] \<Longrightarrow> may_return arch bs k"
| follow: "k < length bs \<Longrightarrow> verdict bs k = Some r \<Longrightarrow> int j \<in> set (successors arch bs k) \<Longrightarrow> may_return arch bs j \<Longrightarrow>
    may_return arch bs k"

subsection \<open>Marked instructions\<close>

text \<open>The links of an instruction can be followed, and a call that is known not to return is marked as such.\<close>

definition linked :: "NonReturnFunction \<Rightarrow> NRInstruction \<Rightarrow> bool" where
  "linked st i \<longleftrightarrow> (\<forall>m r. ni_semantic i = ControlFlowInstruction m r \<longrightarrow> hasLinkToNeverReturn st i \<noteq> None)"

definition marked :: "NonReturnFunction \<Rightarrow> NRInstruction \<Rightarrow> bool" where
  "marked st i \<longleftrightarrow> linked st i \<and> (\<forall>m. ni_semantic i = ControlFlowInstruction m True \<longrightarrow> hasLinkToNeverReturn st i \<noteq> Some True)"

abbreviation all_instrs :: "(NRInstruction \<Rightarrow> bool) \<Rightarrow> NRBlock list \<Rightarrow> bool" where
  "all_instrs P bs \<equiv> \<forall>b \<in> set bs. \<forall>i \<in> set (nb_instrs b). P i"

lemma block_verdict_range: "block_verdict is = Some r \<Longrightarrow> r = 0 \<or> r = 1"
  by (induction "is") (auto split: CFSemantic.splits if_splits)

lemma scan_marked: "\<forall>i \<in> set is. marked st i \<Longrightarrow> scan_block st is = Some (is, block_verdict is)"
proof (induction "is")
  case (Cons i "is")
  show ?case
  proof (cases "\<exists>m r. ni_semantic i = ControlFlowInstruction m r")
    case True
    then obtain m r where s: "ni_semantic i = ControlFlowInstruction m r" by blast
    with Cons.prems obtain n where n: "hasLinkToNeverReturn st i = Some n" "n \<longrightarrow> \<not> r"
      by (cases r; cases "hasLinkToNeverReturn st i") (auto simp: marked_def linked_def)
    have "setNonreturn i = i" if n using n(2) that s by (simp add: setNonreturn_def)
    with Cons s n show ?thesis by (auto simp: Let_def)
  qed (use Cons in \<open>auto split: CFSemantic.splits\<close>)
qed simp

lemma find_block_nth:
  assumes "distinct (map nb_id bs)" "k < length bs"
  shows "find_block (nb_id (bs ! k)) bs = Some (bs ! k)"
  using assms
proof (induction bs arbitrary: k)
  case (Cons b bs)
  then show ?case by (cases k) (auto simp: find_block_def)
qed simp

lemma put_block_nth:
  assumes "distinct (map nb_id bs)" "k < length bs"
  shows "put_block (nb_id (bs ! k)) (nb_instrs (bs ! k)) bs = bs"
proof -
  have "b = bs ! k" if "b \<in> set bs" "nb_id b = nb_id (bs ! k)" for b
    using assms that nth_mem [OF assms(2)] by (auto simp: distinct_map dest: inj_onD)
  then have "b\<lparr>nb_instrs := nb_instrs (bs ! k)\<rparr> = b" if "b \<in> set bs" "nb_id b = nb_id (bs ! k)" for b
    using that by (metis NRBlock.surjective NRBlock.update_convs(3))
  then have "(if nb_id b = nb_id (bs ! k) then b\<lparr>nb_instrs := nb_instrs (bs ! k)\<rparr> else b) = b" if "b \<in> set bs" for b
    using that by auto
  then show ?thesis unfolding put_block_def by (intro map_idI)
qed

subsection \<open>The search\<close>

text \<open>
  When no block that was finished so far has the value 0, a finished block does not leave the function, and each of its
  successors runs into a call that does not return, is finished, or is still on the path.
\<close>

definition settled :: "NRBlock list \<Rightarrow> block_ref set \<Rightarrow> (block_ref \<rightharpoonup> int) \<Rightarrow> nat \<Rightarrow> bool" where
  "settled bs V d j \<longleftrightarrow> verdict bs j = None \<or> d (nb_id (bs ! j)) \<noteq> None \<or> nb_id (bs ! j) \<in> V"

definition ones_ok :: "cfg_arch \<Rightarrow> NRBlock list \<Rightarrow> block_ref set \<Rightarrow> (block_ref \<rightharpoonup> int) \<Rightarrow> bool" where
  "ones_ok arch bs V d \<longleftrightarrow>
     (\<forall>k < length bs. d (nb_id (bs ! k)) \<noteq> None \<longrightarrow>
        d (nb_id (bs ! k)) = Some 1 \<and> verdict bs k = Some 1 \<and> successors arch bs k \<noteq> [] \<and>
        (\<forall>j. int j \<in> set (successors arch bs k) \<longrightarrow> settled bs V d j))"

definition values_ok :: "cfg_arch \<Rightarrow> NRBlock list \<Rightarrow> (block_ref \<rightharpoonup> int) \<Rightarrow> bool" where
  "values_ok arch bs d \<longleftrightarrow>
     (\<forall>k < length bs. \<forall>r. d (nb_id (bs ! k)) = Some r \<longrightarrow> (r = 0 \<or> r = 1) \<and> (r = 0 \<longrightarrow> may_return arch bs k))"

lemma ones_okD:
  assumes "ones_ok arch bs V d" "k < length bs" "d (nb_id (bs ! k)) \<noteq> None"
  shows "d (nb_id (bs ! k)) = Some 1" "verdict bs k = Some 1" "successors arch bs k \<noteq> []"
    "int j \<in> set (successors arch bs k) \<Longrightarrow> settled bs V d j"
  using assms by (auto simp: ones_ok_def)

lemma settled_mono: "settled bs V d j \<Longrightarrow> dom d \<subseteq> dom d' \<Longrightarrow> settled bs V d' j"
  by (auto simp: settled_def)

lemma settled_insert: "settled bs V d j \<Longrightarrow> settled bs (insert b V) d j"
  by (auto simp: settled_def)

lemma ones_ok_insert: "ones_ok arch bs V d \<Longrightarrow> ones_ok arch bs (insert b V) d"
  unfolding ones_ok_def using settled_insert by blast

text \<open>The graph of the blocks.\<close>

definition graph_of :: "cfg_arch \<Rightarrow> NRBlock list \<Rightarrow> ControlFlowGraph \<Rightarrow> bool" where
  "graph_of arch bs g \<longleftrightarrow>
     distinct (map nb_id bs) \<and> stage (map cf_block bs) g \<and> (\<forall>k < length bs. fwd g k = successors arch bs k)"

lemma block_id_cf [simp]: "block_id \<circ> cf_block = nb_id" "block_id (cf_block b) = nb_id b"
  by (auto simp: cf_block_def)

lemma graph_of_node:
  assumes "graph_of arch bs g" "k < length bs"
  shows "getIDFor (nb_id (bs ! k)) g = (int k, g)" "graph_get g (int k) = Some (graph g ! k)"
    "getBlock (graph g ! k) = nb_id (bs ! k)" "map getTargetID (links (graph g ! k)) = successors arch bs k"
    "l \<in> set (links (graph g ! k)) \<Longrightarrow> \<exists>j < length bs. getTargetID l = int j \<and> int j \<in> set (successors arch bs k)"
proof -
  let ?f = "map cf_block bs"
  have s: "graph_ok g" "length (graph g) = length bs" "blockMapping g = block_number ?f" "map getBlock (graph g) = map nb_id bs"
    using assms(1) by (simp_all add: graph_of_def stage_def graph_getCount_def)
  have "block_number ?f (block_id (?f ! k)) = Some (int k)"
    using assms by (intro block_number_nth) (simp_all add: graph_of_def)
  then show "getIDFor (nb_id (bs ! k)) g = (int k, g)" using s(3) assms(2) by (simp add: getIDFor_def)
  show "graph_get g (int k) = Some (graph g ! k)" using s(2) assms(2) by (simp add: graph_get_def)
  show "getBlock (graph g ! k) = nb_id (bs ! k)" using arg_cong [OF s(4), of "\<lambda>xs. xs ! k"] s(2) assms(2) by simp
  show m: "map getTargetID (links (graph g ! k)) = successors arch bs k" using assms by (simp add: graph_of_def)
  assume l: "l \<in> set (links (graph g ! k))"
  then have "in_graph g (getTargetID l)"
    using s(1,2) assms(2) by (auto simp: graph_ok_def graph_getCount_def list_all_iff)
  with s(2) have j: "getTargetID l = int (nat (getTargetID l))" "nat (getTargetID l) < length bs"
    by (auto simp: graph_getCount_def)
  then show "\<exists>j < length bs. getTargetID l = int j \<and> int j \<in> set (successors arch bs k)"
    using l m by (metis image_eqI list.set_map)
qed

definition searched ::
    "cfg_arch \<Rightarrow> NRBlock list \<Rightarrow> block_ref set \<Rightarrow> (block_ref \<rightharpoonup> int) \<Rightarrow> (block_ref \<rightharpoonup> int) \<Rightarrow> nat \<Rightarrow> int \<Rightarrow> bool" where
  "searched arch bs V d d' k t \<longleftrightarrow>
     values_ok arch bs d' \<and> dom d \<subseteq> dom d' \<and> (t = -1 \<or> t = 0 \<or> t = 1) \<and> (t = 0 \<longrightarrow> may_return arch bs k) \<and>
     (t = -1 \<longrightarrow> nb_id (bs ! k) \<in> V) \<and> (ones_ok arch bs V d \<longrightarrow> t = 0 \<or> ones_ok arch bs V d' \<and> settled bs V d' k)"

text \<open>The loop over the links of a block, given what the calls in it do.\<close>

definition looped ::
    "cfg_arch \<Rightarrow> NRBlock list \<Rightarrow> block_ref set \<Rightarrow> (block_ref \<rightharpoonup> int) \<Rightarrow> int \<Rightarrow> ControlFlowLink list \<Rightarrow> (block_ref \<rightharpoonup> int) \<Rightarrow> int \<Rightarrow> bool" where
  "looped arch bs V d r ls d' ret \<longleftrightarrow>
     values_ok arch bs d' \<and> dom d \<subseteq> dom d' \<and> (ret = 0 \<or> ret = 1) \<and>
     (ret = 0 \<longrightarrow> r = 0 \<or> (\<exists>l \<in> set ls. may_return arch bs (nat (getTargetID l)))) \<and>
     (r = 0 \<longrightarrow> ret = 0) \<and> (ones_ok arch bs V d \<longrightarrow> ret = 0 \<or> ones_ok arch bs V d' \<and> (\<forall>l \<in> set ls. settled bs V d' (nat (getTargetID l))))"

lemma looped_step:
  assumes "looped arch bs V d r ls d1 ret" "searched arch bs V d1 d2 (nat (getTargetID l)) t"
  shows "looped arch bs V d r (ls @ [l]) d2 (if t = -1 then ret else ret AND t)"
proof (cases "t = 0")
  case True
  with assms show ?thesis by (auto simp: looped_def searched_def)
next
  case False
  with assms have "(if t = -1 then ret else ret AND t) = ret" by (auto simp: looped_def searched_def)
  moreover have "looped arch bs V d r (ls @ [l]) d2 ret"
  proof -
    from assms have dom: "dom d \<subseteq> dom d1" "dom d1 \<subseteq> dom d2" by (simp_all add: looped_def searched_def)
    have "ones_ok arch bs V d2 \<and> (\<forall>m \<in> set (ls @ [l]). settled bs V d2 (nat (getTargetID m)))" if "ones_ok arch bs V d" "ret \<noteq> 0"
    proof -
      from that assms(1) have 1: "ones_ok arch bs V d1" "\<forall>m \<in> set ls. settled bs V d1 (nat (getTargetID m))"
        by (simp_all add: looped_def)
      with False assms(2) have 2: "ones_ok arch bs V d2" "settled bs V d2 (nat (getTargetID l))" by (simp_all add: searched_def)
      have "\<forall>m \<in> set ls. settled bs V d2 (nat (getTargetID m))" using 1(2) settled_mono [OF _ dom(2)] by blast
      with 2 show ?thesis by simp
    qed
    moreover have "values_ok arch bs d2" using assms(2) by (simp add: searched_def)
    moreover have "(ret = 0 \<or> ret = 1) \<and> (ret = 0 \<longrightarrow> r = 0 \<or> (\<exists>m \<in> set (ls @ [l]). may_return arch bs (nat (getTargetID m)))) \<and> (r = 0 \<longrightarrow> ret = 0)"
      using assms(1) by (auto simp: looped_def)
    ultimately show ?thesis unfolding looped_def using dom by blast
  qed
  ultimately show ?thesis by simp
qed

lemma looped_finish:
  assumes l: "looped arch bs (insert (nb_id (bs ! k)) V) d r ls d' ret" and k: "k < length bs" "verdict bs k = Some r"
    and ls: "map getTargetID ls = successors arch bs k" and g: "\<forall>l \<in> set ls. 0 \<le> getTargetID l"
    and inj: "distinct (map nb_id bs)"
  defines "v \<equiv> if ls = [] then 0 else ret"
  shows "searched arch bs V d (d'(nb_id (bs ! k) \<mapsto> v)) k v"
proof -
  let ?b = "nb_id (bs ! k)"
  have r: "r = 0 \<or> r = 1" using block_verdict_range [OF k(2)] .
  have v: "v = 0 \<or> v = 1" using l by (auto simp: v_def looped_def)
  have may: "may_return arch bs k" if "v = 0"
  proof (cases "ls = [] \<or> r = 0")
    case True
    then show ?thesis using k ls by (auto intro: may_return.leave)
  next
    case False
    with l that obtain m where m: "m \<in> set ls" "may_return arch bs (nat (getTargetID m))"
      by (auto simp: v_def looped_def)
    then have "int (nat (getTargetID m)) \<in> set (successors arch bs k)" using g ls [symmetric] by simp
    from may_return.follow [OF k this m(2)] show ?thesis .
  qed
  have same: "j = k" if "j < length bs" "nb_id (bs ! j) = ?b" for j
    using inj that k(1) by (simp add: distinct_conv_nth) metis
  have vals: "values_ok arch bs (d'(?b \<mapsto> v))"
    using l may v same by (auto simp: values_ok_def looped_def)
  have "ones_ok arch bs V (d'(?b \<mapsto> v)) \<and> settled bs V (d'(?b \<mapsto> v)) k" if o: "ones_ok arch bs V d" and "v \<noteq> 0"
  proof -
    from ones_ok_insert [OF o] that l have d': "ones_ok arch bs (insert ?b V) d'" "\<forall>m \<in> set ls. settled bs (insert ?b V) d' (nat (getTargetID m))"
      and rv: "r = 1" "ls \<noteq> []" "v = 1" using v r by (auto simp: v_def looped_def split: if_splits)
    have st: "settled bs V (d'(?b \<mapsto> v)) j" if "settled bs (insert ?b V) d' j" for j
      using that by (auto simp: settled_def)
    have "settled bs V (d'(?b \<mapsto> v)) j" if "int j \<in> set (successors arch bs k)" for j
    proof -
      from that ls [symmetric] obtain m where "m \<in> set ls" "int j = getTargetID m" by auto
      then have "m \<in> set ls" "nat (getTargetID m) = j" by simp_all
      with d'(2) st show ?thesis by blast
    qed
    moreover have "successors arch bs k \<noteq> []" using rv(2) ls by auto
    ultimately have "(d'(?b \<mapsto> v)) (nb_id (bs ! e)) = Some 1 \<and> verdict bs e = Some 1 \<and> successors arch bs e \<noteq> [] \<and>
        (\<forall>j. int j \<in> set (successors arch bs e) \<longrightarrow> settled bs V (d'(?b \<mapsto> v)) j)"
      if "e < length bs" "(d'(?b \<mapsto> v)) (nb_id (bs ! e)) \<noteq> None" for e
    proof (cases "e = k")
      case False
      with same [OF that(1)] have e: "nb_id (bs ! e) \<noteq> ?b" by blast
      then have "d' (nb_id (bs ! e)) \<noteq> None" using that(2) by simp
      with ones_okD [OF d'(1) that(1)] st e show ?thesis by simp
    qed (use rv k in simp)
    then show ?thesis by (auto simp: ones_ok_def settled_def)
  qed
  with vals v may l show ?thesis by (auto simp: searched_def looped_def)
qed

lemma isNonReturn_searched:
  assumes g: "graph_of arch bs g" and m: "all_instrs (marked st) bs" and "k < length bs" "values_ok arch bs d"
  shows "\<exists>t d'. isNonReturn st (nb_id (bs ! k)) V \<lparr>ns_graph = g, ns_blocks = bs, noreturn_done = d\<rparr> =
      Some (t, \<lparr>ns_graph = g, ns_blocks = bs, noreturn_done = d'\<rparr>) \<and> searched arch bs V d d' k t"
  using assms(3,4)
proof (induction "card (nb_id ` set bs - V)" arbitrary: V k d rule: less_induct)
  case less
  let ?b = "nb_id (bs ! k)" let ?s = "\<lambda>d. \<lparr>ns_graph = g, ns_blocks = bs, noreturn_done = d\<rparr>"
  have inj: "distinct (map nb_id bs)" using g by (simp add: graph_of_def)
  have sc: "scan_block st (nb_instrs (bs ! k)) = Some (nb_instrs (bs ! k), verdict bs k)"
    using m nth_mem [OF less.prems(1)] by (intro scan_marked) blast
  note eval = find_block_nth [OF inj less.prems(1)] put_block_nth [OF inj less.prems(1)] sc graph_of_node(1,2) [OF g less.prems(1)]
  consider r where "d ?b = Some r" | "d ?b = None" "?b \<in> V" | "d ?b = None" "?b \<notin> V" "verdict bs k = None"
    | r where "d ?b = None" "?b \<notin> V" "verdict bs k = Some r" by fastforce
  then show ?case
  proof cases
    case 1
    with less.prems show ?thesis
      by (subst isNonReturn.simps) (auto simp: searched_def values_ok_def settled_def ones_ok_def)
  next
    case 2
    with less.prems show ?thesis by (subst isNonReturn.simps) (auto simp: searched_def settled_def)
  next
    case 3
    with less.prems show ?thesis
      by (subst isNonReturn.simps) (auto simp: eval searched_def settled_def)
  next
    case 4
    let ?body = "\<lambda>l (ret, s). do { dest \<leftarrow> graph_get (ns_graph s) (getTargetID l);
        (t, s) \<leftarrow> isNonReturn st (getBlock dest) (insert ?b V) s; Some (if t = -1 then ret else ret AND t, s) }"
    let ?ls = "links (graph g ! k)"
    have small: "card (nb_id ` set bs - insert ?b V) < card (nb_id ` set bs - V)"
      using less.prems(1) 4(2) by (intro psubset_card_mono) auto
    have "\<exists>x. for_each ?body ?ls (r, ?s d) = Some x \<and>
        (\<exists>d' ret. x = (ret, ?s d') \<and> looped arch bs (insert ?b V) d r ?ls d' ret)"
    proof (rule for_each_invariant)
      show "\<exists>d' ret. (r, ?s d) = (ret, ?s d') \<and> looped arch bs (insert ?b V) d r [] d' ret"
        using less.prems(2) block_verdict_range [OF 4(3)] by (auto simp: looped_def)
    next
      fix l ys x
      assume "l \<in> set ?ls" and "\<exists>d' ret. x = (ret, ?s d') \<and> looped arch bs (insert ?b V) d r ys d' ret"
      then obtain d1 ret where x: "x = (ret, ?s d1)" "looped arch bs (insert ?b V) d r ys d1 ret" by blast
      from graph_of_node(5) [OF g less.prems(1) \<open>l \<in> set ?ls\<close>] obtain j where j: "j < length bs" "getTargetID l = int j" by blast
      from less.hyps [OF small j(1), of d1] x(2) obtain t d2 where
        t: "isNonReturn st (nb_id (bs ! j)) (insert ?b V) (?s d1) = Some (t, ?s d2)" "searched arch bs (insert ?b V) d1 d2 j t"
        by (auto simp: looped_def)
      with looped_step [OF x(2), of d2 l t] j graph_of_node(2,3) [OF g j(1)] x(1)
      show "\<exists>x'. ?body l x = Some x' \<and> (\<exists>d' ret. x' = (ret, ?s d') \<and> looped arch bs (insert ?b V) d r (ys @ [l]) d' ret)"
        by auto
    qed
    then obtain d' ret where lp: "for_each ?body ?ls (r, ?s d) = Some (ret, ?s d')" "looped arch bs (insert ?b V) d r ?ls d' ret" by blast
    have "\<forall>l \<in> set ?ls. 0 \<le> getTargetID l" using graph_of_node(5) [OF g less.prems(1)] by fastforce
    from looped_finish [OF lp(2) less.prems(1) 4(3) graph_of_node(4) [OF g less.prems(1)] this inj] show ?thesis
      using 4 lp(1) by (subst isNonReturn.simps) (auto simp: eval)
  qed
qed

subsection \<open>Functions that never return\<close>

lemma ones_no_return:
  assumes "ones_ok arch bs {} d"
  shows "may_return arch bs k \<Longrightarrow> \<not> settled bs {} d k"
proof (induction rule: may_return.induct)
  case (leave k r)
  then show ?case using ones_okD [OF assms leave(1)] by (cases "d (nb_id (bs ! k))") (auto simp: settled_def)
next
  case (follow k r j)
  then show ?case using ones_okD(4) [OF assms follow(1) _ follow(3)] by (cases "d (nb_id (bs ! k))") (auto simp: settled_def)
qed

definition blocks_ok :: "cfg_arch \<Rightarrow> NRBlock list \<Rightarrow> bool" where
  "blocks_ok arch bs \<longleftrightarrow> bs \<noteq> [] \<and> function_ok arch (map cf_block bs)"

lemma blocks_graph:
  assumes "blocks_ok arch bs"
  shows "\<exists>g. newControlFlowGraph arch (map cf_block bs) = Some g \<and> graph_of arch bs g"
proof -
  have "distinct (map nb_id bs)" using assms by (simp add: blocks_ok_def function_ok_def)
  with graph_stage [of arch "map cf_block bs"] assms show ?thesis
    by (auto simp: blocks_ok_def graph_of_def successors_def)
qed

lemma neverReturns_iff:
  assumes "blocks_ok arch bs" "all_instrs (marked st) bs"
  shows "neverReturns arch st bs = Some (\<not> may_return arch bs 0, bs)"
proof -
  from blocks_graph [OF assms(1)] obtain g where g: "newControlFlowGraph arch (map cf_block bs) = Some g" "graph_of arch bs g" by blast
  have 0: "0 < length bs" using assms(1) by (simp add: blocks_ok_def)
  let ?s = "\<lambda>d. \<lparr>ns_graph = g, ns_blocks = bs, noreturn_done = d\<rparr>"
  have "values_ok arch bs Map.empty" by (simp add: values_ok_def)
  from isNonReturn_searched [OF g(2) assms(2) 0 this, of "{}"] obtain t d where
    t: "isNonReturn st (nb_id (bs ! 0)) {} (?s Map.empty) = Some (t, ?s d)" "searched arch bs {} Map.empty d 0 t" by blast
  have "ones_ok arch bs {} Map.empty" by (simp add: ones_ok_def)
  with t(2) have "t = 1 \<longleftrightarrow> \<not> may_return arch bs 0"
    using ones_no_return [of arch bs d 0] by (auto simp: searched_def)
  with g t(1) graph_of_node(2,3) [OF g(2) 0] show ?thesis by (simp add: neverReturns_def)
qed

end
