(* ===== verification/NonReturnPass.thy ===== *)
theory NonReturnPass
  imports NonReturnCorrect
begin

section \<open>The pass over the functions of a module\<close>

text \<open>
  What the pass does to the functions, and what holds when it settles. An instruction is changed only by marking a call as
  one that does not return, and only when it calls a function that is known not to, or \<^verbatim>\<open>error\<close>.
\<close>

definition calls_error :: "NonReturnFunction \<Rightarrow> NRInstruction \<Rightarrow> bool" where
  "calls_error st i \<longleftrightarrow> (\<exists>m. ni_semantic i = ControlFlowInstruction m True) \<and> hasLinkToGNUError st i = Some True"

definition instr_marked :: "NonReturnFunction \<Rightarrow> NRInstruction \<Rightarrow> NRInstruction \<Rightarrow> bool" where
  "instr_marked st i j \<longleftrightarrow>
     j = i \<or> j = setNonreturn i \<and> (hasLinkToNeverReturn st i = Some True \<or> hasLinkToGNUError st i = Some True)"

definition block_marked :: "NonReturnFunction \<Rightarrow> NRBlock \<Rightarrow> NRBlock \<Rightarrow> bool" where
  "block_marked st b c \<longleftrightarrow>
     nb_id c = nb_id b \<and> nb_address c = nb_address b \<and> list_all2 (instr_marked st) (nb_instrs b) (nb_instrs c)"

lemma setNonreturn_view [simp]:
  "ni_id (setNonreturn i) = ni_id i" "ni_link (setNonreturn i) = ni_link i" "ni_address (setNonreturn i) = ni_address i"
  "setNonreturn (setNonreturn i) = setNonreturn i"
  by (simp_all add: setNonreturn_def split: CFSemantic.splits)

lemma list_all2_in2: "list_all2 P xs ys \<Longrightarrow> y \<in> set ys \<Longrightarrow> \<exists>x \<in> set xs. P x y"
  by (induction rule: list_all2_induct) auto

lemma hasName_view [simp]: "hasName (F\<lparr>nf_blocks := bs\<rparr>) = hasName F" "hasName (F\<lparr>nf_nonreturn := b\<rparr>) = hasName F"
  by (simp_all add: hasName_def fun_eq_iff)

lemma links_setNonreturn [simp]:
  "hasLinkToNeverReturn st (setNonreturn i) = hasLinkToNeverReturn st i"
  "hasLinkToGNUError st (setNonreturn i) = hasLinkToGNUError st i"
  by (simp_all add: hasLinkToNeverReturn_def hasLinkToGNUError_def)

lemma linked_error: "linked st i \<Longrightarrow> ni_semantic i = ControlFlowInstruction m r \<Longrightarrow> hasLinkToGNUError st i \<noteq> None"
  by (auto simp: linked_def hasLinkToNeverReturn_def hasLinkToGNUError_def split: option.splits NRLink.splits bind_splits)

lemma marked_setNonreturn: "linked st i \<Longrightarrow> marked st (setNonreturn i)"
  by (cases "ni_semantic i") (auto simp: marked_def linked_def setNonreturn_def hasLinkToNeverReturn_def)

subsection \<open>The first step of a visit\<close>

lemma mark_instr_ok:
  assumes "linked st i"
  shows "\<exists>j. mark_instr st i = Some (j, calls_error st j) \<and> marked st j \<and> instr_marked st i j"
proof (cases "ni_semantic i")
  case (ControlFlowInstruction m r)
  from assms ControlFlowInstruction obtain n where n: "hasLinkToNeverReturn st i = Some n" by (auto simp: linked_def)
  from linked_error [OF assms ControlFlowInstruction] obtain e where e: "hasLinkToGNUError st i = Some e" by blast
  consider "\<not> r" | "r" "n" | "r" "\<not> n" by blast
  then show ?thesis
  proof cases
    case 2
    have "\<not> calls_error st (setNonreturn i)" using ControlFlowInstruction by (simp add: calls_error_def setNonreturn_def)
    with 2 n ControlFlowInstruction marked_setNonreturn [OF assms] show ?thesis by (simp add: mark_instr_def instr_marked_def)
  qed (use assms ControlFlowInstruction n e in \<open>auto simp: mark_instr_def calls_error_def marked_def instr_marked_def\<close>)
qed (use assms in \<open>auto simp: mark_instr_def calls_error_def marked_def instr_marked_def linked_def\<close>)

lemma mark_instrs_ok:
  assumes "\<forall>i \<in> set is. linked st i"
  shows "\<exists>js. mark_instrs st is = Some (js, map ni_id (filter (calls_error st) js)) \<and> (\<forall>j \<in> set js. marked st j) \<and>
    list_all2 (instr_marked st) is js"
  using assms
proof (induction "is")
  case (Cons i "is")
  from mark_instr_ok [of st i] Cons.prems obtain j where
    j: "mark_instr st i = Some (j, calls_error st j)" "marked st j" "instr_marked st i j" by auto
  from j(3) have "ni_id i = ni_id j" by (auto simp: instr_marked_def)
  with j Cons show ?case by auto
qed simp

definition instrs :: "NRBlock list \<Rightarrow> NRInstruction list" where
  "instrs bs = concat (map nb_instrs bs)"

lemma mark_blocks_ok:
  assumes "all_instrs (linked st) bs"
  shows "\<exists>cs. mark_blocks st bs = Some (cs, map ni_id (filter (calls_error st) (instrs cs))) \<and> all_instrs (marked st) cs \<and>
    list_all2 (block_marked st) bs cs"
  using assms
proof (induction bs)
  case (Cons b bs)
  from mark_instrs_ok [of "nb_instrs b" st] Cons.prems obtain js where
    j: "mark_instrs st (nb_instrs b) = Some (js, map ni_id (filter (calls_error st) js))" "\<forall>j \<in> set js. marked st j"
      "list_all2 (instr_marked st) (nb_instrs b) js" by auto
  from Cons obtain cs where c: "mark_blocks st bs = Some (cs, map ni_id (filter (calls_error st) (instrs cs)))"
      "all_instrs (marked st) cs" "list_all2 (block_marked st) bs cs" by auto
  have "block_marked st b (b\<lparr>nb_instrs := js\<rparr>)" using j(3) by (simp add: block_marked_def)
  with j(1,2) c show ?case by (auto simp: instrs_def)
qed (simp add: instrs_def)

text \<open>Marking keeps the identities and what the construction of the graph needs.\<close>

lemma marked_ids: "list_all2 (block_marked st) bs cs \<Longrightarrow> map nb_id cs = map nb_id bs \<and> map ni_id (instrs cs) = map ni_id (instrs bs)"
proof (induction rule: list_all2_induct)
  case (Cons b bs c cs)
  from Cons(1) have "map ni_id (nb_instrs c) = map ni_id (nb_instrs b)"
    by (auto simp: block_marked_def list_all2_conv_all_nth instr_marked_def intro!: nth_equalityI)
  with Cons show ?case by (simp add: instrs_def block_marked_def)
qed (simp add: instrs_def)

lemma terminator_marked:
  assumes "block_marked st b c" "map block_id f = map block_id g" "terminator_ok arch f (cf_block b)"
  shows "terminator_ok arch g (cf_block c)"
proof -
  have l: "length (nb_instrs b) = length (nb_instrs c)" using assms(1) by (auto simp: block_marked_def dest: list_all2_lengthD)
  from assms(3) have "nb_instrs b \<noteq> []" by (auto simp: terminator_ok_def cf_block_def)
  then have "nb_instrs c \<noteq> []" using l by auto
  moreover have "instr_marked st (last (nb_instrs b)) (last (nb_instrs c))"
    using l assms(1) \<open>nb_instrs b \<noteq> []\<close> \<open>nb_instrs c \<noteq> []\<close> by (simp add: block_marked_def list_all2_conv_all_nth last_conv_nth)
  moreover have "set (map block_id f) = set (map block_id g)" using assms(2) by simp
  ultimately show ?thesis
    using assms(3) \<open>nb_instrs b \<noteq> []\<close>
    by (auto simp: terminator_ok_def cf_block_def cf_instruction_def instr_marked_def setNonreturn_def
        split: CFSemantic.splits option.splits link_target.splits)
qed

lemma blocks_ok_marked:
  assumes "list_all2 (block_marked st) bs cs" "blocks_ok arch bs"
  shows "blocks_ok arch cs"
proof -
  have m: "map block_id (map cf_block bs) = map block_id (map cf_block cs)" using marked_ids [OF assms(1)] by simp
  have l: "length bs = length cs" using assms(1) by (rule list_all2_lengthD)
  have "terminator_ok arch (map cf_block cs) (cf_block (cs ! k))" if "k < length cs" for k
    using terminator_marked [OF _ m] that assms l by (auto simp: list_all2_conv_all_nth blocks_ok_def function_ok_def list_all_length)
  with assms(2) l m show ?thesis
    by (auto simp: blocks_ok_def function_ok_def list_all_length simp del: map_map)
qed

lemma mark_errors_ok:
  assumes "blocks_ok arch bs" "distinct (map ni_id (instrs bs))" "all_instrs (marked st) bs"
  shows "\<exists>cs. mark_errors arch arg0 bs (map ni_id (filter (calls_error st) (instrs bs))) = Some cs \<and>
    list_all2 (block_marked st) bs cs \<and> all_instrs (marked st) cs"
proof (cases "filter (calls_error st) (instrs bs) = []")
  case True
  have "list_all2 (block_marked st) bs bs"
    by (rule list_all2_refl) (simp add: block_marked_def list_all2_refl instr_marked_def)
  with True assms(3) show ?thesis by (simp add: mark_errors_def)
next
  case False
  from blocks_graph [OF assms(1)] obtain g where g: "newControlFlowGraph arch (map cf_block bs) = Some g" by blast
  define E where "E = set (filter (\<lambda>c. case arg0 g bs c of None \<Rightarrow> False | Some v \<Rightarrow> v \<noteq> 0) (map ni_id (filter (calls_error st) (instrs bs))))"
  define t where "t = (\<lambda>i. if ni_id i \<in> E then setNonreturn i else i)"
  have t: "instr_marked st i (t i) \<and> marked st (t i)" if "b \<in> set bs" "i \<in> set (nb_instrs b)" for b i
  proof (cases "ni_id i \<in> E")
    case True
    then obtain j where j: "j \<in> set (instrs bs)" "calls_error st j" "ni_id j = ni_id i" by (auto simp: E_def)
    have "i \<in> set (instrs bs)" using that by (auto simp: instrs_def)
    with j(1,3) assms(2) have "j = i" by (auto simp: distinct_map dest: inj_onD)
    with j(2) True that assms(3) marked_setNonreturn [of st i] show ?thesis
      by (auto simp: t_def calls_error_def instr_marked_def marked_def)
  qed (use that assms(3) in \<open>simp add: t_def instr_marked_def\<close>)
  let ?cs = "map (\<lambda>b. b\<lparr>nb_instrs := map t (nb_instrs b)\<rparr>) bs"
  have "list_all2 (block_marked st) bs ?cs" "all_instrs (marked st) ?cs"
    using t by (auto simp: list.rel_map block_marked_def intro!: list.rel_refl_strong)
  moreover have "mark_errors arch arg0 bs (map ni_id (filter (calls_error st) (instrs bs))) = Some ?cs"
    unfolding mark_errors_def t_def E_def Let_def g using False by simp
  ultimately show ?thesis by blast
qed

lemma block_marked_trans:
  assumes "list_all2 (block_marked st) as bs" "list_all2 (block_marked st) bs cs"
  shows "list_all2 (block_marked st) as cs"
proof -
  have "instr_marked st i k" if "instr_marked st i j" "instr_marked st j k" for i j k
    using that by (auto simp: instr_marked_def)
  then have "list_all2 (instr_marked st) is ks" if "list_all2 (instr_marked st) is js" "list_all2 (instr_marked st) js ks" for "is" js ks
    using list_all2_trans [of "instr_marked st" "instr_marked st" "instr_marked st"] that by blast
  then have "block_marked st a c" if "block_marked st a b" "block_marked st b c" for a b c
    using that by (auto simp: block_marked_def)
  from list_all2_trans [OF this assms] show ?thesis .
qed

text \<open>Both steps that mark, and the test, on a function.\<close>

definition nr_function_ok :: "cfg_arch \<Rightarrow> NonReturnFunction \<Rightarrow> NRFunction \<Rightarrow> bool" where
  "nr_function_ok arch st F \<longleftrightarrow>
     blocks_ok arch (nf_blocks F) \<and> distinct (map ni_id (instrs (nf_blocks F))) \<and> all_instrs (linked st) (nf_blocks F)"

definition left_by_visit :: "cfg_arch \<Rightarrow> nat \<Rightarrow> NRFunction \<Rightarrow> NonReturnFunction \<Rightarrow> NRBlock list \<Rightarrow> NonReturnFunction" where
  "left_by_visit arch f F st bs =
     (if may_return arch bs 0 then st\<lparr>nr_functions := (nr_functions st)(f \<mapsto> F\<lparr>nf_blocks := bs\<rparr>)\<rparr>
      else \<lparr>nr_functions = (nr_functions st)(f \<mapsto> F\<lparr>nf_blocks := bs, nf_nonreturn := True\<rparr>), nonReturnList = insert f (nonReturnList st)\<rparr>)"

lemma visit_eq:
  assumes "nr_functions st f = Some F" "\<not> nf_nonreturn F" "nr_function_ok arch st F"
  shows "\<exists>bs. nonreturn_visit arch arg0 f st = Some (left_by_visit arch f F st bs) \<and>
    list_all2 (block_marked st) (nf_blocks F) bs \<and> all_instrs (marked st) bs"
proof -
  from assms(3) have F: "blocks_ok arch (nf_blocks F)" "distinct (map ni_id (instrs (nf_blocks F)))" "all_instrs (linked st) (nf_blocks F)"
    by (simp_all add: nr_function_ok_def)
  from mark_blocks_ok [OF F(3)] obtain cs where
    c: "mark_blocks st (nf_blocks F) = Some (cs, map ni_id (filter (calls_error st) (instrs cs)))" "all_instrs (marked st) cs"
      "list_all2 (block_marked st) (nf_blocks F) cs" by blast
  have "distinct (map ni_id (instrs cs))" using marked_ids [OF c(3)] F(2) by simp
  from mark_errors_ok [OF blocks_ok_marked [OF c(3) F(1)] this c(2), of arg0] obtain bs where
    b: "mark_errors arch arg0 cs (map ni_id (filter (calls_error st) (instrs cs))) = Some bs" "list_all2 (block_marked st) cs bs"
      "all_instrs (marked st) bs" by blast
  note m = block_marked_trans [OF c(3) b(2)]
  from neverReturns_iff [OF blocks_ok_marked [OF m F(1)] b(3)] assms(1,2) c(1) b(1)
  have "nonreturn_visit arch arg0 f st = Some (left_by_visit arch f F st bs)"
    by (simp add: nonreturn_visit_def left_by_visit_def)
  with m b(3) show ?thesis by blast
qed

subsection \<open>Progress of the pass\<close>

definition function_advances :: "NonReturnFunction \<Rightarrow> NRFunction \<Rightarrow> NRFunction \<Rightarrow> bool" where
  "function_advances st F G \<longleftrightarrow>
     nf_name G = nf_name F \<and> nf_symbol G = nf_symbol F \<and> (nf_nonreturn F \<longrightarrow> G = F) \<and> list_all2 (block_marked st) (nf_blocks F) (nf_blocks G)"

text \<open>Only functions that were visited change; those that are new in the list of the pass are exactly the ones newly marked.\<close>

definition advances :: "NonReturnFunction \<Rightarrow> NonReturnFunction \<Rightarrow> bool" where
  "advances st st' \<longleftrightarrow>
     nonReturnList st \<subseteq> nonReturnList st' \<and>
     (\<forall>f. rel_option (function_advances st') (nr_functions st f) (nr_functions st' f)) \<and>
     (\<forall>f F G. nr_functions st f = Some F \<longrightarrow> nr_functions st' f = Some G \<longrightarrow> nf_nonreturn G \<longrightarrow>
        nf_nonreturn F \<or> f \<in> nonReturnList st')"

lemma advancesD:
  assumes "advances st st'"
  shows "nonReturnList st \<subseteq> nonReturnList st'"
    "nr_functions st f = None \<longleftrightarrow> nr_functions st' f = None"
    "nr_functions st f = Some F \<Longrightarrow> \<exists>G. nr_functions st' f = Some G \<and> function_advances st' F G \<and>
      (nf_nonreturn G \<longrightarrow> nf_nonreturn F \<or> f \<in> nonReturnList st')"
proof -
  have r: "rel_option (function_advances st') (nr_functions st f) (nr_functions st' f)" using assms by (simp add: advances_def)
  then show "nr_functions st f = None \<longleftrightarrow> nr_functions st' f = None" by (auto elim: option.rel_cases)
  show "nonReturnList st \<subseteq> nonReturnList st'" using assms by (simp add: advances_def)
  assume F: "nr_functions st f = Some F"
  with r obtain G where "nr_functions st' f = Some G" "function_advances st' F G" by (auto elim: option.rel_cases)
  with F assms show "\<exists>G. nr_functions st' f = Some G \<and> function_advances st' F G \<and> (nf_nonreturn G \<longrightarrow> nf_nonreturn F \<or> f \<in> nonReturnList st')"
    by (auto simp: advances_def)
qed

lemma hasName_advances: "function_advances st F G \<Longrightarrow> hasName G = hasName F"
  by (simp add: function_advances_def hasName_def fun_eq_iff)

lemma links_advance:
  assumes "advances st st'"
  shows "hasLinkToNeverReturn st i = None \<longleftrightarrow> hasLinkToNeverReturn st' i = None"
    "hasLinkToNeverReturn st i = Some True \<Longrightarrow> hasLinkToNeverReturn st' i = Some True"
    "hasLinkToGNUError st' i = hasLinkToGNUError st i"
proof -
  have *: "(hasLinkToNeverReturn st i = None \<longleftrightarrow> hasLinkToNeverReturn st' i = None) \<and>
    (hasLinkToNeverReturn st i = Some True \<longrightarrow> hasLinkToNeverReturn st' i = Some True) \<and> hasLinkToGNUError st' i = hasLinkToGNUError st i"
  proof (cases "\<exists>f a. ni_link i = Some (FunctionLink f a)")
    case True
    then obtain f a where l: "ni_link i = Some (FunctionLink f a)" by blast
    show ?thesis
    proof (cases "nr_functions st f")
      case None
      then have "nr_functions st' f = None" using advancesD(2) [OF assms, of f] by simp
      with l None show ?thesis by (simp add: hasLinkToNeverReturn_def hasLinkToGNUError_def)
    next
      case (Some F)
      from advancesD(3) [OF assms Some] obtain G where G: "nr_functions st' f = Some G" "function_advances st' F G" by blast
      moreover have "nf_nonreturn F \<longrightarrow> nf_nonreturn G" using G(2) by (auto simp: function_advances_def)
      ultimately show ?thesis
        using l Some hasName_advances [OF G(2)] advancesD(1) [OF assms]
        by (auto simp: hasLinkToNeverReturn_def hasLinkToGNUError_def inList_def)
    qed
  next
    case False
    then show ?thesis by (auto simp: hasLinkToNeverReturn_def hasLinkToGNUError_def split: option.splits NRLink.splits)
  qed
  from * show "hasLinkToNeverReturn st i = None \<longleftrightarrow> hasLinkToNeverReturn st' i = None" by blast
  from * show "hasLinkToNeverReturn st i = Some True \<Longrightarrow> hasLinkToNeverReturn st' i = Some True" by blast
  from * show "hasLinkToGNUError st' i = hasLinkToGNUError st i" by blast
qed

lemma block_marked_advance: "advances st st' \<Longrightarrow> list_all2 (block_marked st) bs cs \<Longrightarrow> list_all2 (block_marked st') bs cs"
  by (erule list_all2_mono) (auto simp: block_marked_def instr_marked_def links_advance elim!: list_all2_mono)

lemma linked_advance: "advances st st' \<Longrightarrow> linked st' i = linked st i"
  by (simp add: linked_def links_advance(1) [of st st'])

lemma advances_refl: "advances st st"
  by (auto simp: advances_def function_advances_def block_marked_def instr_marked_def intro!: option.rel_refl_strong list.rel_refl_strong)

lemma advances_trans:
  assumes "advances st st1" "advances st1 st2"
  shows "advances st st2"
proof -
  have step: "\<exists>H. nr_functions st2 f = Some H \<and> function_advances st2 F H \<and> (nf_nonreturn H \<longrightarrow> nf_nonreturn F \<or> f \<in> nonReturnList st2)"
    if "nr_functions st f = Some F" for f F
  proof -
    from advancesD(3) [OF assms(1) that] obtain G where
      G: "nr_functions st1 f = Some G" "function_advances st1 F G" "nf_nonreturn G \<longrightarrow> nf_nonreturn F \<or> f \<in> nonReturnList st1" by blast
    from advancesD(3) [OF assms(2) G(1)] obtain H where
      H: "nr_functions st2 f = Some H" "function_advances st2 G H" "nf_nonreturn H \<longrightarrow> nf_nonreturn G \<or> f \<in> nonReturnList st2" by blast
    have "function_advances st2 F H"
      using G(2) H(2) block_marked_trans [OF block_marked_advance [OF assms(2)]] by (auto simp: function_advances_def)
    with G(3) H advancesD(1) [OF assms(2)] show ?thesis by blast
  qed
  have "nr_functions st2 f = None" if "nr_functions st f = None" for f
    using that advancesD(2) [OF assms(1)] advancesD(2) [OF assms(2)] by simp
  with step have "rel_option (function_advances st2) (nr_functions st f) (nr_functions st2 f)" for f
    by (cases "nr_functions st f") force+
  with step show ?thesis
    using advancesD(1) [OF assms(1)] advancesD(1) [OF assms(2)] by (fastforce simp: advances_def)
qed

subsection \<open>The invariant and the end of the pass\<close>

definition pass_inv :: "cfg_arch \<Rightarrow> nat list \<Rightarrow> NonReturnFunction \<Rightarrow> bool" where
  "pass_inv arch fs st \<longleftrightarrow>
     nonReturnList st \<subseteq> set fs \<and> (\<forall>f \<in> set fs. \<exists>F. nr_functions st f = Some F \<and> nr_function_ok arch st F) \<and>
     (\<forall>f \<in> nonReturnList st. \<exists>F. nr_functions st f = Some F \<and> nf_nonreturn F \<and> \<not> may_return arch (nf_blocks F) 0)"

text \<open>A function that returns has its calls marked, and a way out.\<close>

definition finished :: "cfg_arch \<Rightarrow> NonReturnFunction \<Rightarrow> nat \<Rightarrow> bool" where
  "finished arch st f \<longleftrightarrow>
     (\<exists>F. nr_functions st f = Some F \<and> (nf_nonreturn F \<or> all_instrs (marked st) (nf_blocks F) \<and> may_return arch (nf_blocks F) 0))"

lemma nr_function_ok_advance:
  assumes "advances st st'" "function_advances st' F G" "nr_function_ok arch st F"
  shows "nr_function_ok arch st' G"
proof -
  have m: "list_all2 (block_marked st') (nf_blocks F) (nf_blocks G)" using assms(2) by (simp add: function_advances_def)
  have l: "linked st' j" if "linked st' i" "instr_marked st' i j" for i j
    using that by (auto simp: linked_def instr_marked_def setNonreturn_def split: CFSemantic.splits)
      (auto simp: hasLinkToNeverReturn_def)
  have F: "all_instrs (linked st') (nf_blocks F)"
    using assms(3) by (simp add: nr_function_ok_def linked_advance [OF assms(1)])
  have "all_instrs (linked st') (nf_blocks G)"
  proof (intro ballI)
    fix c j assume "c \<in> set (nf_blocks G)" "j \<in> set (nb_instrs c)"
    from list_all2_in2 [OF m this(1)] obtain b where "b \<in> set (nf_blocks F)" "list_all2 (instr_marked st') (nb_instrs b) (nb_instrs c)"
      by (auto simp: block_marked_def)
    with list_all2_in2 [OF this(2) \<open>j \<in> set (nb_instrs c)\<close>] F l show "linked st' j" by blast
  qed
  with assms(3) blocks_ok_marked [OF m] marked_ids [OF m] show ?thesis by (simp add: nr_function_ok_def)
qed

lemma left_advances:
  assumes "nr_functions st f = Some F" "\<not> nf_nonreturn F" "list_all2 (block_marked st) (nf_blocks F) bs"
  shows "advances st (left_by_visit arch f F st bs)" (is "advances st ?st")
proof -
  have r: "list_all2 (block_marked s) cs cs" for s cs
    by (auto simp: block_marked_def instr_marked_def intro!: list.rel_refl_strong)
  have l: "hasLinkToNeverReturn st i = Some True \<Longrightarrow> hasLinkToNeverReturn ?st i = Some True"
    "hasLinkToGNUError st i = Some True \<Longrightarrow> hasLinkToGNUError ?st i = Some True" for i
    using assms(1) by (auto simp: left_by_visit_def hasLinkToNeverReturn_def hasLinkToGNUError_def inList_def
        split: option.splits NRLink.splits bind_splits)
  have "list_all2 (block_marked ?st) (nf_blocks F) bs"
    using assms(3) by (rule list_all2_mono) (auto simp: block_marked_def instr_marked_def l elim!: list_all2_mono)
  then show ?thesis
    using assms(1,2) r by (auto simp: advances_def function_advances_def left_by_visit_def intro!: option.rel_refl_strong)
qed

text \<open>While the list of the pass does not change, calls do not change their meaning.\<close>

lemma marked_same_list:
  assumes "advances st st'" "nonReturnList st' = nonReturnList st" "pass_inv arch fs st" "marked st i"
  shows "marked st' i"
proof -
  have "hasLinkToNeverReturn st' i = hasLinkToNeverReturn st i"
  proof (cases "\<exists>f a F. ni_link i = Some (FunctionLink f a) \<and> nr_functions st f = Some F")
    case True
    then obtain f a F where l: "ni_link i = Some (FunctionLink f a)" "nr_functions st f = Some F" by blast
    from advancesD(3) [OF assms(1) l(2)] obtain G where
      G: "nr_functions st' f = Some G" "function_advances st' F G" "nf_nonreturn G \<longrightarrow> nf_nonreturn F \<or> f \<in> nonReturnList st'" by blast
    have "nf_nonreturn G \<longleftrightarrow> nf_nonreturn F"
      using G(2,3) assms(2,3) l(2) by (fastforce simp: function_advances_def pass_inv_def)
    with l G(1) hasName_advances [OF G(2)] assms(2) show ?thesis by (simp add: hasLinkToNeverReturn_def inList_def)
  next
    case False
    then have "nr_functions st f = None \<and> nr_functions st' f = None" if "ni_link i = Some (FunctionLink f a)" for f a
      using that advancesD(2) [OF assms(1), of f] by (cases "nr_functions st f") auto
    then show ?thesis by (auto simp: hasLinkToNeverReturn_def split: option.splits NRLink.splits)
  qed
  with assms(4) show ?thesis by (simp add: marked_def linked_def)
qed

lemma visit_ok:
  assumes "pass_inv arch fs st" "f \<in> set fs"
  shows "\<exists>st'. nonreturn_visit arch arg0 f st = Some st' \<and> pass_inv arch fs st' \<and> advances st st' \<and> finished arch st' f \<and>
    (\<forall>g. g \<noteq> f \<longrightarrow> nr_functions st' g = nr_functions st g)"
proof -
  from assms obtain F where F: "nr_functions st f = Some F" "nr_function_ok arch st F" by (auto simp: pass_inv_def)
  show ?thesis
  proof (cases "nf_nonreturn F")
    case True
    with F assms(1) show ?thesis by (simp add: nonreturn_visit_def finished_def advances_refl)
  next
    case False
    from visit_eq [OF F(1) False F(2), of arg0] obtain bs where
      v: "nonreturn_visit arch arg0 f st = Some (left_by_visit arch f F st bs)" "list_all2 (block_marked st) (nf_blocks F) bs"
        "all_instrs (marked st) bs" by blast
    let ?st = "left_by_visit arch f F st bs"
    note adv = left_advances [OF F(1) False v(2), of arch]
    have others: "\<forall>g. g \<noteq> f \<longrightarrow> nr_functions ?st g = nr_functions st g" by (simp add: left_by_visit_def)
    have "\<exists>G. nr_functions ?st g = Some G \<and> nr_function_ok arch ?st G" if g: "g \<in> set fs" for g
    proof -
      from g assms(1) obtain G where G: "nr_functions st g = Some G" "nr_function_ok arch st G" by (auto simp: pass_inv_def)
      from advancesD(3) [OF adv G(1)] nr_function_ok_advance [OF adv _ G(2)] show ?thesis by blast
    qed
    moreover have "\<exists>G. nr_functions ?st g = Some G \<and> nf_nonreturn G \<and> \<not> may_return arch (nf_blocks G) 0" if g: "g \<in> nonReturnList ?st" for g
    proof (cases "g = f")
      case False
      then have "g \<in> nonReturnList st" using g by (simp add: left_by_visit_def split: if_splits)
      with assms(1) others False show ?thesis by (simp add: pass_inv_def)
    next
      case True
      have "f \<notin> nonReturnList st" using assms(1) F(1) False by (auto simp: pass_inv_def)
      with g True show ?thesis by (auto simp: left_by_visit_def split: if_splits)
    qed
    moreover have "nonReturnList ?st \<subseteq> set fs" using assms by (auto simp: left_by_visit_def pass_inv_def)
    ultimately have "pass_inv arch fs ?st" by (simp add: pass_inv_def)
    moreover have "finished arch ?st f"
    proof (cases "may_return arch bs 0")
      case True
      then have "nonReturnList ?st = nonReturnList st" by (simp add: left_by_visit_def)
      from marked_same_list [OF adv this assms(1)] v(3) True show ?thesis by (simp add: finished_def left_by_visit_def)
    qed (simp add: finished_def left_by_visit_def)
    ultimately show ?thesis using v(1) adv others by blast
  qed
qed

lemma finished_same_list:
  assumes "advances st st'" "nonReturnList st' = nonReturnList st" "pass_inv arch fs st" "finished arch st g"
    and "nr_functions st' g = nr_functions st g"
  shows "finished arch st' g"
  using assms(4,5) marked_same_list [OF assms(1-3)] by (auto simp: finished_def)

lemma round_ok:
  assumes "pass_inv arch fs st"
  shows "\<exists>st'. for_each (nonreturn_visit arch arg0) fs st = Some st' \<and> pass_inv arch fs st' \<and> advances st st' \<and>
    (nonReturnList st' = nonReturnList st \<longrightarrow> (\<forall>f \<in> set fs. finished arch st' f))"
proof (rule for_each_invariant [where I = "\<lambda>ys s. pass_inv arch fs s \<and> advances st s \<and>
    (nonReturnList s = nonReturnList st \<longrightarrow> (\<forall>f \<in> set ys. finished arch s f))"])
  fix f ys s
  assume f: "f \<in> set fs" and s: "pass_inv arch fs s \<and> advances st s \<and> (nonReturnList s = nonReturnList st \<longrightarrow> (\<forall>g \<in> set ys. finished arch s g))"
  from visit_ok [OF _ f, of arch s arg0] s obtain s' where
    v: "nonreturn_visit arch arg0 f s = Some s'" "pass_inv arch fs s'" "advances s s'" "finished arch s' f"
      "\<forall>g. g \<noteq> f \<longrightarrow> nr_functions s' g = nr_functions s g" by blast
  have "finished arch s' g" if "nonReturnList s' = nonReturnList st" "g \<in> set (ys @ [f])" for g
  proof (cases "g = f")
    case False
    have l: "nonReturnList s = nonReturnList st" "nonReturnList s' = nonReturnList s"
      using that(1) s advancesD(1) [OF v(3)] advancesD(1) [of st s] by auto
    with s that(2) False have "finished arch s g" by auto
    with finished_same_list [OF v(3) l(2)] s v(5) False show ?thesis by blast
  qed (use v(4) in simp)
  then show "\<exists>s'. nonreturn_visit arch arg0 f s = Some s' \<and> pass_inv arch fs s' \<and> advances st s' \<and>
      (nonReturnList s' = nonReturnList st \<longrightarrow> (\<forall>g \<in> set (ys @ [f]). finished arch s' g))"
    using v(1-3) s advances_trans [of st s s'] by blast
qed (use assms advances_refl in simp)

interpretation nonreturn: settling_pass "nonreturn_round arch arg0 fs" "\<lambda>st. pass_inv arch fs st \<and> advances st0 st"
    "\<lambda>st. card (set fs) - card (nonReturnList st)" "\<lambda>st. \<forall>f \<in> set fs. finished arch st f"
  for arch arg0 fs st0
proof
  fix st assume st: "pass_inv arch fs st \<and> advances st0 st"
  from round_ok [of arch fs st arg0] st obtain st' where
    r: "for_each (nonreturn_visit arch arg0) fs st = Some st'" "pass_inv arch fs st'" "advances st st'"
      "nonReturnList st' = nonReturnList st \<longrightarrow> (\<forall>f \<in> set fs. finished arch st' f)" by blast
  have sub: "nonReturnList st \<subseteq> nonReturnList st'" "nonReturnList st' \<subseteq> set fs" "finite (nonReturnList st')"
    using advancesD(1) [OF r(3)] r(2) finite_subset [OF _ finite_set] by (auto simp: pass_inv_def)
  then have le: "card (nonReturnList st) \<le> card (nonReturnList st')" "card (nonReturnList st') \<le> card (set fs)"
    by (simp_all add: card_mono)
  have "nonReturnList st' = nonReturnList st" if "card (nonReturnList st) = card (nonReturnList st')"
    using card_subset_eq [OF sub(3,1) that] by simp
  with r le st advances_trans [of st0 st st'] show "\<exists>s' again. nonreturn_round arch arg0 fs st = Some (s', again) \<and>
      (pass_inv arch fs s' \<and> advances st0 s') \<and>
      (if again then card (set fs) - card (nonReturnList s') < card (set fs) - card (nonReturnList st) else \<forall>f \<in> set fs. finished arch s' f)"
    by (auto simp: nonreturn_round_def)
qed

subsection \<open>The pass\<close>


text \<open>The first function ends in a call of \<^verbatim>\<open>abort\<close> through the PLT, the second calls the first before it returns.\<close>

definition abort_block :: NRBlock where
  "abort_block = \<lparr>nb_id = 1, nb_address = 0x100, nb_instrs =
     [\<lparr>ni_id = 1, ni_address = 0x100, ni_semantic = ControlFlowInstruction ''callq'' True, ni_link = Some (PLTLink (Some ''abort'') 0x40)\<rparr>]\<rparr>"

definition call_block :: NRBlock where
  "call_block = \<lparr>nb_id = 2, nb_address = 0x200, nb_instrs =
     [\<lparr>ni_id = 2, ni_address = 0x200, ni_semantic = ControlFlowInstruction ''callq'' True, ni_link = Some (FunctionLink 0 0x100)\<rparr>]\<rparr>"

definition ret_block :: NRBlock where
  "ret_block = \<lparr>nb_id = 3, nb_address = 0x205, nb_instrs =
     [\<lparr>ni_id = 3, ni_address = 0x205, ni_semantic = ReturnInstruction, ni_link = None\<rparr>]\<rparr>"

definition abort_program :: NonReturnFunction where
  "abort_program = \<lparr>nr_functions =
     [0 \<mapsto> \<lparr>nf_name = ''die'', nf_symbol = None, nf_nonreturn = False, nf_blocks = [abort_block]\<rparr>,
      1 \<mapsto> \<lparr>nf_name = ''work'', nf_symbol = None, nf_nonreturn = False, nf_blocks = [call_block, ret_block]\<rparr>], nonReturnList = {}\<rparr>"

lemmas abort_defs = abort_program_def abort_block_def call_block_def ret_block_def

lemma abort_program_ok: "\<forall>f \<in> set [1, 0]. \<exists>F. nr_functions abort_program f = Some F \<and> nr_function_ok ARCH_X86_64 abort_program F"
  by (simp add: abort_defs nr_function_ok_def blocks_ok_def function_ok_def terminator_ok_def cf_block_def cf_instruction_def
      follows_link_def instrs_def linked_def hasLinkToNeverReturn_def)

text \<open>A marked call to a function that does not return, at the start of the first block, leaves no way out.\<close>

lemma marked_call_no_return:
  assumes "list_all2 (block_marked st) (b # cs) bs" "nb_instrs b = i # is" "ni_semantic i = ControlFlowInstruction ''callq'' True"
    and "hasLinkToNeverReturn st i = Some True" "all_instrs (marked st) bs"
  shows "\<not> may_return arch bs 0"
proof -
  from assms(1,2) obtain c ds j js where b: "bs = c # ds" "nb_instrs c = j # js" "instr_marked st i j"
    by (auto simp: list_all2_Cons1 block_marked_def)
  then have "ni_semantic j = ControlFlowInstruction ''callq'' False"
    using assms(3,4,5) by (auto simp: instr_marked_def marked_def setNonreturn_def)
  with b(1,2) have "verdict bs 0 = None" by simp
  then show ?thesis by (auto elim: may_return.cases)
qed


text \<open>
  A conditional jump through the PLT to a function that is known not to return is taken for a call: the function is marked
  although control falls through to a return when the jump is not taken.
\<close>

definition je_block :: NRBlock where
  "je_block = \<lparr>nb_id = 2, nb_address = 0x200, nb_instrs =
     [\<lparr>ni_id = 2, ni_address = 0x200, ni_semantic = ControlFlowInstruction ''je'' True, ni_link = Some (PLTLink (Some ''exit'') 0x40)\<rparr>]\<rparr>"

definition je_function :: NRFunction where
  "je_function = \<lparr>nf_name = ''maybe_exit'', nf_symbol = None, nf_nonreturn = False, nf_blocks = [je_block, ret_block]\<rparr>"

lemma plt_jump_hides_return:
  "\<exists>st' F. nonreturn_visit ARCH_X86_64 arg0 0 \<lparr>nr_functions = [0 \<mapsto> je_function], nonReturnList = {}\<rparr> = Some st' \<and>
    nr_functions st' 0 = Some F \<and> nf_nonreturn F \<and> successors ARCH_X86_64 (nf_blocks F) 0 = [1] \<and> nf_blocks F ! 1 = ret_block"
proof -
  let ?st = "\<lparr>nr_functions = [0 \<mapsto> je_function], nonReturnList = {}\<rparr>"
  have l: "hasLinkToNeverReturn ?st i = Some True" if "ni_link i = Some (PLTLink (Some ''exit'') 0x40)" for i
    using that by (simp add: hasLinkToNeverReturn_def knownList_def)
  have "nr_function_ok ARCH_X86_64 ?st je_function"
    by (simp add: nr_function_ok_def blocks_ok_def function_ok_def terminator_ok_def cf_block_def cf_instruction_def
        je_function_def je_block_def ret_block_def follows_link_def instrs_def linked_def hasLinkToNeverReturn_def)
  from visit_eq [OF _ _ this, of 0 arg0] obtain bs where
    v: "nonreturn_visit ARCH_X86_64 arg0 0 ?st = Some (left_by_visit ARCH_X86_64 0 je_function ?st bs)"
      "list_all2 (block_marked ?st) [je_block, ret_block] bs" "all_instrs (marked ?st) bs"
    by (auto simp: je_function_def)
  from v(2) obtain b c where bs: "bs = [b, c]" "block_marked ?st je_block b" "block_marked ?st ret_block c"
    by (auto simp: list_all2_Cons1)
  have "\<exists>j. nb_instrs b = [j] \<and> ni_semantic j = ControlFlowInstruction ''je'' False \<and> ni_link j = Some (PLTLink (Some ''exit'') 0x40)"
    using bs(1,2) v(3) by (auto simp: block_marked_def je_block_def list_all2_Cons1 instr_marked_def marked_def setNonreturn_def l)
  then obtain j where j: "nb_instrs b = [j]" "ni_semantic j = ControlFlowInstruction ''je'' False"
    "ni_link j = Some (PLTLink (Some ''exit'') 0x40)" by blast
  have c: "c = ret_block"
    using bs(3) by (cases c) (auto simp: block_marked_def ret_block_def list_all2_Cons1 instr_marked_def setNonreturn_def)
  have "nb_id b = 2" using bs(2) by (simp add: block_marked_def je_block_def)
  with j c bs(1) have "successors ARCH_X86_64 bs 0 = [1]"
    by (simp add: successors_def block_successors_def cf_block_def cf_instruction_def follows_link_def cfi_fallThrough_def entered_def
        fallen_into_def ret_block_def block_number_def)
  moreover have "\<not> may_return ARCH_X86_64 bs 0" using j bs(1) by (auto simp: to_function_def elim: may_return.cases)
  ultimately show ?thesis using v(1) bs(1) c by (simp add: left_by_visit_def)
qed

end
