(* ===== verification/LinkSerializer.thy ===== *)
theory LinkSerializer
  imports X86Instr Archive Chunks
begin

unbundle bit_operations_syntax

section \<open>Instructions and links in archives (\<^verbatim>\<open>src/instr/serializer.cpp\<close>)\<close>

text \<open>
  The x86-64 build. Writing threads the assignment of identifiers and the bytes written so far; reading threads the heap
  of the new program, in which a target without a position is given one, and the stream. Chunks of classes that
  \<open>Chunks\<close> does not name are entries of a kind with the same positions; \<open>cls\<close> gives the dynamic type of a chunk.
  \<open>None\<close> is an exception, a failed assertion, or a null pointer or index out of range that is followed.
\<close>

type_synonym ('o, 'i) wstate = "('o, 'i) IDOperations \<times> byte list"

definition w8 :: "8 word \<Rightarrow> ('o, 'i) wstate \<Rightarrow> ('o, 'i) wstate" where
  "w8 v w = (fst w, writeValue v (snd w))"

definition w32 :: "32 word \<Rightarrow> ('o, 'i) wstate \<Rightarrow> ('o, 'i) wstate" where
  "w32 v w = (fst w, writeValue v (snd w))"

definition w64 :: "64 word \<Rightarrow> ('o, 'i) wstate \<Rightarrow> ('o, 'i) wstate" where
  "w64 v w = (fst w, writeValue v (snd w))"

definition wbool :: "bool \<Rightarrow> ('o, 'i) wstate \<Rightarrow> ('o, 'i) wstate" where
  "wbool v w = (fst w, writeValue_bool v (snd w))"

definition wstring :: "byte list \<Rightarrow> ('o, 'i) wstate \<Rightarrow> ('o, 'i) wstate" where
  "wstring v w = (fst w, writeString v (snd w))"

definition wbytes8 :: "byte list \<Rightarrow> ('o, 'i) wstate \<Rightarrow> ('o, 'i) wstate" where
  "wbytes8 v w = (fst w, writeBytes TYPE(8) v (snd w))"

text \<open>\<^verbatim>\<open>writer.writeID(op.assign(object))\<close>\<close>

definition wassign :: "'o option \<Rightarrow> ('o, 'i) wstate \<Rightarrow> ('o, 'i) wstate" where
  "wassign ob w = (let (i, st) = assign_id ob (fst w) in (st, writeID i (snd w)))"

subsection \<open>Writing links\<close>

text \<open>The enumerations of \<^verbatim>\<open>serializer.cpp\<close>, written as their position.\<close>

datatype EgalitoLinkType =
    TYPE_UNKNOWN_LINK | TYPE_AbsoluteNormalLink | TYPE_NormalLink | TYPE_OffsetLink | TYPE_PLTLink | TYPE_JumpTableLink
  | TYPE_EgalitoLoaderLink | TYPE_SymbolOnlyLink | TYPE_MarkerLink | TYPE_AbsoluteDataLink | TYPE_DataOffsetLink
  | TYPE_TLSDataOffsetLink | TYPE_UnresolvedLink | TYPE_ImmAndDispLink

definition all_link_types :: "EgalitoLinkType list" where
  "all_link_types =
    [TYPE_UNKNOWN_LINK, TYPE_AbsoluteNormalLink, TYPE_NormalLink, TYPE_OffsetLink, TYPE_PLTLink, TYPE_JumpTableLink,
     TYPE_EgalitoLoaderLink, TYPE_SymbolOnlyLink, TYPE_MarkerLink, TYPE_AbsoluteDataLink, TYPE_DataOffsetLink,
     TYPE_TLSDataOffsetLink, TYPE_UnresolvedLink, TYPE_ImmAndDispLink]"

definition link_code :: "EgalitoLinkType \<Rightarrow> byte" where
  "link_code t = of_nat (length (takeWhile (\<lambda>u. u \<noteq> t) all_link_types))"

text \<open>The \<^verbatim>\<open>switch\<close> on a type, where the default is the case of \<^verbatim>\<open>TYPE_UNKNOWN_LINK\<close>.\<close>

definition link_type :: "byte \<Rightarrow> EgalitoLinkType" where
  "link_type b = (if unat b < length all_link_types then all_link_types ! unat b else TYPE_UNKNOWN_LINK)"

datatype EgalitoInstrType =
    TYPE_UNKNOWN_INSTR | TYPE_IsolatedInstruction | TYPE_LinkedInstruction | TYPE_ControlFlowInstruction
  | TYPE_DataLinkedControlFlowInstruction | TYPE_ReturnInstruction | TYPE_IndirectJumpInstruction
  | TYPE_IndirectCallInstruction | TYPE_StackFrameInstruction | TYPE_LiteralInstruction | TYPE_LinkedLiteralInstruction

definition all_instr_types :: "EgalitoInstrType list" where
  "all_instr_types =
    [TYPE_UNKNOWN_INSTR, TYPE_IsolatedInstruction, TYPE_LinkedInstruction, TYPE_ControlFlowInstruction,
     TYPE_DataLinkedControlFlowInstruction, TYPE_ReturnInstruction, TYPE_IndirectJumpInstruction,
     TYPE_IndirectCallInstruction, TYPE_StackFrameInstruction, TYPE_LiteralInstruction, TYPE_LinkedLiteralInstruction]"

definition instr_code :: "EgalitoInstrType \<Rightarrow> byte" where
  "instr_code t = of_nat (length (takeWhile (\<lambda>u. u \<noteq> t) all_instr_types))"

definition instr_type :: "byte \<Rightarrow> EgalitoInstrType" where
  "instr_type b = (if unat b < length all_instr_types then all_instr_types ! unat b else TYPE_UNKNOWN_INSTR)"

lemma link_type_code [simp]: "link_type (link_code t) = t"
  by (cases t) (simp_all add: link_type_def link_code_def all_link_types_def)

lemma instr_type_code [simp]: "instr_type (instr_code t) = t"
  by (cases t) (simp_all add: instr_type_def instr_code_def all_instr_types_def)

text \<open>The offset of a link from the address of its target.\<close>

definition target_offset :: "'o LinkEnv \<Rightarrow> 'o Link \<Rightarrow> 64 word option" where
  "target_offset E l =
     do { t \<leftarrow> link_getTarget E l; a \<leftarrow> getTargetAddress E l; b \<leftarrow> address_of_ref E t; Some (a - b) }"

definition scope_byte :: "LinkScope \<Rightarrow> byte" where
  "scope_byte s = ucast s"

fun serialize_link :: "'o LinkEnv \<Rightarrow> 'o Link option \<Rightarrow> ('o, 'i) wstate \<Rightarrow> ('o, 'i) wstate option" where
  "serialize_link E (Some (AbsoluteNormalLink t s)) w =
     Some (wassign t (w8 (scope_byte s) (w8 (link_code TYPE_AbsoluteNormalLink) w)))"
| "serialize_link E (Some (NormalLink t s)) w =
     Some (wassign t (w8 (scope_byte s) (w8 (link_code TYPE_NormalLink) w)))"
| "serialize_link E (Some (OffsetLink t off s)) w =
     do {
       let w = wassign t (w8 (scope_byte s) (w8 (link_code TYPE_OffsetLink) w));
       d \<leftarrow> target_offset E (OffsetLink t off s);
       Some (w64 d w)
     }"
| "serialize_link E (Some (PLTLink a t)) w = Some (wassign t (w8 (link_code TYPE_PLTLink) w))"
| "serialize_link E (Some (JumpTableLink t)) w = Some (wassign t (w8 (link_code TYPE_JumpTableLink) w))"
| "serialize_link E (Some (EgalitoLoaderLink name)) w = Some (wstring name (w8 (link_code TYPE_EgalitoLoaderLink) w))"
| "serialize_link E (Some (SymbolOnlyLink sy a)) w = Some (w8 (link_code TYPE_SymbolOnlyLink) w)"
| "serialize_link E (Some (MarkerLink m)) w = Some (w8 (link_code TYPE_MarkerLink) w)"
| "serialize_link E (Some (AbsoluteDataLink sec a add s)) w =
     do {
       let w = wassign sec (w8 (link_code TYPE_AbsoluteDataLink) w);
       d \<leftarrow> target_offset E (AbsoluteDataLink sec a add s);
       Some (w64 d w)
     }"
| "serialize_link E (Some (InternalAndExternalDataLink x sec a add s)) w =
     do {
       let w = wassign sec (w8 (link_code TYPE_AbsoluteDataLink) w);
       d \<leftarrow> target_offset E (InternalAndExternalDataLink x sec a add s);
       Some (w64 d w)
     }"
| "serialize_link E (Some (DataOffsetLink sec a add s)) w =
     do {
       let w = wassign sec (w8 (scope_byte s) (w8 (link_code TYPE_DataOffsetLink) w));
       d \<leftarrow> target_offset E (DataOffsetLink sec a add s);
       Some (w64 d w)
     }"
| "serialize_link E (Some (TLSDataOffsetLink tls sy a)) w =
     (let w = wbool (sy \<noteq> None) (w64 a (wassign tls (w8 (link_code TYPE_TLSDataOffsetLink) w)))
      in Some (case sy of None \<Rightarrow> w | Some y \<Rightarrow> (fst w, writeString_c (sym_name y) (snd w))))"
| "serialize_link E (Some (UnresolvedLink a)) w = Some (w64 a (w8 (link_code TYPE_UnresolvedLink) w))"
| "serialize_link E (Some (ImmAndDispLink imm disp)) w =
     do {
       s \<leftarrow> getScope imm;
       t \<leftarrow> link_getTarget E imm;
       serialize_link E disp (wassign t (w8 (scope_byte s) (w8 (link_code TYPE_ImmAndDispLink) w)))
     }"
| "serialize_link E l w = Some (w8 (link_code TYPE_UNKNOWN_LINK) w)"

subsection \<open>Reading links\<close>

definition r8 :: "istream \<Rightarrow> 8 word \<times> istream" where "r8 s = read_value s"

definition r32 :: "istream \<Rightarrow> 32 word \<times> istream" where "r32 s = read_value s"

definition r64 :: "istream \<Rightarrow> 64 word \<times> istream" where "r64 s = read_value s"

text \<open>\<^verbatim>\<open>read<bool>()\<close>; on a failed read the local byte of \<^verbatim>\<open>readInto\<close> is not initialised, and \<open>junk\<close> is its value.\<close>

definition rbool :: "byte \<Rightarrow> istream \<Rightarrow> bool \<times> istream" where
  "rbool junk s = snd (readInto_bool junk s)"

definition rbytes8 :: "istream \<Rightarrow> byte list \<times> istream" where "rbytes8 s = readBytes TYPE(8) s"

text \<open>A \<^verbatim>\<open>dynamic_cast\<close> of a pointer.\<close>

definition dynamic_cast :: "(cid \<Rightarrow> EgalitoChunkType) \<Rightarrow> EgalitoChunkType \<Rightarrow> cid option \<Rightarrow> cid option" where
  "dynamic_cast cls t p = (case p of Some c \<Rightarrow> if cls c = t then Some c else None | None \<Rightarrow> None)"

text \<open>The position that a target without one is given; the exception of a class that has none is caught.\<close>

definition place_target :: "cid \<Rightarrow> heap \<Rightarrow> heap option" where
  "place_target c h =
     do {
       x \<leftarrow> h c;
       if getPosition x = None
       then (case setPosition (Some (AbsolutePosition (- 1))) x of None \<Rightarrow> Some h | Some x' \<Rightarrow> Some (h(c \<mapsto> x')))
       else Some h
     }"

type_synonym 'o read_env = "('o, cid) IDOperations \<times> (cid \<Rightarrow> EgalitoChunkType) \<times> byte"

definition deserializeLinkTarget :: "'o read_env \<Rightarrow> heap \<times> istream \<Rightarrow> (cid option \<times> heap \<times> istream) option" where
  "deserializeLinkTarget R r =
     do {
       let (h, s) = r;
       let (i, s) = readID s;
       target \<leftarrow> lookup_id i (fst R);
       case target of
         None \<Rightarrow> Some (None, h, s)
       | Some c \<Rightarrow> do { h \<leftarrow> place_target c h; Some (Some c, h, s) }
     }"

definition read_scope :: "istream \<Rightarrow> LinkScope \<times> istream" where
  "read_scope s = (let (b, s) = r8 s in (ucast b, s))"

definition read_tls_symbol :: "byte \<Rightarrow> istream \<Rightarrow> Symbol option \<times> istream" where
  "read_tls_symbol junk s =
     (let (hasSymbol, s) = rbool junk s
      in if hasSymbol then let (name, s) = readString s
           in (Some \<lparr>sym_address = 0, sym_size = 0, sym_name = name, sym_weak = True\<rparr>, s)
         else (None, s))"

text \<open>Every read leaves at most the bytes it found, and one that succeeds takes some.\<close>

lemma istream_read_shrinks: "length (unread (snd (istream_read n s))) \<le> length (unread s)"
  by (simp add: istream_read_def)

lemma read_value_shrinks: "length (unread (snd (read_value s :: 'a::len word \<times> istream))) \<le> length (unread s)"
  using istream_read_shrinks [of "word_bytes TYPE('a)" s]
  by (auto simp: read_value_def readInto_def split: prod.splits)

lemma r8_shrinks: "r8 s = (b, s') \<Longrightarrow> stillGood s' \<Longrightarrow> length (unread s') < length (unread s)"
  by (auto simp: r8_def read_value_def readInto_def istream_read_def stillGood_def stream_good_def Let_def split: prod.splits if_splits)

lemma r8_le: "r8 s = (b, s') \<Longrightarrow> length (unread s') \<le> length (unread s)"
  using read_value_shrinks [of s, where 'a = 8] by (simp add: r8_def)

lemma readID_le: "readID s = (i, s') \<Longrightarrow> length (unread s') \<le> length (unread s)"
  using read_value_shrinks [of s, where 'a = 32] by (simp add: readID_def)

lemma imm_and_disp_shrinks:
  "(b, s1) = r8 s0 \<Longrightarrow> stillGood s1 \<Longrightarrow> (c, s2) = r8 s1 \<Longrightarrow> (i, s3) = readID s2 \<Longrightarrow> length (unread s3) < length (unread s0)"
  using r8_shrinks [of s0 b s1] r8_le [of s1 c s2] readID_le [of s2 i s3] by simp

function deserialize_link :: "'o read_env \<Rightarrow> heap \<times> istream \<Rightarrow> (cid Link option \<times> heap \<times> istream) option" where
  "deserialize_link R r =
     (let (h, s0) = r; (b, s) = r8 s0; cls = fst (snd R); junk = snd (snd R)
      in if \<not> stillGood s then Some (None, h, s)
         else case link_type b of
           TYPE_AbsoluteNormalLink \<Rightarrow>
             (let (scope, s) = read_scope s
              in do { (t, r) \<leftarrow> deserializeLinkTarget R (h, s); Some (Some (AbsoluteNormalLink t scope), r) })
         | TYPE_NormalLink \<Rightarrow>
             (let (scope, s) = read_scope s
              in do { (t, r) \<leftarrow> deserializeLinkTarget R (h, s); Some (Some (NormalLink t scope), r) })
         | TYPE_OffsetLink \<Rightarrow>
             (let (scope, s) = read_scope s
              in do { (t, h, s) \<leftarrow> deserializeLinkTarget R (h, s); let (off, s) = r64 s; Some (Some (OffsetLink t off scope), h, s) })
         | TYPE_PLTLink \<Rightarrow>
             do { (t, r) \<leftarrow> deserializeLinkTarget R (h, s); Some (Some (PLTLink 0 (dynamic_cast cls TYPE_PLTTrampoline t)), r) }
         | TYPE_JumpTableLink \<Rightarrow>
             do { (t, r) \<leftarrow> deserializeLinkTarget R (h, s); Some (Some (JumpTableLink (dynamic_cast cls TYPE_JumpTable t)), r) }
         | TYPE_EgalitoLoaderLink \<Rightarrow> (let (name, s) = readString s in Some (Some (EgalitoLoaderLink name), h, s))
         | TYPE_SymbolOnlyLink \<Rightarrow> Some (Some (UnresolvedLink 0), h, s)
         | TYPE_MarkerLink \<Rightarrow> Some (Some (UnresolvedLink 0), h, s)
         | TYPE_AbsoluteDataLink \<Rightarrow>
             do {
               (t, h, s) \<leftarrow> deserializeLinkTarget R (h, s);
               let (off, s) = r64 s;
               Some (Some (AbsoluteDataLink (dynamic_cast cls TYPE_DataSection t) off 0 SCOPE_UNKNOWN), h, s)
             }
         | TYPE_DataOffsetLink \<Rightarrow>
             (let (scope, s) = read_scope s
              in do {
                (t, h, s) \<leftarrow> deserializeLinkTarget R (h, s);
                let (off, s) = r64 s;
                Some (Some (DataOffsetLink (dynamic_cast cls TYPE_DataSection t) off 0 scope), h, s)
              })
         | TYPE_TLSDataOffsetLink \<Rightarrow>
             do {
               (t, h, s) \<leftarrow> deserializeLinkTarget R (h, s);
               let (raw, s) = r64 s;
               let (sy, s) = read_tls_symbol junk s;
               Some (Some (TLSDataOffsetLink (dynamic_cast cls TYPE_TLSDataRegion t) sy raw), h, s)
             }
         | TYPE_UnresolvedLink \<Rightarrow> (let (a, s) = r64 s in Some (Some (UnresolvedLink a), h, s))
         | TYPE_ImmAndDispLink \<Rightarrow>
             (let (sb, s) = r8 s; (i, s) = readID s
              in do {
                t \<leftarrow> lookup_id i (fst R);
                (disp, r) \<leftarrow> deserialize_link R (h, s);
                Some (Some (ImmAndDispLink (NormalLink t (ucast sb)) disp), r)
              })
         | TYPE_UNKNOWN_LINK \<Rightarrow> Some (Some (UnresolvedLink 0), h, s))"
  by pat_completeness auto

termination
proof (relation "measure (\<lambda>(R, h, s). length (unread s))", goal_cases)
  case 2
  then show ?case by (auto intro: imm_and_disp_shrinks)
qed simp

declare deserialize_link.simps [simp del]

subsection \<open>Writing instructions\<close>

definition write_semantic ::
    "Disassembler \<Rightarrow> 'o LinkEnv \<Rightarrow> EgalitoInstrType \<Rightarrow> 'o InstructionSemantic \<Rightarrow> ('o, 'i) wstate \<Rightarrow> ('o, 'i) wstate option" where
  "write_semantic D E t s w =
     do { bytes \<leftarrow> InstrWriterGetData D E s []; Some (wbytes8 bytes (w8 (instr_code t) w)) }"

definition write_controlflow :: "'o LinkEnv \<Rightarrow> 'o ControlFlowInstr \<Rightarrow> ('o, 'i) wstate \<Rightarrow> ('o, 'i) wstate option" where
  "write_controlflow E cf w =
     do {
       let w = wassign (cf_source cf) (w32 (cf_id cf) (w8 (instr_code TYPE_ControlFlowInstruction) w));
       let w = w8 (of_nat (cf_displacementSize cf)) (wstring (cf_mnemonic cf) (wbytes8 (cf_opcode cf) w));
       let w = wbool (\<not> cf_nonreturn cf) w;
       l \<leftarrow> cf_link cf;
       serialize_link E (Some l) w
     }"

definition write_indirect_jump ::
    "Disassembler \<Rightarrow> IndirectOperand \<Rightarrow> byte list \<Rightarrow> 'o option list \<Rightarrow> InstructionStorage \<Rightarrow> ('o, 'i) wstate \<Rightarrow> ('o, 'i) wstate" where
  "write_indirect_jump D ind mnemonic tables st w =
     (let w = w8 (ucast (ind_reg ind)) (wstring mnemonic (w8 (instr_code TYPE_IndirectJumpInstruction) w));
          w = wbytes8 (asm_bytes (getAssembly D st)) w
      in fold wassign tables (w32 (of_nat (length tables)) w))"

fun serialize_instr ::
    "Disassembler \<Rightarrow> 'o LinkEnv \<Rightarrow> 'o InstructionSemantic \<Rightarrow> ('o, 'i) wstate \<Rightarrow> ('o, 'i) wstate option" where
  "serialize_instr D E (Isolated st) w = write_semantic D E TYPE_IsolatedInstruction (Isolated st) w"
| "serialize_instr D E (BreakInstr st) w = write_semantic D E TYPE_IsolatedInstruction (BreakInstr st) w"
| "serialize_instr D E (ReturnInstr st) w = write_semantic D E TYPE_ReturnInstruction (ReturnInstr st) w"
| "serialize_instr D E (StackFrame sf) w = write_semantic D E TYPE_StackFrameInstruction (StackFrame sf) w"
| "serialize_instr D E (Literal st) w = write_semantic D E TYPE_LiteralInstruction (Literal st) w"
| "serialize_instr D E (LinkedLiteral st) w = write_semantic D E TYPE_LinkedLiteralInstruction (LinkedLiteral st) w"
| "serialize_instr D E (Linked li) w =
     do {
       w \<leftarrow> write_semantic D E TYPE_LinkedInstruction (Linked li) w;
       l \<leftarrow> li_link li;
       w \<leftarrow> serialize_link E (Some l) w;
       Some (w8 (word_of_int (opIndex li)) w)
     }"
| "serialize_instr D E (ControlFlow cf) w = write_controlflow E cf w"
| "serialize_instr D E (DataLinkedControlFlow li isRelative) w =
     do {
       l \<leftarrow> li_link li;
       w \<leftarrow> serialize_link E (Some l) (w8 (instr_code TYPE_DataLinkedControlFlowInstruction) w);
       Some (wbool isRelative (w8 (word_of_int (opIndex li)) w))
     }"
| "serialize_instr D E (IndirectJump ind mnemonic tables st) w = Some (write_indirect_jump D ind mnemonic tables st w)"
| "serialize_instr D E (IndirectCall ind st) w =
     Some (wbytes8 (asm_bytes (getAssembly D st)) (w32 (ind_reg ind) (w8 (instr_code TYPE_IndirectCallInstruction) w)))"

subsection \<open>Reading instructions\<close>

definition lookupAs :: "'o read_env \<Rightarrow> EgalitoChunkType \<Rightarrow> 32 word \<Rightarrow> cid option option" where
  "lookupAs R t i = map_option (dynamic_cast (fst (snd R)) t) (lookup_id i (fst R))"

fun read_tables :: "'o read_env \<Rightarrow> nat \<Rightarrow> istream \<Rightarrow> (cid option list \<times> istream) option" where
  "read_tables R 0 s = Some ([], s)"
| "read_tables R (Suc n) s =
     (let (i, s) = readID s
      in do { t \<leftarrow> lookupAs R TYPE_JumpTable i; (ts, s) \<leftarrow> read_tables R n s; Some (t # ts, s) })"

definition stored :: "byte list \<Rightarrow> InstructionStorage" where
  "stored bytes = setData bytes emptyStorage"

definition read_linked :: "Disassembler \<Rightarrow> 'o read_env \<Rightarrow> cid \<Rightarrow> heap \<times> istream \<Rightarrow> (cid InstructionSemantic option \<times> heap \<times> istream) option" where
  "read_linked D R instruction r =
     do {
       let (bytes, s) = rbytes8 (snd r);
       (l, h, s) \<leftarrow> deserialize_link R (fst r, s);
       let (i, s) = r8 s;
       li \<leftarrow> setIndex D (uint i) ((newLinkedInstruction instruction)\<lparr>li_storage := stored bytes, li_link := l\<rparr>);
       Some (Some (Linked li), h, s)
     }"

definition read_controlflow :: "'o read_env \<Rightarrow> heap \<times> istream \<Rightarrow> (cid InstructionSemantic option \<times> heap \<times> istream) option" where
  "read_controlflow R r =
     do {
       let (i, s) = r32 (snd r);
       let (j, s) = readID s;
       source \<leftarrow> lookupAs R TYPE_Instruction j;
       let (opcode, s) = rbytes8 s;
       let (mnemonic, s) = readString s;
       let (n, s) = r8 s;
       let cf = newControlFlowInstruction i source opcode mnemonic (unat n);
       let (returns, s) = rbool (snd (snd R)) s;
       let cf = (if returns then cf else cf\<lparr>cf_nonreturn := True\<rparr>);
       (l, h, s) \<leftarrow> deserialize_link R (fst r, s);
       Some (Some (ControlFlow (cf\<lparr>cf_link := l\<rparr>)), h, s)
     }"

definition read_datalinked :: "Disassembler \<Rightarrow> 'o read_env \<Rightarrow> cid \<Rightarrow> heap \<times> istream \<Rightarrow> (cid InstructionSemantic option \<times> heap \<times> istream) option" where
  "read_datalinked D R instruction r =
     do {
       let (bytes, s) = rbytes8 (snd r);
       (l, h, s) \<leftarrow> deserialize_link R (fst r, s);
       l \<leftarrow> l;
       let (i, s) = r8 s;
       li \<leftarrow> setIndex D (uint i) ((newLinkedInstruction instruction)\<lparr>li_storage := stored bytes\<rparr>);
       Some (Some (datalinked_setLink l li), h, s)
     }"

definition read_indirect_jump :: "Disassembler \<Rightarrow> 'o read_env \<Rightarrow> heap \<times> istream \<Rightarrow> (cid InstructionSemantic option \<times> heap \<times> istream) option" where
  "read_indirect_jump D R r =
     do {
       let (mnemonic, s) = readString (snd r);
       let (reg, s) = r8 s;
       let (bytes, s) = rbytes8 s;
       let (n, s) = r32 s;
       (tables, s) \<leftarrow> read_tables R (unat n) s;
       Some (Some (IndirectJump (newIndirectOperand D (ucast reg)) mnemonic tables (stored bytes)), fst r, s)
     }"

text \<open>
  \<open>decode\<close> is the disassembly of an instruction, which fails with an exception. \<^verbatim>\<open>LiteralInstruction\<close> and
  \<^verbatim>\<open>StackFrameInstruction\<close> throw; an unknown type is a null pointer.
\<close>

definition deserialize_instr ::
    "Disassembler \<Rightarrow> (cid \<Rightarrow> byte list \<Rightarrow> address \<Rightarrow> cid InstructionSemantic option) \<Rightarrow> 'o read_env \<Rightarrow> cid \<Rightarrow> address \<Rightarrow>
     heap \<times> istream \<Rightarrow> (cid InstructionSemantic option \<times> heap \<times> istream) option" where
  "deserialize_instr D decode R instruction addr r =
     (let (b, s) = r8 (snd r); h = fst r
      in case instr_type b of
           TYPE_IsolatedInstruction \<Rightarrow> (let (bytes, s) = rbytes8 s in Some (Some (Isolated (stored bytes)), h, s))
         | TYPE_LinkedInstruction \<Rightarrow> read_linked D R instruction (h, s)
         | TYPE_ReturnInstruction \<Rightarrow> (let (bytes, s) = rbytes8 s in Some (Some (ReturnInstr (stored bytes)), h, s))
         | TYPE_IndirectJumpInstruction \<Rightarrow> read_indirect_jump D R (h, s)
         | TYPE_IndirectCallInstruction \<Rightarrow>
             (let (reg, s) = r32 s; (bytes, s) = rbytes8 s
              in Some (Some (IndirectCall (newIndirectOperand D reg) (stored bytes)), h, s))
         | TYPE_StackFrameInstruction \<Rightarrow> None
         | TYPE_LiteralInstruction \<Rightarrow> None
         | TYPE_LinkedLiteralInstruction \<Rightarrow>
             (let (bytes, s) = rbytes8 s
              in Some (Some (case decode instruction bytes addr of Some sem \<Rightarrow> sem | None \<Rightarrow> Isolated (stored bytes)), h, s))
         | TYPE_ControlFlowInstruction \<Rightarrow> read_controlflow R (h, s)
         | TYPE_DataLinkedControlFlowInstruction \<Rightarrow> read_datalinked D R instruction (h, s)
         | TYPE_UNKNOWN_INSTR \<Rightarrow> Some (None, h, s))"

end
