(* ===== verification/FunctionSerializer.thy ===== *)
theory FunctionSerializer
  imports LinkSerializer Mutator Loops
begin

section \<open>Functions in archives (\<^verbatim>\<open>src/chunk/function.cpp\<close>, \<^verbatim>\<open>src/chunk/serializer.cpp\<close>)\<close>

text \<open>
  A function is written as its address, name and flags, the identifiers of its blocks and of their instructions, and then
  the instructions. The chunks of the reader exist before the first of them is read; reading a function links them into a
  tree, gives them positions and sizes, and lets a mutator correct the addresses.

  The heap has the chunks; the name and the flags of a function and the semantics of instructions are maps beside it, and
  the heap keeps of a semantic what the mutator needs. \<open>None\<close> is a null pointer that is followed, an index out of range,
  a failed assertion or an exception.
\<close>

record FunctionInfo =
  fn_name :: "byte list"
  fn_nonreturn :: bool
  fn_ifunc :: bool

fun flat_kind :: "ChunkKind \<Rightarrow> EgalitoChunkType" where
  "flat_kind Program = TYPE_Program"
| "flat_kind Module = TYPE_Module"
| "flat_kind FunctionList = TYPE_FunctionList"
| "flat_kind Function = TYPE_Function"
| "flat_kind Block = TYPE_Block"
| "flat_kind Instruction = TYPE_Instruction"

subsection \<open>Writing\<close>

definition write_child_id :: "heap \<Rightarrow> cid \<Rightarrow> (cid, 'i) wstate \<Rightarrow> (cid, 'i) wstate option" where
  "write_child_id h c w =
     do {
       let (i, st) = assign_id (Some c) (fst w);
       x \<leftarrow> h c;
       (f, l) \<leftarrow> newFlatChunk_id (of_nat (enum_value (flat_kind (kind x)))) i (id_flats st);
       Some (st\<lparr>id_flats := l\<rparr>, writeID i (snd w))
     }"

primrec serializeChildrenIDsOnly :: "nat \<Rightarrow> heap \<Rightarrow> cid \<Rightarrow> (cid, 'i) wstate \<Rightarrow> (cid, 'i) wstate option" where
  "serializeChildrenIDsOnly 0 h c w = Some w"
| "serializeChildrenIDsOnly (Suc level) h c w =
     do {
       cs \<leftarrow> children_of h c;
       w \<leftarrow> for_each (write_child_id h) cs (w32 (of_nat (length cs)) w);
       if level > 0 then for_each (serializeChildrenIDsOnly level h) cs w else Some w
     }"

definition serialize_block ::
    "Disassembler \<Rightarrow> cid LinkEnv \<Rightarrow> heap \<Rightarrow> (cid \<Rightarrow> cid InstructionSemantic) \<Rightarrow> cid \<Rightarrow> (cid, 'i) wstate \<Rightarrow> (cid, 'i) wstate option" where
  "serialize_block D E h sem b w =
     do { is \<leftarrow> children_of h b; for_each (\<lambda>i. serialize_instr D E (sem i)) is (w32 (of_nat (length is)) w) }"

definition serialize_function ::
    "Disassembler \<Rightarrow> cid LinkEnv \<Rightarrow> heap \<Rightarrow> (cid \<Rightarrow> cid InstructionSemantic) \<Rightarrow> FunctionInfo \<Rightarrow> cid \<Rightarrow> (cid, 'i) wstate \<Rightarrow> (cid, 'i) wstate option" where
  "serialize_function D E h sem info f w =
     do {
       a \<leftarrow> getAddress h f;
       let w = wbool (fn_ifunc info) (wbool (fn_nonreturn info) (wstring (fn_name info) (w64 a w)));
       let w = wbool True w;
       w \<leftarrow> serializeChildrenIDsOnly 2 h f w;
       bs \<leftarrow> children_of h f;
       for_each (serialize_block D E h sem) bs (w32 (of_nat (length bs)) w)
     }"

subsection \<open>Reading\<close>

record function_reader =
  fr_heap :: heap
  fr_sem :: "cid \<rightharpoonup> cid InstructionSemantic"
  fr_stream :: istream

text \<open>A child that is read: it is added to the list of its parent, which it points to.\<close>

definition add_child :: "cid \<Rightarrow> cid \<Rightarrow> heap \<Rightarrow> heap option" where
  "add_child p c h = do { h \<leftarrow> genericAdd p c h; set_parent c (Some p) h }"

primrec read_children :: "'o read_env \<Rightarrow> cid \<Rightarrow> nat \<Rightarrow> heap \<times> istream \<Rightarrow> (32 word list \<times> heap \<times> istream) option" where
  "read_children R p 0 r = Some ([], r)"
| "read_children R p (Suc n) r =
     do {
       let (i, s) = readID (snd r);
       target \<leftarrow> lookup_id i (fst R);
       c \<leftarrow> target;
       h \<leftarrow> add_child p c (fst r);
       (ids, r) \<leftarrow> read_children R p n (h, s);
       Some (i # ids, r)
     }"

definition deserializeChildren :: "'o read_env \<Rightarrow> cid \<Rightarrow> heap \<times> istream \<Rightarrow> (heap \<times> istream) option" where
  "deserializeChildren R p r = (let (n, s) = r32 (snd r) in map_option snd (read_children R p (unat n) (fst r, s)))"

primrec deserializeChildrenIDsOnly :: "nat \<Rightarrow> 'o read_env \<Rightarrow> cid \<Rightarrow> heap \<times> istream \<Rightarrow> (heap \<times> istream) option" where
  "deserializeChildrenIDsOnly 0 R p r = Some r"
| "deserializeChildrenIDsOnly (Suc level) R p r =
     do {
       let (n, s) = r32 (snd r);
       (ids, r) \<leftarrow> read_children R p (unat n) (fst r, s);
       if level > 0 then
         for_each (\<lambda>i r. do { target \<leftarrow> lookup_id i (fst R); c \<leftarrow> target; deserializeChildrenIDsOnly level R c r }) ids r
       else Some r
     }"

text \<open>What the heap keeps of a semantic.\<close>

definition summary :: "cid InstructionSemantic \<Rightarrow> Semantic" where
  "summary s =
     (let n = of_nat (semantic_size s)
      in case s of
           Linked li \<Rightarrow> LinkedInstructionBase 0 n (li_instruction li)
         | DataLinkedControlFlow li r \<Rightarrow> LinkedInstructionBase 0 n (li_instruction li)
         | ControlFlow cf \<Rightarrow> (case cf_source cf of Some c \<Rightarrow> ControlFlowInstructionBase 0 n c | None \<Rightarrow> IsolatedInstruction 0 n)
         | _ \<Rightarrow> IsolatedInstruction 0 n)"

definition place_after :: "PositionMode \<Rightarrow> cid \<Rightarrow> cid \<Rightarrow> 64 word \<Rightarrow> heap \<Rightarrow> heap option" where
  "place_after m prev c off h =
     do {
       pos \<leftarrow> makePosition m h (Some prev) c off;
       x \<leftarrow> h c;
       x' \<leftarrow> setPosition (Some pos) x;
       Some (h(c \<mapsto> x'))
     }"

definition link_siblings :: "nat \<Rightarrow> cid \<Rightarrow> cid \<Rightarrow> heap \<Rightarrow> heap option" where
  "link_siblings k prev c h =
     (if k > 0 then do { h \<leftarrow> setPreviousSibling c (Some prev) h; setNextSibling prev (Some c) h } else Some h)"

definition grow_chunk :: "cid \<Rightarrow> cid \<Rightarrow> heap \<Rightarrow> heap option" where
  "grow_chunk p c h = do { s \<leftarrow> size_of h c; x \<leftarrow> h p; x' \<leftarrow> addToSize s x; Some (h(p \<mapsto> x')) }"

definition read_instr ::
    "PositionMode \<Rightarrow> Disassembler \<Rightarrow> (cid \<Rightarrow> byte list \<Rightarrow> address \<Rightarrow> cid InstructionSemantic option) \<Rightarrow> 'o read_env \<Rightarrow> address \<Rightarrow> cid \<Rightarrow> nat \<Rightarrow>
     cid \<times> 64 word \<times> function_reader \<Rightarrow> (cid \<times> 64 word \<times> function_reader) option" where
  "read_instr m D decode R base b k p =
     do {
       let (prev, total, st) = p;
       is \<leftarrow> children_of (fr_heap st) b;
       i \<leftarrow> (if k < length is then Some (is ! k) else None);
       h \<leftarrow> link_siblings k prev i (fr_heap st);
       (sm, h, s) \<leftarrow> deserialize_instr D decode R i (base + total) (h, fr_stream st);
       sm \<leftarrow> sm;
       h \<leftarrow> update_chunk i (\<lambda>x. x\<lparr>semantic := Some (summary sm)\<rparr>) h;
       off \<leftarrow> size_of h b;
       h \<leftarrow> place_after m prev i off h;
       n \<leftarrow> size_of h i;
       h \<leftarrow> grow_chunk b i h;
       Some (i, total + n, \<lparr>fr_heap = h, fr_sem = (fr_sem st)(i \<mapsto> sm), fr_stream = s\<rparr>)
     }"

definition read_block ::
    "PositionMode \<Rightarrow> Disassembler \<Rightarrow> (cid \<Rightarrow> byte list \<Rightarrow> address \<Rightarrow> cid InstructionSemantic option) \<Rightarrow> 'o read_env \<Rightarrow> address \<Rightarrow> cid \<Rightarrow> nat \<Rightarrow>
     cid \<times> 64 word \<times> function_reader \<Rightarrow> (cid \<times> 64 word \<times> function_reader) option" where
  "read_block m D decode R base f k p =
     do {
       let (prev, total, st) = p;
       bs \<leftarrow> children_of (fr_heap st) f;
       b \<leftarrow> (if k < length bs then Some (bs ! k) else None);
       off \<leftarrow> size_of (fr_heap st) f;
       h \<leftarrow> place_after m prev b off (fr_heap st);
       h \<leftarrow> link_siblings k prev b h;
       let (n, s) = r32 (fr_stream st);
       (_, total, st) \<leftarrow> for_each (read_instr m D decode R base b) [0..<unat n] (b, total, st\<lparr>fr_heap := h, fr_stream := s\<rparr>);
       h \<leftarrow> grow_chunk f b (fr_heap st);
       Some (b, total, st\<lparr>fr_heap := h\<rparr>)
     }"

text \<open>The result is the function's name and flags, what was read, and whether the stream is still good.\<close>

definition deserialize_function ::
    "PositionMode \<Rightarrow> Disassembler \<Rightarrow> (cid \<Rightarrow> byte list \<Rightarrow> address \<Rightarrow> cid InstructionSemantic option) \<Rightarrow> 'o read_env \<Rightarrow> cid \<Rightarrow>
     function_reader \<Rightarrow> (FunctionInfo \<times> function_reader \<times> bool) option" where
  "deserialize_function m D decode R f st =
     do {
       let (a, s) = r64 (fr_stream st);
       x \<leftarrow> fr_heap st f;
       x' \<leftarrow> setPosition (Some (AbsolutePosition a)) x;
       let h = (fr_heap st)(f \<mapsto> x');
       let (name, s) = readString s;
       let (nonreturn, s) = rbool (snd (snd R)) s;
       let (ifunc, s) = rbool (snd (snd R)) s;
       let (compressedMode, s) = rbool (snd (snd R)) s;
       let info = \<lparr>fn_name = name, fn_nonreturn = nonreturn, fn_ifunc = ifunc\<rparr>;
       if \<not> compressedMode then
         do { (h, s) \<leftarrow> deserializeChildren R f (h, s); Some (info, st\<lparr>fr_heap := h, fr_stream := s\<rparr>, stillGood s) }
       else
         do {
           (h, s) \<leftarrow> deserializeChildrenIDsOnly 2 R f (h, s);
           let (n, s) = r32 s;
           (_, _, st) \<leftarrow> for_each (read_block m D decode R a f) [0..<unat n] (f, 0, st\<lparr>fr_heap := h, fr_stream := s\<rparr>);
           h \<leftarrow> updatePositions m True f (fr_heap st);
           Some (info, st\<lparr>fr_heap := h\<rparr>, stillGood (fr_stream st))
         }
     }"

end
