(* ===== verification/HeapFrame.thy ===== *)
theory HeapFrame
  imports ChunkTree FunctionSerializer
begin

section \<open>Heaps that contain other heaps\<close>

text \<open>
  While a program is read, most of the heap is not yet well formed. An operation that succeeds on a part of the heap does
  the same on the whole; and reading instructions does nothing to the heap but give chunks without a position the address
  \<open>-1\<close>.
\<close>

subsection \<open>Addresses and positions in a larger heap\<close>

lemma heap_le: "k \<subseteq>\<^sub>m h \<Longrightarrow> k c = Some x \<Longrightarrow> h c = Some (x :: Chunk)"
  by (auto simp: map_le_def dom_def)

lemma getAddress_le:
  assumes "k \<subseteq>\<^sub>m h" "getAddress k c = Some a"
  shows "getAddress h c = Some a"
proof -
  have "getAddress k c = Some a \<longrightarrow> k \<subseteq>\<^sub>m h \<longrightarrow> getAddress h c = Some a"
  proof (rule impI, rule getAddress.raw_induct [where P = "\<lambda>k c a. k \<subseteq>\<^sub>m h \<longrightarrow> getAddress h c = Some a"])
    fix ga :: "heap \<Rightarrow> cid \<Rightarrow> address option" and k c a
    assume IH: "\<And>k c a. ga k c = Some a \<Longrightarrow> k \<subseteq>\<^sub>m h \<longrightarrow> getAddress h c = Some a"
      and e: "(do { x \<leftarrow> k c; p \<leftarrow> getPosition x;
         case p of AbsolutePosition a \<Rightarrow> Some a
         | OffsetPosition d off \<Rightarrow> do { y \<leftarrow> k d; case parent y of None \<Rightarrow> Some 0 | Some q \<Rightarrow> do { a \<leftarrow> ga k q; Some (a + off) } }
         | AbsoluteOffsetPosition d off \<Rightarrow> do { y \<leftarrow> k d; case parent y of None \<Rightarrow> Some 0 | Some q \<Rightarrow> do { a \<leftarrow> ga k q; Some (a + off) } }
         | SubsequentPosition d \<Rightarrow> do { a \<leftarrow> ga k d; y \<leftarrow> k d; s \<leftarrow> chunk_getSize y; Some (a + s) }
         | SlotPosition s \<Rightarrow> Some (slot_address s) | CachedOffsetPosition d off cache \<Rightarrow> Some cache
         | CachedSubsequentPosition d cache \<Rightarrow> Some cache }) = Some a"
    show "k \<subseteq>\<^sub>m h \<longrightarrow> getAddress h c = Some a"
    proof
      assume le: "k \<subseteq>\<^sub>m h"
      from e obtain x p where x: "k c = Some x" "getPosition x = Some p" by (auto split: bind_splits)
      with e heap_le [OF le] IH le show "getAddress h c = Some a"
        by (subst getAddress.simps) (auto split: Position.splits bind_splits option.splits)
    qed
  qed (use assms in auto)
  with assms show ?thesis by blast
qed

lemma recalculate_le:
  assumes "k \<subseteq>\<^sub>m h" "recalculate k p = Some p'"
  shows "recalculate h p = Some p'"
proof -
  note le = heap_le [OF assms(1)] getAddress_le [OF assms(1)]
  have off: "OffsetPosition_recalculate h d = Some v" if "OffsetPosition_recalculate k d = Some v" for d v
    using that le by (auto simp: OffsetPosition_recalculate_def split: bind_splits option.splits)
  have get: "OffsetPosition_get h d o' = Some v" if "OffsetPosition_get k d o' = Some v" for d o' v
    using that le by (auto simp: OffsetPosition_get_def split: bind_splits option.splits)
  have sub: "SubsequentPosition_get h d = Some v" if "SubsequentPosition_get k d = Some v" for d v
    using that le by (auto simp: SubsequentPosition_get_def split: bind_splits option.splits)
  show ?thesis using assms(2) off get sub by (cases p) (auto split: bind_splits)
qed

lemma map_le_add: "k \<subseteq>\<^sub>m h \<Longrightarrow> h ++ k = (h :: heap)"
  by (auto simp: map_le_def map_add_def fun_eq_iff dom_def split: option.splits)

text \<open>What the update of positions does to a part of the heap, it does to the whole.\<close>

lemma recalculate_at_le:
  assumes "k \<subseteq>\<^sub>m h" "recalculate_at c k = Some (v, k')"
  shows "recalculate_at c h = Some (v, h ++ k') \<and> dom k' = dom k"
proof -
  from assms(2) obtain x where x: "k c = Some x" by (auto simp: recalculate_at_def split: bind_splits)
  with heap_le [OF assms(1)] have hx: "h c = Some x" .
  show ?thesis
  proof (cases "getPosition x")
    case None
    with assms x hx show ?thesis by (simp add: recalculate_at_def map_le_add)
  next
    case (Some p)
    with assms(2) x obtain p' where p': "recalculate k p = Some p'" "v" "k' = k(c \<mapsto> store_position p' x)"
      by (auto simp: recalculate_at_def split: bind_splits)
    then have "h ++ k' = h(c \<mapsto> store_position p' x)" using map_le_add [OF assms(1)] by simp
    with p' x hx Some recalculate_le [OF assms(1) p'(1)] show ?thesis by (auto simp: recalculate_at_def)
  qed
qed

lemma add_le: "k' \<subseteq>\<^sub>m h ++ (k' :: heap)"
  by (simp add: map_le_map_add)

lemma add_add: "dom k1 = dom k2 \<Longrightarrow> (h ++ k1) ++ k2 = h ++ (k2 :: heap)"
proof -
  assume d: "dom k1 = dom k2"
  have "((h ++ k1) ++ k2) c = (h ++ k2) c" for c
    using d by (cases "c \<in> dom k2") (auto simp: map_add_dom_app_simps)
  then show ?thesis by (rule ext)
qed

lemma updatePositionHelper_le:
  assumes "k \<subseteq>\<^sub>m h" "updatePositionHelper cs k = Some k'"
  shows "updatePositionHelper cs h = Some (h ++ k') \<and> dom k' = dom k"
proof -
  have "updatePositionHelper cs k = Some k' \<Longrightarrow> \<forall>h. k \<subseteq>\<^sub>m h \<longrightarrow> updatePositionHelper cs h = Some (h ++ k') \<and> dom k' = dom k"
  proof (rule updatePositionHelper.raw_induct [where P = "\<lambda>cs k k'. \<forall>h. k \<subseteq>\<^sub>m h \<longrightarrow> updatePositionHelper cs h = Some (h ++ k') \<and> dom k' = dom k"])
    fix up :: "cid list \<Rightarrow> heap \<Rightarrow> heap option" and cs k k'
    assume IH: "\<And>cs k k'. up cs k = Some k' \<Longrightarrow> \<forall>h. k \<subseteq>\<^sub>m h \<longrightarrow> updatePositionHelper cs h = Some (h ++ k') \<and> dom k' = dom k"
      and e: "(case cs of [] \<Rightarrow> Some k | c # cs \<Rightarrow> do { (visited, h) \<leftarrow> recalculate_at c k; x \<leftarrow> h c;
         h \<leftarrow> (if visited then up (children x) h else Some h); up cs h }) = Some k'"
    show "\<forall>h. k \<subseteq>\<^sub>m h \<longrightarrow> updatePositionHelper cs h = Some (h ++ k') \<and> dom k' = dom k"
    proof (intro allI impI)
      fix h assume le: "k \<subseteq>\<^sub>m h"
      show "updatePositionHelper cs h = Some (h ++ k') \<and> dom k' = dom k"
      proof (cases cs)
        case Nil
        with e le show ?thesis by (subst updatePositionHelper.simps) (simp add: map_le_add)
      next
        case (Cons c ds)
        with e obtain v k1 x k2 where s: "recalculate_at c k = Some (v, k1)" "k1 c = Some x"
            "(if v then up (children x) k1 else Some k1) = Some k2" "up ds k2 = Some k'"
          by (auto split: bind_splits prod.splits)
        note 1 = recalculate_at_le [OF le s(1)]
        have x: "(h ++ k1) c = Some x" using s(2) by (rule map_add_find_right)
        have 2: "(if v then updatePositionHelper (children x) (h ++ k1) else Some (h ++ k1)) = Some (h ++ k2) \<and> dom k2 = dom k1"
        proof (cases v)
          case True
          then have "up (children x) k1 = Some k2" using s(3) by simp
          note I = IH [OF this, rule_format, OF add_le [of k1 h]]
          with True show ?thesis by (simp add: add_add)
        qed (use s(3) in simp)
        note 3 = IH [OF s(4), rule_format, OF add_le [of k2 h]]
        with Cons 1 2 x show ?thesis by (subst updatePositionHelper.simps) (simp add: add_add)
      qed
    qed
  qed
  with assms show ?thesis by blast
qed

lemma update_ancestors_le:
  assumes "k \<subseteq>\<^sub>m h" "update_ancestors c k = Some k'"
  shows "update_ancestors c h = Some (h ++ k') \<and> dom k' = dom k"
proof -
  have "update_ancestors c k = Some k' \<Longrightarrow> \<forall>h. k \<subseteq>\<^sub>m h \<longrightarrow> update_ancestors c h = Some (h ++ k') \<and> dom k' = dom k"
  proof (rule update_ancestors.raw_induct [where P = "\<lambda>c k k'. \<forall>h. k \<subseteq>\<^sub>m h \<longrightarrow> update_ancestors c h = Some (h ++ k') \<and> dom k' = dom k"])
    fix up :: "cid option \<Rightarrow> heap \<Rightarrow> heap option" and c k k'
    assume IH: "\<And>c k k'. up c k = Some k' \<Longrightarrow> \<forall>h. k \<subseteq>\<^sub>m h \<longrightarrow> update_ancestors c h = Some (h ++ k') \<and> dom k' = dom k"
      and e: "(case c of None \<Rightarrow> Some k | Some c \<Rightarrow> do { x \<leftarrow> k c;
         h \<leftarrow> (if is_absolute (getPosition x) then updatePositionHelper [c] k else Some k); up (parent x) h }) = Some k'"
    show "\<forall>h. k \<subseteq>\<^sub>m h \<longrightarrow> update_ancestors c h = Some (h ++ k') \<and> dom k' = dom k"
    proof (intro allI impI)
      fix h assume le: "k \<subseteq>\<^sub>m h"
      show "update_ancestors c h = Some (h ++ k') \<and> dom k' = dom k"
      proof (cases c)
        case None
        with e le show ?thesis by (subst update_ancestors.simps) (simp add: map_le_add)
      next
        case (Some d)
        with e obtain x k1 where s: "k d = Some x" "(if is_absolute (getPosition x) then updatePositionHelper [d] k else Some k) = Some k1"
            "up (parent x) k1 = Some k'" by (auto split: bind_splits)
        have 1: "(if is_absolute (getPosition x) then updatePositionHelper [d] h else Some h) = Some (h ++ k1)" "dom k1 = dom k"
          using s(2) updatePositionHelper_le [OF le, of "[d]" k1] map_le_add [OF le] by (auto split: if_splits)
        note 2 = IH [OF s(3), rule_format, OF add_le [of k1 h]]
        with Some 1 heap_le [OF le s(1)] show ?thesis by (subst update_ancestors.simps) (simp add: add_add)
      qed
    qed
  qed
  with assms show ?thesis by blast
qed

lemma updatePositions_le:
  assumes "k \<subseteq>\<^sub>m h" "updatePositions m u p k = Some k'"
  shows "updatePositions m u p h = Some (h ++ k')" "dom k' = dom k"
  using assms update_ancestors_le [OF assms(1)] map_le_add [OF assms(1)] by (auto simp: updatePositions_def split: if_splits)

text \<open>Whether a function is laid out is seen on its own chunks.\<close>

lemma the_size_le: "k \<subseteq>\<^sub>m h \<Longrightarrow> c \<in> dom k \<Longrightarrow> the_size h c = the_size k c"
  by (auto simp: the_size_def size_of_def dest!: heap_le)

lemma contiguous_le:
  assumes "k \<subseteq>\<^sub>m h" "contiguous k q" "\<And>cs. children_of k q = Some cs \<Longrightarrow> set cs \<subseteq> dom k"
  shows "contiguous h q"
proof -
  from assms(2) obtain cs a where c: "children_of k q = Some cs" "getAddress k q = Some a"
      "\<forall>i \<in> {..<length cs}. getAddress k (cs ! i) = Some (a + sum_list (map (the_size k) (take i cs)))"
    by (auto simp: contiguous_def split: option.splits)
  have "children_of h q = Some cs" using c(1) heap_le [OF assms(1)] by (auto simp: children_of_def split: bind_splits if_splits)
  moreover have "sum_list (map (the_size h) (take i cs)) = sum_list (map (the_size k) (take i cs))" for i
    using assms(3) [OF c(1)] the_size_le [OF assms(1)] by (intro arg_cong [where f = sum_list] map_cong) (auto dest: in_set_takeD)
  ultimately show ?thesis
    using c(2,3) getAddress_le [OF assms(1)] by (simp add: contiguous_def)
qed

lemma laid_out_le:
  assumes "k \<subseteq>\<^sub>m h" "laid_out k f" "wf_heap k"
  shows "laid_out h f"
proof -
  have sub: "set cs \<subseteq> dom k" if "children_of k q = Some cs" for q cs
    using that by (auto simp: children_of_def split: bind_splits if_splits elim: wf_child [OF assms(3)])
  from assms(2) obtain bs where bs: "contiguous k f" "children_of k f = Some bs" "\<forall>b \<in> set bs. contiguous k b"
    by (auto simp: laid_out_def split: option.splits)
  have "children_of h f = Some bs" using bs(2) heap_le [OF assms(1)] by (auto simp: children_of_def split: bind_splits if_splits)
  with bs contiguous_le [OF assms(1)] sub show ?thesis by (simp add: laid_out_def)
qed

subsection \<open>Positions that reading gives\<close>

definition placed_as :: "Chunk \<Rightarrow> Chunk \<Rightarrow> bool" where
  "placed_as x y \<longleftrightarrow> y = x \<or> position x = None \<and> y = x\<lparr>position := Some (AbsolutePosition (- 1))\<rparr>"

definition heap_placed :: "heap \<Rightarrow> heap \<Rightarrow> bool" where
  "heap_placed h h' \<longleftrightarrow> (\<forall>c. rel_option placed_as (h c) (h' c))"

lemma heap_placed_refl [simp, intro]: "heap_placed h h"
  by (auto simp: heap_placed_def placed_as_def intro: option.rel_refl_strong)

lemma placed_trans: "placed_as x y \<Longrightarrow> placed_as y z \<Longrightarrow> placed_as x z"
  by (auto simp: placed_as_def)

lemma heap_placed_trans:
  assumes "heap_placed h h1" "heap_placed h1 h2"
  shows "heap_placed h h2"
proof -
  have "rel_option placed_as (h c) (h2 c)" for c
  proof -
    have "rel_option placed_as (h c) (h1 c)" "rel_option placed_as (h1 c) (h2 c)" using assms by (simp_all add: heap_placed_def)
    then show ?thesis by (cases "h c"; cases "h1 c"; cases "h2 c") (auto intro: placed_trans)
  qed
  then show ?thesis by (simp add: heap_placed_def)
qed

lemma place_target_placed: "place_target c h = Some h' \<Longrightarrow> heap_placed h h'"
  by (auto simp: place_target_def heap_placed_def placed_as_def getPosition_def setPosition_def
      split: bind_splits if_splits option.splits ChunkKind.splits intro!: option.rel_refl_strong)

lemma linkTarget_placed: "deserializeLinkTarget R (h, s) = Some (t, h', s') \<Longrightarrow> heap_placed h h'"
  by (auto simp: deserializeLinkTarget_def dest: place_target_placed split: bind_splits option.splits prod.splits)

end
