(* ===== verification/LinkRoundtrip.thy ===== *)
theory LinkRoundtrip
  imports LinkSerializer X86Correct
begin

unbundle bit_operations_syntax

section \<open>Links survive an archive\<close>

text \<open>
  Reading what was written gives back a link to the same target, for the classes that the serializer supports. The chunks of the reader are other objects than those of the writer: \<open>ren\<close> tells which
  one stands for which. Other classes come back as an
  unresolved link, and the immediate of an \<^verbatim>\<open>ImmAndDispLink\<close>, which the disassembler makes absolute, as a relative one.
\<close>

subsection \<open>Reading what was written\<close>

lemma open_stream_simps [simp]:
  "unread (open_stream bs) = bs" "(open_stream bs)\<lparr>unread := cs\<rparr> = open_stream cs" "stream_good (open_stream bs)" "stillGood (open_stream bs)"
  by (simp_all add: open_stream_def stream_good_def stillGood_def)

lemma r8_written [simp]: "r8 (open_stream (le_bytes (Suc 0) v @ rest)) = (v, open_stream rest)"
  using read_value_written [of "open_stream (le_bytes (Suc 0) v @ rest)" v rest] by (simp add: r8_def)

lemma r32_written [simp]: "r32 (open_stream (le_bytes 4 v @ rest)) = (v, open_stream rest)"
  using read_value_written [of "open_stream (le_bytes 4 v @ rest)" v rest] by (simp add: r32_def)

lemma r64_written [simp]: "r64 (open_stream (le_bytes 8 v @ rest)) = (v, open_stream rest)"
  using read_value_written [of "open_stream (le_bytes 8 v @ rest)" v rest] by (simp add: r64_def)

lemma readID_written [simp]: "readID (open_stream (le_bytes 4 v @ rest)) = (v, open_stream rest)"
  using read_value_written [of "open_stream (le_bytes 4 v @ rest)" v rest] by (simp add: readID_def)

lemma rbool_written [simp]: "rbool junk (open_stream (le_bytes (Suc 0) (if b then 49 else 48 :: byte) @ rest)) = (b, open_stream rest)"
  using readInto_written [of "open_stream (le_bytes (Suc 0) (if b then 49 else 48 :: byte) @ rest)" "if b then 49 else 48" rest junk]
  by (simp add: rbool_def readInto_bool_def)

lemma readString_written [simp]: "0 \<notin> set v \<Longrightarrow> readString (open_stream (v @ 0 # rest)) = (v, open_stream rest)"
  by (simp add: readString_def takeWhile_nonzero Let_def)

lemma rbytes8_written [simp]:
  assumes "length v < 256"
  shows "rbytes8 (open_stream (le_bytes (Suc 0) (of_nat (length v) :: byte) @ v @ rest)) = (v, open_stream rest)"
proof -
  have "unat (of_nat (length v) :: byte) = length v" using assms by (simp add: unat_of_nat)
  moreover have "(read_value (open_stream (le_bytes (Suc 0) (of_nat (length v) :: byte) @ v @ rest)) :: byte \<times> istream) =
      (of_nat (length v), open_stream (v @ rest))"
    using read_value_written [of "open_stream (le_bytes (Suc 0) (of_nat (length v) :: byte) @ v @ rest)" "of_nat (length v) :: byte" "v @ rest"] by simp
  ultimately show ?thesis
    using readFixedLengthBytes_written [of "open_stream (v @ rest)" v rest] by (simp add: rbytes8_def readBytes_def)
qed

lemmas w_simps = w8_def w32_def w64_def wbool_def wstring_def wbytes8_def writeValue_def writeValue_bool_def writeString_def
  writeBytes_def writeFixedLengthBytes_def writeID_def

subsection \<open>Identifiers\<close>

text \<open>The identifier that stands for a pointer.\<close>

definition has_id :: "('o, 'i) IDOperations \<Rightarrow> 'o option \<Rightarrow> 32 word \<Rightarrow> bool" where
  "has_id st t i = (case t of None \<Rightarrow> i = NoneID | Some c \<Rightarrow> assignment st c = Some i)"

lemma assign_id_has:
  assumes "assign_id t st = (i, st')"
  shows "has_id st' t i" "assignment st \<subseteq>\<^sub>m assignment st'"
  using assms by (auto simp: assign_id_def has_id_def map_le_def getNextID_def split: option.splits prod.splits)

lemma map_le_SomeD: "f \<subseteq>\<^sub>m g \<Longrightarrow> f x = Some y \<Longrightarrow> g x = Some y"
  by (auto simp: map_le_def dom_def)

lemma has_id_mono: "has_id st t i \<Longrightarrow> assignment st \<subseteq>\<^sub>m assignment st' \<Longrightarrow> has_id st' t i"
  using map_le_SomeD by (fastforce simp: has_id_def split: option.splits)

lemma wassign_emits:
  obtains i st' where "wassign t (st, out) = (st', out @ le_bytes 4 i)" "has_id st' t i" "assignment st \<subseteq>\<^sub>m assignment st'"
  using assign_id_has [of t st] by (cases "assign_id t st") (auto simp: wassign_def writeID_def writeValue_def)

text \<open>A reader whose archive has the objects that stand for those of the writer.\<close>

definition knows :: "'p read_env \<Rightarrow> ('o \<Rightarrow> cid) \<Rightarrow> ('o, 'i) IDOperations \<Rightarrow> heap \<Rightarrow> bool" where
  "knows R ren st h \<longleftrightarrow> (\<forall>c i. assignment st c = Some i \<longrightarrow> lookup_id i (fst R) = Some (Some (ren c)) \<and> ren c \<in> dom h)"

lemma knows_mono: "knows R ren st' h \<Longrightarrow> assignment st \<subseteq>\<^sub>m assignment st' \<Longrightarrow> knows R ren st h"
  unfolding knows_def using map_le_SomeD by fast

lemma lookup_known:
  assumes "knows R ren st h" "has_id st t i"
  shows "lookup_id i (fst R) = Some (map_option ren t)"
proof (cases t)
  case None
  with assms(2) show ?thesis by (simp add: has_id_def lookup_id_def)
next
  case (Some c)
  with assms show ?thesis by (simp add: has_id_def knows_def)
qed

lemma place_target_dom: "c \<in> dom h \<Longrightarrow> \<exists>h'. place_target c h = Some h' \<and> dom h' = dom h"
  by (auto simp: place_target_def split: option.splits)

lemma linkTarget_known:
  assumes "knows R ren st h" "has_id st t i"
  shows "\<exists>h'. deserializeLinkTarget R (h, open_stream (le_bytes 4 i @ rest)) = Some (map_option ren t, h', open_stream rest) \<and> dom h' = dom h"
proof (cases t)
  case None
  then show ?thesis using lookup_known [OF assms] by (simp add: deserializeLinkTarget_def)
next
  case (Some c)
  then have "ren c \<in> dom h" using assms by (simp add: knows_def has_id_def)
  with Some lookup_known [OF assms] place_target_dom [of "ren c" h] show ?thesis
    by (auto simp: deserializeLinkTarget_def)
qed

subsection \<open>Links\<close>

text \<open>What comes back for a link.\<close>

definition restored_scope :: "LinkScope \<Rightarrow> LinkScope" where
  "restored_scope s = ucast (scope_byte s)"

definition restored_symbol :: "Symbol \<Rightarrow> Symbol" where
  "restored_symbol y = \<lparr>sym_address = 0, sym_size = 0, sym_name = sym_name y, sym_weak = True\<rparr>"

fun restored :: "('o \<Rightarrow> cid) \<Rightarrow> 'o Link option \<Rightarrow> cid Link" where
  "restored ren (Some (AbsoluteNormalLink t s)) = AbsoluteNormalLink (map_option ren t) (restored_scope s)"
| "restored ren (Some (NormalLink t s)) = NormalLink (map_option ren t) (restored_scope s)"
| "restored ren (Some (OffsetLink t off s)) = OffsetLink (map_option ren t) off (restored_scope s)"
| "restored ren (Some (PLTLink a t)) = PLTLink 0 (map_option ren t)"
| "restored ren (Some (JumpTableLink t)) = JumpTableLink (map_option ren t)"
| "restored ren (Some (EgalitoLoaderLink name)) = EgalitoLoaderLink name"
| "restored ren (Some (AbsoluteDataLink sec a add s)) = AbsoluteDataLink (map_option ren sec) (a + add) 0 SCOPE_UNKNOWN"
| "restored ren (Some (InternalAndExternalDataLink x sec a add s)) = AbsoluteDataLink (map_option ren sec) (a + add) 0 SCOPE_UNKNOWN"
| "restored ren (Some (DataOffsetLink sec a add s)) = DataOffsetLink (map_option ren sec) (a + add) 0 (restored_scope s)"
| "restored ren (Some (TLSDataOffsetLink tls sy a)) = TLSDataOffsetLink (map_option ren tls) (map_option restored_symbol sy) a"
| "restored ren (Some (UnresolvedLink a)) = UnresolvedLink a"
| "restored ren (Some (ImmAndDispLink (NormalLink t s) disp)) =
     ImmAndDispLink (NormalLink (map_option ren t) (restored_scope s)) (Some (restored ren disp))"
| "restored ren (Some (ImmAndDispLink (AbsoluteNormalLink t s) disp)) =
     ImmAndDispLink (NormalLink (map_option ren t) (restored_scope s)) (Some (restored ren disp))"
| "restored ren l = UnresolvedLink 0"

text \<open>Pointers of a link point to objects of the class that its type asks for, and names have no NUL.\<close>

definition of_class :: "(cid \<Rightarrow> EgalitoChunkType) \<Rightarrow> ('o \<Rightarrow> cid) \<Rightarrow> EgalitoChunkType \<Rightarrow> 'o option \<Rightarrow> bool" where
  "of_class cls ren ty t \<longleftrightarrow> (\<forall>c. t = Some c \<longrightarrow> cls (ren c) = ty)"

lemma of_class_cast [simp]: "of_class cls ren ty t \<Longrightarrow> dynamic_cast cls ty (map_option ren t) = map_option ren t"
  by (cases t) (simp_all add: of_class_def dynamic_cast_def)

fun well_typed :: "(cid \<Rightarrow> EgalitoChunkType) \<Rightarrow> ('o \<Rightarrow> cid) \<Rightarrow> 'o Link option \<Rightarrow> bool" where
  "well_typed cls ren (Some (PLTLink a t)) = of_class cls ren TYPE_PLTTrampoline t"
| "well_typed cls ren (Some (JumpTableLink t)) = of_class cls ren TYPE_JumpTable t"
| "well_typed cls ren (Some (EgalitoLoaderLink name)) = (0 \<notin> set name)"
| "well_typed cls ren (Some (AbsoluteDataLink sec a add s)) = of_class cls ren TYPE_DataSection sec"
| "well_typed cls ren (Some (InternalAndExternalDataLink x sec a add s)) = of_class cls ren TYPE_DataSection sec"
| "well_typed cls ren (Some (DataOffsetLink sec a add s)) = of_class cls ren TYPE_DataSection sec"
| "well_typed cls ren (Some (TLSDataOffsetLink tls sy a)) = (of_class cls ren TYPE_TLSDataRegion tls \<and> (\<forall>y. sy = Some y \<longrightarrow> 0 \<notin> set (sym_name y)))"
| "well_typed cls ren (Some (ImmAndDispLink imm disp)) = (isNormalLinkBase imm \<and> well_typed cls ren disp)"
| "well_typed cls ren l = True"

text \<open>The bytes \<open>bs\<close> that were written for a link, in any context.\<close>

definition link_written :: "'o Link option \<Rightarrow> ('o, 'i) IDOperations \<Rightarrow> byte list \<Rightarrow> bool" where
  "link_written l st' bs \<longleftrightarrow> (\<forall>(R :: cid read_env) ren h rest. knows R ren st' h \<longrightarrow> well_typed (fst (snd R)) ren l \<longrightarrow>
     (\<exists>h'. deserialize_link R (h, open_stream (bs @ rest)) = Some (Some (restored ren l), h', open_stream rest) \<and> dom h' = dom h))"

lemma target_offset_simps:
  "target_offset E (OffsetLink t off s) = Some d \<Longrightarrow> d = off"
  "target_offset E (AbsoluteDataLink sec a add s) = Some d \<Longrightarrow> d = a + add"
  "target_offset E (InternalAndExternalDataLink x sec a add s) = Some d \<Longrightarrow> d = a + add"
  "target_offset E (DataOffsetLink sec a add s) = Some d \<Longrightarrow> d = a + add"
  by (auto simp: target_offset_def data_target_def split: bind_splits)

lemma read_scope_written [simp]: "read_scope (open_stream (le_bytes (Suc 0) (scope_byte s) @ rest)) = (restored_scope s, open_stream rest)"
  by (simp add: read_scope_def restored_scope_def)

lemma read_tls_symbol_written:
  "\<forall>y. sy = Some y \<longrightarrow> 0 \<notin> set (sym_name y) \<Longrightarrow>
   read_tls_symbol junk (open_stream (le_bytes (Suc 0) (if sy \<noteq> None then 49 else 48 :: byte) @ (case sy of None \<Rightarrow> [] | Some y \<Rightarrow> sym_name y @ [0]) @ rest)) =
     (map_option restored_symbol sy, open_stream rest)"
  using rbool_written [of junk "sy \<noteq> None"] by (cases sy) (auto simp: read_tls_symbol_def restored_symbol_def Let_def)

lemma deserialize_link_type:
  "deserialize_link R (h, open_stream (le_bytes (Suc 0) (link_code ty) @ rest)) =
     (let s = open_stream rest; cls = fst (snd R); junk = snd (snd R) in
      case ty of
        TYPE_AbsoluteNormalLink \<Rightarrow> (let (scope, s) = read_scope s in
          do { (t, r) \<leftarrow> deserializeLinkTarget R (h, s); Some (Some (AbsoluteNormalLink t scope), r) })
      | TYPE_NormalLink \<Rightarrow> (let (scope, s) = read_scope s in
          do { (t, r) \<leftarrow> deserializeLinkTarget R (h, s); Some (Some (NormalLink t scope), r) })
      | TYPE_OffsetLink \<Rightarrow> (let (scope, s) = read_scope s in
          do { (t, h, s) \<leftarrow> deserializeLinkTarget R (h, s); let (off, s) = r64 s; Some (Some (OffsetLink t off scope), h, s) })
      | TYPE_PLTLink \<Rightarrow> do { (t, r) \<leftarrow> deserializeLinkTarget R (h, s); Some (Some (PLTLink 0 (dynamic_cast cls TYPE_PLTTrampoline t)), r) }
      | TYPE_JumpTableLink \<Rightarrow> do { (t, r) \<leftarrow> deserializeLinkTarget R (h, s); Some (Some (JumpTableLink (dynamic_cast cls TYPE_JumpTable t)), r) }
      | TYPE_EgalitoLoaderLink \<Rightarrow> (let (name, s) = readString s in Some (Some (EgalitoLoaderLink name), h, s))
      | TYPE_AbsoluteDataLink \<Rightarrow> do { (t, h, s) \<leftarrow> deserializeLinkTarget R (h, s); let (off, s) = r64 s;
          Some (Some (AbsoluteDataLink (dynamic_cast cls TYPE_DataSection t) off 0 SCOPE_UNKNOWN), h, s) }
      | TYPE_DataOffsetLink \<Rightarrow> (let (scope, s) = read_scope s in
          do { (t, h, s) \<leftarrow> deserializeLinkTarget R (h, s); let (off, s) = r64 s;
            Some (Some (DataOffsetLink (dynamic_cast cls TYPE_DataSection t) off 0 scope), h, s) })
      | TYPE_TLSDataOffsetLink \<Rightarrow> do { (t, h, s) \<leftarrow> deserializeLinkTarget R (h, s); let (raw, s) = r64 s; let (sy, s) = read_tls_symbol junk s;
          Some (Some (TLSDataOffsetLink (dynamic_cast cls TYPE_TLSDataRegion t) sy raw), h, s) }
      | TYPE_UnresolvedLink \<Rightarrow> (let (a, s) = r64 s in Some (Some (UnresolvedLink a), h, s))
      | TYPE_ImmAndDispLink \<Rightarrow> (let (sb, s) = r8 s; (i, s) = readID s in
          do { t \<leftarrow> lookup_id i (fst R); (disp, r) \<leftarrow> deserialize_link R (h, s); Some (Some (ImmAndDispLink (NormalLink t (ucast sb)) disp), r) })
      | _ \<Rightarrow> Some (Some (UnresolvedLink 0), h, s))"
  by (subst deserialize_link.simps) (cases ty; simp)

definition emits :: "'o Link option \<Rightarrow> ('o, 'i) wstate \<Rightarrow> ('o, 'i) wstate \<Rightarrow> bool" where
  "emits l w w' \<longleftrightarrow> (\<exists>bs. snd w' = snd w @ bs \<and> assignment (fst w) \<subseteq>\<^sub>m assignment (fst w') \<and> link_written l (fst w') bs)"

text \<open>A link without a pointer.\<close>

lemma emits_plain:
  assumes "\<And>(R :: cid read_env) ren h rest. well_typed (fst (snd R)) ren l \<Longrightarrow>
    deserialize_link R (h, open_stream (bs @ rest)) = Some (Some (restored ren l), h, open_stream rest)"
  shows "emits l (st, out) (st, out @ bs)"
  using assms by (auto simp: emits_def link_written_def)

text \<open>A link with a pointer: \<open>pre\<close> is written before its identifier and \<open>post\<close> after it.\<close>

lemma emits_pointer:
  assumes "\<And>(R :: cid read_env) ren h h' i rest. well_typed (fst (snd R)) ren l \<Longrightarrow>
      lookup_id i (fst R) = Some (map_option ren t) \<Longrightarrow>
      deserializeLinkTarget R (h, open_stream (le_bytes 4 i @ post @ rest)) = Some (map_option ren t, h', open_stream (post @ rest)) \<Longrightarrow>
      deserialize_link R (h, open_stream (pre @ le_bytes 4 i @ post @ rest)) = Some (Some (restored ren l), h', open_stream rest)"
  shows "emits l (st, out) (fst (wassign t (st, out @ pre)), snd (wassign t (st, out @ pre)) @ post)"
proof -
  obtain i st' where w: "wassign t (st, out @ pre) = (st', (out @ pre) @ le_bytes 4 i)" "has_id st' t i" "assignment st \<subseteq>\<^sub>m assignment st'"
    by (rule wassign_emits)
  have "link_written l st' (pre @ le_bytes 4 i @ post)"
    unfolding link_written_def
  proof (intro allI impI)
    fix R :: "cid read_env" and ren h rest
    assume k: "knows R ren st' h" and t: "well_typed (fst (snd R)) ren l"
    obtain h' where h': "deserializeLinkTarget R (h, open_stream (le_bytes 4 i @ post @ rest)) = Some (map_option ren t, h', open_stream (post @ rest))"
        "dom h' = dom h"
      using linkTarget_known [OF k w(2), of "post @ rest"] by blast
    from assms [OF t lookup_known [OF k w(2)] h'(1)] h'(2)
    show "\<exists>h'. deserialize_link R (h, open_stream ((pre @ le_bytes 4 i @ post) @ rest)) = Some (Some (restored ren l), h', open_stream rest) \<and> dom h' = dom h"
      by simp
  qed
  with w show ?thesis by (auto simp: emits_def)
qed

lemma emits_imm_and_disp:
  assumes "emits disp (wassign t (st, out @ le_bytes (Suc 0) (link_code TYPE_ImmAndDispLink) @ le_bytes (Suc 0) (scope_byte sc))) w'"
    and "getScope imm = Some sc" "link_getTarget E imm = Some t"
  shows "emits (Some (ImmAndDispLink imm disp)) (st, out) w'"
proof -
  let ?pre = "le_bytes (Suc 0) (link_code TYPE_ImmAndDispLink) @ le_bytes (Suc 0) (scope_byte sc)"
  let ?l = "Some (ImmAndDispLink imm disp)"
  obtain i st1 where w: "wassign t (st, out @ ?pre) = (st1, (out @ ?pre) @ le_bytes 4 i)" "has_id st1 t i" "assignment st \<subseteq>\<^sub>m assignment st1"
    by (rule wassign_emits)
  from assms(1) obtain bs where bs: "snd w' = ((out @ ?pre) @ le_bytes 4 i) @ bs" "assignment st1 \<subseteq>\<^sub>m assignment (fst w')" "link_written disp (fst w') bs"
    by (auto simp: emits_def w(1))
  have "link_written ?l (fst w') (?pre @ le_bytes 4 i @ bs)"
    unfolding link_written_def
  proof (intro allI impI)
    fix R :: "cid read_env" and ren h rest
    assume k: "knows R ren (fst w') h" and t: "well_typed (fst (snd R)) ren ?l"
    obtain h' where "deserialize_link R (h, open_stream (bs @ rest)) = Some (Some (restored ren disp), h', open_stream rest)" "dom h' = dom h"
      using bs(3) k t unfolding link_written_def well_typed.simps by blast
    moreover have "lookup_id i (fst R) = Some (map_option ren t)"
      using lookup_known [OF knows_mono [OF k bs(2)] w(2)] .
    moreover have "restored ren ?l = ImmAndDispLink (NormalLink (map_option ren t) (restored_scope sc)) (Some (restored ren disp))"
      using t assms(2,3) by (cases imm) auto
    ultimately show "\<exists>h'. deserialize_link R (h, open_stream ((?pre @ le_bytes 4 i @ bs) @ rest)) = Some (Some (restored ren ?l), h', open_stream rest) \<and> dom h' = dom h"
      by (simp add: deserialize_link_type restored_scope_def)
  qed
  moreover have "assignment st \<subseteq>\<^sub>m assignment (fst w')" using w(3) bs(2) by (rule map_le_trans)
  ultimately show ?thesis using bs(1) by (auto simp: emits_def)
qed

lemma emits_scoped:
  "emits (Some (AbsoluteNormalLink t s)) (st, out) (wassign t (st, out @ le_bytes (Suc 0) (link_code TYPE_AbsoluteNormalLink) @ le_bytes (Suc 0) (scope_byte s)))"
  "emits (Some (NormalLink t s)) (st, out) (wassign t (st, out @ le_bytes (Suc 0) (link_code TYPE_NormalLink) @ le_bytes (Suc 0) (scope_byte s)))"
  "emits (Some (PLTLink a t)) (st, out) (wassign t (st, out @ le_bytes (Suc 0) (link_code TYPE_PLTLink)))"
  "emits (Some (JumpTableLink t)) (st, out) (wassign t (st, out @ le_bytes (Suc 0) (link_code TYPE_JumpTableLink)))"
  by (rule emits_pointer [where post = "[]", simplified], simp add: deserialize_link_type)+

lemma emits_offset:
  "emits (Some (OffsetLink t off s)) (st, out)
    (w64 off (wassign t (st, out @ le_bytes (Suc 0) (link_code TYPE_OffsetLink) @ le_bytes (Suc 0) (scope_byte s))))"
  "emits (Some (AbsoluteDataLink t a add s)) (st, out) (w64 (a + add) (wassign t (st, out @ le_bytes (Suc 0) (link_code TYPE_AbsoluteDataLink))))"
  "emits (Some (InternalAndExternalDataLink x t a add s)) (st, out) (w64 (a + add) (wassign t (st, out @ le_bytes (Suc 0) (link_code TYPE_AbsoluteDataLink))))"
  "emits (Some (DataOffsetLink t a add s)) (st, out)
    (w64 (a + add) (wassign t (st, out @ le_bytes (Suc 0) (link_code TYPE_DataOffsetLink) @ le_bytes (Suc 0) (scope_byte s))))"
  unfolding w64_def writeValue_def word_bytes_simps by (rule emits_pointer, simp add: deserialize_link_type)+

lemma emits_tls:
  "emits (Some (TLSDataOffsetLink t sy a)) (st, out)
    (let w = wassign t (st, out @ le_bytes (Suc 0) (link_code TYPE_TLSDataOffsetLink)) in
     (fst w, snd w @ le_bytes 8 a @ le_bytes (Suc 0) (if sy \<noteq> None then 49 else 48 :: byte) @ (case sy of None \<Rightarrow> [] | Some y \<Rightarrow> take (c_strlen (sym_name y)) (sym_name y) @ [0])))"
proof (cases "\<exists>y. sy = Some y \<and> 0 \<in> set (sym_name y)")
  case True
  show ?thesis unfolding Let_def by (rule emits_pointer) (use True in auto)
next
  case False
  have "take (c_strlen v) v = v" if "0 \<notin> set v" for v
  proof -
    have eq: "takeWhile (\<lambda>b. b \<noteq> 0) v = v" using that by (auto simp: takeWhile_eq_all_conv)
    show ?thesis unfolding c_strlen_def eq by simp
  qed
  then have "(case sy of None \<Rightarrow> [] | Some y \<Rightarrow> take (c_strlen (sym_name y)) (sym_name y) @ [0]) = (case sy of None \<Rightarrow> [] | Some y \<Rightarrow> sym_name y @ [0])"
    using False by (auto split: option.split)
  then show ?thesis unfolding Let_def using read_tls_symbol_written
    by (intro emits_pointer) (simp add: deserialize_link_type)
qed

lemma serialize_link_emits: "serialize_link E l w = Some w' \<Longrightarrow> emits l w w'"
proof (induction E l w rule: serialize_link.induct)
  case (14 E imm disp w)
  obtain st out where w: "w = (st, out)" by (cases w)
  with 14 show ?case
    by (auto simp: w_simps split: bind_splits intro!: emits_imm_and_disp)
next
  case (3 E t off s w)
  then show ?case using emits_offset(1) [of t off s "fst w" "snd w"]
    by (auto simp: w_simps Let_def split: bind_splits dest: target_offset_simps)
next
  case (9 E t a add s w)
  then show ?case using emits_offset(2) [of t a add s "fst w" "snd w"]
    by (auto simp: w_simps Let_def split: bind_splits dest: target_offset_simps)
next
  case (10 E x t a add s w)
  then show ?case using emits_offset(3) [of x t a add s "fst w" "snd w"]
    by (auto simp: w_simps Let_def split: bind_splits dest: target_offset_simps)
next
  case (11 E t a add s w)
  then show ?case using emits_offset(4) [of t a add s "fst w" "snd w"]
    by (auto simp: w_simps Let_def split: bind_splits dest: target_offset_simps)
next
  case (12 E t sy a w)
  then show ?case using emits_tls [of t sy a "fst w" "snd w"]
    by (auto simp: w_simps Let_def writeString_c_def split: option.splits)
next
  case (1 E t s w)
  then show ?case using emits_scoped(1) [of t s "fst w" "snd w"] by (auto simp: w_simps)
next
  case (2 E t s w)
  then show ?case using emits_scoped(2) [of t s "fst w" "snd w"] by (auto simp: w_simps)
next
  case (4 E a t w)
  then show ?case using emits_scoped(3) [of a t "fst w" "snd w"] by (auto simp: w_simps)
next
  case (5 E t w)
  then show ?case using emits_scoped(4) [of t "fst w" "snd w"] by (auto simp: w_simps)
qed (auto simp: w_simps, (rule emits_plain, simp add: deserialize_link_type)+)

text \<open>The classes of links that come back as links to the same target.\<close>

fun supported_link :: "'o Link \<Rightarrow> bool" where
  "supported_link (ExternalSymbolLink x off) = False"
| "supported_link (CopyRelocLink x) = False"
| "supported_link (SymbolOnlyLink sy a) = False"
| "supported_link (LDSOLoaderLink name) = False"
| "supported_link (StackLink a) = False"
| "supported_link (MarkerLink m) = False"
| "supported_link (AbsoluteMarkerLink m) = False"
| "supported_link (GSTableLink g) = False"
| "supported_link (DistanceLink b t) = False"
| "supported_link (UnresolvedRelativeLink a) = False"
| "supported_link (ImmAndDispLink imm disp) = False"
| "supported_link l = True"

text \<open>The chunks of the reader are where those of the writer are.\<close>

definition same_places :: "('o \<Rightarrow> cid) \<Rightarrow> 'o LinkEnv \<Rightarrow> cid LinkEnv \<Rightarrow> bool" where
  "same_places ren E E' \<longleftrightarrow> (\<forall>c. env_address E' (ren c) = env_address E c \<and> env_tls_offset E' (ren c) = env_tls_offset E c) \<and>
     env_bridge E' = env_bridge E"

lemma address_of_renamed: "same_places ren E E' \<Longrightarrow> address_of_ref E' (map_option ren t) = address_of_ref E t"
  by (cases t) (simp_all add: address_of_ref_def same_places_def)

lemma restored_target:
  assumes "supported_link l" "same_places ren E E'"
  shows "getTargetAddress E' (restored ren (Some l)) = getTargetAddress E l \<and> isRIPRelative (restored ren (Some l)) = isRIPRelative l \<and>
    isAbsolute_link (restored ren (Some l)) = isAbsolute_link l"
  using assms address_of_renamed [OF assms(2)]
  by (cases l) (simp_all add: data_target_def add.assoc same_places_def split: option.split)


definition archive_of :: "cid list \<Rightarrow> (cid, cid) IDOperations" where
  "archive_of cs = \<lparr>id_flats = \<lparr>flatList = map (\<lambda>c. Some ((newFlat 0 0 [])\<lparr>flat_instance := Some c\<rparr>)) cs, nextID = 0\<rparr>, assignment = Map.empty\<rparr>"

definition fresh_ids :: "(nat, unit) IDOperations" where
  "fresh_ids = \<lparr>id_flats = emptyFlatList, assignment = Map.empty\<rparr>"

definition moved_env :: "cid LinkEnv" where
  "moved_env = plain_env\<lparr>env_address := \<lambda>c. env_address plain_env (c - 100)\<rparr>"

lemma same_places_moved: "same_places (\<lambda>c. c + 100) plain_env moved_env"
  by (simp add: same_places_def moved_env_def plain_env_def)

lemma written_once: "\<exists>st' bs. serialize_link E (Some (NormalLink (Some c) s)) (fresh_ids, out) = Some (st', bs) \<and> assignment st' = [c \<mapsto> 0]"
  by (auto simp: w_simps wassign_def assign_id_def fresh_ids_def getNextID_def emptyFlatList_def)

lemma archive_knows: "assignment st = [c \<mapsto> 0] \<Longrightarrow> knows (archive_of [c + 100], cls, junk) (\<lambda>c. c + 100) st [c + 100 \<mapsto> newBlock]"
  by (auto simp: knows_def archive_of_def lookup_id_def getFlat_def NoneID_def split: if_splits)


end
