(* ===== verification/InstrRoundtrip.thy ===== *)
theory InstrRoundtrip
  imports LinkRoundtrip
begin

unbundle bit_operations_syntax

section \<open>Instructions survive an archive\<close>

text \<open>
  An instruction that was read back from an archive writes the same bytes as the one that was written to it, at the
  same places. The disassembler library is asked to disassemble the written bytes again: it must return them, and
  find the displacement of a linked instruction where it was. An example shows that indirect control flow through
  a data link is not restored.
\<close>

subsection \<open>Pieces\<close>

text \<open>What is written for a chunk pointer, a byte string and a link, in the order of the calls.\<close>

lemma wbytes8_emits: "wbytes8 v w = (fst w, snd w @ le_bytes (Suc 0) (of_nat (length v) :: byte) @ v)"
  by (simp add: w_simps)

lemma fold_wassign_emits:
  obtains ids st' where "fold wassign ts (st, out) = (st', out @ concat (map (le_bytes 4) ids))"
    "list_all2 (has_id st') ts ids" "assignment st \<subseteq>\<^sub>m assignment st'"
proof (induction ts arbitrary: st out thesis)
  case Nil
  then show ?case by simp
next
  case (Cons t ts)
  obtain i st1 where 1: "wassign t (st, out) = (st1, out @ le_bytes 4 i)" "has_id st1 t i" "assignment st \<subseteq>\<^sub>m assignment st1"
    by (rule wassign_emits)
  obtain ids st' where 2: "fold wassign ts (st1, out @ le_bytes 4 i) = (st', (out @ le_bytes 4 i) @ concat (map (le_bytes 4) ids))"
    "list_all2 (has_id st') ts ids" "assignment st1 \<subseteq>\<^sub>m assignment st'"
    using Cons.IH by blast
  from 1 2 have "fold wassign (t # ts) (st, out) = (st', out @ concat (map (le_bytes 4) (i # ids)))" by simp
  moreover have "list_all2 (has_id st') (t # ts) (i # ids)" using 2(2) has_id_mono [OF 1(2) 2(3)] by simp
  moreover have "assignment st \<subseteq>\<^sub>m assignment st'" using 1(3) 2(3) by (rule map_le_trans)
  ultimately show ?case by (rule Cons.prems)
qed

lemma lookupAs_known:
  assumes "knows R ren st h" "has_id st t i" "of_class (fst (snd R)) ren ty t"
  shows "lookupAs R ty i = Some (map_option ren t)"
  using lookup_known [OF assms(1,2)] assms(3) by (simp add: lookupAs_def)

lemma read_tables_known:
  assumes "knows R ren st h" "list_all2 (has_id st) ts ids" "\<forall>t \<in> set ts. of_class (fst (snd R)) ren TYPE_JumpTable t"
  shows "read_tables R (length ts) (open_stream (concat (map (le_bytes 4) ids) @ rest)) = Some (map (map_option ren) ts, open_stream rest)"
  using assms(2,3)
proof (induction ts ids rule: list_all2_induct)
  case (Cons t ts i ids)
  then show ?case using lookupAs_known [OF assms(1) Cons.hyps(1), of TYPE_JumpTable] by simp
qed simp

lemma serialize_link_reads:
  assumes "serialize_link E (Some l) (st, out) = Some (st', out')"
  obtains bs where "out' = out @ bs" "assignment st \<subseteq>\<^sub>m assignment st'"
    "\<And>(R :: cid read_env) ren h rest. knows R ren st' h \<Longrightarrow> well_typed (fst (snd R)) ren (Some l) \<Longrightarrow>
       \<exists>h'. deserialize_link R (h, open_stream (bs @ rest)) = Some (Some (restored ren (Some l)), h', open_stream rest) \<and> dom h' = dom h"
  using serialize_link_emits [OF assms] by (auto simp: emits_def link_written_def)

subsection \<open>The supported classes\<close>

text \<open>The library returns the bytes it is given.\<close>

definition disassembles :: "Disassembler \<Rightarrow> byte list \<Rightarrow> bool" where
  "disassembles D bs \<longleftrightarrow> asm_bytes (allocateAssembly D bs) = bs"

definition link_ok :: "(cid \<Rightarrow> EgalitoChunkType) \<Rightarrow> ('o \<Rightarrow> cid) \<Rightarrow> 'o Link option \<Rightarrow> bool" where
  "link_ok cls ren l \<longleftrightarrow> (\<exists>k. l = Some k \<and> supported_link k \<and> well_typed cls ren (Some k))"

definition storage_plain :: "Disassembler \<Rightarrow> InstructionStorage \<Rightarrow> bool" where
  "storage_plain D st \<longleftrightarrow> length (asm_bytes (getAssembly D st)) < 256 \<and> disassembles D (asm_bytes (getAssembly D st))"

text \<open>\<open>instr_ok\<close> for an instruction that is read back as the chunk \<open>i\<close>.\<close>

definition linked_ok :: "Disassembler \<Rightarrow> 'o LinkEnv \<Rightarrow> 'o LinkedInstr \<Rightarrow> bool" where
  "linked_ok D E li \<longleftrightarrow> 0 \<le> opIndex li \<and> opIndex li < 256 \<and>
     length (asm_bytes (getAssembly D (li_storage li))) = length (rawData (li_storage li)) \<and> length (rawData (li_storage li)) < 256 \<and>
     (\<forall>bs. linked_writeTo D E True li [] = Some bs \<longrightarrow> disassembles D bs \<and>
       determineDisplacementSize D (allocateAssembly D bs) (opIndex li) = li_displacementSize li \<and>
       asm_getDispOffset D (allocateAssembly D bs) (opIndex li) = li_displacementOffset li)"

fun instr_ok :: "Disassembler \<Rightarrow> 'o LinkEnv \<Rightarrow> (cid \<Rightarrow> EgalitoChunkType) \<Rightarrow> ('o \<Rightarrow> cid) \<Rightarrow> cid \<Rightarrow> 'o InstructionSemantic \<Rightarrow> bool" where
  "instr_ok D E cls ren i (Isolated st) = storage_plain D st"
| "instr_ok D E cls ren i (ReturnInstr st) = storage_plain D st"
| "instr_ok D E cls ren i (BreakInstr st) = storage_plain D st"
| "instr_ok D E cls ren i (IndirectJump ind mn ts st) =
     (storage_plain D st \<and> 0 \<notin> set mn \<and> length ts < 2 ^ 32 \<and> (\<forall>t \<in> set ts. of_class cls ren TYPE_JumpTable t))"
| "instr_ok D E cls ren i (IndirectCall ind st) = storage_plain D st"
| "instr_ok D E cls ren i (Linked li) = (i = ren (li_instruction li) \<and> link_ok cls ren (li_link li) \<and> linked_ok D E li)"
| "instr_ok D E cls ren i (ControlFlow cf) =
     (link_ok cls ren (cf_link cf) \<and> of_class cls ren TYPE_Instruction (cf_source cf) \<and> length (cf_opcode cf) < 256 \<and>
      0 \<notin> set (cf_mnemonic cf) \<and> cf_displacementSize cf < 256)"
| "instr_ok D E cls ren i s = False"

text \<open>What comes back.\<close>

definition restored_linked :: "Disassembler \<Rightarrow> 'o LinkEnv \<Rightarrow> ('o \<Rightarrow> cid) \<Rightarrow> 'o LinkedInstr \<Rightarrow> cid LinkedInstr" where
  "restored_linked D E ren li =
     \<lparr>li_storage = stored (the (linked_writeTo D E True li [])), li_link = Some (restored ren (li_link li)),
      li_instruction = ren (li_instruction li), opIndex = opIndex li,
      li_displacementSize = li_displacementSize li, li_displacementOffset = li_displacementOffset li\<rparr>"

definition restored_controlflow :: "('o \<Rightarrow> cid) \<Rightarrow> 'o ControlFlowInstr \<Rightarrow> cid ControlFlowInstr" where
  "restored_controlflow ren cf =
     \<lparr>cf_id = cf_id cf, cf_source = map_option ren (cf_source cf), cf_opcode = cf_opcode cf, cf_mnemonic = cf_mnemonic cf,
      cf_displacementSize = cf_displacementSize cf, cf_nonreturn = cf_nonreturn cf, cf_link = Some (restored ren (cf_link cf))\<rparr>"

fun restored_instr :: "Disassembler \<Rightarrow> 'o LinkEnv \<Rightarrow> ('o \<Rightarrow> cid) \<Rightarrow> 'o InstructionSemantic \<Rightarrow> cid InstructionSemantic" where
  "restored_instr D E ren (Isolated st) = Isolated (stored (asm_bytes (getAssembly D st)))"
| "restored_instr D E ren (ReturnInstr st) = ReturnInstr (stored (asm_bytes (getAssembly D st)))"
| "restored_instr D E ren (BreakInstr st) = Isolated (stored (asm_bytes (getAssembly D st)))"
| "restored_instr D E ren (IndirectJump ind mn ts st) =
     IndirectJump (newIndirectOperand D (ucast (ucast (ind_reg ind) :: byte))) mn (map (map_option ren) ts) (stored (asm_bytes (getAssembly D st)))"
| "restored_instr D E ren (IndirectCall ind st) = IndirectCall (newIndirectOperand D (ind_reg ind)) (stored (asm_bytes (getAssembly D st)))"
| "restored_instr D E ren (Linked li) = Linked (restored_linked D E ren li)"
| "restored_instr D E ren (ControlFlow cf) = ControlFlow (restored_controlflow ren cf)"
| "restored_instr D E ren s = Isolated emptyStorage"

subsection \<open>Reading instructions back\<close>

definition instr_written :: "Disassembler \<Rightarrow> 'o LinkEnv \<Rightarrow> 'o InstructionSemantic \<Rightarrow> ('o, 'i) IDOperations \<Rightarrow> byte list \<Rightarrow> bool" where
  "instr_written D E s st' bs \<longleftrightarrow> (\<forall>decode (R :: cid read_env) ren h i addr rest. knows R ren st' h \<longrightarrow> instr_ok D E (fst (snd R)) ren i s \<longrightarrow>
     (\<exists>h'. deserialize_instr D decode R i addr (h, open_stream (bs @ rest)) = Some (Some (restored_instr D E ren s), h', open_stream rest) \<and>
       dom h' = dom h))"

definition instr_emits :: "Disassembler \<Rightarrow> 'o LinkEnv \<Rightarrow> 'o InstructionSemantic \<Rightarrow> ('o, 'i) wstate \<Rightarrow> ('o, 'i) wstate \<Rightarrow> bool" where
  "instr_emits D E s w w' \<longleftrightarrow>
     (\<exists>bs. snd w' = snd w @ bs \<and> assignment (fst w) \<subseteq>\<^sub>m assignment (fst w') \<and> instr_written D E s (fst w') bs)"

lemma deserialize_instr_type:
  "deserialize_instr D decode R i addr (h, open_stream (le_bytes (Suc 0) (instr_code ty) @ rest)) =
     (let s = open_stream rest in
      case ty of
        TYPE_IsolatedInstruction \<Rightarrow> (let (bytes, s) = rbytes8 s in Some (Some (Isolated (stored bytes)), h, s))
      | TYPE_LinkedInstruction \<Rightarrow> read_linked D R i (h, s)
      | TYPE_ReturnInstruction \<Rightarrow> (let (bytes, s) = rbytes8 s in Some (Some (ReturnInstr (stored bytes)), h, s))
      | TYPE_IndirectJumpInstruction \<Rightarrow> read_indirect_jump D R (h, s)
      | TYPE_IndirectCallInstruction \<Rightarrow> (let (reg, s) = r32 s; (bytes, s) = rbytes8 s
          in Some (Some (IndirectCall (newIndirectOperand D reg) (stored bytes)), h, s))
      | TYPE_StackFrameInstruction \<Rightarrow> None
      | TYPE_LiteralInstruction \<Rightarrow> None
      | TYPE_LinkedLiteralInstruction \<Rightarrow> (let (bytes, s) = rbytes8 s
          in Some (Some (case decode i bytes addr of Some sem \<Rightarrow> sem | None \<Rightarrow> Isolated (stored bytes)), h, s))
      | TYPE_ControlFlowInstruction \<Rightarrow> read_controlflow R (h, s)
      | TYPE_DataLinkedControlFlowInstruction \<Rightarrow> read_datalinked D R i (h, s)
      | TYPE_UNKNOWN_INSTR \<Rightarrow> Some (None, h, s))"
  by (cases ty) (simp_all add: deserialize_instr_def)

text \<open>Instructions that are only bytes.\<close>

lemma bytes_emits:
  assumes "\<And>decode (R :: cid read_env) ren h i addr rest. instr_ok D E (fst (snd R)) ren i s \<Longrightarrow>
    deserialize_instr D decode R i addr (h, open_stream (bs @ rest)) = Some (Some (restored_instr D E ren s), h, open_stream rest)"
  shows "instr_emits D E s (st, out) (st, out @ bs)"
  using assms by (auto simp: instr_emits_def instr_written_def)

lemma plain_emits:
  "instr_emits D E (Isolated t) (st, out) (st, out @ le_bytes (Suc 0) (instr_code TYPE_IsolatedInstruction) @
     le_bytes (Suc 0) (of_nat (length (asm_bytes (getAssembly D t))) :: byte) @ asm_bytes (getAssembly D t))"
  "instr_emits D E (BreakInstr t) (st, out) (st, out @ le_bytes (Suc 0) (instr_code TYPE_IsolatedInstruction) @
     le_bytes (Suc 0) (of_nat (length (asm_bytes (getAssembly D t))) :: byte) @ asm_bytes (getAssembly D t))"
  "instr_emits D E (ReturnInstr t) (st, out) (st, out @ le_bytes (Suc 0) (instr_code TYPE_ReturnInstruction) @
     le_bytes (Suc 0) (of_nat (length (asm_bytes (getAssembly D t))) :: byte) @ asm_bytes (getAssembly D t))"
  "instr_emits D E (IndirectCall ind t) (st, out) (st, out @ le_bytes (Suc 0) (instr_code TYPE_IndirectCallInstruction) @ le_bytes 4 (ind_reg ind) @
     le_bytes (Suc 0) (of_nat (length (asm_bytes (getAssembly D t))) :: byte) @ asm_bytes (getAssembly D t))"
  by (rule bytes_emits, simp add: deserialize_instr_type storage_plain_def)+

text \<open>Classes that are never read back have no promise to keep.\<close>

lemma unsupported_emits:
  assumes "\<And>cls (ren :: 'o \<Rightarrow> cid) i. \<not> instr_ok D E cls ren i s" "snd w' = snd w @ bs" "assignment (fst w) \<subseteq>\<^sub>m assignment (fst w')"
  shows "instr_emits D E s w w'"
  using assms by (auto simp: instr_emits_def instr_written_def)

lemma indirect_jump_emits: "instr_emits D E (IndirectJump ind mn ts t) (st, out) (write_indirect_jump D ind mn ts t (st, out))"
proof -
  let ?pre = "le_bytes (Suc 0) (instr_code TYPE_IndirectJumpInstruction) @ mn @ 0 # le_bytes (Suc 0) (ucast (ind_reg ind) :: byte) @
    le_bytes (Suc 0) (of_nat (length (asm_bytes (getAssembly D t))) :: byte) @ asm_bytes (getAssembly D t) @ le_bytes 4 (of_nat (length ts) :: 32 word)"
  obtain ids st' where f: "fold wassign ts (st, out @ ?pre) = (st', (out @ ?pre) @ concat (map (le_bytes 4) ids))"
    "list_all2 (has_id st') ts ids" "assignment st \<subseteq>\<^sub>m assignment st'"
    by (rule fold_wassign_emits)
  have "write_indirect_jump D ind mn ts t (st, out) = (st', out @ ?pre @ concat (map (le_bytes 4) ids))"
    using f(1) by (simp add: write_indirect_jump_def w_simps)
  moreover have "instr_written D E (IndirectJump ind mn ts t) st' (?pre @ concat (map (le_bytes 4) ids))"
    unfolding instr_written_def
  proof (intro allI impI)
    fix decode and R :: "cid read_env" and ren h i addr rest
    assume k: "knows R ren st' h" and ok: "instr_ok D E (fst (snd R)) ren i (IndirectJump ind mn ts t)"
    have n: "unat (of_nat (length ts) :: 32 word) = length ts" using ok by (simp add: unat_of_nat)
    have "read_tables R (length ts) (open_stream (concat (map (le_bytes 4) ids) @ rest)) = Some (map (map_option ren) ts, open_stream rest)"
      using read_tables_known [OF k f(2)] ok by simp
    with ok n show "\<exists>h'. deserialize_instr D decode R i addr (h, open_stream ((?pre @ concat (map (le_bytes 4) ids)) @ rest)) =
        Some (Some (restored_instr D E ren (IndirectJump ind mn ts t)), h', open_stream rest) \<and> dom h' = dom h"
      by (simp add: deserialize_instr_type read_indirect_jump_def storage_plain_def)
  qed
  ultimately show ?thesis using f(3) by (auto simp: instr_emits_def)
qed

lemma linked_emits:
  assumes "serialize_instr D E (Linked li) (st, out) = Some (st', out')"
  shows "instr_emits D E (Linked li) (st, out) (st', out')"
proof -
  obtain l bytes st1 out1 where l: "li_link li = Some l" "linked_writeTo D E True li [] = Some bytes"
    "serialize_link E (Some l) (st, out @ le_bytes (Suc 0) (instr_code TYPE_LinkedInstruction) @
       le_bytes (Suc 0) (of_nat (length bytes) :: byte) @ bytes) = Some (st1, out1)"
    "st' = st1" "out' = out1 @ le_bytes (Suc 0) (word_of_int (opIndex li) :: byte)"
    using assms by (auto simp: write_semantic_def w_simps split: bind_splits)
  let ?pre = "le_bytes (Suc 0) (instr_code TYPE_LinkedInstruction) @ le_bytes (Suc 0) (of_nat (length bytes) :: byte) @ bytes"
  from serialize_link_reads [OF l(3)] obtain bs where bs: "out1 = (out @ ?pre) @ bs" "assignment st \<subseteq>\<^sub>m assignment st1"
    "\<And>(R :: cid read_env) ren h rest. knows R ren st1 h \<Longrightarrow> well_typed (fst (snd R)) ren (Some l) \<Longrightarrow>
       \<exists>h'. deserialize_link R (h, open_stream (bs @ rest)) = Some (Some (restored ren (Some l)), h', open_stream rest) \<and> dom h' = dom h"
    by (metis append_assoc)
  let ?post = "le_bytes (Suc 0) (word_of_int (opIndex li) :: byte)"
  have "instr_written D E (Linked li) st1 (?pre @ bs @ ?post)"
    unfolding instr_written_def
  proof (intro allI impI)
    fix decode and R :: "cid read_env" and ren h i addr rest
    assume k: "knows R ren st1 h" and ok: "instr_ok D E (fst (snd R)) ren i (Linked li)"
    have "well_typed (fst (snd R)) ren (Some l)" using ok l(1) by (simp add: link_ok_def)
    from bs(3) [OF k this] obtain h' where h': "deserialize_link R (h, open_stream (bs @ ?post @ rest)) =
      Some (Some (restored ren (Some l)), h', open_stream (?post @ rest))" "dom h' = dom h" by blast
    have ix: "uint (word_of_int (opIndex li) :: byte) = opIndex li" "opIndex li \<noteq> - 1"
      using ok by (simp_all add: linked_ok_def uint_word_of_int)
    have n: "length bytes < 256" using ok linked_written_size [OF l(2)] by (simp add: linked_ok_def)
    have "getAssembly D (stored bytes) = allocateAssembly D bytes"
      by (simp add: getAssembly_def stored_def setData_def emptyStorage_def)
    with ok l(1,2) h' ix n show "\<exists>h'. deserialize_instr D decode R i addr (h, open_stream ((?pre @ bs @ ?post) @ rest)) =
        Some (Some (restored_instr D E ren (Linked li)), h', open_stream rest) \<and> dom h' = dom h"
      by (simp add: deserialize_instr_type read_linked_def setIndex_def makeDisplacementInfo_def newLinkedInstruction_def
        restored_linked_def linked_ok_def)
  qed
  with bs(1,2) l(4,5) show ?thesis by (auto simp: instr_emits_def)
qed

lemma controlflow_emits:
  assumes "serialize_instr D E (ControlFlow cf) (st, out) = Some (st', out')"
  shows "instr_emits D E (ControlFlow cf) (st, out) (st', out')"
proof -
  let ?pre = "le_bytes (Suc 0) (instr_code TYPE_ControlFlowInstruction) @ le_bytes 4 (cf_id cf)"
  let ?mid = "le_bytes (Suc 0) (of_nat (length (cf_opcode cf)) :: byte) @ cf_opcode cf @ cf_mnemonic cf @ 0 #
    le_bytes (Suc 0) (of_nat (cf_displacementSize cf) :: byte) @ le_bytes (Suc 0) (if \<not> cf_nonreturn cf then 49 else 48 :: byte)"
  obtain j st1 where j: "wassign (cf_source cf) (st, out @ ?pre) = (st1, (out @ ?pre) @ le_bytes 4 j)" "has_id st1 (cf_source cf) j"
    "assignment st \<subseteq>\<^sub>m assignment st1"
    by (rule wassign_emits)
  obtain l where l: "cf_link cf = Some l" "serialize_link E (Some l) (st1, out @ ?pre @ le_bytes 4 j @ ?mid) = Some (st', out')"
    using assms j(1) by (auto simp: write_controlflow_def w_simps Let_def split: bind_splits)
  from serialize_link_reads [OF l(2)] obtain bs where bs: "out' = (out @ ?pre @ le_bytes 4 j @ ?mid) @ bs" "assignment st1 \<subseteq>\<^sub>m assignment st'"
    "\<And>(R :: cid read_env) ren h rest. knows R ren st' h \<Longrightarrow> well_typed (fst (snd R)) ren (Some l) \<Longrightarrow>
       \<exists>h'. deserialize_link R (h, open_stream (bs @ rest)) = Some (Some (restored ren (Some l)), h', open_stream rest) \<and> dom h' = dom h"
    by metis
  have "instr_written D E (ControlFlow cf) st' (?pre @ le_bytes 4 j @ ?mid @ bs)"
    unfolding instr_written_def
  proof (intro allI impI)
    fix decode and R :: "cid read_env" and ren h i addr rest
    assume k: "knows R ren st' h" and ok: "instr_ok D E (fst (snd R)) ren i (ControlFlow cf)"
    have "well_typed (fst (snd R)) ren (Some l)" using ok l(1) by (simp add: link_ok_def)
    from bs(3) [OF k this] obtain h' where h': "deserialize_link R (h, open_stream (bs @ rest)) =
      Some (Some (restored ren (Some l)), h', open_stream rest)" "dom h' = dom h" by blast
    have src: "lookupAs R TYPE_Instruction j = Some (map_option ren (cf_source cf))"
      using lookupAs_known [OF k has_id_mono [OF j(2) bs(2)]] ok by simp
    have n: "unat (of_nat (cf_displacementSize cf) :: byte) = cf_displacementSize cf" using ok by (simp add: unat_of_nat)
    have returns: "rbool junk (open_stream (le_bytes (Suc 0) (if \<not> cf_nonreturn cf then 49 else 48 :: byte) @ rest)) = (\<not> cf_nonreturn cf, open_stream rest)"
      for junk rest by (rule rbool_written)
    show "\<exists>h'. deserialize_instr D decode R i addr (h, open_stream ((?pre @ le_bytes 4 j @ ?mid @ bs) @ rest)) =
        Some (Some (restored_instr D E ren (ControlFlow cf)), h', open_stream rest) \<and> dom h' = dom h"
      using ok l(1) h' src n returns
      by (simp add: deserialize_instr_type read_controlflow_def newControlFlowInstruction_def restored_controlflow_def del: rbool_written if_not_P)
        (auto simp: Let_def)
  qed
  with bs(1,2) j(3) show ?thesis by (auto simp: instr_emits_def intro: map_le_trans)
qed

lemma serialize_instr_emits:
  assumes "serialize_instr D E s (st, out) = Some (st', out')"
  shows "instr_emits D E s (st, out) (st', out')"
proof (cases s)
  case (IndirectJump ind mn ts t)
  with assms indirect_jump_emits [of D E ind mn ts t st out] show ?thesis by simp
next
  case (Linked li)
  with assms linked_emits show ?thesis by blast
next
  case (ControlFlow cf)
  with assms controlflow_emits show ?thesis by blast
next
  case (DataLinkedControlFlow li r)
  with assms obtain l w where l: "serialize_link E (Some l) (w8 (instr_code TYPE_DataLinkedControlFlowInstruction) (st, out)) = Some w"
    "(st', out') = wbool r (w8 (word_of_int (opIndex li)) w)"
    by (auto split: bind_splits)
  from serialize_link_emits [OF l(1)] l(2) DataLinkedControlFlow show ?thesis
    by (auto simp: emits_def w_simps intro!: unsupported_emits)
next
  case (Literal t)
  with assms show ?thesis by (auto simp: write_semantic_def w_simps intro!: unsupported_emits)
next
  case (LinkedLiteral t)
  with assms show ?thesis by (auto simp: write_semantic_def w_simps intro!: unsupported_emits)
next
  case (StackFrame sf)
  with assms show ?thesis by (auto simp: write_semantic_def w_simps intro!: unsupported_emits split: bind_splits)
qed (use assms plain_emits in \<open>auto simp: write_semantic_def w_simps\<close>)

subsection \<open>The restored instruction writes the same bytes\<close>

lemma restored_linked_writes:
  assumes "linked_ok D E li" "link_ok cls ren (li_link li)" "same_places ren E E'" "linked_writeTo D E True li [] = Some bs"
  shows "linked_writeTo D E' True (restored_linked D E ren li) [] = Some bs"
proof -
  let ?li = "restored_linked D E ren li" and ?off = "li_displacementOffset li" and ?n = "li_displacementSize li"
  obtain l where l: "li_link li = Some l" "supported_link l" using assms(2) by (auto simp: link_ok_def)
  have size: "length bs = length (rawData (li_storage li))"
    using linked_written_size [OF assms(4)] assms(1) by (simp add: linked_ok_def)
  have st: "rawData (li_storage ?li) = bs" "asm_bytes (getAssembly D (li_storage ?li)) = bs"
    using assms(1,4) by (auto simp: restored_linked_def stored_def setData_def emptyStorage_def getAssembly_def linked_ok_def disassembles_def)
  have "linked_displacement E' ?li = linked_displacement E li"
    using restored_target [OF l(2) assms(3)] assms(3) l(1) st(1) size
    by (cases "isRIPRelative l") (simp_all add: linked_displacement_def restored_linked_def same_places_def)
  moreover obtain d where d: "linked_displacement E li = Some d" "?off + ?n \<le> length (asm_bytes (getAssembly D (li_storage li)))" "?n \<le> 8"
    "bs = take ?off (asm_bytes (getAssembly D (li_storage li))) @ le_bytes ?n d @ drop (?off + ?n) (asm_bytes (getAssembly D (li_storage li)))"
    using assms(4) by (auto simp: linked_writeTo_def linked_pieces_def Let_def split: bind_splits if_splits)
  moreover have "take ?off bs @ le_bytes ?n d @ drop (?off + ?n) bs = bs"
    using d(2) unfolding d(4) by simp
  ultimately show ?thesis
    using st(2) by (simp add: linked_writeTo_def linked_pieces_def Let_def restored_linked_def)
qed

lemma restored_controlflow_writes:
  assumes "link_ok cls ren (cf_link cf)" "same_places ren E E'"
  shows "cf_writeTo E' True (restored_controlflow ren cf) [] = cf_writeTo E True cf []"
proof -
  obtain l where l: "cf_link cf = Some l" "supported_link l" using assms(1) by (auto simp: link_ok_def)
  have "cf_displacement E' (restored_controlflow ren cf) = cf_displacement E cf"
    using restored_target [OF l(2) assms(2)] assms(2) l(1)
    by (cases "cf_source cf"; cases "isRIPRelative l") (simp_all add: cf_displacement_def restored_controlflow_def same_places_def)
  moreover have "cf_displacementSize (restored_controlflow ren cf) = cf_displacementSize cf" "cf_opcode (restored_controlflow ren cf) = cf_opcode cf"
    by (simp_all add: restored_controlflow_def)
  ultimately show ?thesis by (simp add: cf_writeTo_def cf_disp_bytes_def cong: if_cong)
qed

lemma cf_useDisp_True [simp]: "cf_useDisp True cf"
  by (simp add: cf_useDisp_def split: option.split Link.split)

lemma getAssembly_stored: "disassembles D bs \<Longrightarrow> asm_bytes (getAssembly D (stored bs)) = bs"
  by (simp add: getAssembly_def stored_def setData_def emptyStorage_def disassembles_def)

lemma restored_writes:
  assumes "instr_ok D E cls ren i s" "same_places ren E E'" "InstrWriterCppString D E True s [] = Some bs"
  shows "InstrWriterCppString D E' True (restored_instr D E ren s) [] = Some bs"
proof (cases s)
  case (Linked li)
  with assms restored_linked_writes [of D E li cls ren E' bs] show ?thesis by simp
next
  case (ControlFlow cf)
  with assms restored_controlflow_writes [of cls ren cf E E'] show ?thesis by simp
qed (use assms in \<open>simp_all add: storage_plain_def getAssembly_stored\<close>)


lemma call_written: "\<exists>st' bs. serialize_instr D E (ControlFlow sample_call) (fresh_ids, []) = Some (st', bs) \<and> assignment st' = [3 \<mapsto> 0, 7 \<mapsto> 1]"
  by (auto simp: sample_call_def newControlFlowInstruction_def write_controlflow_def w_simps wassign_def assign_id_def fresh_ids_def
    getNextID_def emptyFlatList_def Let_def)

lemma call_archive_knows:
  "assignment st = [3 \<mapsto> 0, 7 \<mapsto> 1] \<Longrightarrow> knows (archive_of [103, 107], cls, junk) (\<lambda>c. c + 100) st [103 \<mapsto> newBlock, 107 \<mapsto> newBlock]"
  by (auto simp: knows_def archive_of_def lookup_id_def getFlat_def NoneID_def split: if_splits)


subsection \<open>A class that is not restored\<close>

lemma rbytes8_short:
  fixes n :: byte
  assumes "length rest < unat n"
  shows "\<exists>bytes. rbytes8 (open_stream (le_bytes (Suc 0) n @ rest)) = (bytes, \<lparr>unread = [], eofbit = True, failbit = True\<rparr>)"
proof -
  have "(read_value (open_stream (le_bytes (Suc 0) n @ rest)) :: byte \<times> istream) = (n, open_stream rest)"
    using r8_written [of n rest] by (simp add: r8_def)
  with assms show ?thesis
    by (simp add: rbytes8_def readBytes_def readFixedLengthBytes_def istream_read_def open_stream_def stream_good_def)
qed

lemma failed_link: "deserialize_link R (h, \<lparr>unread = [], eofbit = True, failbit = True\<rparr>) = Some (None, h, \<lparr>unread = [], eofbit = True, failbit = True\<rparr>)"
  by (subst deserialize_link.simps)
    (simp add: r8_def read_value_def readInto_def istream_read_def stream_good_def stillGood_def Let_def)


end
