(* ===== verification/FunctionRead.thy ===== *)
theory FunctionRead
  imports HeapFrame InstrRoundtrip ChunkEdit
begin

section \<open>Reading what a function was written as\<close>

text \<open>
  What writing a function appends to the stream, what reading the identifiers of its blocks and instructions makes of
  the chunks that the reader has, and what one turn of the loop over the instructions of a block does.
\<close>

subsection \<open>Reading instructions places their targets\<close>

lemma deserialize_link_placed: "deserialize_link R (h, s) = Some (l, h', s') \<Longrightarrow> heap_placed h h'"
proof (induction "length (unread s)" arbitrary: h s l h' s' rule: less_induct)
  case less
  obtain b s1 where b: "r8 s = (b, s1)" by fastforce
  show ?case
  proof (cases "stillGood s1 \<and> link_type b = TYPE_ImmAndDispLink")
    case True
    obtain c s2 i s3 where c: "r8 s1 = (c, s2)" "readID s2 = (i, s3)" by fastforce
    with less.prems True b obtain t disp r where d: "lookup_id i (fst R) = Some t" "deserialize_link R (h, s3) = Some (disp, r)" "r = (h', s')"
      by (subst (asm) deserialize_link.simps) (auto split: bind_splits prod.splits)
    have "length (unread s3) < length (unread s)" using imm_and_disp_shrinks [of b s1 s c s2 i s3] b c True by simp
    from less.hyps [OF this] d(2,3) show ?thesis by blast
  next
    case False
    with less.prems b show ?thesis
      by (subst (asm) deserialize_link.simps)
        (auto simp: Let_def dest: linkTarget_placed split: EgalitoLinkType.splits bind_splits prod.splits if_splits)
  qed
qed

lemma deserialize_instr_placed: "deserialize_instr D decode R i a (h, s) = Some (l, h', s') \<Longrightarrow> heap_placed h h'"
  by (auto simp: deserialize_instr_def read_linked_def read_indirect_jump_def read_controlflow_def read_datalinked_def Let_def
      dest: deserialize_link_placed split: EgalitoInstrType.splits bind_splits prod.splits)

subsection \<open>What is written\<close>

lemma for_each_appends:
  assumes step: "\<And>x st out st' out'. x \<in> set xs \<Longrightarrow> body x (st, out) = Some (st', out') \<Longrightarrow>
      \<exists>bs. out' = out @ bs \<and> assignment st \<subseteq>\<^sub>m assignment st' \<and> W st' x bs"
    and mono: "\<And>x st st' bs. W st x bs \<Longrightarrow> assignment st \<subseteq>\<^sub>m assignment st' \<Longrightarrow> W st' x bs"
    and run: "for_each body xs (st, out) = Some (st', out' :: byte list)"
  shows "\<exists>bss. out' = out @ concat bss \<and> assignment st \<subseteq>\<^sub>m assignment st' \<and> list_all2 (W st') xs bss"
  using step run
proof (induction xs arbitrary: st out)
  case (Cons x xs)
  from Cons.prems(2) obtain st1 out1 where 1: "body x (st, out) = Some (st1, out1)" "for_each body xs (st1, out1) = Some (st', out')"
    by (auto split: bind_splits)
  from Cons.prems(1) [OF _ 1(1)] obtain bs where bs: "out1 = out @ bs" "assignment st \<subseteq>\<^sub>m assignment st1" "W st1 x bs" by auto
  from Cons.IH [OF Cons.prems(1) 1(2)] obtain bss where
    bss: "out' = out1 @ concat bss" "assignment st1 \<subseteq>\<^sub>m assignment st'" "list_all2 (W st') xs bss" by auto
  have "list_all2 (W st') (x # xs) (bs # bss)" using mono [OF bs(3) bss(2)] bss(3) by simp
  then show ?case using bs(1,2) bss(1,2) by (intro exI [of _ "bs # bss"]) (auto intro: map_le_trans)
qed (auto intro: exI [of _ "[]"])

definition id_written :: "(cid, 'i) IDOperations \<Rightarrow> cid \<Rightarrow> byte list \<Rightarrow> bool" where
  "id_written st c bs \<longleftrightarrow> (\<exists>i. bs = le_bytes 4 i \<and> assignment st c = Some i)"

definition children_written :: "heap \<Rightarrow> (cid, 'i) IDOperations \<Rightarrow> cid \<Rightarrow> byte list \<Rightarrow> bool" where
  "children_written h st c bs \<longleftrightarrow> (\<exists>cs bss. children_of h c = Some cs \<and> bs = le_bytes 4 (of_nat (length cs) :: 32 word) @ concat bss \<and>
     list_all2 (id_written st) cs bss)"

definition block_written ::
    "Disassembler \<Rightarrow> cid LinkEnv \<Rightarrow> heap \<Rightarrow> (cid \<Rightarrow> cid InstructionSemantic) \<Rightarrow> (cid, 'i) IDOperations \<Rightarrow> cid \<Rightarrow> byte list \<Rightarrow> bool" where
  "block_written D E h sem st b bs \<longleftrightarrow> (\<exists>is bss. children_of h b = Some is \<and> bs = le_bytes 4 (of_nat (length is) :: 32 word) @ concat bss \<and>
     list_all2 (\<lambda>i. instr_written D E (sem i) st) is bss)"

lemma written_mono:
  assumes "assignment st \<subseteq>\<^sub>m assignment st'"
  shows "id_written st c bs \<Longrightarrow> id_written st' c bs" "children_written h st c bs \<Longrightarrow> children_written h st' c bs"
    "instr_written D E s st bs \<Longrightarrow> instr_written D E s st' bs" "block_written D E h sem st c bs \<Longrightarrow> block_written D E h sem st' c bs"
proof -
  show i: "id_written st c bs \<Longrightarrow> id_written st' c bs" for c bs using map_le_SomeD [OF assms] by (auto simp: id_written_def)
  have "list_all2 (id_written st) cs bss \<Longrightarrow> list_all2 (id_written st') cs bss" for cs bss
    by (erule list_all2_mono) (rule i)
  then show "children_written h st c bs \<Longrightarrow> children_written h st' c bs"
    unfolding children_written_def by blast
  show s: "instr_written D E s st bs \<Longrightarrow> instr_written D E s st' bs" for s bs
    unfolding instr_written_def using knows_mono [OF _ assms] by blast
  have "list_all2 (\<lambda>i. instr_written D E (sem i) st) is bss \<Longrightarrow> list_all2 (\<lambda>i. instr_written D E (sem i) st') is bss" for "is" bss
    by (erule list_all2_mono) (rule s)
  then show "block_written D E h sem st c bs \<Longrightarrow> block_written D E h sem st' c bs"
    unfolding block_written_def by blast
qed

lemma write_child_id_appends:
  assumes "write_child_id h c (st, out) = Some (st', out')"
  shows "\<exists>bs. out' = out @ bs \<and> assignment st \<subseteq>\<^sub>m assignment st' \<and> id_written st' c bs"
proof -
  obtain i st1 where i: "assign_id (Some c) st = (i, st1)" by fastforce
  note a = assign_id_has [OF i]
  have "assignment st1 = assignment st'" "out' = out @ le_bytes 4 i"
    using assms i by (auto simp: write_child_id_def writeID_def writeValue_def split: bind_splits)
  with a show ?thesis by (auto simp: id_written_def has_id_def)
qed

lemma for_each_ids:
  assumes "for_each (write_child_id h) cs (st, out) = Some (st', out')"
  shows "\<exists>bss. out' = out @ concat bss \<and> assignment st \<subseteq>\<^sub>m assignment st' \<and> list_all2 (id_written st') cs bss"
  by (rule for_each_appends [where W = id_written, OF _ _ assms]) (blast dest: write_child_id_appends written_mono(1))+

lemma child_ids_appends:
  assumes "serializeChildrenIDsOnly (Suc 0) h c (st, out) = Some (st', out')"
  shows "\<exists>bs. out' = out @ bs \<and> assignment st \<subseteq>\<^sub>m assignment st' \<and> children_written h st' c bs"
proof -
  from assms obtain cs where cs: "children_of h c = Some cs"
      "for_each (write_child_id h) cs (st, out @ le_bytes 4 (of_nat (length cs) :: 32 word)) = Some (st', out')"
    by (auto simp: w_simps split: bind_splits)
  from for_each_ids [OF cs(2)] cs(1) show ?thesis
    by (auto simp: children_written_def)
qed

lemma serialize_block_appends:
  assumes "serialize_block D E h sem b (st, out) = Some (st', out')"
  shows "\<exists>bs. out' = out @ bs \<and> assignment st \<subseteq>\<^sub>m assignment st' \<and> block_written D E h sem st' b bs"
proof -
  from assms obtain "is" where is': "children_of h b = Some is"
      "for_each (\<lambda>i. serialize_instr D E (sem i)) is (st, out @ le_bytes 4 (of_nat (length is) :: 32 word)) = Some (st', out')"
    by (auto simp: serialize_block_def w_simps split: bind_splits)
  have "\<exists>bs. out' = out @ bs \<and> assignment st \<subseteq>\<^sub>m assignment st' \<and> instr_written D E (sem i) st' bs"
    if "serialize_instr D E (sem i) (st, out) = Some (st', out')" for i st st' and out out' :: "byte list"
    using serialize_instr_emits [OF that] by (auto simp: instr_emits_def)
  then have "\<exists>bss. out' = (out @ le_bytes 4 (of_nat (length is) :: 32 word)) @ concat bss \<and> assignment st \<subseteq>\<^sub>m assignment st' \<and>
      list_all2 (\<lambda>i. instr_written D E (sem i) st') is bss"
    by (intro for_each_appends [where W = "\<lambda>st i. instr_written D E (sem i) st", OF _ _ is'(2)]) (blast dest: written_mono(3))+
  with is'(1) show ?thesis by (auto simp: block_written_def)
qed

lemma serialize_function_appends:
  assumes "serialize_function D E h sem info f (st, out) = Some (st', out')"
  shows "\<exists>a bs ids css bodies. getAddress h f = Some a \<and> children_of h f = Some bs \<and>
    out' = out @ le_bytes 8 a @ fn_name info @ 0 # le_bytes (Suc 0) (if fn_nonreturn info then 49 else 48 :: byte) @
      le_bytes (Suc 0) (if fn_ifunc info then 49 else 48 :: byte) @ le_bytes (Suc 0) (49 :: byte) @
      le_bytes 4 (of_nat (length bs) :: 32 word) @ concat ids @ concat css @ le_bytes 4 (of_nat (length bs) :: 32 word) @ concat bodies \<and>
    list_all2 (id_written st') bs ids \<and> list_all2 (children_written h st') bs css \<and> list_all2 (block_written D E h sem st') bs bodies"
proof -
  from assms obtain a bs st1 out1 st2 out2 where
    a: "getAddress h f = Some a" "children_of h f = Some bs" and
    1: "for_each (write_child_id h) bs (st, out @ le_bytes 8 a @ fn_name info @ 0 # le_bytes (Suc 0) (if fn_nonreturn info then 49 else 48 :: byte) @
      le_bytes (Suc 0) (if fn_ifunc info then 49 else 48 :: byte) @ le_bytes (Suc 0) (49 :: byte) @ le_bytes 4 (of_nat (length bs) :: 32 word)) = Some (st1, out1)" and
    2: "for_each (serializeChildrenIDsOnly (Suc 0) h) bs (st1, out1) = Some (st2, out2)" and
    3: "for_each (serialize_block D E h sem) bs (st2, out2 @ le_bytes 4 (of_nat (length bs) :: 32 word)) = Some (st', out')"
    by (auto simp: serialize_function_def w_simps numeral_2_eq_2 Let_def simp del: serializeChildrenIDsOnly.simps(1) split: bind_splits)
  from for_each_ids [OF 1] obtain ids where
    ids: "out1 = (out @ le_bytes 8 a @ fn_name info @ 0 # le_bytes (Suc 0) (if fn_nonreturn info then 49 else 48 :: byte) @
      le_bytes (Suc 0) (if fn_ifunc info then 49 else 48 :: byte) @ le_bytes (Suc 0) (49 :: byte) @ le_bytes 4 (of_nat (length bs) :: 32 word)) @ concat ids"
      "list_all2 (id_written st1) bs ids" by blast
  have "\<exists>css. out2 = out1 @ concat css \<and> assignment st1 \<subseteq>\<^sub>m assignment st2 \<and> list_all2 (children_written h st2) bs css"
    by (rule for_each_appends [where W = "children_written h", OF _ _ 2]) (blast dest: child_ids_appends written_mono(2))+
  then obtain css where
    css: "out2 = out1 @ concat css" "assignment st1 \<subseteq>\<^sub>m assignment st2" "list_all2 (children_written h st2) bs css" by blast
  have "\<exists>bodies. out' = (out2 @ le_bytes 4 (of_nat (length bs) :: 32 word)) @ concat bodies \<and> assignment st2 \<subseteq>\<^sub>m assignment st' \<and>
      list_all2 (block_written D E h sem st') bs bodies"
    by (rule for_each_appends [where W = "block_written D E h sem", OF _ _ 3]) (blast dest: serialize_block_appends written_mono(4))+
  then obtain bodies where
    b: "out' = (out2 @ le_bytes 4 (of_nat (length bs) :: 32 word)) @ concat bodies" "assignment st2 \<subseteq>\<^sub>m assignment st'"
      "list_all2 (block_written D E h sem st') bs bodies" by blast
  have "list_all2 (children_written h st') bs css" using css(3) by (rule list_all2_mono) (rule written_mono(2) [OF b(2)])
  moreover have "list_all2 (id_written st') bs ids"
    using ids(2) by (rule list_all2_mono) (rule written_mono(1) [OF map_le_trans [OF css(2) b(2)]])
  ultimately show ?thesis using a ids(1) css(1) b(1,3) by auto
qed

subsection \<open>The tree is linked\<close>

text \<open>The heap after children were added to a chunk, and to each of a list of chunks.\<close>

definition adopt :: "cid \<Rightarrow> cid list \<Rightarrow> heap \<Rightarrow> heap" where
  "adopt p cs h = (\<lambda>d. if d = p then map_option (\<lambda>x. x\<lparr>children := children x @ cs\<rparr>) (h d)
     else if d \<in> set cs then map_option (\<lambda>x. x\<lparr>parent := Some p\<rparr>) (h d) else h d)"

definition adopt_all :: "cid list \<Rightarrow> (cid \<Rightarrow> cid list) \<Rightarrow> heap \<Rightarrow> heap" where
  "adopt_all B K = fold (\<lambda>b. adopt b (K b)) B"

definition nodes :: "cid list \<Rightarrow> (cid \<Rightarrow> cid list) \<Rightarrow> cid list" where
  "nodes B K = concat (map (\<lambda>b. b # K b) B)"

lemma nodes_simps [simp]: "nodes [] K = []" "nodes (b # B) K = b # K b @ nodes B K"
  by (simp_all add: nodes_def)

lemma adopt_Nil [simp]: "adopt p [] h = h"
  by (auto simp: adopt_def fun_eq_iff intro: option.map_ident_strong)

lemma adopt_append: "p \<notin> set cs \<Longrightarrow> p \<notin> set ds \<Longrightarrow> adopt p ds (adopt p cs h) = adopt p (cs @ ds) h"
  by (auto simp: adopt_def fun_eq_iff option.map_comp comp_def intro!: option.map_cong)

lemma dom_adopt [simp]: "dom (adopt p cs h) = dom h"
  by (auto simp: adopt_def split: if_splits)

lemma adopt_all_simps [simp]: "adopt_all [] K h = h" "adopt_all (a # B) K h = adopt_all B K (adopt a (K a) h)"
  by (simp_all add: adopt_all_def)

lemma adopt_all_other: "c \<notin> set (nodes B K) \<Longrightarrow> adopt_all B K h c = h c"
  by (induction B arbitrary: h) (simp_all add: adopt_def)

lemma nodes_mem: "b \<in> set B \<Longrightarrow> b \<in> set (nodes B K)" "b \<in> set B \<Longrightarrow> i \<in> set (K b) \<Longrightarrow> i \<in> set (nodes B K)"
  by (auto simp: nodes_def)

lemma adopt_all_at:
  assumes "distinct (nodes B K)" "b \<in> set B"
  shows "adopt_all B K h b = map_option (\<lambda>x. x\<lparr>children := children x @ K b\<rparr>) (h b)"
    "i \<in> set (K b) \<Longrightarrow> adopt_all B K h i = map_option (\<lambda>x. x\<lparr>parent := Some b\<rparr>) (h i)"
proof -
  have "adopt_all B K h b = map_option (\<lambda>x. x\<lparr>children := children x @ K b\<rparr>) (h b) \<and>
      (i \<in> set (K b) \<longrightarrow> adopt_all B K h i = map_option (\<lambda>x. x\<lparr>parent := Some b\<rparr>) (h i))"
    using assms
  proof (induction B arbitrary: h)
    case (Cons a B)
    show ?case
    proof (cases "a = b")
      case True
      have "i \<notin> set (nodes B K)" if "i \<in> set (K b)" using that True Cons.prems(1) by auto
      with True Cons.prems adopt_all_other [of b B K] adopt_all_other [of i B K] show ?thesis
        by (auto simp: adopt_def)
    next
      case False
      with Cons.prems have b: "b \<in> set B" by simp
      have "b \<notin> set (K a)" "i \<in> set (K b) \<longrightarrow> i \<noteq> a \<and> i \<notin> set (K a)"
        using Cons.prems(1) nodes_mem(1) [OF b, of K] nodes_mem(2) [OF b, of i K] by auto
      with Cons.IH [of "adopt a (K a) h"] Cons.prems(1) b False show ?thesis by (auto simp: adopt_def)
    qed
  qed simp
  then show "adopt_all B K h b = map_option (\<lambda>x. x\<lparr>children := children x @ K b\<rparr>) (h b)"
    "i \<in> set (K b) \<Longrightarrow> adopt_all B K h i = map_option (\<lambda>x. x\<lparr>parent := Some b\<rparr>) (h i)" by blast+
qed

lemma add_child_adopt:
  assumes "h p = Some x" "h c = Some y" "kind x \<noteq> Instruction" "accepts (kind x) (kind y)" "p \<noteq> c"
  shows "add_child p c h = Some (adopt p [c] h)"
  using assms by (auto simp: add_child_def genericAdd_def set_parent_def update_chunk_def adopt_def fun_eq_iff)

lemma knows_dom: "knows R ren st h \<Longrightarrow> dom h' = dom h \<Longrightarrow> knows R ren st h'"
  by (simp add: knows_def)

lemma read_children_ids:
  assumes "list_all2 (id_written st) cs bss" "knows R ren st h" "h p = Some x" "kind x \<noteq> Instruction"
    and "\<forall>c \<in> set cs. \<exists>y. h (ren c) = Some y \<and> accepts (kind x) (kind y)" "p \<notin> ren ` set cs"
  shows "\<exists>ids. read_children R p (length cs) (h, open_stream (concat bss @ rest)) = Some (ids, adopt p (map ren cs) h, open_stream rest) \<and>
    list_all2 (\<lambda>c i. lookup_id i (fst R) = Some (Some (ren c))) cs ids"
  using assms
proof (induction arbitrary: h x rule: list_all2_induct)
  case (Cons c cs b bss)
  from Cons.hyps(1) obtain i where i: "b = le_bytes 4 i" "assignment st c = Some i" by (auto simp: id_written_def)
  then have l: "lookup_id i (fst R) = Some (Some (ren c))" using Cons.prems(1) by (simp add: knows_def)
  from Cons.prems(4) obtain y where y: "h (ren c) = Some y" "accepts (kind x) (kind y)" by auto
  let ?h = "adopt p [ren c] h"
  have a: "add_child p (ren c) h = Some ?h" using Cons.prems(2,3,5) y by (intro add_child_adopt) auto
  have "\<exists>z. ?h (ren d) = Some z \<and> accepts (kind x) (kind z)" if "d \<in> set cs" for d
    using Cons.prems(4,5) that by (auto simp: adopt_def)
  moreover have "knows R ren st ?h" "?h p = Some (x\<lparr>children := children x @ [ren c]\<rparr>)"
    using knows_dom [OF Cons.prems(1) dom_adopt] Cons.prems(2) by (simp_all add: adopt_def)
  moreover have "p \<notin> ren ` set cs" using Cons.prems(5) by simp
  ultimately obtain ids where
    ids: "read_children R p (length cs) (?h, open_stream (concat bss @ rest)) = Some (ids, adopt p (map ren cs) ?h, open_stream rest)"
      "list_all2 (\<lambda>c i. lookup_id i (fst R) = Some (Some (ren c))) cs ids"
    using Cons.IH [of ?h "x\<lparr>children := children x @ [ren c]\<rparr>"] Cons.prems(3) by auto
  have "adopt p (map ren cs) ?h = adopt p (map ren (c # cs)) h" using Cons.prems(5) by (subst adopt_append) auto
  with i(1) l a ids show ?case by simp
qed simp

lemma read_child_ids:
  assumes w: "children_written hw st b bs" and cs: "children_of hw b = Some cs" and k: "knows R ren st h"
    and x: "h (ren b) = Some x" "kind x = Block" and n: "length cs < 2 ^ 32"
    and i: "\<forall>c \<in> set cs. \<exists>y. h (ren c) = Some y \<and> kind y = Instruction" and p: "ren b \<notin> ren ` set cs"
  shows "deserializeChildrenIDsOnly (Suc 0) R (ren b) (h, open_stream (bs @ rest)) = Some (adopt (ren b) (map ren cs) h, open_stream rest)"
proof -
  from w cs obtain bss where bss: "bs = le_bytes 4 (of_nat (length cs) :: 32 word) @ concat bss" "list_all2 (id_written st) cs bss"
    by (auto simp: children_written_def)
  have "\<forall>c \<in> set cs. \<exists>y. h (ren c) = Some y \<and> accepts (kind x) (kind y)" using i x(2) by auto
  from read_children_ids [OF bss(2) k x(1) _ this p, of rest] x(2) n bss(1) show ?thesis
    by (auto simp: unat_of_nat)
qed

lemma read_all_child_ids:
  assumes "list_all2 (children_written hw st) bs css" "list_all2 (\<lambda>b i. lookup_id i (fst R) = Some (Some (ren b))) bs ids"
    and "knows R ren st h" "\<forall>b \<in> set bs. children_of hw b = Some (kids_of b) \<and> length (kids_of b) < 2 ^ 32 \<and> (\<exists>x. h (ren b) = Some x \<and> kind x = Block) \<and>
      ren b \<notin> ren ` set (kids_of b) \<and> (\<forall>i \<in> set (kids_of b). \<exists>y. h (ren i) = Some y \<and> kind y = Instruction)"
  shows "for_each (\<lambda>i r. do { target \<leftarrow> lookup_id i (fst R); c \<leftarrow> target; deserializeChildrenIDsOnly (Suc 0) R c r }) ids (h, open_stream (concat css @ rest)) =
    Some (fold (\<lambda>b. adopt (ren b) (map ren (kids_of b))) bs h, open_stream rest)"
  using assms
proof (induction arbitrary: h ids rule: list_all2_induct)
  case (Cons b bs c css)
  from Cons.prems(1) obtain i "is" where i: "ids = i # is" "lookup_id i (fst R) = Some (Some (ren b))"
      "list_all2 (\<lambda>b i. lookup_id i (fst R) = Some (Some (ren b))) bs is" by (auto simp: list_all2_Cons1)
  from Cons.prems(3) obtain x where x: "children_of hw b = Some (kids_of b)" "h (ren b) = Some x" "kind x = Block" by auto
  let ?h = "adopt (ren b) (map ren (kids_of b)) h"
  have 1: "deserializeChildrenIDsOnly (Suc 0) R (ren b) (h, open_stream (c @ concat css @ rest)) = Some (?h, open_stream (concat css @ rest))"
    by (rule read_child_ids [OF Cons.hyps(1) x(1) Cons.prems(2) x(2,3)]) (use Cons.prems(3) in auto)
  have "\<exists>y. ?h e = Some y \<and> kind y = k" if "\<exists>y. h e = Some y \<and> kind y = k" for e k
    using that by (auto simp: adopt_def)
  then have "for_each (\<lambda>i r. do { target \<leftarrow> lookup_id i (fst R); c \<leftarrow> target; deserializeChildrenIDsOnly (Suc 0) R c r }) is (?h, open_stream (concat css @ rest)) =
    Some (fold (\<lambda>b. adopt (ren b) (map ren (kids_of b))) bs ?h, open_stream rest)"
    using Cons.prems(3) by (intro Cons.IH [OF i(3) knows_dom [OF Cons.prems(2) dom_adopt]]) auto
  with i(1,2) 1 show ?case by (simp del: deserializeChildrenIDsOnly.simps)
qed simp

subsection \<open>One instruction\<close>

lemma link_siblings_eq:
  assumes "h prev = Some px" "h c = Some x" "prev \<noteq> c" "kind x = Block \<or> kind x = Instruction" "k > 0"
  shows "\<exists>p. link_siblings k prev c h = Some (h(prev \<mapsto> px\<lparr>nextSibling := Some c\<rparr>, c \<mapsto> x\<lparr>prevSibling := Some prev, position := p\<rparr>))"
proof (cases "position x")
  case None
  with assms have "link_siblings k prev c h = Some (h(prev \<mapsto> px\<lparr>nextSibling := Some c\<rparr>, c \<mapsto> x\<lparr>prevSibling := Some prev, position := None\<rparr>))"
    by (auto simp: link_siblings_def setPreviousSibling_def setNextSibling_def set_previous_def set_next_def follow_def update_chunk_def getPosition_simps
        fun_upd_twist intro!: ext)
  then show ?thesis by blast
next
  case (Some q)
  have "store_position p y = y\<lparr>position := Some p\<rparr>" if "kind y = kind x" for p y
    using that assms(4) by (auto simp: store_position_def)
  with Some assms have "link_siblings k prev c h = Some (h(prev \<mapsto> px\<lparr>nextSibling := Some c\<rparr>,
      c \<mapsto> x\<lparr>prevSibling := Some prev, position := Some (setAfterThis prev (setAfterThis prev q))\<rparr>))"
    by (auto simp: link_siblings_def setPreviousSibling_def setNextSibling_def set_previous_def set_next_def follow_def update_chunk_def getPosition_simps
        fun_upd_twist intro!: ext)
  then show ?thesis by blast
qed

lemma place_after_eq:
  assumes "h c = Some x" "kind x = Block \<or> kind x = Instruction"
  shows "place_after MODE_OFFSET prev c off h = Some (h(c \<mapsto> x\<lparr>position := Some (OffsetPosition c off)\<rparr>))"
  using assms by (auto simp: place_after_def makePosition_def setPosition_def)

lemma grow_chunk_eq:
  assumes "h p = Some x" "size_of h c = Some s" "code_kind (kind x)" "unat (computedSize x + s) < 2 ^ 63"
  shows "grow_chunk p c h = Some (h(p \<mapsto> x\<lparr>computedSize := computedSize x + s\<rparr>))"
  using assms addToSize_code [OF assms(3,4)] by (simp add: grow_chunk_def)

lemma summary_size [simp]: "semantic_getSize (summary s) = of_nat (semantic_size s)"
  by (auto simp: summary_def Let_def split: InstructionSemantic.splits option.splits)

lemma heap_placedD:
  assumes "heap_placed h h'" "h c = Some x"
  obtains y where "h' c = Some y" "placed_as x y"
proof -
  have "rel_option placed_as (h c) (h' c)" using assms(1) by (simp add: heap_placed_def)
  with assms(2) that show thesis by (auto elim: option.rel_cases)
qed

lemma heap_placed_dom: "heap_placed h h' \<Longrightarrow> dom h' = dom h"
  unfolding heap_placed_def dom_def by (metis option.rel_distinct(1,2) not_None_eq)

lemma heap_placed_fixed: "heap_placed h h' \<Longrightarrow> h c = Some x \<Longrightarrow> position x \<noteq> None \<Longrightarrow> h' c = Some x"
  by (erule heap_placedD) (auto simp: placed_as_def)

text \<open>The heap before the semantic of an instruction is read: its siblings are linked.\<close>

lemma link_first:
  assumes "h c = Some x" "kind x = Block \<or> kind x = Instruction" "k > 0 \<longrightarrow> h prev = Some px \<and> prev \<noteq> c"
  obtains h1 p where "link_siblings k prev c h = Some h1"
    "h1 c = Some (x\<lparr>prevSibling := (if k = 0 then prevSibling x else Some prev), position := p\<rparr>)"
    "k > 0 \<longrightarrow> h1 prev = Some (px\<lparr>nextSibling := Some c\<rparr>)" "\<forall>d. d \<noteq> c \<longrightarrow> (k > 0 \<longrightarrow> d \<noteq> prev) \<longrightarrow> h1 d = h d"
proof (cases "k = 0")
  case True
  then have "link_siblings k prev c h = Some h" by (simp add: link_siblings_def)
  with assms(1) True that [of h "position x"] show thesis by simp
next
  case False
  with link_siblings_eq [of h prev px c x k] assms obtain p where
    "link_siblings k prev c h = Some (h(prev \<mapsto> px\<lparr>nextSibling := Some c\<rparr>, c \<mapsto> x\<lparr>prevSibling := Some prev, position := p\<rparr>))" by auto
  from that [OF this, of p] False assms(3) show thesis by simp
qed

abbreviation reader :: "heap \<Rightarrow> (cid \<rightharpoonup> cid InstructionSemantic) \<Rightarrow> byte list \<Rightarrow> function_reader" where
  "reader h sm bs \<equiv> \<lparr>fr_heap = h, fr_sem = sm, fr_stream = open_stream bs\<rparr>"

lemma read_instr_eq:
  assumes b: "h b = Some bx" "kind bx = Block" "children bx = js" "position bx \<noteq> None"
    and i: "k < length js" "js ! k = i" "h i = Some x" "kind x = Instruction" "i \<noteq> b"
    and prev: "k > 0 \<longrightarrow> h prev = Some px \<and> prev \<noteq> i \<and> prev \<noteq> b \<and> position px \<noteq> None"
    and r: "\<And>h'. dom h' = dom h \<Longrightarrow> \<exists>h''. deserialize_instr D decode R i (base + tot) (h', open_stream (bs @ rest)) = Some (Some s, h'', open_stream rest)"
    and room: "unat (computedSize bx + of_nat (semantic_size s)) < 2 ^ 63"
  shows "\<exists>h'. read_instr MODE_OFFSET D decode R base b k (prev, tot, reader h sm (bs @ rest)) =
      Some (i, tot + of_nat (semantic_size s), reader h' (sm(i \<mapsto> s)) rest) \<and>
    h' i = Some (x\<lparr>prevSibling := (if k = 0 then prevSibling x else Some prev), semantic := Some (summary s),
      position := Some (OffsetPosition i (computedSize bx))\<rparr>) \<and>
    (k > 0 \<longrightarrow> h' prev = Some (px\<lparr>nextSibling := Some i\<rparr>)) \<and>
    h' b = Some (bx\<lparr>computedSize := computedSize bx + of_nat (semantic_size s)\<rparr>) \<and>
    (\<forall>c. c \<noteq> i \<longrightarrow> c \<noteq> b \<longrightarrow> (k > 0 \<longrightarrow> c \<noteq> prev) \<longrightarrow> rel_option placed_as (h c) (h' c)) \<and> dom h' = dom h"
proof -
  have "k > 0 \<longrightarrow> h prev = Some px \<and> prev \<noteq> i" using prev by blast
  from link_first [OF i(3) _ this] i(4) obtain h1 p where
    h1: "link_siblings k prev i h = Some h1" "h1 i = Some (x\<lparr>prevSibling := (if k = 0 then prevSibling x else Some prev), position := p\<rparr>)"
      "k > 0 \<longrightarrow> h1 prev = Some (px\<lparr>nextSibling := Some i\<rparr>)" "\<forall>d. d \<noteq> i \<longrightarrow> (k > 0 \<longrightarrow> d \<noteq> prev) \<longrightarrow> h1 d = h d" by blast
  have "h1 d = None \<longleftrightarrow> h d = None" for d
    using h1(2,3,4) i(3) prev by (cases "d = i"; cases "k > 0 \<and> d = prev") auto
  then have d1: "dom h1 = dom h" by (auto simp: dom_def)
  from r [OF d1] obtain h2 where h2: "deserialize_instr D decode R i (base + tot) (h1, open_stream (bs @ rest)) = Some (Some s, h2, open_stream rest)" by blast
  note pl = deserialize_instr_placed [OF h2]
  have b1: "h1 b = Some bx" using h1(4) b(1) i(5) prev by auto
  have hb: "h2 b = Some bx" by (rule heap_placed_fixed [OF pl b1 b(4)])
  have hp: "k > 0 \<longrightarrow> h2 prev = Some (px\<lparr>nextSibling := Some i\<rparr>)"
    using heap_placed_fixed [OF pl, of prev "px\<lparr>nextSibling := Some i\<rparr>"] h1(3) prev by simp
  from heap_placedD [OF pl h1(2)] obtain y where y: "h2 i = Some y"
    "placed_as (x\<lparr>prevSibling := (if k = 0 then prevSibling x else Some prev), position := p\<rparr>) y" .
  let ?P = "OffsetPosition i (computedSize bx)" let ?B = "bx\<lparr>computedSize := computedSize bx + of_nat (semantic_size s)\<rparr>"
  let ?X = "y\<lparr>semantic := Some (summary s), position := Some ?P\<rparr>"
  have yk: "kind y = Instruction" using y(2) i(4) by (auto simp: placed_as_def)
  have X: "?X = x\<lparr>prevSibling := (if k = 0 then prevSibling x else Some prev), semantic := Some (summary s), position := Some ?P\<rparr>"
    using y(2) by (auto simp: placed_as_def)
  let ?h = "h2(i \<mapsto> ?X, b \<mapsto> ?B)"
  have sb: "size_of (h2(i \<mapsto> y\<lparr>semantic := Some (summary s)\<rparr>)) b = Some (computedSize bx)"
    using hb b(2) i(5) by (simp add: size_of_def chunk_getSize_def)
  have si: "size_of (h2(i \<mapsto> ?X)) i = Some (of_nat (semantic_size s))"
    using yk by (simp add: size_of_def chunk_getSize_def)
  have g: "grow_chunk b i (h2(i \<mapsto> ?X)) = Some ?h"
    using grow_chunk_eq [of "h2(i \<mapsto> ?X)" b bx i, OF _ si] hb b(2) i(5) room by (simp add: code_kind_def)
  have u: "update_chunk i (\<lambda>x. x\<lparr>semantic := Some (summary s)\<rparr>) h2 = Some (h2(i \<mapsto> y\<lparr>semantic := Some (summary s)\<rparr>))"
    using y(1) by (simp add: update_chunk_def)
  have pa: "place_after MODE_OFFSET prev i (computedSize bx) (h2(i \<mapsto> y\<lparr>semantic := Some (summary s)\<rparr>)) = Some (h2(i \<mapsto> ?X))"
    using place_after_eq [of "h2(i \<mapsto> y\<lparr>semantic := Some (summary s)\<rparr>)" i] yk by simp
  have "children_of h b = Some js" using b(1-3) by (simp add: children_of_def)
  then have "read_instr MODE_OFFSET D decode R base b k (prev, tot, reader h sm (bs @ rest)) =
      Some (i, tot + of_nat (semantic_size s), reader ?h (sm(i \<mapsto> s)) rest)"
    using i(1,2) h1(1) h2 u sb pa si g by (simp add: read_instr_def)
  moreover have "rel_option placed_as (h c) (?h c)" if "c \<noteq> i" "c \<noteq> b" "k > 0 \<longrightarrow> c \<noteq> prev" for c
    using that h1(4) pl by (simp add: heap_placed_def) metis
  moreover have "k > 0 \<longrightarrow> ?h prev = Some (px\<lparr>nextSibling := Some i\<rparr>)" using hp prev by auto
  moreover have "dom ?h = dom h"
  proof -
    have "dom h2 = dom h1" using heap_placed_dom [OF pl] .
    with d1 i(3) b(1) show ?thesis by (auto simp: dom_def)
  qed
  ultimately show ?thesis using X i(5) by (intro exI [of _ ?h]) simp
qed

subsection \<open>The instructions of a block\<close>

definition sib_before :: "cid list \<Rightarrow> nat \<Rightarrow> cid option" where
  "sib_before cs j = (if j = 0 then None else Some (cs ! (j - 1)))"

definition sib_after :: "cid list \<Rightarrow> nat \<Rightarrow> nat \<Rightarrow> cid option" where
  "sib_after cs n j = (if Suc j < n then Some (cs ! Suc j) else None)"

text \<open>Instruction \<open>j\<close> of a block when \<open>n\<close> of them have been read, and one that has not.\<close>

definition instr_built :: "heap \<Rightarrow> cid \<Rightarrow> cid list \<Rightarrow> nat \<Rightarrow> nat \<Rightarrow> cid InstructionSemantic \<Rightarrow> bool" where
  "instr_built h b cs n j s \<longleftrightarrow> (\<exists>x off. h (cs ! j) = Some x \<and> kind x = Instruction \<and> parent x = Some b \<and> children x = [] \<and>
     prevSibling x = sib_before cs j \<and> nextSibling x = sib_after cs n j \<and> semantic x = Some (summary s) \<and>
     position x = Some (OffsetPosition (cs ! j) off))"

definition instr_fresh :: "heap \<Rightarrow> cid \<Rightarrow> cid \<Rightarrow> bool" where
  "instr_fresh h b i \<longleftrightarrow> (\<exists>x. h i = Some x \<and> kind x = Instruction \<and> parent x = Some b \<and> children x = [] \<and>
     prevSibling x = None \<and> nextSibling x = None)"

definition instrs_upto :: "heap \<Rightarrow> cid \<Rightarrow> cid list \<Rightarrow> cid InstructionSemantic list \<Rightarrow> nat \<Rightarrow> bool" where
  "instrs_upto h b cs ss n \<longleftrightarrow>
     (\<forall>j < n. instr_built h b cs n j (ss ! j)) \<and> (\<forall>j. n \<le> j \<longrightarrow> j < length cs \<longrightarrow> instr_fresh h b (cs ! j))"

definition sizes :: "cid InstructionSemantic list \<Rightarrow> nat" where
  "sizes ss = sum_list (map semantic_size ss)"

lemma placed_fresh: "rel_option placed_as (h i) (h' i) \<Longrightarrow> instr_fresh h b i \<Longrightarrow> instr_fresh h' b i"
  by (auto simp: instr_fresh_def placed_as_def elim!: option.rel_cases)

lemma placed_built:
  "rel_option placed_as (h (cs ! j)) (h' (cs ! j)) \<Longrightarrow> instr_built h b cs n j s \<Longrightarrow> instr_built h' b cs n j s"
  by (auto simp: instr_built_def placed_as_def elim!: option.rel_cases)

lemma instrs_upto_placed:
  assumes "instrs_upto h b cs ss n" "n \<le> length cs" "\<And>c. c \<in> set cs \<Longrightarrow> rel_option placed_as (h c) (h' c)"
  shows "instrs_upto h' b cs ss n"
  using assms by (auto simp: instrs_upto_def intro!: placed_fresh [of h _ h'] placed_built [of h _ _ h'])

lemma instr_built_next: "instr_built h b cs n j s \<Longrightarrow> Suc j < n \<Longrightarrow> n \<le> m \<Longrightarrow> instr_built h b cs m j s"
  by (auto simp: instr_built_def sib_after_def)

lemma instrs_upto_Suc:
  assumes up: "instrs_upto h b cs ss n" and n: "n < length cs" and d: "distinct cs" "b \<notin> set cs"
    and i: "h (cs ! n) = Some x" "h' (cs ! n) = Some (x\<lparr>prevSibling := (if n = 0 then prevSibling x else Some (cs ! (n - 1))),
      semantic := Some (summary (ss ! n)), position := Some (OffsetPosition (cs ! n) off)\<rparr>)"
    and prev: "n > 0 \<longrightarrow> h (cs ! (n - 1)) = Some px \<and> h' (cs ! (n - 1)) = Some (px\<lparr>nextSibling := Some (cs ! n)\<rparr>)"
    and others: "\<forall>c. c \<noteq> cs ! n \<longrightarrow> c \<noteq> b \<longrightarrow> (n > 0 \<longrightarrow> c \<noteq> cs ! (n - 1)) \<longrightarrow> rel_option placed_as (h c) (h' c)"
  shows "instrs_upto h' b cs ss (Suc n)"
proof -
  have same: "rel_option placed_as (h (cs ! j)) (h' (cs ! j))" if "j < length cs" "j \<noteq> n" "n > 0 \<longrightarrow> j \<noteq> n - 1" for j
  proof -
    have "cs ! j \<noteq> cs ! n" "cs ! j \<noteq> b" "n > 0 \<longrightarrow> cs ! j \<noteq> cs ! (n - 1)"
      using d that n nth_mem [OF that(1)] by (auto simp: nth_eq_iff_index_eq)
    with others show ?thesis by blast
  qed
  have "instr_built h' b cs (Suc n) j (ss ! j)" if j: "j < Suc n" for j
  proof -
    consider "j = n" | "n > 0" "j = n - 1" | "Suc j < n" using j by linarith
    then show ?thesis
    proof cases
      case 1
      have "instr_fresh h b (cs ! n)" using up n by (simp add: instrs_upto_def)
      with 1 i show ?thesis by (auto simp: instr_built_def instr_fresh_def sib_before_def sib_after_def)
    next
      case 2
      then have "instr_built h b cs n j (ss ! j)" using up by (simp add: instrs_upto_def)
      with 2 prev show ?thesis by (auto simp: instr_built_def sib_after_def)
    next
      case 3
      then have "rel_option placed_as (h (cs ! j)) (h' (cs ! j))" "instr_built h b cs n j (ss ! j)"
        using up n by (auto intro!: same simp: instrs_upto_def)
      then have "instr_built h' b cs n j (ss ! j)" by (rule placed_built)
      from instr_built_next [OF this 3] show ?thesis by simp
    qed
  qed
  moreover have "instr_fresh h' b (cs ! j)" if "Suc n \<le> j" "j < length cs" for j
  proof -
    have "rel_option placed_as (h (cs ! j)) (h' (cs ! j))" "instr_fresh h b (cs ! j)"
      using that up by (auto intro!: same simp: instrs_upto_def)
    then show ?thesis by (rule placed_fresh)
  qed
  ultimately show ?thesis by (simp add: instrs_upto_def)
qed

definition prev_of :: "cid \<Rightarrow> cid list \<Rightarrow> nat \<Rightarrow> cid" where
  "prev_of b cs k = (if k = 0 then b else cs ! (k - 1))"

definition sem_upto :: "(cid \<rightharpoonup> cid InstructionSemantic) \<Rightarrow> cid list \<Rightarrow> cid InstructionSemantic list \<Rightarrow> nat \<Rightarrow> (cid \<rightharpoonup> cid InstructionSemantic)" where
  "sem_upto sm cs ss k = sm ++ map_of (rev (zip (take k cs) (take k ss)))"

text \<open>Where the loop over the instructions of a block is after \<open>k\<close> of them.\<close>

definition block_read ::
    "heap \<Rightarrow> cid \<Rightarrow> Chunk \<Rightarrow> cid list \<Rightarrow> cid InstructionSemantic list \<Rightarrow> 64 word \<Rightarrow> (cid \<rightharpoonup> cid InstructionSemantic) \<Rightarrow> byte list list \<Rightarrow> byte list \<Rightarrow>
     nat \<Rightarrow> cid \<times> 64 word \<times> function_reader \<Rightarrow> bool" where
  "block_read h0 b bx cs ss tot sm bss rest k p \<longleftrightarrow> (\<exists>h. p = (prev_of b cs k, tot + of_nat (sizes (take k ss)),
       reader h (sem_upto sm cs ss k) (concat (drop k bss) @ rest)) \<and>
     h b = Some (bx\<lparr>computedSize := of_nat (sizes (take k ss))\<rparr>) \<and> instrs_upto h b cs ss k \<and>
     (\<forall>c. c \<notin> insert b (set cs) \<longrightarrow> rel_option placed_as (h0 c) (h c)) \<and> dom h = dom h0)"

lemma rel_placed_trans: "rel_option placed_as u v \<Longrightarrow> rel_option placed_as v w \<Longrightarrow> rel_option placed_as u w"
  by (cases u; cases v; cases w) (auto intro: placed_trans)

lemma sem_upto_Suc:
  assumes "k < length cs" "length ss = length cs"
  shows "sem_upto sm cs ss (Suc k) = (sem_upto sm cs ss k)(cs ! k \<mapsto> ss ! k)"
  using assms by (simp add: sem_upto_def take_Suc_conv_app_nth)

lemma sizes_Suc: "k < length ss \<Longrightarrow> sizes (take (Suc k) ss) = sizes (take k ss) + semantic_size (ss ! k)"
  by (simp add: sizes_def take_Suc_conv_app_nth)

lemma sizes_take: "sizes (take k ss) \<le> sizes ss"
  using append_take_drop_id [of k ss] by (metis le_add1 map_append sizes_def sum_list_append)

lemma room_for:
  assumes "sizes ss < 2 ^ 63" "k < length ss"
  shows "unat (of_nat (sizes (take k ss)) + of_nat (semantic_size (ss ! k)) :: 64 word) < 2 ^ 63"
proof -
  have "sizes (take (Suc k) ss) < 2 ^ 63" using assms(1) sizes_take [of "Suc k" ss] by linarith
  then show ?thesis using sizes_Suc [OF assms(2)] by (simp add: unat_of_nat flip: of_nat_add)
qed

lemma read_instr_step:
  assumes I: "block_read h0 b bx cs ss tot sm bss rest k p" and k: "k < length cs" "length ss = length cs" "length bss = length cs"
    and b: "kind bx = Block" "children bx = cs" "position bx \<noteq> None" and d: "distinct cs" "b \<notin> set cs" and room: "sizes ss < 2 ^ 63"
    and r: "\<And>h addr rest. dom h = dom h0 \<Longrightarrow>
      \<exists>h'. deserialize_instr D decode R (cs ! k) addr (h, open_stream (bss ! k @ rest)) = Some (Some (ss ! k), h', open_stream rest)"
  shows "\<exists>p'. read_instr MODE_OFFSET D decode R base b k p = Some p' \<and> block_read h0 b bx cs ss tot sm bss rest (Suc k) p'"
proof -
  from I obtain h where p: "p = (prev_of b cs k, tot + of_nat (sizes (take k ss)), reader h (sem_upto sm cs ss k) (concat (drop k bss) @ rest))"
    and hb: "h b = Some (bx\<lparr>computedSize := of_nat (sizes (take k ss))\<rparr>)" and up: "instrs_upto h b cs ss k"
    and out: "\<forall>c. c \<notin> insert b (set cs) \<longrightarrow> rel_option placed_as (h0 c) (h c)" and dom: "dom h = dom h0" unfolding block_read_def by blast
  from up k obtain x where x: "h (cs ! k) = Some x" "kind x = Instruction" by (auto simp: instrs_upto_def instr_fresh_def)
  have "k > 0 \<longrightarrow> instr_built h b cs k (k - 1) (ss ! (k - 1))" using up by (simp add: instrs_upto_def)
  then obtain px where px: "k > 0 \<longrightarrow> h (prev_of b cs k) = Some px \<and> position px \<noteq> None" by (auto simp: instr_built_def prev_of_def)
  have ne: "cs ! k \<noteq> b" "k > 0 \<longrightarrow> prev_of b cs k \<noteq> cs ! k \<and> prev_of b cs k \<noteq> b"
    using d k nth_mem [of k cs] nth_mem [of "k - 1" cs] by (auto simp: prev_of_def nth_eq_iff_index_eq)
  have bs: "concat (drop k bss) @ rest = bss ! k @ concat (drop (Suc k) bss) @ rest" using k by (simp add: Cons_nth_drop_Suc [symmetric])
  have "\<exists>h'. read_instr MODE_OFFSET D decode R base b k (prev_of b cs k, tot + of_nat (sizes (take k ss)),
        reader h (sem_upto sm cs ss k) (bss ! k @ concat (drop (Suc k) bss) @ rest)) =
      Some (cs ! k, tot + of_nat (sizes (take k ss)) + of_nat (semantic_size (ss ! k)),
        reader h' ((sem_upto sm cs ss k)(cs ! k \<mapsto> ss ! k)) (concat (drop (Suc k) bss) @ rest)) \<and>
    h' (cs ! k) = Some (x\<lparr>prevSibling := (if k = 0 then prevSibling x else Some (prev_of b cs k)), semantic := Some (summary (ss ! k)),
      position := Some (OffsetPosition (cs ! k) (of_nat (sizes (take k ss))))\<rparr>) \<and>
    (k > 0 \<longrightarrow> h' (prev_of b cs k) = Some (px\<lparr>nextSibling := Some (cs ! k)\<rparr>)) \<and>
    h' b = Some (bx\<lparr>computedSize := of_nat (sizes (take k ss)) + of_nat (semantic_size (ss ! k))\<rparr>) \<and>
    (\<forall>c. c \<noteq> cs ! k \<longrightarrow> c \<noteq> b \<longrightarrow> (k > 0 \<longrightarrow> c \<noteq> prev_of b cs k) \<longrightarrow> rel_option placed_as (h c) (h' c)) \<and> dom h' = dom h"
    using read_instr_eq [where h = h and b = b and bx = "bx\<lparr>computedSize := of_nat (sizes (take k ss))\<rparr>" and js = cs and k = k and i = "cs ! k"
        and prev = "prev_of b cs k" and px = px and s = "ss ! k" and bs = "bss ! k" and x = x and R = R] 
      hb b k(1) x ne px r dom room_for [OF room] k(2) by simp
  then obtain h' where h': "read_instr MODE_OFFSET D decode R base b k p = Some (cs ! k, tot + of_nat (sizes (take (Suc k) ss)),
        reader h' (sem_upto sm cs ss (Suc k)) (concat (drop (Suc k) bss) @ rest))"
    "h' (cs ! k) = Some (x\<lparr>prevSibling := (if k = 0 then prevSibling x else Some (prev_of b cs k)), semantic := Some (summary (ss ! k)),
      position := Some (OffsetPosition (cs ! k) (of_nat (sizes (take k ss))))\<rparr>)"
    "k > 0 \<longrightarrow> h' (prev_of b cs k) = Some (px\<lparr>nextSibling := Some (cs ! k)\<rparr>)"
    "h' b = Some (bx\<lparr>computedSize := of_nat (sizes (take (Suc k) ss))\<rparr>)"
    "\<forall>c. c \<noteq> cs ! k \<longrightarrow> c \<noteq> b \<longrightarrow> (k > 0 \<longrightarrow> c \<noteq> prev_of b cs k) \<longrightarrow> rel_option placed_as (h c) (h' c)" "dom h' = dom h"
    using p bs k(1,2) by (auto simp: sem_upto_Suc sizes_Suc add.assoc)
  have "instrs_upto h' b cs ss (Suc k)"
    using h'(2,3,5) px x(1) by (intro instrs_upto_Suc [OF up k(1) d x(1), where px = px and off = "of_nat (sizes (take k ss))"])
      (auto simp: prev_of_def)
  moreover have "rel_option placed_as (h0 c) (h' c)" if "c \<notin> insert b (set cs)" for c
  proof -
    have "rel_option placed_as (h c) (h' c)"
    proof -
      have "c \<noteq> cs ! k" "c \<noteq> b" "k > 0 \<longrightarrow> c \<noteq> prev_of b cs k"
        using that k(1) nth_mem [of k cs] nth_mem [of "k - 1" cs] by (auto simp: prev_of_def)
      with h'(5) show ?thesis by blast
    qed
    with out that show ?thesis using rel_placed_trans by blast
  qed
  ultimately show ?thesis using h'(1,4,6) dom unfolding block_read_def by (auto simp: prev_of_def)
qed

lemma read_instrs:
  assumes k: "length ss = length cs" "length bss = length cs"
    and b: "kind bx = Block" "children bx = cs" "position bx \<noteq> None" and d: "distinct cs" "b \<notin> set cs" and room: "sizes ss < 2 ^ 63"
    and r: "\<And>k h addr rest. k < length cs \<Longrightarrow> dom h = dom h0 \<Longrightarrow>
      \<exists>h'. deserialize_instr D decode R (cs ! k) addr (h, open_stream (bss ! k @ rest)) = Some (Some (ss ! k), h', open_stream rest)"
    and h0: "h0 b = Some bx" "computedSize bx = 0" "\<forall>i \<in> set cs. instr_fresh h0 b i"
  shows "\<exists>p'. for_each (read_instr MODE_OFFSET D decode R base b) [0..<length cs] (b, tot, reader h0 sm (concat bss @ rest)) = Some p' \<and>
    block_read h0 b bx cs ss tot sm bss rest (length cs) p'"
proof (rule for_each_upt)
  show "block_read h0 b bx cs ss tot sm bss rest 0 (b, tot, reader h0 sm (concat bss @ rest))"
    using h0 by (auto simp: block_read_def prev_of_def sizes_def sem_upto_def instrs_upto_def placed_as_def intro: option.rel_refl_strong)
qed (rule read_instr_step [OF _ _ k b d room], use r in auto)

end
