(* ===== verification/FunctionRoundtrip.thy ===== *)
theory FunctionRoundtrip
  imports FunctionRead
begin

section \<open>Functions survive an archive\<close>

text \<open>
  A function that is written to an archive and read back has the same blocks and instructions in the same order, with
  the instructions that \<open>InstrRoundtrip\<close> promises, laid out from the address that was written, unless a link to it was
  read before.
\<close>

subsection \<open>The blocks of a function\<close>

definition block_built :: "heap \<Rightarrow> cid \<Rightarrow> cid list \<Rightarrow> (cid \<Rightarrow> cid list) \<Rightarrow> nat \<Rightarrow> nat \<Rightarrow> cid InstructionSemantic list \<Rightarrow> bool" where
  "block_built h f B K n j ss \<longleftrightarrow>
     (\<exists>x off. h (B ! j) = Some x \<and> kind x = Block \<and> parent x = Some f \<and> children x = K (B ! j) \<and>
       prevSibling x = sib_before B j \<and> nextSibling x = sib_after B n j \<and> position x = Some (OffsetPosition (B ! j) off) \<and>
       computedSize x = of_nat (sizes ss)) \<and>
     (\<forall>i < length (K (B ! j)). instr_built h (B ! j) (K (B ! j)) (length (K (B ! j))) i (ss ! i))"

definition block_fresh :: "heap \<Rightarrow> cid \<Rightarrow> (cid \<Rightarrow> cid list) \<Rightarrow> cid \<Rightarrow> bool" where
  "block_fresh h f K b \<longleftrightarrow>
     (\<exists>x. h b = Some x \<and> kind x = Block \<and> parent x = Some f \<and> children x = K b \<and> prevSibling x = None \<and> nextSibling x = None \<and>
       computedSize x = 0) \<and> (\<forall>i \<in> set (K b). instr_fresh h b i)"

abbreviation family :: "(cid \<Rightarrow> cid list) \<Rightarrow> cid \<Rightarrow> cid set" where
  "family K b \<equiv> insert b (set (K b))"

lemma placed_same: "rel_option placed_as u u"
  by (rule option.rel_refl_strong) (simp add: placed_as_def)

lemma block_fresh_placed:
  assumes "block_fresh h f K b" "\<And>c. c \<in> family K b \<Longrightarrow> rel_option placed_as (h c) (h' c)"
  shows "block_fresh h' f K b"
proof -
  have "\<forall>i \<in> set (K b). instr_fresh h' b i"
    using assms by (auto simp: block_fresh_def intro!: placed_fresh [of h _ h'])
  moreover have "rel_option placed_as (h b) (h' b)" using assms(2) by simp
  ultimately show ?thesis using assms(1) by (auto simp: block_fresh_def placed_as_def elim!: option.rel_cases)
qed

lemma block_built_placed:
  assumes "block_built h f B K n j ss" "\<And>c. c \<in> family K (B ! j) \<Longrightarrow> rel_option placed_as (h c) (h' c)"
  shows "block_built h' f B K n j ss"
proof -
  have "\<forall>i < length (K (B ! j)). instr_built h' (B ! j) (K (B ! j)) (length (K (B ! j))) i (ss ! i)"
    using assms by (auto simp: block_built_def intro!: placed_built [of h _ _ h'])
  moreover have "rel_option placed_as (h (B ! j)) (h' (B ! j))" using assms(2) by simp
  ultimately show ?thesis using assms(1) by (auto simp: block_built_def placed_as_def elim!: option.rel_cases)
qed

lemma nodes_append [simp]: "nodes (A @ B) K = nodes A K @ nodes B K"
  by (simp add: nodes_def)

lemma nodes_family: "set (nodes B K) = (\<Union>b \<in> set B. family K b)"
  by (auto simp: nodes_def)

lemma nodes_own: "distinct (nodes B K) \<Longrightarrow> b \<in> set B \<Longrightarrow> distinct (K b) \<and> b \<notin> set (K b)"
  by (induction B) auto

lemma nodes_disjoint:
  assumes "distinct (nodes B K)" "j < length B" "k < length B" "j \<noteq> k"
  shows "family K (B ! j) \<inter> family K (B ! k) = {}"
  using assms
proof (induction B arbitrary: j k)
  case (Cons a B)
  have "family K a \<inter> family K (B ! i) = {}" if "i < length B" for i
    using Cons.prems(1) nth_mem [OF that] by (auto simp: nodes_family)
  with Cons show ?case by (cases j; cases k) auto
qed simp

lemma nodes_distinct_blocks: "distinct (nodes B K) \<Longrightarrow> distinct B"
  by (induction B) (auto simp: nodes_family)

text \<open>What the reader finds in the stream, and that every instruction can be read.\<close>

definition readable ::
    "Disassembler \<Rightarrow> (cid \<Rightarrow> byte list \<Rightarrow> address \<Rightarrow> cid InstructionSemantic option) \<Rightarrow> cid read_env \<Rightarrow> cid set \<Rightarrow>
     cid list \<Rightarrow> cid InstructionSemantic list \<Rightarrow> byte list list \<Rightarrow> bool" where
  "readable D decode R A cs ss bss \<longleftrightarrow> length ss = length cs \<and> length bss = length cs \<and> length cs < 2 ^ 32 \<and>
     (\<forall>i < length cs. \<forall>h addr rest. dom h = A \<longrightarrow>
       (\<exists>h'. deserialize_instr D decode R (cs ! i) addr (h, open_stream (bss ! i @ rest)) = Some (Some (ss ! i), h', open_stream rest)))"

definition body_bytes :: "byte list list \<Rightarrow> byte list" where
  "body_bytes bss = le_bytes 4 (of_nat (length bss) :: 32 word) @ concat bss"

lemma link_placed:
  assumes "h c = Some x" "kind x = Block" "position x = Some (OffsetPosition c off)" "k > 0 \<longrightarrow> h prev = Some px \<and> prev \<noteq> c"
  obtains h1 where "link_siblings k prev c h = Some h1" "h1 c = Some (x\<lparr>prevSibling := (if k = 0 then prevSibling x else Some prev)\<rparr>)"
    "k > 0 \<longrightarrow> h1 prev = Some (px\<lparr>nextSibling := Some c\<rparr>)" "\<forall>d. d \<noteq> c \<longrightarrow> (k > 0 \<longrightarrow> d \<noteq> prev) \<longrightarrow> h1 d = h d"
proof (cases "k = 0")
  case True
  then have "link_siblings k prev c h = Some h" by (simp add: link_siblings_def)
  with assms(1) True that [of h] show thesis by simp
next
  case False
  with assms have "link_siblings k prev c h = Some (h(prev \<mapsto> px\<lparr>nextSibling := Some c\<rparr>, c \<mapsto> x\<lparr>prevSibling := Some prev\<rparr>))"
    by (auto simp: link_siblings_def setPreviousSibling_def setNextSibling_def set_previous_def set_next_def follow_def update_chunk_def getPosition_simps
        store_position_def fun_upd_twist intro!: ext)
  from that [OF this] False assms(4) show thesis by simp
qed

definition block_at :: "heap \<Rightarrow> cid \<Rightarrow> cid \<Rightarrow> cid list \<Rightarrow> cid option \<Rightarrow> cid InstructionSemantic list \<Rightarrow> bool" where
  "block_at h f b cs prev ss \<longleftrightarrow> (\<exists>x off. h b = Some x \<and> kind x = Block \<and> parent x = Some f \<and> children x = cs \<and>
     prevSibling x = prev \<and> nextSibling x = None \<and> position x = Some (OffsetPosition b off) \<and> computedSize x = of_nat (sizes ss)) \<and>
     (\<forall>i < length cs. instr_built h b cs (length cs) i (ss ! i))"

lemma instr_fresh_cong: "h i = h' i \<Longrightarrow> instr_fresh h b i = instr_fresh h' b i"
  by (simp add: instr_fresh_def)

lemma instr_built_cong: "h (cs ! j) = h' (cs ! j) \<Longrightarrow> instr_built h b cs n j s = instr_built h' b cs n j s"
  by (simp add: instr_built_def)

lemma read_block_eq:
  assumes f: "h f = Some fx" "kind fx = Function" "children fx = B" "position fx \<noteq> None"
    and b: "k < length B" "B ! k = b" "block_fresh h f K b"
    and d: "distinct (K b)" "b \<notin> set (K b)" "f \<notin> family K b"
    and prev: "k > 0 \<longrightarrow> h prev = Some px \<and> prev \<notin> family K b \<and> prev \<noteq> f \<and> position px \<noteq> None"
    and r: "readable D decode R (dom h) (K b) ss bss"
    and room: "sizes ss < 2 ^ 63" "unat (computedSize fx + of_nat (sizes ss)) < 2 ^ 63"
  shows "\<exists>h'. read_block MODE_OFFSET D decode R base f k (prev, tot, reader h sm (body_bytes bss @ rest)) =
      Some (b, tot + of_nat (sizes ss), reader h' (sem_upto sm (K b) ss (length (K b))) rest) \<and>
    block_at h' f b (K b) (if k = 0 then None else Some prev) ss \<and> (k > 0 \<longrightarrow> h' prev = Some (px\<lparr>nextSibling := Some b\<rparr>)) \<and>
    h' f = Some (fx\<lparr>computedSize := computedSize fx + of_nat (sizes ss)\<rparr>) \<and>
    (\<forall>c. c \<notin> family K b \<longrightarrow> c \<noteq> f \<longrightarrow> (k > 0 \<longrightarrow> c \<noteq> prev) \<longrightarrow> rel_option placed_as (h c) (h' c)) \<and> dom h' = dom h"
proof -
  from b(3) obtain x where x: "h b = Some x" "kind x = Block" "parent x = Some f" "children x = K b" "prevSibling x = None"
      "nextSibling x = None" "computedSize x = 0" and fr: "\<forall>i \<in> set (K b). instr_fresh h b i"
    by (auto simp: block_fresh_def)
  let ?y = "x\<lparr>position := Some (OffsetPosition b (computedSize fx))\<rparr>"
  have pa: "place_after MODE_OFFSET prev b (computedSize fx) h = Some (h(b \<mapsto> ?y))" using x by (intro place_after_eq) auto
  from prev have pl: "k > 0 \<longrightarrow> h prev = Some px \<and> prev \<noteq> b" by auto
  obtain h1 where
    h1: "link_siblings k prev b (h(b \<mapsto> ?y)) = Some h1" "h1 b = Some (?y\<lparr>prevSibling := (if k = 0 then None else Some prev)\<rparr>)"
      "k > 0 \<longrightarrow> h1 prev = Some (px\<lparr>nextSibling := Some b\<rparr>)" "\<forall>d. d \<noteq> b \<longrightarrow> (k > 0 \<longrightarrow> d \<noteq> prev) \<longrightarrow> h1 d = h d"
    by (rule link_placed [of "h(b \<mapsto> ?y)" b ?y "computedSize fx" k prev px]) (use x pl in simp_all)
  let ?b = "?y\<lparr>prevSibling := (if k = 0 then None else Some prev)\<rparr>"
  have "h1 d = None \<longleftrightarrow> h d = None" for d
    using h1(2,3,4) x(1) prev by (cases "d = b"; cases "k > 0 \<and> d = prev") auto
  then have d1: "dom h1 = dom h" by (auto simp: dom_def)
  have "h1 i = h i" if "i \<in> set (K b)" for i using that h1(4) d(2) prev by auto
  then have fr1: "\<forall>i \<in> set (K b). instr_fresh h1 b i" using fr instr_fresh_cong [of h1 _ h] by auto
  have "\<exists>p'. for_each (read_instr MODE_OFFSET D decode R base b) [0..<length (K b)] (b, tot, reader h1 sm (concat bss @ rest)) = Some p' \<and>
      block_read h1 b ?b (K b) ss tot sm bss rest (length (K b)) p'"
    using r x(2,4,7) by (intro read_instrs [OF _ _ _ _ _ d(1,2) room(1) _ h1(2) _ fr1]) (auto simp: readable_def d1)
  then obtain h2 where
    h2: "for_each (read_instr MODE_OFFSET D decode R base b) [0..<length (K b)] (b, tot, reader h1 sm (concat bss @ rest)) =
        Some (prev_of b (K b) (length (K b)), tot + of_nat (sizes ss), reader h2 (sem_upto sm (K b) ss (length (K b))) rest)"
      "h2 b = Some (?b\<lparr>computedSize := of_nat (sizes ss)\<rparr>)" "instrs_upto h2 b (K b) ss (length (K b))"
      "\<forall>c. c \<notin> family K b \<longrightarrow> rel_option placed_as (h1 c) (h2 c)" "dom h2 = dom h1"
    using r unfolding block_read_def readable_def by auto
  have keep: "h2 c = Some y" if "h1 c = Some y" "position y \<noteq> None" "c \<notin> family K b" for c y
    using h2(4) [rule_format, OF that(3)] that(1,2) by (auto simp: placed_as_def elim: option.rel_cases)
  have "h1 f = Some fx" using h1(4) f(1) d(3) prev by auto
  from keep [OF this f(4) d(3)] have hf: "h2 f = Some fx" .
  let ?h = "h2(f \<mapsto> fx\<lparr>computedSize := computedSize fx + of_nat (sizes ss)\<rparr>)"
  have g: "grow_chunk f b h2 = Some ?h"
    using grow_chunk_eq [of h2 f fx b "of_nat (sizes ss)"] hf h2(2) x(2) f(2) room(2) by (simp add: size_of_def chunk_getSize_def code_kind_def)
  have "children_of h f = Some B" "size_of h f = Some (computedSize fx)"
    using f by (simp_all add: children_of_def size_of_def chunk_getSize_def)
  then have "read_block MODE_OFFSET D decode R base f k (prev, tot, reader h sm (body_bytes bss @ rest)) =
      Some (b, tot + of_nat (sizes ss), reader ?h (sem_upto sm (K b) ss (length (K b))) rest)"
    using b(1,2) pa h1(1) h2(1) g r by (simp add: read_block_def body_bytes_def readable_def unat_of_nat)
  moreover have "block_at ?h f b (K b) (if k = 0 then None else Some prev) ss"
  proof -
    have "instr_built ?h b (K b) (length (K b)) i (ss ! i)" if "i < length (K b)" for i
    proof -
      have "K b ! i \<noteq> f" using d(3) nth_mem [OF that] by blast
      then have "?h (K b ! i) = h2 (K b ! i)" by simp
      from instr_built_cong [of ?h "K b" i h2, OF this] show ?thesis using h2(3) that by (simp add: instrs_upto_def)
    qed
    then show ?thesis using h2(2) x d(3) by (auto simp: block_at_def)
  qed
  moreover have "rel_option placed_as (h c) (?h c)" if "c \<notin> family K b" "c \<noteq> f" "k > 0 \<longrightarrow> c \<noteq> prev" for c
    using that h1(4) h2(4) by auto
  moreover have "k > 0 \<longrightarrow> ?h prev = Some (px\<lparr>nextSibling := Some b\<rparr>)"
    using keep [of prev "px\<lparr>nextSibling := Some b\<rparr>"] h1(3) prev by auto
  moreover have "dom ?h = dom h" using h2(5) d1 f(1) by auto
  ultimately show ?thesis by (intro exI [of _ ?h]) auto
qed

subsection \<open>The loop over the blocks\<close>

definition fsizes :: "cid InstructionSemantic list list \<Rightarrow> nat" where
  "fsizes SS = sum_list (map sizes SS)"

definition sems_upto :: "(cid \<rightharpoonup> cid InstructionSemantic) \<Rightarrow> (cid \<rightharpoonup> cid InstructionSemantic) \<Rightarrow> cid list \<Rightarrow> (cid \<Rightarrow> cid list) \<Rightarrow>
     cid InstructionSemantic list list \<Rightarrow> nat \<Rightarrow> bool" where
  "sems_upto sm sm' B K SS k \<longleftrightarrow> (\<forall>j < k. \<forall>i < length (K (B ! j)). sm' (K (B ! j) ! i) = Some (SS ! j ! i)) \<and>
     (\<forall>c. c \<notin> set (nodes B K) \<longrightarrow> sm' c = sm c)"

definition function_read ::
    "heap \<Rightarrow> cid \<Rightarrow> Chunk \<Rightarrow> cid list \<Rightarrow> (cid \<Rightarrow> cid list) \<Rightarrow> cid InstructionSemantic list list \<Rightarrow> (cid \<rightharpoonup> cid InstructionSemantic) \<Rightarrow>
     byte list list list \<Rightarrow> byte list \<Rightarrow> nat \<Rightarrow> cid \<times> 64 word \<times> function_reader \<Rightarrow> bool" where
  "function_read h0 f fx B K SS sm BS rest k p \<longleftrightarrow>
     (\<exists>h sm'. p = (prev_of f B k, of_nat (fsizes (take k SS)), reader h sm' (concat (map body_bytes (drop k BS)) @ rest)) \<and>
       h f = Some (fx\<lparr>computedSize := of_nat (fsizes (take k SS))\<rparr>) \<and> (\<forall>j < k. block_built h f B K k j (SS ! j)) \<and>
       (\<forall>j. k \<le> j \<longrightarrow> j < length B \<longrightarrow> block_fresh h f K (B ! j)) \<and>
       (\<forall>c. c \<notin> insert f (set (nodes B K)) \<longrightarrow> rel_option placed_as (h0 c) (h c)) \<and> dom h = dom h0 \<and> sems_upto sm sm' B K SS k)"

lemma fsizes_Suc: "k < length SS \<Longrightarrow> fsizes (take (Suc k) SS) = fsizes (take k SS) + sizes (SS ! k)"
  by (simp add: fsizes_def take_Suc_conv_app_nth)

lemma fsizes_take: "fsizes (take k SS) \<le> fsizes SS"
  using append_take_drop_id [of k SS] by (metis le_add1 map_append fsizes_def sum_list_append)

lemma room_for_block:
  assumes "fsizes SS < 2 ^ 63" "k < length SS"
  shows "unat (of_nat (fsizes (take k SS)) + of_nat (sizes (SS ! k)) :: 64 word) < 2 ^ 63" "sizes (SS ! k) < 2 ^ 63"
proof -
  have "fsizes (take (Suc k) SS) < 2 ^ 63" using assms(1) fsizes_take [of "Suc k" SS] by linarith
  then show "unat (of_nat (fsizes (take k SS)) + of_nat (sizes (SS ! k)) :: 64 word) < 2 ^ 63" "sizes (SS ! k) < 2 ^ 63"
    using fsizes_Suc [OF assms(2)] by (simp_all add: unat_of_nat flip: of_nat_add)
qed

lemma sem_upto_at:
  assumes "distinct cs" "length ss = length cs"
  shows "i < length cs \<Longrightarrow> sem_upto sm cs ss (length cs) (cs ! i) = Some (ss ! i)" "c \<notin> set cs \<Longrightarrow> sem_upto sm cs ss (length cs) c = sm c"
proof -
  have d: "distinct (map fst (zip cs ss))" using assms by simp
  show "sem_upto sm cs ss (length cs) (cs ! i) = Some (ss ! i)" if "i < length cs"
  proof -
    have "(cs ! i, ss ! i) \<in> set (rev (zip cs ss))" using that assms(2) by (auto simp: set_zip)
    moreover have "distinct (map fst (rev (zip cs ss)))" using d by (simp flip: rev_map)
    ultimately have "map_of (rev (zip cs ss)) (cs ! i) = Some (ss ! i)" by (intro map_of_is_SomeI)
    then show ?thesis using assms(2) by (simp add: sem_upto_def)
  qed
  show "sem_upto sm cs ss (length cs) c = sm c" if "c \<notin> set cs"
  proof -
    have "map_of (rev (zip cs ss)) c = None" using that by (auto simp: map_of_eq_None_iff dest: set_zip_leftD)
    then show ?thesis using assms(2) by (simp add: sem_upto_def map_add_def)
  qed
qed

lemma sems_upto_Suc:
  assumes "sems_upto sm sm' B K SS k" "k < length B" "distinct (nodes B K)" "length (SS ! k) = length (K (B ! k))"
  shows "sems_upto sm (sem_upto sm' (K (B ! k)) (SS ! k) (length (K (B ! k)))) B K SS (Suc k)"
proof -
  note own = nodes_own [OF assms(3) nth_mem [OF assms(2)]]
  note at = sem_upto_at [OF conjunct1 [OF own] assms(4), of _ sm']
  have "K (B ! j) ! i \<notin> set (K (B ! k))" if "j < k" "i < length (K (B ! j))" for j i
    using nodes_disjoint [OF assms(3), of j k] that(1) assms(2) nth_mem [OF that(2)] by (simp add: disjoint_iff)
  with assms(1) at have "\<forall>j < Suc k. \<forall>i < length (K (B ! j)). sem_upto sm' (K (B ! k)) (SS ! k) (length (K (B ! k))) (K (B ! j) ! i) = Some (SS ! j ! i)"
    by (auto simp: sems_upto_def less_Suc_eq)
  moreover have "c \<notin> set (K (B ! k))" if "c \<notin> set (nodes B K)" for c using that nodes_mem(2) [OF nth_mem [OF assms(2)]] by blast
  ultimately show ?thesis using assms(1) at(2) by (auto simp: sems_upto_def)
qed

lemma block_built_last:
  assumes "block_at h f (B ! k) (K (B ! k)) (if k = 0 then None else Some (prev_of f B k)) ss"
  shows "block_built h f B K (Suc k) k ss"
  using assms by (auto simp: block_at_def block_built_def sib_before_def sib_after_def prev_of_def)

lemma block_built_next:
  assumes "block_built h f B K (Suc j) j ss" "h (B ! j) = Some x" "h' (B ! j) = Some (x\<lparr>nextSibling := Some (B ! Suc j)\<rparr>)"
    and "\<And>c. c \<in> set (K (B ! j)) \<Longrightarrow> rel_option placed_as (h c) (h' c)"
  shows "block_built h' f B K (Suc (Suc j)) j ss"
proof -
  have "\<forall>i < length (K (B ! j)). instr_built h' (B ! j) (K (B ! j)) (length (K (B ! j))) i (ss ! i)"
    using assms(1,4) by (auto simp: block_built_def intro!: placed_built [of h _ _ h'])
  with assms(1,2,3) show ?thesis by (auto simp: block_built_def sib_after_def)
qed

lemma block_built_later: "block_built h f B K n j ss \<Longrightarrow> Suc j < n \<Longrightarrow> n \<le> m \<Longrightarrow> block_built h f B K m j ss"
  by (auto simp: block_built_def sib_after_def)

lemma read_block_step:
  assumes I: "function_read h0 f fx B K SS sm BS rest k p" and k: "k < length B" "length SS = length B" "length BS = length B"
    and f: "kind fx = Function" "children fx = B" "position fx \<noteq> None" and d: "distinct (f # nodes B K)" and room: "fsizes SS < 2 ^ 63"
    and r: "readable D decode R (dom h0) (K (B ! k)) (SS ! k) (BS ! k)"
  shows "\<exists>p'. read_block MODE_OFFSET D decode R base f k p = Some p' \<and> function_read h0 f fx B K SS sm BS rest (Suc k) p'"
proof -
  from I obtain h sm' where p: "p = (prev_of f B k, of_nat (fsizes (take k SS)), reader h sm' (concat (map body_bytes (drop k BS)) @ rest))"
    and hf: "h f = Some (fx\<lparr>computedSize := of_nat (fsizes (take k SS))\<rparr>)" and built: "\<And>j. j < k \<Longrightarrow> block_built h f B K k j (SS ! j)"
    and fresh: "\<And>j. k \<le> j \<Longrightarrow> j < length B \<Longrightarrow> block_fresh h f K (B ! j)"
    and out: "\<And>c. c \<notin> insert f (set (nodes B K)) \<Longrightarrow> rel_option placed_as (h0 c) (h c)" and dom: "dom h = dom h0"
    and sem: "sems_upto sm sm' B K SS k" unfolding function_read_def by blast
  have dn: "distinct (nodes B K)" and fn: "f \<notin> set (nodes B K)" using d by auto
  note own = nodes_own [OF dn nth_mem [OF k(1)]]
  have fam: "family K (B ! j) \<subseteq> set (nodes B K)" if "j < length B" for j using nth_mem [OF that] by (auto simp: nodes_family)
  have apart: "family K (B ! j) \<inter> family K (B ! k) = {}" if "j < length B" "j \<noteq> k" for j using nodes_disjoint [OF dn that(1) k(1) that(2)] .
  have "k > 0 \<longrightarrow> block_built h f B K k (k - 1) (SS ! (k - 1))" using built by simp
  then obtain px where px: "k > 0 \<longrightarrow> h (prev_of f B k) = Some px \<and> position px \<noteq> None" by (auto simp: block_built_def prev_of_def)
  have pv: "k > 0 \<longrightarrow> prev_of f B k \<notin> family K (B ! k) \<and> prev_of f B k \<noteq> f"
  proof
    assume "k > 0"
    then have j: "k - 1 < length B" "k - 1 \<noteq> k" using k(1) by auto
    from apart [OF j] fam [OF j(1)] fn \<open>k > 0\<close> show "prev_of f B k \<notin> family K (B ! k) \<and> prev_of f B k \<noteq> f" by (auto simp: prev_of_def)
  qed
  have ff: "f \<notin> family K (B ! k)" using fam [OF k(1)] fn by blast
  have bs: "concat (map body_bytes (drop k BS)) @ rest = body_bytes (BS ! k) @ concat (map body_bytes (drop (Suc k) BS)) @ rest"
    using k by (simp add: Cons_nth_drop_Suc [symmetric])
  have "\<exists>h'. read_block MODE_OFFSET D decode R base f k (prev_of f B k, of_nat (fsizes (take k SS)),
        reader h sm' (body_bytes (BS ! k) @ concat (map body_bytes (drop (Suc k) BS)) @ rest)) =
      Some (B ! k, of_nat (fsizes (take k SS)) + of_nat (sizes (SS ! k)),
        reader h' (sem_upto sm' (K (B ! k)) (SS ! k) (length (K (B ! k)))) (concat (map body_bytes (drop (Suc k) BS)) @ rest)) \<and>
    block_at h' f (B ! k) (K (B ! k)) (if k = 0 then None else Some (prev_of f B k)) (SS ! k) \<and>
    (k > 0 \<longrightarrow> h' (prev_of f B k) = Some (px\<lparr>nextSibling := Some (B ! k)\<rparr>)) \<and>
    h' f = Some (fx\<lparr>computedSize := of_nat (fsizes (take k SS)) + of_nat (sizes (SS ! k))\<rparr>) \<and>
    (\<forall>c. c \<notin> family K (B ! k) \<longrightarrow> c \<noteq> f \<longrightarrow> (k > 0 \<longrightarrow> c \<noteq> prev_of f B k) \<longrightarrow> rel_option placed_as (h c) (h' c)) \<and> dom h' = dom h"
    using read_block_eq [where h = h and f = f and fx = "fx\<lparr>computedSize := of_nat (fsizes (take k SS))\<rparr>" and B = B and k = k and b = "B ! k"
        and K = K and prev = "prev_of f B k" and px = px and ss = "SS ! k" and bss = "BS ! k" and R = R] hf f k own ff px pv fresh [of k] r dom room_for_block [OF room, of k] by simp
  then obtain h' where rd: "read_block MODE_OFFSET D decode R base f k p = Some (B ! k, of_nat (fsizes (take (Suc k) SS)),
        reader h' (sem_upto sm' (K (B ! k)) (SS ! k) (length (K (B ! k)))) (concat (map body_bytes (drop (Suc k) BS)) @ rest))"
    and new: "block_at h' f (B ! k) (K (B ! k)) (if k = 0 then None else Some (prev_of f B k)) (SS ! k)"
    and nx: "k > 0 \<longrightarrow> h' (prev_of f B k) = Some (px\<lparr>nextSibling := Some (B ! k)\<rparr>)"
    and hf': "h' f = Some (fx\<lparr>computedSize := of_nat (fsizes (take (Suc k) SS))\<rparr>)"
    and same: "\<And>c. c \<notin> family K (B ! k) \<Longrightarrow> c \<noteq> f \<Longrightarrow> (k > 0 \<longrightarrow> c \<noteq> prev_of f B k) \<Longrightarrow> rel_option placed_as (h c) (h' c)"
    and dom': "dom h' = dom h"
    using p bs k(1,2) by (auto simp: fsizes_Suc)
  have kin: "rel_option placed_as (h c) (h' c)" if "j < length B" "j \<noteq> k" "c \<in> family K (B ! j)" "k > 0 \<longrightarrow> c \<noteq> B ! (k - 1)" for c j
    using apart [OF that(1,2)] fam [OF that(1)] fn that(3,4) by (intro same) (auto simp: prev_of_def)
  have "block_built h' f B K (Suc k) j (SS ! j)" if j: "j < Suc k" for j
  proof -
    consider "j = k" | "Suc j = k" | "Suc j < k" using j by linarith
    then show ?thesis
    proof cases
      case 1
      with block_built_last [of h' f B k K "SS ! k"] new show ?thesis by simp
    next
      case 2
      have jn: "j < length B" using j k(1) 2 by simp
      have "rel_option placed_as (h c) (h' c)" if "c \<in> set (K (B ! j))" for c
        using nodes_own [OF dn nth_mem [OF jn]] that 2 by (intro kin [OF jn]) auto
      moreover have "block_built h f B K (Suc j) j (SS ! j)" "h (B ! j) = Some px" "h' (B ! j) = Some (px\<lparr>nextSibling := Some (B ! Suc j)\<rparr>)"
        using built [of j] px nx 2 by (auto simp: prev_of_def)
      ultimately have "block_built h' f B K (Suc (Suc j)) j (SS ! j)" by (intro block_built_next [of h f B K j _ px h'])
      with 2 show ?thesis by simp
    next
      case 3
      then have jn: "j < length B" "k - 1 < length B" "j \<noteq> k - 1" using k(1) by auto
      have "c \<noteq> B ! (k - 1)" if "c \<in> family K (B ! j)" for c using nodes_disjoint [OF dn jn] that by blast
      then have "rel_option placed_as (h c) (h' c)" if "c \<in> family K (B ! j)" for c using that 3 by (intro kin [OF jn(1)]) simp_all
      from block_built_placed [OF built this, of j] 3 have "block_built h' f B K k j (SS ! j)" by simp
      from block_built_later [OF this 3] show ?thesis by simp
    qed
  qed
  moreover have "block_fresh h' f K (B ! j)" if "Suc k \<le> j" "j < length B" for j
  proof -
    have "k - 1 < length B" "j \<noteq> k - 1" using that by auto
    from nodes_disjoint [OF dn that(2) this] have "c \<noteq> B ! (k - 1)" if "c \<in> family K (B ! j)" for c using that by blast
    then have "rel_option placed_as (h c) (h' c)" if "c \<in> family K (B ! j)" for c
      using that \<open>Suc k \<le> j\<close> by (intro kin [OF \<open>j < length B\<close>]) simp_all
    from block_fresh_placed [OF fresh this, of j] that show ?thesis by simp
  qed
  moreover have "rel_option placed_as (h0 c) (h' c)" if c: "c \<notin> insert f (set (nodes B K))" for c
  proof -
    have "k > 0 \<longrightarrow> c \<noteq> prev_of f B k" using c fam [OF less_imp_diff_less [OF k(1)], of 1] by (auto simp: prev_of_def)
    then have "rel_option placed_as (h c) (h' c)" using c fam [OF k(1)] by (intro same) auto
    with out [OF c] show ?thesis by (rule rel_placed_trans)
  qed
  moreover have "sems_upto sm (sem_upto sm' (K (B ! k)) (SS ! k) (length (K (B ! k)))) B K SS (Suc k)"
    using r by (intro sems_upto_Suc [OF sem k(1) dn]) (simp add: readable_def)
  ultimately have "function_read h0 f fx B K SS sm BS rest (Suc k) (prev_of f B (Suc k), of_nat (fsizes (take (Suc k) SS)),
      reader h' (sem_upto sm' (K (B ! k)) (SS ! k) (length (K (B ! k)))) (concat (map body_bytes (drop (Suc k) BS)) @ rest))"
    unfolding function_read_def by (intro exI [of _ h'] exI [of _ "sem_upto sm' (K (B ! k)) (SS ! k) (length (K (B ! k)))"] conjI allI impI refl)
      (use hf' dom dom' in blast)+
  with rd show ?thesis by (simp add: prev_of_def)
qed

lemma read_blocks:
  assumes k: "length SS = length B" "length BS = length B"
    and f: "h0 f = Some fx" "kind fx = Function" "children fx = B" "position fx \<noteq> None" "computedSize fx = 0"
    and d: "distinct (f # nodes B K)" and room: "fsizes SS < 2 ^ 63" and fresh: "\<forall>b \<in> set B. block_fresh h0 f K b"
    and r: "\<And>k. k < length B \<Longrightarrow> readable D decode R (dom h0) (K (B ! k)) (SS ! k) (BS ! k)"
  shows "\<exists>p'. for_each (read_block MODE_OFFSET D decode R base f) [0..<length B] (f, 0, reader h0 sm (concat (map body_bytes BS) @ rest)) = Some p' \<and>
    function_read h0 f fx B K SS sm BS rest (length B) p'"
proof (rule for_each_upt)
  show "function_read h0 f fx B K SS sm BS rest 0 (f, 0, reader h0 sm (concat (map body_bytes BS) @ rest))"
    using f fresh by (auto simp: function_read_def prev_of_def fsizes_def sems_upto_def placed_as_def intro: option.rel_refl_strong)
qed (rule read_block_step [OF _ _ k f(2-4) d room], use r in auto)

subsection \<open>The tree that was read is well formed\<close>

lemma siblings_nthI:
  assumes "\<forall>j < length cs. \<exists>x. h (cs ! j) = Some x \<and> prevSibling x = (if j = 0 then a else Some (cs ! (j - 1))) \<and> nextSibling x = sib_after cs (length cs) j"
  shows "siblings h a cs None"
  using assms
proof (induction cs arbitrary: a)
  case (Cons c cs)
  have "\<forall>j < length cs. \<exists>x. h (cs ! j) = Some x \<and> prevSibling x = (if j = 0 then Some c else Some (cs ! (j - 1))) \<and> nextSibling x = sib_after cs (length cs) j"
  proof (intro allI impI)
    fix j assume "j < length cs"
    with Cons.prems [rule_format, of "Suc j"]
    show "\<exists>x. h (cs ! j) = Some x \<and> prevSibling x = (if j = 0 then Some c else Some (cs ! (j - 1))) \<and> nextSibling x = sib_after cs (length cs) j"
      by (cases j) (auto simp: sib_after_def)
  qed
  from Cons.IH [OF this] have "siblings h (Some c) cs None" by (cases cs) auto
  moreover have "\<exists>x. h c = Some x \<and> prevSibling x = a \<and> nextSibling x = first_of cs None"
    using Cons.prems [rule_format, of 0] by (cases cs) (auto simp: sib_after_def)
  ultimately show ?case by auto
qed simp

definition tree_read :: "heap \<Rightarrow> cid \<Rightarrow> cid list \<Rightarrow> (cid \<Rightarrow> cid list) \<Rightarrow> cid InstructionSemantic list list \<Rightarrow> bool" where
  "tree_read h f B K SS \<longleftrightarrow> distinct (f # nodes B K) \<and> length SS = length B \<and> fsizes SS < 2 ^ 63 \<and>
     (\<exists>x a. h f = Some x \<and> kind x = Function \<and> parent x = None \<and> children x = B \<and> position x = Some (AbsolutePosition a) \<and>
       computedSize x = of_nat (fsizes SS)) \<and>
     (\<forall>j < length B. length (SS ! j) = length (K (B ! j)) \<and> block_built h f B K (length B) j (SS ! j))"

lemma sum_list_bound: "x \<in> set xs \<Longrightarrow> (x :: nat) \<le> sum_list xs"
  by (simp add: member_le_sum_list)

lemma total_size_map:
  assumes "length ns = length cs" "sum_list ns < 2 ^ 63" "\<And>j. j < length cs \<Longrightarrow> the_size h (cs ! j) = of_nat (ns ! j)"
  shows "total_size h cs = sum_list ns"
proof -
  have "unat (the_size h (cs ! j)) = ns ! j" if "j < length cs" for j
  proof -
    have "ns ! j < 2 ^ 63" using sum_list_bound [of "ns ! j" ns] assms(1,2) that by simp
    then show ?thesis using assms(3) [OF that] by (simp add: unat_of_nat)
  qed
  then have "map (\<lambda>d. unat (the_size h d)) cs = ns" using assms(1) by (intro nth_equalityI) auto
  then show ?thesis by (simp add: total_size_def)
qed

lemma built_size:
  "instr_built h b cs n j s \<Longrightarrow> the_size h (cs ! j) = of_nat (semantic_size s)"
  "block_built h f B K n j ss \<Longrightarrow> the_size h (B ! j) = of_nat (sizes ss)"
  by (auto simp: instr_built_def block_built_def the_size_def size_of_def chunk_getSize_def)

lemma built_links:
  "instr_built h b cs n j s \<Longrightarrow> \<exists>x. h (cs ! j) = Some x \<and> prevSibling x = (if j = 0 then None else Some (cs ! (j - 1))) \<and> nextSibling x = sib_after cs n j"
  "block_built h f B K n j ss \<Longrightarrow> \<exists>x. h (B ! j) = Some x \<and> prevSibling x = (if j = 0 then None else Some (B ! (j - 1))) \<and> nextSibling x = sib_after B n j"
  unfolding instr_built_def block_built_def sib_before_def by blast+

lemma tree_read_block:
  assumes t: "tree_read h f B K SS" and j: "j < length B" and x: "h (B ! j) = Some x"
  shows "chunk_ok h (B ! j) x"
proof -
  let ?b = "B ! j" let ?ss = "SS ! j"
  from t j have bb: "block_built h f B K (length B) j ?ss" and len: "length ?ss = length (K ?b)" and d: "distinct (nodes B K)"
    by (auto simp: tree_read_def)
  from t obtain fx where fx: "h f = Some fx" "kind fx = Function" by (auto simp: tree_read_def)
  have own: "distinct (K ?b)" using nodes_own [OF d nth_mem [OF j]] by simp
  from bb x obtain off where bx: "kind x = Block" "parent x = Some f" "children x = K ?b" "computedSize x = of_nat (sizes ?ss)"
      "position x = Some (OffsetPosition ?b off)" by (auto simp: block_built_def)
  have ib: "instr_built h ?b (K ?b) (length (K ?b)) i (?ss ! i)" if "i < length (K ?b)" for i using bb that by (simp add: block_built_def)
  have "sizes ?ss \<le> fsizes SS" using t j sum_list_bound [of "sizes ?ss" "map sizes SS"] by (simp add: tree_read_def fsizes_def)
  then have room: "sizes ?ss < 2 ^ 63" using t by (simp add: tree_read_def)
  have "total_size h (K ?b) = sizes ?ss"
    unfolding sizes_def using len room ib [THEN built_size(1)] by (intro total_size_map) (simp_all add: sizes_def)
  then have "size_ok h x" using bx(1,3,4) room by (simp add: size_ok_def unat_of_nat)
  moreover have "child_ok h ?b x (K ?b ! i)" if "i < length (K ?b)" for i
    using ib [OF that] bx(1) by (auto simp: child_ok_def instr_built_def)
  then have "\<forall>d \<in> set (K ?b). child_ok h ?b x d" by (simp add: all_set_conv_all_nth)
  moreover have "siblings h None (K ?b) None"
    using ib [THEN built_links(1)] by (intro siblings_nthI) blast
  moreover have "parent_ok h x" using bx(1,2) fx by (simp add: parent_ok_def)
  ultimately show ?thesis using bx own by (simp add: chunk_ok_def struct_ok_def position_ok_def)
qed

lemma tree_read_instr:
  assumes t: "tree_read h f B K SS" and j: "j < length B" and i: "i \<in> set (K (B ! j))" and x: "h i = Some x"
  shows "chunk_ok h i x"
proof -
  from t j have bb: "block_built h f B K (length B) j (SS ! j)" by (simp add: tree_read_def)
  then obtain bx where b: "h (B ! j) = Some bx" "kind bx = Block" by (auto simp: block_built_def)
  from i obtain n where "n < length (K (B ! j))" "i = K (B ! j) ! n" by (auto simp: in_set_conv_nth)
  with bb x b show ?thesis
    by (auto simp: block_built_def instr_built_def chunk_ok_def struct_ok_def position_ok_def size_ok_def parent_ok_def code_kind_def)
qed

lemma tree_read_function:
  assumes t: "tree_read h f B K SS" and x: "h f = Some x"
  shows "chunk_ok h f x"
proof -
  from t x obtain a where fx: "kind x = Function" "parent x = None" "children x = B" "position x = Some (AbsolutePosition a)"
      "computedSize x = of_nat (fsizes SS)" by (auto simp: tree_read_def)
  have bb: "block_built h f B K (length B) j (SS ! j)" if "j < length B" for j using t that by (simp add: tree_read_def)
  have room: "fsizes SS < 2 ^ 63" "length SS = length B" "distinct B" using t nodes_distinct_blocks by (auto simp: tree_read_def)
  have "total_size h B = fsizes SS"
    unfolding fsizes_def using room(1,2) bb [THEN built_size(2)] by (intro total_size_map) (simp_all add: fsizes_def)
  then have "size_ok h x" using fx(1,3,5) room by (simp add: size_ok_def unat_of_nat)
  moreover have "child_ok h f x (B ! j)" if "j < length B" for j
    using bb [OF that] fx(1) by (auto simp: child_ok_def block_built_def)
  then have "\<forall>d \<in> set B. child_ok h f x d" by (simp add: all_set_conv_all_nth)
  moreover have "siblings h None B None"
    using bb [THEN built_links(2)] by (intro siblings_nthI) blast
  moreover have "parent_ok h x" using fx(2) by (simp add: parent_ok_def)
  ultimately show ?thesis using fx room(3) by (simp add: chunk_ok_def struct_ok_def position_ok_def)
qed

text \<open>The part of the heap that is the function.\<close>

definition function_part :: "heap \<Rightarrow> cid \<Rightarrow> cid list \<Rightarrow> (cid \<Rightarrow> cid list) \<Rightarrow> heap" where
  "function_part h f B K = h |` insert f (set (nodes B K))"

lemma tree_read_part: 
  assumes "tree_read h f B K SS"
  shows "tree_read (function_part h f B K) f B K SS"
proof -
  let ?k = "function_part h f B K"
  have same: "?k c = h c" if "c \<in> insert f (set (nodes B K))" for c using that by (simp add: function_part_def restrict_map_def)
  have "block_built ?k f B K (length B) j (SS ! j)" if "j < length B" for j
  proof -
    have "?k c = h c" if "c \<in> family K (B ! j)" for c
      using that nth_mem [OF \<open>j < length B\<close>] by (intro same) (auto simp: nodes_family)
    then have p: "rel_option placed_as (h c) (?k c)" if "c \<in> family K (B ! j)" for c
      using that placed_same [of "h c"] by metis
    have b: "block_built h f B K (length B) j (SS ! j)" using assms that by (simp add: tree_read_def)
    show ?thesis by (rule block_built_placed [OF b p])
  qed
  moreover have "?k f = h f" by (rule same) simp
  ultimately show ?thesis using assms unfolding tree_read_def by metis
qed

lemma tree_read_wf:
  assumes "tree_read h f B K SS"
  shows "wf_heap (function_part h f B K)"
  unfolding wf_heap_def
proof (intro allI impI)
  note t = tree_read_part [OF assms]
  fix c x assume x: "function_part h f B K c = Some x"
  then have "c = f \<or> (\<exists>b \<in> set B. c \<in> family K b)" by (auto simp: function_part_def nodes_family restrict_map_def split: if_splits)
  then consider "c = f" | j where "j < length B" "c \<in> family K (B ! j)" by (metis in_set_conv_nth)
  then show "chunk_ok (function_part h f B K) c x"
    by cases (use x tree_read_function [OF t] tree_read_block [OF t] tree_read_instr [OF t] in auto)
qed

lemma tree_read_lays_out:
  assumes t: "tree_read h f B K SS" and s: "h f = Some x" "slotPosition x = None"
  obtains k' where "updatePositions MODE_OFFSET True f h = Some (h ++ k')" "laid_out (h ++ k') f"
    "same_frame (function_part h f B K) k'" "k' f = Some x"
proof -
  let ?k = "function_part h f B K"
  have le: "?k \<subseteq>\<^sub>m h" by (auto simp: function_part_def map_le_def)
  note wf = tree_read_wf [OF t]
  from s(1) have x: "?k f = Some x" by (simp add: function_part_def)
  from t s have k: "kind x = Function" "absolute_function ?k f" by (auto simp: absolute_function_def function_part_def tree_read_def)
  have m: "movable ?k (below ?k (children x))" using movable_below [OF wf x] k(1) by (simp add: code_kind_def)
  let ?k' = "canonical (below ?k (children x)) ?k"
  have u: "updatePositions MODE_OFFSET True f ?k = Some ?k'" by (rule updatePositions_function [OF wf k(2) x]) (simp add: in_function_def)
  have "laid_out ?k' f" by (rule laid_out_canonical [OF wf k(2) x])
  from laid_out_le [OF add_le this wf_canonical [OF wf m]] have l: "laid_out (h ++ ?k') f" .
  have "f \<notin> below ?k (children x)" using m x k(1) by (auto simp: movable_def)
  then have "?k' f = Some x" using x by (simp add: canonical_def)
  from that [OF updatePositions_le(1) [OF le u] l same_frame_canonical this] show thesis .
qed

subsection \<open>The function is read\<close>

definition kids_of :: "heap \<Rightarrow> cid \<Rightarrow> cid list" where
  "kids_of h c = (case children_of h c of None \<Rightarrow> [] | Some cs \<Rightarrow> cs)"

text \<open>Chunks as they are constructed, before they are read. A link may have placed the function.\<close>

definition blank_function :: "heap \<Rightarrow> cid \<Rightarrow> bool" where
  "blank_function h f \<longleftrightarrow> (case h f of None \<Rightarrow> False | Some x \<Rightarrow>
     kind x = Function \<and> parent x = None \<and> children x = [] \<and> slotPosition x = None \<and> computedSize x = 0 \<and>
     (case position x of None \<Rightarrow> True | Some (AbsolutePosition a) \<Rightarrow> True | _ \<Rightarrow> False))"

definition blank_block :: "heap \<Rightarrow> cid \<Rightarrow> bool" where
  "blank_block h b \<longleftrightarrow> (case h b of None \<Rightarrow> False | Some x \<Rightarrow>
     kind x = Block \<and> children x = [] \<and> prevSibling x = None \<and> nextSibling x = None \<and> computedSize x = 0)"

definition blank_instr :: "heap \<Rightarrow> cid \<Rightarrow> bool" where
  "blank_instr h i \<longleftrightarrow> (case h i of None \<Rightarrow> False | Some x \<Rightarrow>
     kind x = Instruction \<and> children x = [] \<and> prevSibling x = None \<and> nextSibling x = None)"

lemma dom_adopt_all [simp]: "dom (adopt_all B K h) = dom h"
  by (induction B arbitrary: h) simp_all

lemma adopted_tree:
  assumes d: "distinct (f # nodes B K)" and f: "h f = Some x" "children x = []"
    and blank: "\<forall>b \<in> set B. blank_block h b \<and> (\<forall>i \<in> set (K b). blank_instr h i)"
  defines "H \<equiv> adopt_all B K (adopt f B h)"
  shows "H f = Some (x\<lparr>children := B\<rparr>)" "b \<in> set B \<Longrightarrow> block_fresh H f K b" "c \<notin> insert f (set (nodes B K)) \<Longrightarrow> H c = h c" "dom H = dom h"
proof -
  from d have dn: "distinct (nodes B K)" "f \<notin> set (nodes B K)" by auto
  show "H f = Some (x\<lparr>children := B\<rparr>)" using adopt_all_other [OF dn(2)] f by (simp add: H_def adopt_def)
  show "H c = h c" if "c \<notin> insert f (set (nodes B K))" using that adopt_all_other [of c B K] nodes_mem(1) by (auto simp: H_def adopt_def)
  show "dom H = dom h" by (simp add: H_def)
  show "block_fresh H f K b" if b: "b \<in> set B"
  proof -
    have ne: "b \<noteq> f" "i \<in> set (K b) \<Longrightarrow> i \<noteq> f \<and> i \<notin> set B" for i
    proof -
      show "b \<noteq> f" using nodes_mem(1) [OF b] dn(2) by metis
      assume i: "i \<in> set (K b)"
      have "i \<notin> set B"
      proof
        assume "i \<in> set B"
        then obtain j k where jk: "j < length B" "k < length B" "B ! j = i" "B ! k = b" using b by (auto simp: in_set_conv_nth)
        with nodes_own [OF dn(1) b] i nodes_disjoint [OF dn(1) jk(1,2)] show False by (cases "j = k") auto
      qed
      with nodes_mem(2) [OF b, of i K] i dn(2) show "i \<noteq> f \<and> i \<notin> set B" by metis
    qed
    from blank b obtain y where y: "h b = Some y" "kind y = Block" "children y = []" "prevSibling y = None" "nextSibling y = None" "computedSize y = 0"
      by (auto simp: blank_block_def split: option.splits)
    have "H b = Some (y\<lparr>parent := Some f, children := K b\<rparr>)"
      using adopt_all_at(1) [OF dn(1) b] y(1,3) ne(1) b by (simp add: H_def adopt_def)
    moreover have "instr_fresh H b i" if i: "i \<in> set (K b)" for i
    proof -
      have "H i = map_option (\<lambda>x. x\<lparr>parent := Some b\<rparr>) (h i)" using adopt_all_at(2) [OF dn(1) b i] ne(2) [OF i] by (simp add: H_def adopt_def)
      moreover have "blank_instr h i" using blank b i by blast
      ultimately show ?thesis by (auto simp: blank_instr_def instr_fresh_def split: option.splits)
    qed
    ultimately show ?thesis using y by (simp add: block_fresh_def)
  qed
qed

lemma all2_left: "list_all2 P xs ys \<Longrightarrow> x \<in> set xs \<Longrightarrow> \<exists>y. P x y"
  by (induction rule: list_all2_induct) auto

lemma fold_adopt:
  assumes "\<forall>b \<in> set bs. K (ren b) = map ren (ks b)"
  shows "fold (\<lambda>b. adopt (ren b) (map ren (ks b))) bs h = adopt_all (map ren bs) K h"
  using assms by (induction bs arbitrary: h) simp_all

lemma read_tree:
  assumes "list_all2 (id_written st) bs ids" "list_all2 (children_written hw st) bs css" "knows R ren st h"
    and n: "length bs < 2 ^ 32" "\<forall>b \<in> set bs. length (kids_of hw b) < 2 ^ 32"
    and K: "\<forall>b \<in> set bs. K (ren b) = map ren (kids_of hw b)" and d: "distinct (f # nodes (map ren bs) K)"
    and f: "h f = Some x" "kind x = Function"
    and blank: "\<forall>b \<in> set (map ren bs). blank_block h b \<and> (\<forall>i \<in> set (K b). blank_instr h i)"
  shows "deserializeChildrenIDsOnly 2 R f (h, open_stream (le_bytes 4 (of_nat (length bs) :: 32 word) @ concat ids @ concat css @ rest)) =
    Some (adopt_all (map ren bs) K (adopt f (map ren bs) h), open_stream rest)"
proof -
  let ?B = "map ren bs" let ?h = "adopt f ?B h"
  have dn: "distinct (nodes ?B K)" "f \<notin> set (nodes ?B K)" using d by auto
  have fB: "f \<notin> ren ` set bs" using dn(2) nodes_mem(1) [of f ?B K] by auto
  have "\<forall>c \<in> set bs. \<exists>y. h (ren c) = Some y \<and> accepts (kind x) (kind y)"
    using blank f(2) by (auto simp: blank_block_def split: option.splits)
  from read_children_ids [OF assms(1,3) f(1) _ this fB, of "concat css @ rest"] f(2) obtain "is" where
    i: "read_children R f (length bs) (h, open_stream (concat ids @ concat css @ rest)) = Some (is, ?h, open_stream (concat css @ rest))"
      "list_all2 (\<lambda>c i. lookup_id i (fst R) = Some (Some (ren c))) bs is" by auto
  have b: "children_of hw b = Some (kids_of hw b) \<and> length (kids_of hw b) < 2 ^ 32 \<and> (\<exists>x. ?h (ren b) = Some x \<and> kind x = Block) \<and>
      ren b \<notin> ren ` set (kids_of hw b) \<and> (\<forall>i \<in> set (kids_of hw b). \<exists>y. ?h (ren i) = Some y \<and> kind y = Instruction)" if bm: "b \<in> set bs" for b
  proof -
    have B: "ren b \<in> set ?B" using that by simp
    have kb: "K (ren b) = map ren (kids_of hw b)" using K that by blast
    obtain cs where "children_of hw b = Some cs"
      using all2_left [OF assms(2) bm] by (auto simp: children_written_def)
    moreover have "\<exists>x. ?h (ren b) = Some x \<and> kind x = Block" using blank B by (auto simp: blank_block_def adopt_def split: option.splits)
    moreover have "\<exists>y. ?h (ren i) = Some y \<and> kind y = Instruction" if "i \<in> set (kids_of hw b)" for i
    proof -
      have "blank_instr h (ren i)" using blank B that kb by auto
      then show ?thesis by (auto simp: blank_instr_def adopt_def split: option.splits)
    qed
    moreover have "ren b \<notin> ren ` set (kids_of hw b)" using nodes_own [OF dn(1) B] kb by simp
    moreover have "length (kids_of hw b) < 2 ^ 32" using n(2) bm by blast
    ultimately show ?thesis by (simp add: kids_of_def)
  qed
  have "for_each (\<lambda>i r. do { target \<leftarrow> lookup_id i (fst R); c \<leftarrow> target; deserializeChildrenIDsOnly (Suc 0) R c r }) is (?h, open_stream (concat css @ rest)) =
      Some (fold (\<lambda>b. adopt (ren b) (map ren (kids_of hw b))) bs ?h, open_stream rest)"
    by (rule read_all_child_ids [OF assms(2) i(2) knows_dom [OF assms(3) dom_adopt]]) (use b in blast)
  moreover have "fold (\<lambda>b. adopt (ren b) (map ren (kids_of hw b))) bs ?h = adopt_all ?B K ?h"
    using K by (rule fold_adopt)
  ultimately show ?thesis
    unfolding numeral_2_eq_2 using i(1) n(1)
    by (subst deserializeChildrenIDsOnly.simps(2)) (simp add: unat_of_nat del: deserializeChildrenIDsOnly.simps)
qed

lemma bodies_written:
  assumes "list_all2 (block_written D E h sem st) bs bodies"
  shows "\<exists>BS. bodies = map body_bytes BS \<and> list_all2 (\<lambda>b. list_all2 (\<lambda>i. instr_written D E (sem i) st) (kids_of h b)) bs BS"
  using assms
proof (induction rule: list_all2_induct)
  case (Cons b bs y bodies)
  then obtain BS where BS: "bodies = map body_bytes BS" "list_all2 (\<lambda>b. list_all2 (\<lambda>i. instr_written D E (sem i) st) (kids_of h b)) bs BS" by blast
  from Cons.hyps(1) obtain cs bss where c: "children_of h b = Some cs" "y = le_bytes 4 (of_nat (length cs) :: 32 word) @ concat bss"
      "list_all2 (\<lambda>i. instr_written D E (sem i) st) cs bss" by (auto simp: block_written_def)
  then have "y = body_bytes bss" by (simp add: body_bytes_def list_all2_lengthD)
  with BS c show ?case by (intro exI [of _ "bss # BS"]) (simp add: kids_of_def)
qed simp

text \<open>The instructions that a function has after it was read, block by block.\<close>

definition restored_blocks ::
    "Disassembler \<Rightarrow> cid LinkEnv \<Rightarrow> (cid \<Rightarrow> cid) \<Rightarrow> heap \<Rightarrow> (cid \<Rightarrow> cid InstructionSemantic) \<Rightarrow> cid \<Rightarrow> cid InstructionSemantic list list" where
  "restored_blocks D E ren h sem f = map (\<lambda>b. map (\<lambda>i. restored_instr D E ren (sem i)) (kids_of h b)) (kids_of h f)"

lemma readable_written:
  assumes w: "list_all2 (\<lambda>i. instr_written D E (sem i) st) cs bss" and k: "knows R ren st h" and n: "length cs < 2 ^ 32"
    and ok: "\<forall>i \<in> set cs. instr_ok D E (fst (snd R)) ren (ren i) (sem i)"
  shows "readable D decode R (dom h) (map ren cs) (map (\<lambda>i. restored_instr D E ren (sem i)) cs) bss"
proof -
  have "\<exists>h'. deserialize_instr D decode R (map ren cs ! i) addr (h1, open_stream (bss ! i @ rest)) =
      Some (Some (map (\<lambda>i. restored_instr D E ren (sem i)) cs ! i), h', open_stream rest)"
    if "i < length cs" "dom h1 = dom h" for i h1 addr rest
  proof -
    have "instr_written D E (sem (cs ! i)) st (bss ! i)" using w that(1) by (simp add: list_all2_conv_all_nth)
    moreover have "knows R ren st h1" using knows_dom [OF k that(2)] .
    moreover have "instr_ok D E (fst (snd R)) ren (ren (cs ! i)) (sem (cs ! i))" using ok nth_mem [OF that(1)] by blast
    ultimately have "\<exists>h'. deserialize_instr D decode R (ren (cs ! i)) addr (h1, open_stream (bss ! i @ rest)) =
        Some (Some (restored_instr D E ren (sem (cs ! i))), h', open_stream rest)" unfolding instr_written_def by blast
    then show ?thesis using that(1) by simp
  qed
  then show ?thesis using n list_all2_lengthD [OF w] by (simp add: readable_def)
qed

definition first_address :: "heap \<Rightarrow> cid \<Rightarrow> address \<Rightarrow> address" where
  "first_address h f a = (case h f of Some x \<Rightarrow> (case position x of Some (AbsolutePosition b) \<Rightarrow> b | _ \<Rightarrow> a) | None \<Rightarrow> a)"

lemma blank_set_position:
  assumes "blank_function h f" "h f = Some x"
  obtains y where "setPosition (Some (AbsolutePosition a)) x = Some y" "position y = Some (AbsolutePosition (first_address h f a))"
    "slotPosition y = None" "kind y = Function" "parent y = None" "children y = []" "computedSize y = 0"
  using assms that by (auto simp: blank_function_def setPosition_def first_address_def split: option.splits Position.splits)

lemma read_body:
  assumes k: "length SS = length B" "length BS = length B" "length B < 2 ^ 32"
    and f: "h f = Some fx" "kind fx = Function" "parent fx = None" "children fx = B" "position fx = Some (AbsolutePosition a)" "slotPosition fx = None" "computedSize fx = 0"
    and d: "distinct (f # nodes B K)" and room: "fsizes SS < 2 ^ 63" and fresh: "\<forall>b \<in> set B. block_fresh h f K b"
    and r: "\<And>k. k < length B \<Longrightarrow> readable D decode R (dom h) (K (B ! k)) (SS ! k) (BS ! k)"
  obtains q tot h1 sm' k' where
    "for_each (read_block MODE_OFFSET D decode R base f) [0..<length B] (f, 0, reader h sm (concat (map body_bytes BS) @ rest)) =
      Some (q, tot, reader h1 sm' rest)"
    "updatePositions MODE_OFFSET True f h1 = Some (h1 ++ k')" "laid_out (h1 ++ k') f" "getAddress (h1 ++ k') f = Some a"
    "children_of (h1 ++ k') f = Some B" "\<forall>b \<in> set B. children_of (h1 ++ k') b = Some (K b)" "sems_upto sm sm' B K SS (length B)"
    "\<forall>c. c \<notin> insert f (set (nodes B K)) \<longrightarrow> rel_option placed_as (h c) ((h1 ++ k') c)"
proof -
  have "position fx \<noteq> None" using f(5) by simp
  from read_blocks [OF k(1,2) f(1,2,4) this f(7) d room fresh r, of base sm rest] obtain h1 sm' where
    h1: "for_each (read_block MODE_OFFSET D decode R base f) [0..<length B] (f, 0, reader h sm (concat (map body_bytes BS) @ rest)) =
        Some (prev_of f B (length B), of_nat (fsizes SS), reader h1 sm' rest)"
      "h1 f = Some (fx\<lparr>computedSize := of_nat (fsizes SS)\<rparr>)" "\<forall>j < length B. block_built h1 f B K (length B) j (SS ! j)"
      "\<forall>c. c \<notin> insert f (set (nodes B K)) \<longrightarrow> rel_option placed_as (h c) (h1 c)" "sems_upto sm sm' B K SS (length B)"
    using k by (auto simp: function_read_def)
  let ?x = "fx\<lparr>computedSize := of_nat (fsizes SS)\<rparr>"
  have "\<forall>j < length B. length (SS ! j) = length (K (B ! j))" using r by (simp add: readable_def)
  then have t: "tree_read h1 f B K SS" using d k(1) room h1(2,3) f(2-5) by (simp add: tree_read_def)
  from tree_read_lays_out [OF t h1(2)] f(6) obtain k' where
    k': "updatePositions MODE_OFFSET True f h1 = Some (h1 ++ k')" "laid_out (h1 ++ k') f" "same_frame (function_part h1 f B K) k'" "k' f = Some ?x" by auto
  have hf: "(h1 ++ k') f = Some ?x" using k'(4) by simp
  have "getAddress (h1 ++ k') f = Some a" using hf f(2,5,6) by (subst getAddress.simps) (simp add: getPosition_def)
  moreover have "children_of (h1 ++ k') f = Some B" using hf f(2,4) by (simp add: children_of_def)
  moreover have "children_of (h1 ++ k') b = Some (K b)" if "b \<in> set B" for b
  proof -
    from that obtain j where j: "j < length B" "b = B ! j" by (auto simp: in_set_conv_nth)
    with h1(3) obtain x where x: "h1 b = Some x" "kind x = Block" "children x = K b" by (auto simp: block_built_def)
    then have "function_part h1 f B K b = Some x" using nodes_mem(1) [OF that] by (simp add: function_part_def)
    from same_frame_Some [OF k'(3) this] obtain y where "k' b = Some y" "frame y = frame x" .
    with frame_eqD [of y x] x(2,3) show ?thesis by (simp add: children_of_def)
  qed
  moreover have "rel_option placed_as (h c) ((h1 ++ k') c)" if "c \<notin> insert f (set (nodes B K))" for c
  proof -
    have "function_part h1 f B K c = None" using that by (simp add: function_part_def restrict_map_def)
    then have "k' c = None" using k'(3) [unfolded same_frame_def, rule_format, of c] by simp
    then have "(h1 ++ k') c = h1 c" by (simp add: map_add_def)
    with h1(4) that show ?thesis by metis
  qed
  ultimately show thesis using that [OF h1(1) k'(1,2)] h1(5) by blast
qed

lemma rbool_True: "rbool junk (open_stream (le_bytes (Suc 0) (49 :: byte) @ rest)) = (True, open_stream rest)"
  using rbool_written [of junk True] by simp

lemma info_eq: "\<lparr>fn_name = fn_name info, fn_nonreturn = fn_nonreturn info, fn_ifunc = fn_ifunc info\<rparr> = info"
  by (cases info) simp

lemma nodes_renamed:
  assumes "\<forall>b \<in> set bs. K (ren b) = map ren (ks b)"
  shows "nodes (map ren bs) K = map ren (nodes bs ks)"
  using assms by (induction bs) simp_all

lemma blank_elsewhere:
  assumes "\<forall>b \<in> set B. blank_block k b \<and> (\<forall>i \<in> set (K b). blank_instr k i)" "F \<notin> set (nodes B K)"
  shows "\<forall>b \<in> set B. blank_block (k(F \<mapsto> y)) b \<and> (\<forall>i \<in> set (K b). blank_instr (k(F \<mapsto> y)) i)"
proof
  fix b assume b: "b \<in> set B"
  have "b \<noteq> F" "\<forall>i \<in> set (K b). i \<noteq> F" using assms(2) nodes_mem(1) [OF b, of K] nodes_mem(2) [OF b, of _ K] by metis+
  with assms(1) [rule_format, OF b] show "blank_block (k(F \<mapsto> y)) b \<and> (\<forall>i \<in> set (K b). blank_instr (k(F \<mapsto> y)) i)"
    by (simp add: blank_block_def blank_instr_def)
qed

lemma blocks_readable:
  assumes "list_all2 (\<lambda>b. list_all2 (\<lambda>i. instr_written D E (sem i) st) (kids_of h b)) (kids_of h f) BS" "knows R ren st k"
    and "\<forall>b \<in> set (kids_of h f). length (kids_of h b) < 2 ^ 32" "\<forall>b \<in> set (kids_of h f). K (ren b) = map ren (kids_of h b)"
    and "\<forall>b \<in> set (kids_of h f). \<forall>i \<in> set (kids_of h b). instr_ok D E (fst (snd R)) ren (ren i) (sem i)" "j < length (kids_of h f)"
  shows "readable D decode R (dom k) (K (map ren (kids_of h f) ! j)) (restored_blocks D E ren h sem f ! j) (BS ! j)"
proof -
  let ?b = "kids_of h f ! j"
  have b: "?b \<in> set (kids_of h f)" using assms(6) by simp
  have "list_all2 (\<lambda>i. instr_written D E (sem i) st) (kids_of h ?b) (BS ! j)" using assms(1,6) by (simp add: list_all2_conv_all_nth)
  from readable_written [OF this assms(2)] assms(3,4,5,6) b show ?thesis by (simp add: restored_blocks_def)
qed

lemma restored_sems:
  assumes "sems_upto sm sm' (map ren (kids_of h f)) K (restored_blocks D E ren h sem f) (length (kids_of h f))"
    and "\<forall>b \<in> set (kids_of h f). K (ren b) = map ren (kids_of h b)" "b \<in> set (kids_of h f)" "i \<in> set (kids_of h b)"
  shows "sm' (ren i) = Some (restored_instr D E ren (sem i))"
proof -
  from assms(3) obtain j where j: "j < length (kids_of h f)" "b = kids_of h f ! j" by (auto simp: in_set_conv_nth)
  from assms(4) obtain n where n: "n < length (kids_of h b)" "i = kids_of h b ! n" by (auto simp: in_set_conv_nth)
  have "K (map ren (kids_of h f) ! j) = map ren (kids_of h b)" using assms(2,3) j by simp
  with assms(1) [unfolded sems_upto_def, THEN conjunct1, rule_format, of j n] j n show ?thesis by (simp add: restored_blocks_def)
qed


text \<open>A function that calls itself, and the chunks that the reader has for it.\<close>

definition self_call :: heap where
  "self_call =
     [7 \<mapsto> newBlock\<lparr>kind := Function, children := [5], position := Some (AbsolutePosition 0x400000), computedSize := 5\<rparr>,
      5 \<mapsto> newBlock\<lparr>parent := Some 7, children := [3], position := Some (OffsetPosition 5 0), computedSize := 5\<rparr>,
      3 \<mapsto> newBlock\<lparr>kind := Instruction, parent := Some 5, position := Some (OffsetPosition 3 0), semantic := Some (summary (ControlFlow sample_call))\<rparr>]"

definition blank_chunks :: heap where
  "blank_chunks = [107 \<mapsto> newBlock\<lparr>kind := Function\<rparr>, 105 \<mapsto> newBlock, 103 \<mapsto> newBlock\<lparr>kind := Instruction\<rparr>]"

definition call_info :: FunctionInfo where
  "call_info = \<lparr>fn_name = [102], fn_nonreturn = True, fn_ifunc = False\<rparr>"

lemma self_call_simps:
  "getAddress self_call 7 = Some 0x400000" "children_of self_call 7 = Some [5]" "children_of self_call 5 = Some [3]"
  "\<exists>x. self_call 5 = Some x" "\<exists>x. self_call 3 = Some x"
  by (subst getAddress.simps) (simp_all add: self_call_def newBlock_def children_of_def getPosition_def)

lemma self_call_kids: "kids_of self_call 7 = [5]" "kids_of self_call 5 = [3]"
  by (simp_all add: kids_of_def self_call_simps)

lemma serialize_two_levels:
  "serializeChildrenIDsOnly 2 h c w =
     do {
       cs \<leftarrow> children_of h c;
       w \<leftarrow> for_each (write_child_id h) cs (w32 (of_nat (length cs)) w);
       for_each (serializeChildrenIDsOnly (Suc 0) h) cs w
     }"
  by (simp add: numeral_2_eq_2)

lemma self_call_ids:
  "\<exists>st bs. serializeChildrenIDsOnly 2 self_call 7 (fresh_ids, out) = Some (st, bs) \<and> assignment st = [5 \<mapsto> 0, 3 \<mapsto> 1] \<and> nextID (id_flats st) = 2"
proof -
  obtain x y where "self_call 5 = Some x" "self_call 3 = Some y" using self_call_simps(4,5) by blast
  then show ?thesis
    by (simp add: serialize_two_levels self_call_simps write_child_id_def w_simps writeID_def assign_id_def fresh_ids_def getNextID_def
        emptyFlatList_def newFlatChunk_id_def addFlatChunk_def newFlat_def Let_def)
qed

lemma self_call_body:
  assumes "assignment st = [5 \<mapsto> 0, 3 \<mapsto> 1]" "nextID (id_flats st) = 2"
  shows "\<exists>st' bs. for_each (serialize_block D E self_call (\<lambda>i. ControlFlow sample_call)) [5] (st, out) = Some (st', bs) \<and>
    assignment st' = [5 \<mapsto> 0, 3 \<mapsto> 1, 7 \<mapsto> 2]"
  using assms by (auto simp: serialize_block_def self_call_simps sample_call_def newControlFlowInstruction_def write_controlflow_def w_simps
      wassign_def assign_id_def getNextID_def Let_def)

lemma self_call_written:
  "\<exists>st' bs. serialize_function D E self_call (\<lambda>i. ControlFlow sample_call) call_info 7 (fresh_ids, []) = Some (st', bs) \<and>
    assignment st' = [5 \<mapsto> 0, 3 \<mapsto> 1, 7 \<mapsto> 2]"
proof -
  let ?h = "snd (wbool True (wbool (fn_ifunc call_info) (wbool (fn_nonreturn call_info) (wstring (fn_name call_info) (w64 0x400000 (fresh_ids, []))))))"
  from self_call_ids [of ?h] obtain st bs where 1: "serializeChildrenIDsOnly 2 self_call 7 (fresh_ids, ?h) = Some (st, bs)"
    "assignment st = [5 \<mapsto> 0, 3 \<mapsto> 1]" "nextID (id_flats st) = 2" by blast
  from self_call_body [OF 1(2,3), of D E "snd (w32 (of_nat (length [5 :: nat])) (st, bs))"] obtain st' bs' where
    2: "for_each (serialize_block D E self_call (\<lambda>i. ControlFlow sample_call)) [5] (st, snd (w32 (of_nat (length [5 :: nat])) (st, bs))) = Some (st', bs')"
      "assignment st' = [5 \<mapsto> 0, 3 \<mapsto> 1, 7 \<mapsto> 2]" by blast
  from 1(1) 2 show ?thesis by (simp add: serialize_function_def self_call_simps w_simps)
qed

lemma self_call_known:
  "assignment st = [5 \<mapsto> 0, 3 \<mapsto> 1, 7 \<mapsto> 2] \<Longrightarrow> knows (archive_of [105, 103, 107], cls, junk) (\<lambda>c. c + 100) st blank_chunks"
  by (auto simp: knows_def archive_of_def lookup_id_def getFlat_def NoneID_def blank_chunks_def split: if_splits)


end
